(* ===== verification/Orga_Prelude.thy ===== *)
theory Orga_Prelude
  imports Main "HOL-Library.Word" "HOL-Library.List_Lexorder" "HOL-Library.Sublist"
begin

text \<open>
  The vocabulary shared by every component of the development: byte strings with the
  lexicographic order of Rust's \<^verbatim>\<open>Vec<u8>\<close>, the error type of \<^verbatim>\<open>src/error.rs\<close>, the
  three possible outcomes of a Rust call (\<open>Ok\<close>, \<open>Err\<close> and a panic), and the two ways in
  which the code composes fallible calls: \<open>and_then\<close> for calls that only read, and
  operations \<open>('s, 'a) op\<close> for \<^verbatim>\<open>&mut self\<close> methods.  An operation returns the state it
  leaves behind also when it fails, because a Rust method that returns early with
  \<^verbatim>\<open>?\<close> keeps the mutations made before the failing call.

  Arithmetic follows the build profile in which overflow checks and debug assertions are
  on: where the source writes a plain \<open>+\<close> or \<open>-\<close> on machine integers, an overflow is a
  \<open>Panic\<close>; where it writes \<^verbatim>\<open>checked_add\<close> it is \<open>None\<close>.
\<close>

section \<open>Bytes and machine integers\<close>

type_synonym byte = "8 word"
type_synonym bytes = "byte list"
type_synonym u32 = "32 word"
type_synonym u64 = "64 word"
type_synonym kv = "bytes \<times> bytes"

section \<open>Errors and outcomes\<close>

text \<open>\<^verbatim>\<open>store::Error\<close>: reads of a store that holds only part of the data.\<close>

datatype store_error =
    GetUnknown bytes
  | GetNextUnknown bytes
  | GetPrevUnknown "bytes option"

text \<open>The errors of the encoding library that the sources construct or propagate.\<close>

datatype ed_error = UnexpectedByte byte | EdIO

text \<open>\<^verbatim>\<open>upgrade::Error\<close>.\<close>

datatype upgrade_error = UpgradeVersion (expected: bytes) (actual: bytes)

text \<open>
  \<^verbatim>\<open>crate::Error\<close>, with the variants that carry a foreign library's error reduced to the
  fact that this library reported one.
\<close>

datatype error =
    Error_ABCI string
  | Error_ABCI2
  | Error_App string
  | Error_Call string
  | Error_Client string
  | Error_Coins string
  | Error_Dalek
  | Error_Decimal
  | Error_DivideByZero
  | Error_Downcast string
  | Error_Ed ed_error
  | Error_Ibc string
  | Error_IbcContext
  | Error_InvalidID
  | Error_IO
  | Error_Merk
  | Error_Migrate string
  | Error_Nonce string
  | Error_Overflow
  | Error_ParseInt
  | Error_Poison string
  | Error_Tendermint string
  | Error_TendermintRPC
  | Error_TryFromInt
  | Error_RocksDB
  | Error_Secp256k1
  | Error_SerdeJson
  | Error_Signer string
  | Error_Store string
  | Error_StoreErr store_error
  | Error_State string
  | Error_Test string
  | Error_Query string
  | Error_Upgrade upgrade_error
  | Error_Unknown

datatype 'a result = Ok 'a | Err error | Panic

named_theorems result_simps \<open>equations of the outcome combinators\<close>

fun and_then :: "'a result \<Rightarrow> ('a \<Rightarrow> 'b result) \<Rightarrow> 'b result" where
  "and_then (Ok x) f = f x"
| "and_then (Err e) f = Err e"
| "and_then Panic f = Panic"

definition ok_or :: "error \<Rightarrow> 'a option \<Rightarrow> 'a result" where
  "ok_or e x = (case x of None \<Rightarrow> Err e | Some y \<Rightarrow> Ok y)"

definition unwrap :: "'a option \<Rightarrow> 'a result" where
  "unwrap x = (case x of None \<Rightarrow> Panic | Some y \<Rightarrow> Ok y)"

fun is_ok :: "'a result \<Rightarrow> bool" where
  "is_ok (Ok _) = True"
| "is_ok _ = False"

lemma ok_or_simps [simp]: "ok_or e (Some x) = Ok x" "ok_or e None = Err e"
  by (simp_all add: ok_or_def)

lemma unwrap_simps [simp]: "unwrap (Some x) = Ok x" "unwrap None = Panic"
  by (simp_all add: unwrap_def)

lemma and_then_eq_Ok [result_simps]:
  "and_then r f = Ok y \<longleftrightarrow> (\<exists>x. r = Ok x \<and> f x = Ok y)"
  by (cases r) auto

lemma and_then_assoc: "and_then (and_then r f) g = and_then r (\<lambda>x. and_then (f x) g)"
  by (cases r) auto

lemma ok_or_eq_Ok [result_simps]: "ok_or e x = Ok y \<longleftrightarrow> x = Some y"
  by (cases x) auto

lemma is_ok_iff: "is_ok r \<longleftrightarrow> (\<exists>x. r = Ok x)"
  by (cases r) auto

section \<open>Operations on a mutable state\<close>

type_synonym ('s, 'a) op = "'s \<Rightarrow> 'a result \<times> 's"

definition op_ok :: "'a \<Rightarrow> ('s, 'a) op" where
  "op_ok x = (\<lambda>s. (Ok x, s))"

definition op_err :: "error \<Rightarrow> ('s, 'a) op" where
  "op_err e = (\<lambda>s. (Err e, s))"

definition op_lift :: "'a result \<Rightarrow> ('s, 'a) op" where
  "op_lift r = (\<lambda>s. (r, s))"

definition op_read :: "('s \<Rightarrow> 'a result) \<Rightarrow> ('s, 'a) op" where
  "op_read f = (\<lambda>s. (f s, s))"

definition op_upd :: "('s \<Rightarrow> 's) \<Rightarrow> ('s, unit) op" where
  "op_upd f = (\<lambda>s. (Ok (), f s))"

definition op_bind :: "('s, 'a) op \<Rightarrow> ('a \<Rightarrow> ('s, 'b) op) \<Rightarrow> ('s, 'b) op" where
  "op_bind m f = (\<lambda>s. case m s of
      (Ok x, s') \<Rightarrow> f x s'
    | (Err e, s') \<Rightarrow> (Err e, s')
    | (Panic, s') \<Rightarrow> (Panic, s'))"

named_theorems op_simps \<open>running an operation on a given state\<close>

lemma op_ok_app [op_simps, simp]: "op_ok x s = (Ok x, s)"
  by (simp add: op_ok_def)

lemma op_err_app [op_simps, simp]: "op_err e s = (Err e, s)"
  by (simp add: op_err_def)

lemma op_lift_app [op_simps, simp]: "op_lift r s = (r, s)"
  by (simp add: op_lift_def)

lemma op_read_app [op_simps, simp]: "op_read f s = (f s, s)"
  by (simp add: op_read_def)

lemma op_upd_app [op_simps, simp]: "op_upd f s = (Ok (), f s)"
  by (simp add: op_upd_def)

lemma op_bind_Ok [op_simps]: "m s = (Ok x, s') \<Longrightarrow> op_bind m f s = f x s'"
  by (simp add: op_bind_def)

lemma op_bind_Err [op_simps]: "m s = (Err e, s') \<Longrightarrow> op_bind m f s = (Err e, s')"
  by (simp add: op_bind_def)

lemma op_bind_Panic [op_simps]: "m s = (Panic, s') \<Longrightarrow> op_bind m f s = (Panic, s')"
  by (simp add: op_bind_def)

lemma op_bind_ok [simp]: "op_bind (op_ok x) f s = f x s"
  by (simp add: op_bind_def)

lemma op_bind_upd [simp]: "op_bind (op_upd g) f s = f () (g s)"
  by (simp add: op_bind_def)

lemma op_bind_lift [simp]:
  "op_bind (op_lift (Ok x)) f s = f x s"
  "op_bind (op_lift (Err e)) f s = (Err e, s)"
  "op_bind (op_lift Panic) f s = (Panic, s)"
  by (simp_all add: op_bind_def)

lemma op_bind_eq_Ok [result_simps]:
  "op_bind m f s = (Ok y, t) \<longleftrightarrow> (\<exists>x s'. m s = (Ok x, s') \<and> f x s' = (Ok y, t))"
  by (auto simp: op_bind_def split: prod.splits result.splits)

text \<open>An operation that keeps a property of the state, however it ends.\<close>

definition op_keeps :: "('s \<Rightarrow> bool) \<Rightarrow> ('s, 'a) op \<Rightarrow> bool" where
  "op_keeps P f \<longleftrightarrow> (\<forall>s r s'. P s \<longrightarrow> f s = (r, s') \<longrightarrow> P s')"

lemma op_keepsI: "(\<And>s r s'. P s \<Longrightarrow> f s = (r, s') \<Longrightarrow> P s') \<Longrightarrow> op_keeps P f"
  unfolding op_keeps_def by blast

lemma op_keepsD: "op_keeps P f \<Longrightarrow> P s \<Longrightarrow> f s = (r, s') \<Longrightarrow> P s'"
  unfolding op_keeps_def by blast

lemma op_keeps_simps [simp, intro]:
  "op_keeps P (op_ok x)" "op_keeps P (op_err e)" "op_keeps P (op_lift r)" "op_keeps P (op_read g)"
  by (simp_all add: op_keeps_def)

lemma op_keeps_upd [intro]: "(\<And>s. P s \<Longrightarrow> P (h s)) \<Longrightarrow> op_keeps P (op_upd h)"
  by (simp add: op_keeps_def)

lemma op_keeps_bind [intro]:
  assumes "op_keeps P f" and "\<And>x. op_keeps P (g x)"
  shows "op_keeps P (op_bind f g)"
proof (rule op_keepsI)
  fix s r s' assume p: "P s" and run: "op_bind f g s = (r, s')"
  obtain r1 s1 where f: "f s = (r1, s1)" by force
  have p1: "P s1" by (rule op_keepsD [OF assms(1) p f])
  show "P s'" using run f p1 op_keepsD [OF assms(2) p1] by (cases r1) (simp_all add: op_bind_def)
qed

section \<open>Checked arithmetic on unsigned words\<close>

definition checked_add :: "'a::len word \<Rightarrow> 'a word \<Rightarrow> 'a word option" where
  "checked_add a b = (if unat a + unat b < 2 ^ LENGTH('a) then Some (a + b) else None)"

definition checked_sub :: "'a::len word \<Rightarrow> 'a word \<Rightarrow> 'a word option" where
  "checked_sub a b = (if b \<le> a then Some (a - b) else None)"

definition checked_mul :: "'a::len word \<Rightarrow> 'a word \<Rightarrow> 'a word option" where
  "checked_mul a b = (if unat a * unat b < 2 ^ LENGTH('a) then Some (a * b) else None)"

text \<open>The operators \<open>+\<close> and \<open>-\<close> under overflow checks.\<close>

definition word_add :: "'a::len word \<Rightarrow> 'a word \<Rightarrow> 'a word result" where
  "word_add a b = unwrap (checked_add a b)"

definition word_sub :: "'a::len word \<Rightarrow> 'a word \<Rightarrow> 'a word result" where
  "word_sub a b = unwrap (checked_sub a b)"

lemma checked_add_eq_Some:
  "checked_add a b = Some c \<longleftrightarrow> unat a + unat b < 2 ^ LENGTH('a::len) \<and> c = (a::'a word) + b"
  by (auto simp: checked_add_def)

lemma unat_add_no_overflow:
  "unat (a::'a::len word) + unat b < 2 ^ LENGTH('a) \<Longrightarrow> unat (a + b) = unat a + unat b"
  by (simp add: unat_word_ariths)

lemma checked_add_unat:
  "checked_add (a::'a::len word) b = Some c \<Longrightarrow> unat c = unat a + unat b"
  by (auto simp: checked_add_eq_Some unat_add_no_overflow)

lemma checked_sub_unat:
  "checked_sub (a::'a::len word) b = Some c \<Longrightarrow> unat c = unat a - unat b \<and> unat b \<le> unat a"
  by (auto simp: checked_sub_def word_le_nat_alt unat_sub split: if_splits)

lemma checked_mul_unat:
  "checked_mul (a::'a::len word) b = Some c \<Longrightarrow> unat c = unat a * unat b"
  by (auto simp: checked_mul_def unat_word_ariths split: if_splits)

lemma word_add_eq_Ok:
  "word_add a b = Ok c \<longleftrightarrow> unat a + unat b < 2 ^ LENGTH('a::len) \<and> c = (a::'a word) + b"
  by (auto simp: word_add_def checked_add_def)

lemma word_sub_eq_Ok: "word_sub a b = Ok c \<longleftrightarrow> b \<le> a \<and> c = (a::'a::len word) - b"
  by (auto simp: word_sub_def checked_sub_def)

section \<open>Signed 64-bit values\<close>

text \<open>
  Times and heights are \<^verbatim>\<open>i64\<close>.  They are modelled as integers inside the range; an
  operation that leaves the range panics.
\<close>

definition i64_max :: int where "i64_max = 2 ^ 63 - 1"

definition i64_min :: int where "i64_min = - (2 ^ 63)"

definition in_i64 :: "int \<Rightarrow> bool" where
  "in_i64 x \<longleftrightarrow> i64_min \<le> x \<and> x \<le> i64_max"

definition i64_add :: "int \<Rightarrow> int \<Rightarrow> int result" where
  "i64_add a b = (if in_i64 (a + b) then Ok (a + b) else Panic)"

definition i64_sub :: "int \<Rightarrow> int \<Rightarrow> int result" where
  "i64_sub a b = (if in_i64 (a - b) then Ok (a - b) else Panic)"

section \<open>Byte strings under the lexicographic order\<close>

lemma append_less_append [simp]: "(p @ a < p @ b) \<longleftrightarrow> (a < (b :: 'a::linorder list))"
  by (induction p) auto

lemma append_le_append [simp]: "(p @ a \<le> p @ b) \<longleftrightarrow> (a \<le> (b :: 'a::linorder list))"
  by (induction p) auto

lemma append_self_le [simp]:
  "(p @ a \<le> p) \<longleftrightarrow> a = []" "\<not> p @ a < p" "(p < p @ a) \<longleftrightarrow> a \<noteq> []" "p \<le> p @ (a :: 'a::linorder list)"
  using append_le_append [of p a "[]"] append_less_append [of p a "[]"]
    append_less_append [of p "[]" a] append_le_append [of p "[]" a]
  by (simp_all del: append_less_append append_le_append) (cases a; simp)

lemma prefix_imp_le: "prefix p k \<Longrightarrow> p \<le> (k :: 'a::linorder list)"
proof (induction p arbitrary: k)
  case Nil
  then show ?case by simp
next
  case (Cons x p)
  then show ?case by (cases k) auto
qed

text \<open>The keys with a given prefix are an interval: nothing without it lies between two of them.\<close>

lemma prefix_convex:
  assumes "prefix p a" and "prefix p c" and "a \<le> b" and "b \<le> (c :: 'a::linorder list)"
  shows "prefix p b"
  using assms
proof (induction p arbitrary: a b c)
  case Nil
  then show ?case by simp
next
  case (Cons x p)
  then obtain a' c' where [simp]: "a = x # a'" "c = x # c'"
    by (auto simp: prefix_def)
  show ?case
  proof (cases b)
    case Nil
    with Cons.prems show ?thesis by simp
  next
    case (Cons y b')
    with Cons.prems show ?thesis using Cons.IH [of a' c' b'] by auto
  qed
qed

text \<open>A key below \<open>p\<close> is below every key with prefix \<open>p\<close>; one above \<open>p\<close> without that
  prefix is above all of them.\<close>

lemma not_prefix_above:
  assumes "\<not> prefix p b" and "p \<le> b" and "prefix p c"
  shows "c < (b :: 'a::linorder list)"
proof (rule ccontr)
  assume "\<not> c < b"
  then have "b \<le> c" by simp
  with assms have "prefix p b" by (meson prefix_convex prefix_order.refl)
  with assms show False by simp
qed

lemma less_same_length_append:
  "length a = length b \<Longrightarrow> a < b \<Longrightarrow> a @ c < b @ (d :: 'a::linorder list)"
proof (induction a arbitrary: b)
  case (Cons x a)
  then show ?case by (cases b) auto
qed simp

lemma prefix_append_drop: "prefix p k \<Longrightarrow> p @ drop (length p) k = k"
  by (auto simp: prefix_def)

lemma Nil_le [simp]: "[] \<le> (k :: 'a::linorder list)"
  by (rule Nil_le_Cons)

lemma byte_succ:
  assumes "(b :: byte) \<noteq> 255"
  shows "unat (b + 1) = Suc (unat b)" and "b < b + 1"
proof -
  have "unat b \<noteq> unat (255 :: byte)" using assms by (metis unsigned_word_eqI)
  moreover have "unat b < 256" using unsigned_less [of b] by simp
  ultimately have "unat b + 1 < 256" by simp
  then show u: "unat (b + 1) = Suc (unat b)" by (simp add: unat_word_ariths)
  then show "b < b + 1" by (simp add: word_less_nat_alt)
qed

lemma byte_less_succ_iff: "(b :: byte) \<noteq> 255 \<Longrightarrow> x < b + 1 \<longleftrightarrow> x \<le> b"
  by (auto simp: word_less_nat_alt word_le_nat_alt byte_succ)

end
