(* ===== verification/BTree_Map.thy ===== *)
theory BTree_Map
  imports Orga_Prelude
begin

text \<open>
  The standard library's \<^verbatim>\<open>BTreeMap\<close> as the sources use it: an association list whose keys
  are strictly ascending.  \<open>bt_insert\<close>, \<open>bt_remove\<close>, \<open>bt_pop_first\<close> and \<open>bt_range\<close> are
  \<^verbatim>\<open>insert\<close>, \<^verbatim>\<open>remove\<close>, \<^verbatim>\<open>pop_first\<close> and \<^verbatim>\<open>range\<close>; \<open>bound\<close> and \<open>bounds_contain\<close> are
  \<^verbatim>\<open>std::ops::Bound\<close> and \<^verbatim>\<open>RangeBounds::contains\<close>.  The last section has the facts on
  ascending association lists on which the store proofs rest: such a list is determined
  by the map it denotes.
\<close>

section \<open>Range bounds\<close>

datatype 'k bound = Included 'k | Excluded 'k | Unbounded

fun above_start :: "'k::linorder bound \<Rightarrow> 'k \<Rightarrow> bool" where
  "above_start (Included b) k \<longleftrightarrow> b \<le> k"
| "above_start (Excluded b) k \<longleftrightarrow> b < k"
| "above_start Unbounded k \<longleftrightarrow> True"

fun below_end :: "'k::linorder bound \<Rightarrow> 'k \<Rightarrow> bool" where
  "below_end (Included b) k \<longleftrightarrow> k \<le> b"
| "below_end (Excluded b) k \<longleftrightarrow> k < b"
| "below_end Unbounded k \<longleftrightarrow> True"

definition bounds_contain :: "'k::linorder bound \<times> 'k bound \<Rightarrow> 'k \<Rightarrow> bool" where
  "bounds_contain b k \<longleftrightarrow> above_start (fst b) k \<and> below_end (snd b) k"

lemma above_start_mono: "above_start b k \<Longrightarrow> k \<le> k' \<Longrightarrow> above_start b k'"
  by (cases b) auto

lemma below_end_mono: "below_end b k \<Longrightarrow> k' \<le> k \<Longrightarrow> below_end b k'"
  by (cases b) auto

section \<open>The map\<close>

type_synonym ('k, 'v) btree = "('k \<times> 'v) list"

abbreviation bt_wf :: "('k::linorder, 'v) btree \<Rightarrow> bool" where
  "bt_wf m \<equiv> sorted_wrt (<) (map fst m)"

fun bt_insert :: "'k::linorder \<Rightarrow> 'v \<Rightarrow> ('k, 'v) btree \<Rightarrow> ('k, 'v) btree" where
  "bt_insert k v [] = [(k, v)]"
| "bt_insert k v (e # m) =
     (if k < fst e then (k, v) # e # m
      else if k = fst e then (k, v) # m
      else e # bt_insert k v m)"

definition bt_remove :: "'k::linorder \<Rightarrow> ('k, 'v) btree \<Rightarrow> ('k, 'v) btree" where
  "bt_remove k m = filter (\<lambda>e. fst e \<noteq> k) m"

fun bt_pop_first :: "('k, 'v) btree \<Rightarrow> (('k \<times> 'v) \<times> ('k, 'v) btree) option" where
  "bt_pop_first [] = None"
| "bt_pop_first (e # m) = Some (e, m)"

definition bt_range :: "'k::linorder bound \<times> 'k bound \<Rightarrow> ('k, 'v) btree \<Rightarrow> ('k, 'v) btree" where
  "bt_range b m = filter (\<lambda>e. bounds_contain b (fst e)) m"

text \<open>\<^verbatim>\<open>BTreeMap::range\<close> panics on a range whose start lies after its end, and on a range
  that excludes both of two equal ends.\<close>

fun bt_range_panics :: "'k::linorder bound \<times> 'k bound \<Rightarrow> bool" where
  "bt_range_panics (Included a, Included b) \<longleftrightarrow> b < a"
| "bt_range_panics (Included a, Excluded b) \<longleftrightarrow> b < a"
| "bt_range_panics (Excluded a, Included b) \<longleftrightarrow> b < a"
| "bt_range_panics (Excluded a, Excluded b) \<longleftrightarrow> b \<le> a"
| "bt_range_panics (_, _) \<longleftrightarrow> False"

lemma set_fst_bt_insert [simp]: "fst ` set (bt_insert k v m) = insert k (fst ` set m)"
  by (induction m) (auto simp: image_iff)

lemma bt_wf_insert [intro]: "bt_wf m \<Longrightarrow> bt_wf (bt_insert k v m)"
proof (induction m)
  case Nil
  then show ?case by simp
next
  case (Cons e m)
  have "fst e < x" if "\<not> k \<le> fst e" and "x \<in> fst ` set (bt_insert k v m)" for x
    using that Cons.prems by auto
  with Cons show ?case by (auto simp: not_le)
qed

lemma map_of_bt_insert [simp]: "map_of (bt_insert k v m) = (map_of m)(k \<mapsto> v)"
  by (induction m) (auto simp: fun_eq_iff)

lemma bt_wf_filter [intro]: "bt_wf m \<Longrightarrow> bt_wf (filter P m)"
  by (induction m) auto

lemma bt_wf_remove [intro]: "bt_wf m \<Longrightarrow> bt_wf (bt_remove k m)"
  by (auto simp: bt_remove_def)

lemma map_of_filter_key:
  "map_of (filter (\<lambda>e. P (fst e)) m) k = (if P k then map_of m k else None)"
  by (induction m) auto

lemma map_of_bt_remove [simp]: "map_of (bt_remove k m) = (map_of m)(k := None)"
  using map_of_filter_key [of "\<lambda>k'. k' \<noteq> k" m] by (auto simp: bt_remove_def fun_eq_iff)

lemma bt_wf_range [intro]: "bt_wf m \<Longrightarrow> bt_wf (bt_range b m)"
  by (auto simp: bt_range_def)

lemma map_of_bt_range: "map_of (bt_range b m) k = (if bounds_contain b k then map_of m k else None)"
  by (simp add: bt_range_def map_of_filter_key)

lemma bt_wf_distinct: "bt_wf m \<Longrightarrow> distinct (map fst m)"
  by (simp add: strict_sorted_iff)

section \<open>Ascending association lists\<close>

text \<open>Two ascending lists with the same lookups are equal.\<close>

lemma bt_eqI:
  assumes "bt_wf xs" and "bt_wf ys" and "map_of xs = map_of ys"
  shows "xs = ys"
proof (rule map_sorted_distinct_set_unique [of fst])
  have "set xs = set ys"
    using assms map_of_eq_dom by (metis bt_wf_distinct map_of_inject_set)
  then show "set xs = set ys" .
  show "inj_on fst (set xs \<union> set ys)"
    using assms \<open>set xs = set ys\<close> bt_wf_distinct by (auto simp: distinct_map)
qed (use assms strict_sorted_imp_sorted bt_wf_distinct in auto)

definition hd_opt :: "'a list \<Rightarrow> 'a option" where
  "hd_opt xs = (case xs of [] \<Rightarrow> None | x # _ \<Rightarrow> Some x)"

lemma hd_opt_simps [simp]: "hd_opt [] = None" "hd_opt (x # xs) = Some x"
  by (simp_all add: hd_opt_def)

definition last_opt :: "'a list \<Rightarrow> 'a option" where
  "last_opt xs = hd_opt (rev xs)"

lemma last_opt_simps [simp]: "last_opt [] = None" "last_opt (xs @ [x]) = Some x"
  by (simp_all add: last_opt_def)

lemma hd_opt_eq_None [simp]: "hd_opt xs = None \<longleftrightarrow> xs = []"
  by (cases xs) auto

lemma last_opt_eq_None [simp]: "last_opt xs = None \<longleftrightarrow> xs = []"
  by (auto simp: last_opt_def)

lemma hd_opt_in: "hd_opt xs = Some x \<Longrightarrow> x \<in> set xs"
  by (cases xs) auto

lemma last_opt_in: "last_opt xs = Some x \<Longrightarrow> x \<in> set xs"
  by (auto simp: last_opt_def dest: hd_opt_in)

text \<open>On an ascending list, taking the entries above a key and then those above its
  first one drops exactly that first entry.\<close>

lemma filter_Cons_greater:
  assumes "bt_wf m" and "filter (\<lambda>e. P (fst e)) m = e # rest"
  shows "filter (\<lambda>x. fst e < fst x \<and> P (fst x)) m = rest"
  using assms
proof (induction m)
  case Nil
  then show ?case by simp
next
  case (Cons x m)
  show ?case
  proof (cases "P (fst x)")
    case True
    with Cons.prems have "e = x" "rest = filter (\<lambda>e. P (fst e)) m" by auto
    with Cons.prems show ?thesis by (auto intro!: filter_cong)
  next
    case False
    with Cons show ?thesis by auto
  qed
qed

lemma filter_snoc_less:
  assumes "bt_wf m" and "filter (\<lambda>e. P (fst e)) m = rest @ [e]"
  shows "filter (\<lambda>x. fst x < fst e \<and> P (fst x)) m = rest"
  using assms
proof (induction m arbitrary: rest)
  case Nil
  then show ?case by simp
next
  case (Cons x m)
  show ?case
  proof (cases "P (fst x)")
    case True
    show ?thesis
    proof (cases rest)
      case Nil
      with True Cons.prems have "x = e" "filter (\<lambda>e. P (fst e)) m = []" by auto
      with Cons.prems Nil show ?thesis by (auto simp: filter_empty_conv)
    next
      case (Cons y rest')
      with True Cons.prems have *: "y = x" "filter (\<lambda>e. P (fst e)) m = rest' @ [e]" by auto
      then have "e \<in> set m" by (metis (no_types, lifting) filter_is_subset in_set_conv_decomp subsetD)
      with * Cons True Cons.prems Cons.IH [of rest'] show ?thesis by auto
    qed
  next
    case False
    with Cons show ?thesis by auto
  qed
qed

end
