(* ===== verification/Store_Read.thy ===== *)
theory Store_Read
  imports BTree_Map
begin

text \<open>
  The \<^verbatim>\<open>Read\<close> trait of \<^verbatim>\<open>src/store/mod.rs\<close>, the iterator built on it in
  \<^verbatim>\<open>src/store/iter.rs\<close> and the two stores without data of \<^verbatim>\<open>src/store/null.rs\<close>.

  A value of a type that implements \<^verbatim>\<open>Read\<close> is the record \<open>reader\<close> of its three required
  methods; the trait's provided methods are functions of that record.  What such a store
  promises is the locale \<open>lawful_reader\<close>: there is an ascending list of entries such that
  \<open>get\<close> looks keys up in it, \<open>get_next\<close> and \<open>get_prev\<close> return the neighbouring entry.
  Inside the locale, an iterator is shown to yield exactly the entries in its range, from
  either end.
\<close>

section \<open>The trait\<close>

record reader =
  rd_get :: "bytes \<Rightarrow> bytes option result"
  rd_get_next :: "bytes \<Rightarrow> kv option result"
  rd_get_prev :: "bytes option \<Rightarrow> kv option result"

definition get_next_inclusive :: "reader \<Rightarrow> bytes \<Rightarrow> kv option result" where
  "get_next_inclusive r key = and_then (rd_get r key) (\<lambda>v. case v of
      Some value \<Rightarrow> Ok (Some (key, value))
    | None \<Rightarrow> rd_get_next r key)"

definition get_prev_inclusive :: "reader \<Rightarrow> bytes option \<Rightarrow> kv option result" where
  "get_prev_inclusive r key = (case key of
      Some key \<Rightarrow> and_then (rd_get r key) (\<lambda>v. case v of
          Some value \<Rightarrow> Ok (Some (key, value))
        | None \<Rightarrow> rd_get_prev r (Some key))
    | None \<Rightarrow> rd_get_prev r None)"

text \<open>
  The \<^verbatim>\<open>Write\<close> trait: a store that can also be written.  \<open>bk_read\<close> is its \<^verbatim>\<open>Read\<close>
  supertrait at a given state.
\<close>

record 's backing =
  bk_read :: "'s \<Rightarrow> reader"
  bk_put :: "bytes \<Rightarrow> bytes \<Rightarrow> ('s, unit) op"
  bk_delete :: "bytes \<Rightarrow> ('s, unit) op"

section \<open>Iterators\<close>

record iter =
  iter_parent :: reader
  iter_bounds :: "bytes bound \<times> bytes bound"
  iter_done :: bool

definition iter_new :: "reader \<Rightarrow> bytes bound \<times> bytes bound \<Rightarrow> iter" where
  "iter_new parent bounds = \<lparr>iter_parent = parent, iter_bounds = bounds, iter_done = False\<rparr>"

text \<open>\<^verbatim>\<open>Read::into_iter\<close> clones the bounds and builds the iterator.\<close>

fun clone_bound :: "'k bound \<Rightarrow> 'k bound" where
  "clone_bound Unbounded = Unbounded"
| "clone_bound (Included key) = Included key"
| "clone_bound (Excluded key) = Excluded key"

definition into_iter :: "reader \<Rightarrow> bytes bound \<times> bytes bound \<Rightarrow> iter" where
  "into_iter r bounds = iter_new r (clone_bound (fst bounds), clone_bound (snd bounds))"

lemma clone_bound_id [simp]: "clone_bound b = b"
  by (cases b) auto

fun transpose_res :: "'a option result \<Rightarrow> 'a result option" where
  "transpose_res (Ok None) = None"
| "transpose_res (Ok (Some x)) = Some (Ok x)"
| "transpose_res (Err e) = Some (Err e)"
| "transpose_res Panic = Some Panic"

definition iter_next :: "iter \<Rightarrow> kv result option \<times> iter" where
  "iter_next it =
     (if iter_done it then (None, it)
      else
        let maybe_entry = (case fst (iter_bounds it) of
              Unbounded \<Rightarrow> transpose_res (get_next_inclusive (iter_parent it) [])
            | Included key \<Rightarrow> transpose_res (get_next_inclusive (iter_parent it) key)
            | Excluded key \<Rightarrow> transpose_res (rd_get_next (iter_parent it) key))
        in case maybe_entry of
             Some (Ok (key, value)) \<Rightarrow>
               if \<not> bounds_contain (iter_bounds it) key
               then (None, it\<lparr>iter_done := True\<rparr>)
               else (Some (Ok (key, value)),
                     it\<lparr>iter_bounds := (Excluded key, snd (iter_bounds it))\<rparr>)
           | Some e \<Rightarrow> (Some e, it)
           | None \<Rightarrow> (None, it\<lparr>iter_done := True\<rparr>))"

definition iter_next_back :: "iter \<Rightarrow> kv result option \<times> iter" where
  "iter_next_back it =
     (if iter_done it then (None, it)
      else
        let maybe_entry = (case snd (iter_bounds it) of
              Unbounded \<Rightarrow> transpose_res (rd_get_prev (iter_parent it) None)
            | Included key \<Rightarrow> transpose_res (get_prev_inclusive (iter_parent it) (Some key))
            | Excluded key \<Rightarrow> transpose_res (rd_get_prev (iter_parent it) (Some key)))
        in case maybe_entry of
             Some (Ok (key, value)) \<Rightarrow>
               if \<not> bounds_contain (iter_bounds it) key
               then (None, it\<lparr>iter_done := True\<rparr>)
               else (Some (Ok (key, value)),
                     it\<lparr>iter_bounds := (fst (iter_bounds it), Excluded key)\<rparr>)
           | Some e \<Rightarrow> (Some e, it)
           | None \<Rightarrow> (None, it\<lparr>iter_done := True\<rparr>))"

text \<open>
  Collecting an iterator into a \<^verbatim>\<open>Result<Vec<_>>\<close>: the first error ends the collection.
  \<open>next\<close> is the step to take (\<open>iter_next\<close>, or \<open>iter_next_back\<close> for \<^verbatim>\<open>.rev()\<close>).  The
  number of steps is bounded by the fuel, and running out of it is \<open>None\<close>.
\<close>

fun collect :: "('i \<Rightarrow> 'a result option \<times> 'i) \<Rightarrow> nat \<Rightarrow> 'i \<Rightarrow> 'a list result option" where
  "collect next 0 it = None"
| "collect next (Suc fuel) it = (case next it of
      (None, _) \<Rightarrow> Some (Ok [])
    | (Some (Err e), _) \<Rightarrow> Some (Err e)
    | (Some Panic, _) \<Rightarrow> Some Panic
    | (Some (Ok x), it') \<Rightarrow> map_option (\<lambda>r. and_then r (\<lambda>xs. Ok (x # xs))) (collect next fuel it'))"

text \<open>\<^verbatim>\<open>.take(n).collect()\<close> takes at most \<open>n\<close> steps.\<close>

fun collect_take :: "('i \<Rightarrow> 'a result option \<times> 'i) \<Rightarrow> nat \<Rightarrow> 'i \<Rightarrow> 'a list result" where
  "collect_take next 0 it = Ok []"
| "collect_take next (Suc n) it = (case next it of
      (None, _) \<Rightarrow> Ok []
    | (Some r, it') \<Rightarrow> and_then r (\<lambda>x. and_then (collect_take next n it') (\<lambda>xs. Ok (x # xs))))"

section \<open>Stores without data\<close>

definition empty_reader :: reader where
  "empty_reader = \<lparr>rd_get = (\<lambda>_. Ok None), rd_get_next = (\<lambda>_. Ok None), rd_get_prev = (\<lambda>_. Ok None)\<rparr>"

definition unknown_reader :: reader where
  "unknown_reader = \<lparr>
     rd_get = (\<lambda>key. Err (Error_StoreErr (GetUnknown key))),
     rd_get_next = (\<lambda>key. Err (Error_StoreErr (GetUnknown key))),
     rd_get_prev = (\<lambda>key. and_then (unwrap key) (\<lambda>k. Err (Error_StoreErr (GetUnknown k))))\<rparr>"

text \<open>Both stores leave their \<^verbatim>\<open>Write\<close> methods \<^verbatim>\<open>unimplemented!()\<close>.\<close>

definition null_put :: "bytes \<Rightarrow> bytes \<Rightarrow> ('s, unit) op" where
  "null_put key value = op_lift Panic"

definition null_delete :: "bytes \<Rightarrow> ('s, unit) op" where
  "null_delete key = op_lift Panic"

section \<open>The contract of a store\<close>

definition next_entry :: "('k::linorder \<times> 'v) list \<Rightarrow> 'k \<Rightarrow> ('k \<times> 'v) option" where
  "next_entry es key = hd_opt (filter (\<lambda>e. key < fst e) es)"

definition prev_entry :: "('k::linorder \<times> 'v) list \<Rightarrow> 'k option \<Rightarrow> ('k \<times> 'v) option" where
  "prev_entry es key = last_opt (filter (\<lambda>e. case key of None \<Rightarrow> True | Some k \<Rightarrow> fst e < k) es)"

text \<open>
  The first locale has what forward iteration needs, the second adds the backward direction.
\<close>

locale forward_reader =
  fixes r :: reader and es :: "kv list"
  assumes entries_wf: "bt_wf es"
    and get_law: "rd_get r key = Ok (map_of es key)"
    and get_next_law: "rd_get_next r key = Ok (next_entry es key)"

locale lawful_reader = forward_reader +
  assumes get_prev_law: "rd_get_prev r ko = Ok (prev_entry es ko)"

text \<open>
  A store whose reads are lawful in every good state, and a writable one.  Writing a key
  for which \<open>ok_key\<close> holds succeeds and updates the entries.
\<close>

locale read_family =
  fixes rd :: "'s \<Rightarrow> reader" and ents :: "'s \<Rightarrow> kv list" and invar :: "'s \<Rightarrow> bool"
  assumes reads_lawful: "invar s \<Longrightarrow> lawful_reader (rd s) (ents s)"

locale lawful_backing = read_family "bk_read bk" ents invar
  for bk :: "'s backing" and ents :: "'s \<Rightarrow> kv list" and invar :: "'s \<Rightarrow> bool" +
  fixes ok_key :: "bytes \<Rightarrow> bool"
  assumes put_law: "invar s \<Longrightarrow> ok_key key \<Longrightarrow>
      \<exists>s'. bk_put bk key v s = (Ok (), s') \<and> invar s' \<and> ents s' = bt_insert key v (ents s)"
    and delete_law: "invar s \<Longrightarrow>
      \<exists>s'. bk_delete bk key s = (Ok (), s') \<and> invar s' \<and> ents s' = bt_remove key (ents s)"

text \<open>The entries an iterator has still to yield.\<close>

definition iter_rest :: "kv list \<Rightarrow> iter \<Rightarrow> kv list" where
  "iter_rest es it = (if iter_done it then [] else bt_range (iter_bounds it) es)"

lemma hd_opt_filter_conj:
  assumes "bt_wf m" and "hd_opt (filter (\<lambda>e. P (fst e)) m) = Some e"
    and mono: "\<And>a b. P a \<Longrightarrow> Q b \<Longrightarrow> a \<le> b \<Longrightarrow> Q a"
  shows "hd_opt (filter (\<lambda>e. P (fst e) \<and> Q (fst e)) m) = (if Q (fst e) then Some e else None)"
  using assms(1,2)
proof (induction m)
  case Nil
  then show ?case by simp
next
  case (Cons x m)
  show ?case
  proof (cases "P (fst x)")
    case True
    with Cons.prems have [simp]: "e = x" by simp
    have "\<not> Q (fst y)" if "y \<in> set m" "\<not> Q (fst x)" for y
      using that Cons.prems mono [of "fst x" "fst y"] True by (auto intro: less_imp_le)
    then show ?thesis using True by (auto simp: filter_empty_conv)
  next
    case False
    with Cons show ?thesis by auto
  qed
qed

lemma last_opt_filter_conj:
  assumes "bt_wf m" and "last_opt (filter (\<lambda>e. Q (fst e)) m) = Some e"
    and mono: "\<And>a b. P a \<Longrightarrow> Q b \<Longrightarrow> a \<le> b \<Longrightarrow> P b"
  shows "last_opt (filter (\<lambda>e. P (fst e) \<and> Q (fst e)) m) = (if P (fst e) then Some e else None)"
  using assms(1,2)
proof (induction m rule: rev_induct)
  case Nil
  then show ?case by simp
next
  case (snoc x m)
  show ?case
  proof (cases "Q (fst x)")
    case True
    with snoc.prems have [simp]: "e = x" by simp
    have "\<not> P (fst y)" if "y \<in> set m" "\<not> P (fst x)" for y
      using that snoc.prems mono [of "fst y" "fst x"] True
      by (auto simp: sorted_wrt_append intro: less_imp_le)
    then show ?thesis using True by (auto simp: filter_empty_conv)
  next
    case False
    with snoc show ?thesis by (auto simp: sorted_wrt_append)
  qed
qed

lemma get_next_inclusive_list:
  assumes "bt_wf es"
  shows "(case map_of es key of Some v \<Rightarrow> Some (key, v) | None \<Rightarrow> next_entry es key)
    = hd_opt (filter (\<lambda>e. key \<le> fst e) es)"
  using assms
proof (induction es)
  case Nil
  then show ?case by (simp add: next_entry_def)
next
  case (Cons x es)
  show ?case
  proof (cases "fst x" key rule: linorder_cases)
    case equal
    then show ?thesis by (cases x) simp
  next
    case greater
    then have "map_of es key = None"
      using Cons.prems by (force simp: map_of_eq_None_iff)
    with greater show ?thesis by (auto simp: next_entry_def)
  next
    case less
    then have "next_entry (x # es) key = next_entry es key" by (auto simp: next_entry_def)
    with less Cons show ?thesis by (cases x) (auto split: option.splits)
  qed
qed

lemma get_prev_inclusive_list:
  assumes "bt_wf es"
  shows "(case map_of es key of Some v \<Rightarrow> Some (key, v) | None \<Rightarrow> prev_entry es (Some key))
    = last_opt (filter (\<lambda>e. fst e \<le> key) es)"
  using assms
proof (induction es rule: rev_induct)
  case Nil
  then show ?case by (simp add: prev_entry_def)
next
  case (snoc x es)
  show ?case
  proof (cases "fst x" key rule: linorder_cases)
    case equal
    then have "map_of es key = None"
      using snoc.prems by (force simp: map_of_eq_None_iff sorted_wrt_append)
    with equal show ?thesis by (cases x) (simp add: map_add_def)
  next
    case less
    then have "map_of es key = None"
      using snoc.prems by (force simp: map_of_eq_None_iff sorted_wrt_append)
    with less show ?thesis by (cases x) (auto simp: prev_entry_def map_add_def)
  next
    case greater
    with snoc show ?thesis
      by (cases x) (auto simp: prev_entry_def sorted_wrt_append map_add_def split: option.splits)
  qed
qed

context forward_reader
begin

lemma get_next_inclusive_law:
  "get_next_inclusive r key = Ok (hd_opt (filter (\<lambda>e. key \<le> fst e) es))"
  using get_next_inclusive_list [OF entries_wf, of key]
  by (auto simp: get_next_inclusive_def get_law get_next_law split: option.splits)

text \<open>What the forward step of an iterator sees: the first entry above its start.\<close>

lemma iter_lookahead:
  "(case b of
      Unbounded \<Rightarrow> transpose_res (get_next_inclusive r [])
    | Included key \<Rightarrow> transpose_res (get_next_inclusive r key)
    | Excluded key \<Rightarrow> transpose_res (rd_get_next r key))
   = map_option Ok (hd_opt (filter (\<lambda>e. above_start b (fst e)) es))"
proof -
  have t: "transpose_res (Ok x) = map_option Ok x" for x :: "kv option"
    by (cases x) auto
  show ?thesis
    by (cases b) (auto simp: get_next_inclusive_law get_next_law next_entry_def t)
qed

lemma iter_next_rest:
  assumes "iter_parent it = r"
  shows "fst (iter_next it) = map_option Ok (hd_opt (iter_rest es it))
    \<and> iter_rest es (snd (iter_next it)) = tl (iter_rest es it)
    \<and> iter_parent (snd (iter_next it)) = r"
proof (cases "iter_done it")
  case True
  then show ?thesis using assms by (simp add: iter_next_def iter_rest_def)
next
  case False
  obtain lo hi where b: "iter_bounds it = (lo, hi)" by force
  let ?up = "filter (\<lambda>e. above_start lo (fst e)) es"
  have look: "(case lo of
      Unbounded \<Rightarrow> transpose_res (get_next_inclusive (iter_parent it) [])
    | Included key \<Rightarrow> transpose_res (get_next_inclusive (iter_parent it) key)
    | Excluded key \<Rightarrow> transpose_res (rd_get_next (iter_parent it) key)) = map_option Ok (hd_opt ?up)"
    unfolding assms by (rule iter_lookahead)
  show ?thesis
  proof (cases "hd_opt ?up")
    case None
    then have "iter_rest es it = []"
      using False b by (auto simp: iter_rest_def bt_range_def bounds_contain_def filter_empty_conv)
    with None show ?thesis
      using False b assms look by (simp add: iter_next_def iter_rest_def)
  next
    case (Some e)
    obtain key val where e: "e = (key, val)" by force
    have "hd_opt (filter (\<lambda>e. above_start lo (fst e) \<and> below_end hi (fst e)) es)
        = (if below_end hi (fst e) then Some e else None)"
      by (rule hd_opt_filter_conj [OF entries_wf Some]) (blast intro: below_end_mono)
    then have hd: "hd_opt (iter_rest es it) = (if below_end hi key then Some e else None)"
      using False b e by (simp add: iter_rest_def bt_range_def bounds_contain_def)
    have up: "above_start lo key" using Some e by (auto dest: hd_opt_in)
    show ?thesis
    proof (cases "below_end hi key")
      case True
      then obtain rest where rest: "iter_rest es it = e # rest" using hd by (cases "iter_rest es it") auto
      have "filter (\<lambda>x. fst e < fst x \<and> bounds_contain (lo, hi) (fst x)) es = rest"
        using filter_Cons_greater [OF entries_wf] rest False b by (simp add: iter_rest_def bt_range_def)
      moreover have "(key < k \<and> bounds_contain (lo, hi) k) = bounds_contain (Excluded key, hi) k" for k
        using up above_start_mono [of lo key k] by (auto simp: bounds_contain_def)
      ultimately have "bt_range (Excluded key, hi) es = rest" by (simp add: bt_range_def e)
      with True up rest look Some e False b assms show ?thesis
        by (simp add: iter_next_def iter_rest_def bounds_contain_def)
    next
      case False
      with hd have "iter_rest es it = []" by simp
      with False look Some e b assms \<open>\<not> iter_done it\<close> show ?thesis
        by (simp add: iter_next_def iter_rest_def bounds_contain_def)
    qed
  qed
qed

text \<open>Collecting an iterator yields all entries in the range, in order.\<close>

lemma collect_iter_next:
  assumes "iter_parent it = r" and "length (iter_rest es it) < fuel"
  shows "collect iter_next fuel it = Some (Ok (iter_rest es it))"
  using assms
proof (induction fuel arbitrary: it)
  case 0
  then show ?case by simp
next
  case (Suc fuel)
  note step = iter_next_rest [OF Suc.prems(1)]
  obtain o' it' where n: "iter_next it = (o', it')" by force
  with Suc.IH [of it'] step Suc.prems show ?case by (cases "iter_rest es it") auto
qed

lemma collect_take_iter_next:
  "iter_parent it = r \<Longrightarrow> collect_take iter_next n it = Ok (take n (iter_rest es it))"
proof (induction n arbitrary: it)
  case 0
  then show ?case by simp
next
  case (Suc n)
  note step = iter_next_rest [OF Suc.prems]
  obtain o' it' where "iter_next it = (o', it')" by force
  with Suc.IH [of it'] step show ?case by (cases "iter_rest es it") auto
qed

lemma iter_rest_into_iter [simp]:
  "iter_rest es (into_iter r b) = bt_range b es" "iter_parent (into_iter r b) = r"
  by (simp_all add: into_iter_def iter_new_def iter_rest_def)


end

context lawful_reader
begin

lemma get_prev_inclusive_law:
  "get_prev_inclusive r (Some key) = Ok (last_opt (filter (\<lambda>e. fst e \<le> key) es))"
  using get_prev_inclusive_list [OF entries_wf, of key]
  by (auto simp: get_prev_inclusive_def get_law get_prev_law split: option.splits)

lemma iter_lookback:
  "(case b of
      Unbounded \<Rightarrow> transpose_res (rd_get_prev r None)
    | Included key \<Rightarrow> transpose_res (get_prev_inclusive r (Some key))
    | Excluded key \<Rightarrow> transpose_res (rd_get_prev r (Some key)))
   = map_option Ok (last_opt (filter (\<lambda>e. below_end b (fst e)) es))"
proof -
  have t: "transpose_res (Ok x) = map_option Ok x" for x :: "kv option"
    by (cases x) auto
  show ?thesis
    by (cases b) (auto simp: get_prev_inclusive_law get_prev_law prev_entry_def t)
qed

lemma iter_next_back_rest:
  assumes "iter_parent it = r"
  shows "fst (iter_next_back it) = map_option Ok (last_opt (iter_rest es it))
    \<and> iter_rest es (snd (iter_next_back it)) = butlast (iter_rest es it)
    \<and> iter_parent (snd (iter_next_back it)) = r"
proof (cases "iter_done it")
  case True
  then show ?thesis using assms by (simp add: iter_next_back_def iter_rest_def)
next
  case False
  obtain lo hi where b: "iter_bounds it = (lo, hi)" by force
  let ?dn = "filter (\<lambda>e. below_end hi (fst e)) es"
  have look: "(case hi of
      Unbounded \<Rightarrow> transpose_res (rd_get_prev (iter_parent it) None)
    | Included key \<Rightarrow> transpose_res (get_prev_inclusive (iter_parent it) (Some key))
    | Excluded key \<Rightarrow> transpose_res (rd_get_prev (iter_parent it) (Some key))) = map_option Ok (last_opt ?dn)"
    unfolding assms by (rule iter_lookback)
  show ?thesis
  proof (cases "last_opt ?dn")
    case None
    then have "iter_rest es it = []"
      using False b by (auto simp: iter_rest_def bt_range_def bounds_contain_def filter_empty_conv)
    with None show ?thesis
      using False b assms look by (simp add: iter_next_back_def iter_rest_def)
  next
    case (Some e)
    obtain key val where e: "e = (key, val)" by force
    have "last_opt (filter (\<lambda>e. above_start lo (fst e) \<and> below_end hi (fst e)) es)
        = (if above_start lo (fst e) then Some e else None)"
      by (rule last_opt_filter_conj [OF entries_wf Some]) (blast intro: above_start_mono)
    then have lst: "last_opt (iter_rest es it) = (if above_start lo key then Some e else None)"
      using False b e by (simp add: iter_rest_def bt_range_def bounds_contain_def)
    have dn: "below_end hi key" using Some e by (auto dest: last_opt_in)
    show ?thesis
    proof (cases "above_start lo key")
      case True
      then obtain rest where rest: "iter_rest es it = rest @ [e]"
        using lst by (cases "iter_rest es it" rule: rev_cases) auto
      have "filter (\<lambda>x. fst x < fst e \<and> bounds_contain (lo, hi) (fst x)) es = rest"
        using filter_snoc_less [OF entries_wf] rest False b by (simp add: iter_rest_def bt_range_def)
      moreover have "(k < key \<and> bounds_contain (lo, hi) k) = bounds_contain (lo, Excluded key) k" for k
        using dn below_end_mono [of hi key k] by (auto simp: bounds_contain_def)
      ultimately have "bt_range (lo, Excluded key) es = rest" by (simp add: bt_range_def e)
      with True dn rest look Some e False b assms show ?thesis
        by (simp add: iter_next_back_def iter_rest_def bounds_contain_def)
    next
      case False
      with lst have "iter_rest es it = []" by simp
      with False look Some e b assms \<open>\<not> iter_done it\<close> show ?thesis
        by (simp add: iter_next_back_def iter_rest_def bounds_contain_def)
    qed
  qed
qed

lemma collect_iter_next_back:
  assumes "iter_parent it = r" and "length (iter_rest es it) < fuel"
  shows "collect iter_next_back fuel it = Some (Ok (rev (iter_rest es it)))"
  using assms
proof (induction fuel arbitrary: it)
  case 0
  then show ?case by simp
next
  case (Suc fuel)
  note step = iter_next_back_rest [OF Suc.prems(1)]
  obtain o' it' where n: "iter_next_back it = (o', it')" by force
  with Suc.IH [of it'] step Suc.prems show ?case by (cases "iter_rest es it" rule: rev_cases) auto
qed

end

text \<open>The facts of the forward direction for a lawful reader.\<close>

lemmas lawful_forward = lawful_reader.axioms(1)
lemmas lawful_entries_wf = forward_reader.entries_wf [OF lawful_forward]
lemmas lawful_get = forward_reader.get_law [OF lawful_forward]
lemmas lawful_get_next = forward_reader.get_next_law [OF lawful_forward]
lemmas lawful_collect = forward_reader.collect_iter_next [OF lawful_forward]
lemmas lawful_iter_rest = forward_reader.iter_rest_into_iter [OF lawful_forward]

interpretation empty_store: lawful_reader empty_reader "[]"
  by unfold_locales (simp_all add: empty_reader_def next_entry_def prev_entry_def)

end
