(* ===== verification/Buf_Store.thy ===== *)
theory Buf_Store
  imports Store_Read
begin

text \<open>
  \<^verbatim>\<open>src/store/bufstore.rs\<close>: a store that records writes in memory on top of another store
  until they are flushed, and the in-memory store \<^verbatim>\<open>MapStore\<close> built from it.

  The buffer maps a key to \<open>Some (Some v)\<close> after a put and to \<open>Some None\<close> after a delete.
  \<open>merge_by\<close> is the specification of what the store then contains: the underlying
  entries, shadowed by the buffer.  The main facts are that the lazy merge of
  \<open>iter_merge_next\<close> computes the neighbours in that merged list, so that a buffered store is
  again a lawful store, and that a flush writes exactly the merged entries through.
\<close>

section \<open>The store\<close>

type_synonym bufmap = "(bytes, bytes option) btree"

record 's bufstore =
  buf_map :: bufmap
  buf_store :: 's

definition buf_wrap :: "'s \<Rightarrow> 's bufstore" where
  "buf_wrap store = \<lparr>buf_map = [], buf_store = store\<rparr>"

definition buf_wrap_with_map :: "'s \<Rightarrow> bufmap \<Rightarrow> 's bufstore" where
  "buf_wrap_with_map store m = \<lparr>buf_map = m, buf_store = store\<rparr>"

definition buf_into_map :: "'s bufstore \<Rightarrow> bufmap" where
  "buf_into_map s = buf_map s"

text \<open>
  The merge loop.  The iterator over the buffer is the list of its entries in the
  direction of the iteration; the one over the underlying store is a state with a step
  function.  Peeking at it does not commit the step: the state advances only where the
  source calls \<^verbatim>\<open>next\<close>.
\<close>

fun iter_merge_next ::
  "('i \<Rightarrow> kv result option \<times> 'i) \<Rightarrow> bool \<Rightarrow> (bytes \<times> bytes option) list \<Rightarrow> 'i \<Rightarrow> kv option result" where
  "iter_merge_next step increasing [] store_iter = (case fst (step store_iter) of
      None \<Rightarrow> Ok None
    | Some r \<Rightarrow> and_then r (\<lambda>entry. Ok (Some entry)))"
| "iter_merge_next step increasing ((map_key, map_value) # map_iter) store_iter =
    (case fst (step store_iter) of
      None \<Rightarrow> (case map_value of
          Some v \<Rightarrow> Ok (Some (map_key, v))
        | None \<Rightarrow> iter_merge_next step increasing map_iter store_iter)
    | Some Panic \<Rightarrow> Panic
    | Some (Err _) \<Rightarrow> Err (Error_Store ''Backing key does not exist'')
    | Some (Ok (backing_key, backing_value)) \<Rightarrow>
        if (increasing \<and> backing_key < map_key) \<or> (\<not> increasing \<and> map_key < backing_key)
        then Ok (Some (backing_key, backing_value))
        else
          let store_iter' = (if map_key = backing_key then snd (step store_iter) else store_iter)
          in case map_value of
               Some v \<Rightarrow> Ok (Some (map_key, v))
             | None \<Rightarrow> iter_merge_next step increasing map_iter store_iter')"

definition exclusive_range_starting_from :: "bytes \<Rightarrow> bytes bound \<times> bytes bound" where
  "exclusive_range_starting_from start = (Excluded start, Unbounded)"

definition exclusive_range_ending_at :: "bytes \<Rightarrow> bytes bound \<times> bytes bound" where
  "exclusive_range_ending_at end_key = (Unbounded, Excluded end_key)"

definition buf_get :: "('s \<Rightarrow> reader) \<Rightarrow> 's bufstore \<Rightarrow> bytes \<Rightarrow> bytes option result" where
  "buf_get rd s key = (case map_of (buf_map s) key of
      Some (Some value) \<Rightarrow> Ok (Some value)
    | Some None \<Rightarrow> Ok None
    | None \<Rightarrow> rd_get (rd (buf_store s)) key)"

definition buf_get_next :: "('s \<Rightarrow> reader) \<Rightarrow> 's bufstore \<Rightarrow> bytes \<Rightarrow> kv option result" where
  "buf_get_next rd s key =
     (let map_iter = bt_range (exclusive_range_starting_from key) (buf_map s);
          store_iter = into_iter (rd (buf_store s)) (exclusive_range_starting_from key)
      in iter_merge_next iter_next True map_iter store_iter)"

definition buf_get_prev :: "('s \<Rightarrow> reader) \<Rightarrow> 's bufstore \<Rightarrow> bytes option \<Rightarrow> kv option result" where
  "buf_get_prev rd s key =
     (let range = (case key of
            None \<Rightarrow> (Unbounded, Unbounded)
          | Some key \<Rightarrow> exclusive_range_ending_at key);
          map_iter = rev (bt_range range (buf_map s));
          store_iter = into_iter (rd (buf_store s)) range
      in iter_merge_next iter_next_back False map_iter store_iter)"

definition buf_put :: "bytes \<Rightarrow> bytes \<Rightarrow> ('s bufstore, unit) op" where
  "buf_put key value = op_upd (\<lambda>s. s\<lparr>buf_map := bt_insert key (Some value) (buf_map s)\<rparr>)"

definition buf_delete :: "bytes \<Rightarrow> ('s bufstore, unit) op" where
  "buf_delete key = op_upd (\<lambda>s. s\<lparr>buf_map := bt_insert key None (buf_map s)\<rparr>)"

definition buf_reader :: "('s \<Rightarrow> reader) \<Rightarrow> 's bufstore \<Rightarrow> reader" where
  "buf_reader rd s = \<lparr>rd_get = buf_get rd s, rd_get_next = buf_get_next rd s, rd_get_prev = buf_get_prev rd s\<rparr>"

definition buf_backing :: "('s \<Rightarrow> reader) \<Rightarrow> 's bufstore backing" where
  "buf_backing rd = \<lparr>bk_read = buf_reader rd, bk_put = buf_put, bk_delete = buf_delete\<rparr>"

text \<open>
  \<^verbatim>\<open>flush\<close>: the buffer is emptied entry by entry, each entry written to the underlying
  store.  A failing write ends the loop; the entry it was for has already left the buffer.
\<close>

fun flush_loop :: "'s backing \<Rightarrow> bufmap \<Rightarrow> 's \<Rightarrow> unit result \<times> bufmap \<times> 's" where
  "flush_loop bk [] st = (Ok (), [], st)"
| "flush_loop bk ((key, v) # m) st =
    (case (case v of Some value \<Rightarrow> bk_put bk key value st | None \<Rightarrow> bk_delete bk key st) of
      (Ok _, st') \<Rightarrow> flush_loop bk m st'
    | (Err e, st') \<Rightarrow> (Err e, m, st')
    | (Panic, st') \<Rightarrow> (Panic, m, st'))"

definition buf_flush :: "'s backing \<Rightarrow> ('s bufstore, unit) op" where
  "buf_flush bk s = (case flush_loop bk (buf_map s) (buf_store s) of
      (res, m, st) \<Rightarrow> (res, s\<lparr>buf_map := m, buf_store := st\<rparr>))"

text \<open>\<^verbatim>\<open>MapStore = BufStore<Empty>\<close>.\<close>

type_synonym mapstore = "unit bufstore"

definition mapstore_new :: mapstore where
  "mapstore_new = \<lparr>buf_map = [], buf_store = ()\<rparr>"

definition mapstore_backing :: "mapstore backing" where
  "mapstore_backing = buf_backing (\<lambda>_. empty_reader)"

section \<open>Merging a buffer into a list of entries\<close>

fun merge_by :: "('k \<Rightarrow> 'k \<Rightarrow> bool) \<Rightarrow> ('k \<times> 'v option) list \<Rightarrow> ('k \<times> 'v) list \<Rightarrow> ('k \<times> 'v) list" where
  "merge_by lt [] es = es"
| "merge_by lt ((k, mv) # ms) [] = (case mv of Some v \<Rightarrow> [(k, v)] | None \<Rightarrow> []) @ merge_by lt ms []"
| "merge_by lt ((k, mv) # ms) (e # es) =
    (if lt (fst e) k then e # merge_by lt ((k, mv) # ms) es
     else (case mv of Some v \<Rightarrow> [(k, v)] | None \<Rightarrow> [])
       @ merge_by lt ms (if k = fst e then es else e # es))"

abbreviation overlay :: "('k::linorder \<times> 'v option) list \<Rightarrow> ('k \<times> 'v) list \<Rightarrow> ('k \<times> 'v) list" where
  "overlay \<equiv> merge_by (<)"

lemma merge_by_keys: "fst ` set (merge_by lt ms es) \<subseteq> fst ` set ms \<union> fst ` set es"
proof (induction lt ms es rule: merge_by.induct)
  case (3 lt k mv ms e es)
  then show ?case by (cases "lt (fst e) k"; cases "k = fst e"; cases mv) auto
qed (auto split: option.splits)

text \<open>
  The merge for an order and its reverse.  \<open>lt\<close> ranges over the two strict orders on keys
  that the two directions of iteration use.
\<close>

lemma merge_by_sorted:
  fixes lt :: "'k::linorder \<Rightarrow> 'k \<Rightarrow> bool"
  assumes "lt = (<) \<or> lt = (>)"
    and "sorted_wrt lt (map fst ms)" and "sorted_wrt lt (map fst es)"
  shows "sorted_wrt lt (map fst (merge_by lt ms es))"
  using assms
proof (induction lt ms es rule: merge_by.induct)
  case (2 lt k mv ms)
  have "\<forall>x \<in> fst ` set ms. lt k x" using "2.prems" by auto
  moreover have "fst ` set (merge_by lt ms []) \<subseteq> fst ` set ms"
    using merge_by_keys [of lt ms "[]"] by simp
  ultimately have "\<forall>x \<in> fst ` set (merge_by lt ms []). lt k x" by (meson subsetD)
  with 2 show ?case by (auto split: option.splits)
next
  case (3 lt k mv ms e es)
  show ?case
  proof (cases "lt (fst e) k")
    case True
    have "\<forall>x \<in> fst ` set (merge_by lt ((k, mv) # ms) es). lt (fst e) x"
      using merge_by_keys [of lt "(k, mv) # ms" es] "3.prems" True by fastforce
    with 3 True show ?thesis by auto
  next
    case False
    let ?es = "if k = fst e then es else e # es"
    have "lt k (fst e)" if "k \<noteq> fst e" using "3.prems"(1) False that by auto
    moreover have "lt k x" if "lt k (fst e)" "x \<in> fst ` set es" for x
      using "3.prems"(1,3) that by auto
    ultimately have "\<forall>x \<in> fst ` set ?es. lt k x" using "3.prems"(3) by auto
    moreover have "\<forall>x \<in> fst ` set ms. lt k x" using "3.prems" by auto
    ultimately have "\<forall>x \<in> fst ` set (merge_by lt ms ?es). lt k x"
      using merge_by_keys [of lt ms ?es] by (meson UnE subsetD)
    moreover have "sorted_wrt lt (map fst (merge_by lt ms ?es))" using 3 False by auto
    ultimately show ?thesis using False by (auto split: option.splits)
  qed
qed simp

lemma merge_by_map_of:
  fixes lt :: "'k::linorder \<Rightarrow> 'k \<Rightarrow> bool"
  assumes "lt = (<) \<or> lt = (>)"
    and "sorted_wrt lt (map fst ms)" and "sorted_wrt lt (map fst es)"
  shows "map_of (merge_by lt ms es) x = (case map_of ms x of Some v \<Rightarrow> v | None \<Rightarrow> map_of es x)"
  using assms
proof (induction lt ms es rule: merge_by.induct)
  case (2 lt k mv ms)
  have "x = k \<Longrightarrow> x \<notin> fst ` set ms" using "2.prems" by auto
  then have "x = k \<Longrightarrow> map_of ms x = None" by (simp add: map_of_eq_None_iff)
  with 2 show ?case by (auto split: option.splits)
next
  case (3 lt k mv ms e es)
  obtain ek ev where e: "e = (ek, ev)" by force
  have ms_k: "map_of ms k = None"
    using "3.prems" by (auto simp: map_of_eq_None_iff)
  show ?case
  proof (cases "lt ek k")
    case True
    then have "ek \<noteq> k" "map_of ms ek = None"
      using "3.prems" e by (auto simp: map_of_eq_None_iff)
    with True 3 e show ?thesis by (auto split: option.splits)
  next
    case False
    have es_k: "map_of es k = None" if "k = ek"
      using "3.prems" e that by (auto simp: map_of_eq_None_iff)
    have "map_of (e # es) k = None" if "k \<noteq> ek"
      using "3.prems" e that False by (auto simp: map_of_eq_None_iff)
    with False 3 e ms_k es_k show ?thesis by (auto split: option.splits)
  qed
qed simp


lemma overlay_wf: "bt_wf ms \<Longrightarrow> bt_wf es \<Longrightarrow> bt_wf (overlay ms es)"
  by (rule merge_by_sorted) auto

lemma overlay_map_of:
  "bt_wf ms \<Longrightarrow> bt_wf es \<Longrightarrow>
    map_of (overlay ms es) x = (case map_of ms x of Some v \<Rightarrow> v | None \<Rightarrow> map_of es x)"
  by (rule merge_by_map_of) auto

lemma overlay_filter:
  assumes "bt_wf ms" and "bt_wf es"
  shows "overlay (filter (\<lambda>e. P (fst e)) ms) (filter (\<lambda>e. P (fst e)) es)
    = filter (\<lambda>e. P (fst e)) (overlay ms es)"
  using assms
  by (intro bt_eqI bt_wf_filter overlay_wf)
    (auto simp: fun_eq_iff overlay_map_of map_of_filter_key bt_wf_filter split: option.splits)

lemma map_of_rev: "distinct (map fst xs) \<Longrightarrow> map_of (rev xs) = map_of xs"
  by (rule map_of_inject_set [THEN iffD2]) (auto simp: rev_map [symmetric])

lemma merge_by_rev:
  assumes "bt_wf ms" and "bt_wf es"
  shows "merge_by (>) (rev ms) (rev es) = rev (overlay ms es)"
proof -
  let ?m = "merge_by (>) (rev ms) (rev es)"
  have rms: "sorted_wrt (>) (map fst (rev ms))" and res: "sorted_wrt (>) (map fst (rev es))"
    using assms by (simp_all add: rev_map [symmetric] sorted_wrt_rev)
  have srt: "sorted_wrt (>) (map fst ?m)"
    by (rule merge_by_sorted [OF _ rms res]) simp
  then have wf: "bt_wf (rev ?m)" by (simp add: rev_map [symmetric] sorted_wrt_rev)
  then have d: "distinct (map fst ?m)"
    by (metis bt_wf_distinct distinct_rev rev_map)
  have "map_of (rev ?m) x = map_of (overlay ms es) x" for x
    using merge_by_map_of [OF _ rms res, of x] assms d
    by (simp add: map_of_rev bt_wf_distinct overlay_map_of split: option.splits)
  then have "rev ?m = overlay ms es"
    using bt_eqI [OF wf overlay_wf [OF assms]] by blast
  then show ?thesis by (metis rev_rev_ident)
qed

lemma bt_insert_overlay:
  assumes "bt_wf ms" and "bt_wf es"
  shows "overlay (bt_insert k (Some v) ms) es = bt_insert k v (overlay ms es)"
    and "overlay (bt_insert k None ms) es = bt_remove k (overlay ms es)"
  using assms
  by (intro bt_eqI overlay_wf bt_wf_insert bt_wf_remove;
      auto simp: fun_eq_iff overlay_map_of overlay_wf bt_wf_insert split: option.splits)+

section \<open>The lazy merge computes the first merged entry\<close>

fun yields :: "('i \<Rightarrow> 'a result option \<times> 'i) \<Rightarrow> 'i \<Rightarrow> 'a list \<Rightarrow> bool" where
  "yields step it [] \<longleftrightarrow> fst (step it) = None"
| "yields step it (x # xs) \<longleftrightarrow> fst (step it) = Some (Ok x) \<and> yields step (snd (step it)) xs"

lemma iter_merge_next_first:
  assumes "yields step it es"
  shows "iter_merge_next step inc ms it = Ok (hd_opt (merge_by (if inc then (<) else (>)) ms es))"
  using assms
proof (induction ms arbitrary: it es)
  case Nil
  then show ?case by (cases es) auto
next
  case (Cons m ms)
  obtain k mv where m: "m = (k, mv)" by force
  show ?case
  proof (cases es)
    case Nil
    with Cons.prems Cons.IH [of it "[]"] m show ?thesis by (cases mv) auto
  next
    case (Cons e es')
    obtain ek ev where e: "e = (ek, ev)" by force
    from Cons Cons.prems have
      st: "fst (step it) = Some (Ok (ek, ev))" "yields step (snd (step it)) es'" by (auto simp: e)
    from Cons.IH [OF st(2)] Cons.IH [OF Cons.prems] m e Cons st(1) show ?thesis
      by (cases mv) (auto simp: not_less)
  qed
qed

context forward_reader
begin

lemma yields_iter_next: "iter_parent it = r \<Longrightarrow> yields iter_next it (iter_rest es it)"
proof (induction "iter_rest es it" arbitrary: it)
  case Nil
  then show ?case using iter_next_rest [of it] by (simp flip: Nil.hyps)
next
  case (Cons x xs)
  note step = iter_next_rest [OF Cons.prems, folded Cons.hyps(2)]
  have "yields iter_next (snd (iter_next it)) (iter_rest es (snd (iter_next it)))"
    using step by (intro Cons.hyps(1)) simp_all
  then show ?case using step unfolding Cons.hyps(2) [symmetric] by simp
qed

end

context lawful_reader
begin

lemma yields_iter_next_back: "iter_parent it = r \<Longrightarrow> yields iter_next_back it (rev (iter_rest es it))"
proof (induction "iter_rest es it" arbitrary: it rule: rev_induct)
  case Nil
  then show ?case using iter_next_back_rest [of it] by (simp flip: Nil.hyps)
next
  case (snoc x xs)
  note step = iter_next_back_rest [OF snoc.prems, folded snoc.hyps(2)]
  have "yields iter_next_back (snd (iter_next_back it)) (rev (iter_rest es (snd (iter_next_back it))))"
    using step by (intro snoc.hyps(1)) simp_all
  then show ?case using step unfolding snoc.hyps(2) [symmetric] by simp
qed

end

section \<open>A buffered store is a lawful store\<close>

lemma bounds_contain_after [simp]: "bounds_contain (Excluded k, Unbounded) x \<longleftrightarrow> k < x"
  by (simp add: bounds_contain_def)

lemma bounds_contain_before [simp]: "bounds_contain (Unbounded, Excluded k) x \<longleftrightarrow> x < k"
  by (simp add: bounds_contain_def)

lemma bounds_contain_all [simp]: "bounds_contain (Unbounded, Unbounded) x"
  by (simp add: bounds_contain_def)

text \<open>The entries of a buffered store and its well-formedness.\<close>

definition buf_ents :: "('s \<Rightarrow> kv list) \<Rightarrow> 's bufstore \<Rightarrow> kv list" where
  "buf_ents ents s = overlay (buf_map s) (ents (buf_store s))"

definition buf_invar :: "('s \<Rightarrow> bool) \<Rightarrow> 's bufstore \<Rightarrow> bool" where
  "buf_invar invar s \<longleftrightarrow> bt_wf (buf_map s) \<and> invar (buf_store s)"

context read_family
begin

lemma buf_reader_lawful:
  assumes "buf_invar invar s"
  shows "lawful_reader (buf_reader rd s) (buf_ents ents s)"
proof -
  let ?m = "buf_map s" and ?es = "ents (buf_store s)"
  have wf: "bt_wf ?m" and inner: "lawful_reader (rd (buf_store s)) ?es"
    using assms reads_lawful by (auto simp: buf_invar_def)
  have wfe: "bt_wf ?es" by (rule lawful_entries_wf [OF inner])
  show ?thesis
  proof
    show "bt_wf (buf_ents ents s)" by (simp add: buf_ents_def overlay_wf wf wfe)
    show "rd_get (buf_reader rd s) key = Ok (map_of (buf_ents ents s) key)" for key
      using lawful_get [OF inner]
      by (auto simp: buf_reader_def buf_get_def buf_ents_def overlay_map_of wf wfe split: option.splits)
    show "rd_get_next (buf_reader rd s) key = Ok (next_entry (buf_ents ents s) key)" for key
    proof -
      let ?b = "(Excluded key, Unbounded)"
      have "iter_merge_next iter_next True (bt_range ?b ?m) (into_iter (rd (buf_store s)) ?b)
          = Ok (hd_opt (overlay (bt_range ?b ?m) (bt_range ?b ?es)))"
        using iter_merge_next_first [OF forward_reader.yields_iter_next [OF lawful_forward [OF inner]], of "into_iter (rd (buf_store s)) ?b" True]
        by (simp add: lawful_iter_rest [OF inner])
      then show ?thesis
        using overlay_filter [OF wf wfe, of "\<lambda>x. key < x"]
        by (simp add: buf_reader_def buf_get_next_def exclusive_range_starting_from_def buf_ents_def
            next_entry_def bt_range_def)
    qed
    show "rd_get_prev (buf_reader rd s) ko = Ok (prev_entry (buf_ents ents s) ko)" for ko
    proof -
      define b :: "bytes bound \<times> bytes bound" where
        "b = (case ko of None \<Rightarrow> (Unbounded, Unbounded) | Some k \<Rightarrow> exclusive_range_ending_at k)"
      let ?P = "\<lambda>x. case ko of None \<Rightarrow> True | Some k \<Rightarrow> x < k"
      have P: "bounds_contain b x = ?P x" for x
        by (cases ko) (auto simp: b_def exclusive_range_ending_at_def)
      have "iter_merge_next iter_next_back False (rev (bt_range b ?m)) (into_iter (rd (buf_store s)) b)
          = Ok (hd_opt (merge_by (>) (rev (bt_range b ?m)) (rev (bt_range b ?es))))"
        using iter_merge_next_first [OF lawful_reader.yields_iter_next_back [OF inner], of "into_iter (rd (buf_store s)) b" False]
        by (simp add: lawful_iter_rest [OF inner])
      also have "\<dots> = Ok (last_opt (overlay (bt_range b ?m) (bt_range b ?es)))"
        by (simp add: merge_by_rev bt_wf_range wf wfe last_opt_def)
      also have "overlay (bt_range b ?m) (bt_range b ?es) = filter (\<lambda>e. ?P (fst e)) (overlay ?m ?es)"
        using overlay_filter [OF wf wfe, of ?P] by (simp add: bt_range_def P)
      finally show ?thesis
        by (simp add: buf_reader_def buf_get_prev_def buf_ents_def prev_entry_def Let_def b_def)
    qed
  qed
qed

lemma buf_backing_lawful:
  "lawful_backing (buf_backing rd) (buf_ents ents) (buf_invar invar) (\<lambda>_. True)"
proof (intro lawful_backing.intro read_family.intro lawful_backing_axioms.intro)
  fix s :: "'s bufstore" and key v
  assume inv: "buf_invar invar s"
  show "lawful_reader (bk_read (buf_backing rd) s) (buf_ents ents s)"
    using buf_reader_lawful [OF inv] by (simp add: buf_backing_def)
  have wf: "bt_wf (buf_map s)" and wfe: "bt_wf (ents (buf_store s))"
    using inv reads_lawful lawful_entries_wf by (auto simp: buf_invar_def)
  show "\<exists>s'. bk_put (buf_backing rd) key v s = (Ok (), s') \<and> buf_invar invar s' \<and>
      buf_ents ents s' = bt_insert key v (buf_ents ents s)"
    using inv bt_insert_overlay [OF wf wfe]
    by (auto simp: buf_backing_def buf_put_def buf_ents_def buf_invar_def)
  show "\<exists>s'. bk_delete (buf_backing rd) key s = (Ok (), s') \<and> buf_invar invar s' \<and>
      buf_ents ents s' = bt_remove key (buf_ents ents s)"
    using inv bt_insert_overlay [OF wf wfe]
    by (auto simp: buf_backing_def buf_delete_def buf_ents_def buf_invar_def)
qed

end

text \<open>What a flush relies on: writes are lawful, whatever the reads do.\<close>

locale writable_backing =
  fixes bk :: "'s backing" and ents :: "'s \<Rightarrow> kv list" and invar :: "'s \<Rightarrow> bool" and ok_key :: "bytes \<Rightarrow> bool"
  assumes write_wf: "invar s \<Longrightarrow> bt_wf (ents s)"
    and write_put: "invar s \<Longrightarrow> ok_key key \<Longrightarrow> \<exists>s'. bk_put bk key v s = (Ok (), s') \<and> invar s' \<and> ents s' = bt_insert key v (ents s)"
    and write_delete: "invar s \<Longrightarrow> \<exists>s'. bk_delete bk key s = (Ok (), s') \<and> invar s' \<and> ents s' = bt_remove key (ents s)"
begin

lemma flush_loop_ok:
  assumes "invar st" and "bt_wf m" and "\<forall>(k, v) \<in> set m. v \<noteq> None \<longrightarrow> ok_key k"
  shows "\<exists>st'. flush_loop bk m st = (Ok (), [], st') \<and> invar st' \<and> ents st' = overlay m (ents st)"
  using assms
proof (induction m arbitrary: st)
  case Nil
  then show ?case by simp
next
  case (Cons e m)
  obtain k v where e: "e = (k, v)" by force
  have wfe: "bt_wf (ents st)" using Cons.prems(1) by (rule write_wf)
  have "\<exists>st1. (case v of Some value \<Rightarrow> bk_put bk k value st | None \<Rightarrow> bk_delete bk k st) = (Ok (), st1)
      \<and> invar st1 \<and> ents st1 = (case v of Some x \<Rightarrow> bt_insert k x (ents st) | None \<Rightarrow> bt_remove k (ents st))"
    using Cons.prems write_put [of st k] write_delete [of st k] e by (cases v) auto
  then obtain st1 where st1: "(case v of Some value \<Rightarrow> bk_put bk k value st | None \<Rightarrow> bk_delete bk k st) = (Ok (), st1)"
    "invar st1" "ents st1 = (case v of Some x \<Rightarrow> bt_insert k x (ents st) | None \<Rightarrow> bt_remove k (ents st))"
    by blast
  have wf: "bt_wf m" and km: "map_of m k = None"
    using Cons.prems e by (auto simp: map_of_eq_None_iff)
  obtain st' where st': "flush_loop bk m st1 = (Ok (), [], st')" "invar st'" "ents st' = overlay m (ents st1)"
    using Cons.IH [OF st1(2) wf] Cons.prems by auto
  have wf1: "bt_wf (ents st1)" using st1 wfe by (auto split: option.splits)
  have "overlay m (ents st1) = overlay (e # m) (ents st)"
    using Cons.prems wf wf1 wfe km st1(3) e
    by (intro bt_eqI overlay_wf) (auto simp: fun_eq_iff overlay_map_of split: option.splits)
  with st1 st' e show ?case by auto
qed

lemma buf_flush_ok:
  assumes "buf_invar invar s" and "\<forall>(k, v) \<in> set (buf_map s). v \<noteq> None \<longrightarrow> ok_key k"
  shows "\<exists>st. buf_flush bk s = (Ok (), \<lparr>buf_map = [], buf_store = st\<rparr>) \<and> invar st \<and> ents st = buf_ents ents s"
  using flush_loop_ok [of "buf_store s" "buf_map s"] assms by (cases s) (auto simp: buf_flush_def buf_invar_def buf_ents_def)

lemma buf_writable: "writable_backing (buf_backing rd) (buf_ents ents) (buf_invar invar) (\<lambda>_. True)"
proof
  fix s :: "'s bufstore" and key v
  assume inv: "buf_invar invar s"
  have wf: "bt_wf (buf_map s)" and wfe: "bt_wf (ents (buf_store s))" using inv write_wf by (auto simp: buf_invar_def)
  show "bt_wf (buf_ents ents s)" unfolding buf_ents_def by (rule overlay_wf [OF wf wfe])
  show "\<exists>s'. bk_put (buf_backing rd) key v s = (Ok (), s') \<and> buf_invar invar s' \<and> buf_ents ents s' = bt_insert key v (buf_ents ents s)"
    using inv bt_insert_overlay [OF wf wfe] by (auto simp: buf_backing_def buf_put_def buf_ents_def buf_invar_def)
  show "\<exists>s'. bk_delete (buf_backing rd) key s = (Ok (), s') \<and> buf_invar invar s' \<and> buf_ents ents s' = bt_remove key (buf_ents ents s)"
    using inv bt_insert_overlay [OF wf wfe] by (auto simp: buf_backing_def buf_delete_def buf_ents_def buf_invar_def)
qed

end

context lawful_backing
begin

lemma writable: "writable_backing bk ents invar ok_key"
  using reads_lawful lawful_entries_wf put_law delete_law by unfold_locales blast+

end

sublocale lawful_backing \<subseteq> writing: writable_backing bk ents invar ok_key
  by (rule writable)

interpretation mapstore: lawful_backing mapstore_backing "buf_ents (\<lambda>_. [])" "buf_invar (\<lambda>_. True)" "\<lambda>_. True"
  unfolding mapstore_backing_def
  by (rule read_family.buf_backing_lawful)
    (simp add: read_family_def empty_store.lawful_reader_axioms)

interpretation bufmap: lawful_backing "buf_backing (bk_read mapstore_backing)"
  "buf_ents (buf_ents (\<lambda>_. []))" "buf_invar (buf_invar (\<lambda>_. True))" "\<lambda>_. True"
  by (rule mapstore.buf_backing_lawful)

section \<open>Properties\<close>

text \<open>
  (C27) Reading a buffered store: over any lawful store, \<open>buf_get\<close>, \<open>buf_get_next\<close> and
  \<open>buf_get_prev\<close> answer, without error, as one ascending list of entries does; looking a
  key up in this list gives the buffered value if the buffer has one, nothing if the
  buffer records a deletion, and the underlying value otherwise.
\<close>

theorem buf_store_view:
  assumes "lawful_reader (rd (buf_store s)) es" and "bt_wf (buf_map s)"
  shows "\<exists>es'. bt_wf es'
    \<and> (\<forall>k. map_of es' k = (case map_of (buf_map s) k of Some v \<Rightarrow> v | None \<Rightarrow> map_of es k))
    \<and> (\<forall>k. buf_get rd s k = Ok (map_of es' k))
    \<and> (\<forall>k. buf_get_next rd s k = Ok (next_entry es' k))
    \<and> (\<forall>ko. buf_get_prev rd s ko = Ok (prev_entry es' ko))"
proof -
  have "read_family rd (\<lambda>_. es) (\<lambda>st. st = buf_store s)" using assms(1) by (simp add: read_family_def)
  then have "lawful_reader (buf_reader rd s) (overlay (buf_map s) es)"
    using read_family.buf_reader_lawful [of rd "\<lambda>_. es"] assms(2) by (force simp: buf_invar_def buf_ents_def)
  then show ?thesis
    using assms lawful_entries_wf [OF assms(1)]
    by (intro exI [of _ "overlay (buf_map s) es"])
      (simp add: lawful_reader_def forward_reader_def lawful_reader_axioms_def buf_reader_def overlay_map_of)
qed

theorem buf_store_view_witness:
  "\<exists>es'. bt_wf es'
    \<and> (\<forall>k. map_of es' k = (case map_of [([1], None), ([2], Some [7])] k of Some v \<Rightarrow> v | None \<Rightarrow> None))
    \<and> (\<forall>k. buf_get (\<lambda>_::unit. empty_reader) \<lparr>buf_map = [([1], None), ([2], Some [7])], buf_store = ()\<rparr> k = Ok (map_of es' k))"
proof -
  let ?s = "\<lparr>buf_map = [([1], None), ([2], Some [7])], buf_store = ()\<rparr> :: mapstore"
  have wf: "bt_wf (buf_map ?s)" by simp
  show ?thesis using buf_store_view [OF _ wf, of "\<lambda>_. empty_reader" "[]"] empty_store.lawful_reader_axioms
    by auto
qed

text \<open>
  (C28) Flushing: when every buffered write has a key the underlying store accepts, \<open>buf_flush\<close>
  succeeds, empties the buffer and leaves in the underlying store exactly what the
  buffered store showed before, so that no read through the buffered store changes.
\<close>

theorem buf_flush_writes_through:
  assumes "lawful_backing bk ents invar ok_key" and "buf_invar invar s"
    and "\<forall>(k, v) \<in> set (buf_map s). v \<noteq> None \<longrightarrow> ok_key k"
  shows "\<exists>st. buf_flush bk s = (Ok (), \<lparr>buf_map = [], buf_store = st\<rparr>) \<and> invar st
    \<and> ents st = buf_ents ents s
    \<and> (\<forall>k. buf_get (bk_read bk) \<lparr>buf_map = [], buf_store = st\<rparr> k = buf_get (bk_read bk) s k)"
proof -
  have rf: "read_family (bk_read bk) ents invar" using assms(1) by (simp add: lawful_backing_def)
  obtain st where st: "flush_loop bk (buf_map s) (buf_store s) = (Ok (), [], st)" "invar st"
      "ents st = overlay (buf_map s) (ents (buf_store s))"
    using writable_backing.flush_loop_ok [OF lawful_backing.writable [OF assms(1)] _ _ assms(3)] assms(2) by (auto simp: buf_invar_def)
  let ?s' = "\<lparr>buf_map = [], buf_store = st\<rparr>"
  have inv: "buf_invar invar ?s'" using st by (simp add: buf_invar_def)
  have "buf_get (bk_read bk) ?s' k = buf_get (bk_read bk) s k" for k
    using lawful_get [OF read_family.buf_reader_lawful [OF rf inv], of k]
      lawful_get [OF read_family.buf_reader_lawful [OF rf assms(2)], of k] st
    by (simp add: buf_reader_def buf_ents_def)
  with st show ?thesis by (intro exI [of _ st]) (cases s, simp add: buf_flush_def buf_ents_def)
qed

theorem buf_flush_writes_through_witness:
  "\<exists>st. buf_flush mapstore_backing
        \<lparr>buf_map = [([1], None), ([2], Some [7])], buf_store = \<lparr>buf_map = [([1], Some [3])], buf_store = ()\<rparr>\<rparr>
      = (Ok (), \<lparr>buf_map = [], buf_store = st\<rparr>) \<and> buf_ents (\<lambda>_. []) st = [([2], [7])]"
  using buf_flush_writes_through [OF mapstore.lawful_backing_axioms,
      of "\<lparr>buf_map = [([1], None), ([2], Some [7])], buf_store = \<lparr>buf_map = [([1], Some [3])], buf_store = ()\<rparr>\<rparr>"]
  by (auto simp: buf_invar_def buf_ents_def)

text \<open>
  (C29) Iterating: over a lawful store, an iterator started on any bounds ends and yields
  exactly the entries within them, ascending with \<open>iter_next\<close> and descending with
  \<open>iter_next_back\<close>.
\<close>

theorem iter_collects_range:
  assumes "lawful_reader r es" and "length (bt_range b es) < fuel"
  shows "collect iter_next fuel (into_iter r b) = Some (Ok (bt_range b es))
    \<and> collect iter_next_back fuel (into_iter r b) = Some (Ok (rev (bt_range b es)))"
  using lawful_collect [OF assms(1), of "into_iter r b" fuel]
    lawful_reader.collect_iter_next_back [OF assms(1), of "into_iter r b" fuel] assms
  by (simp add: lawful_iter_rest)

theorem iter_collects_range_witness:
  "collect iter_next_back 3 (into_iter (buf_reader (\<lambda>_. empty_reader) \<lparr>buf_map = [([1], Some [3]), ([2], Some [7])], buf_store = ()\<rparr>)
     (Excluded [1], Unbounded)) = Some (Ok [([2], [7])])"
proof -
  let ?s = "\<lparr>buf_map = [([1], Some [3]), ([2], Some [7])], buf_store = ()\<rparr> :: mapstore"
  have "lawful_reader (buf_reader (\<lambda>_. empty_reader) ?s) [([1], [3]), ([2], [7])]"
    using mapstore.reads_lawful [of ?s]
    by (simp add: buf_invar_def buf_ents_def mapstore_backing_def buf_backing_def)
  from iter_collects_range [OF this, of "(Excluded [1], Unbounded)" 3] show ?thesis
    by (simp add: bt_range_def)
qed

end
