(* ===== verification/Partial_Store.thy ===== *)
theory Partial_Store
  imports Buf_Store
begin

text \<open>
  \<^verbatim>\<open>src/store/partialmap.rs\<close>: the store a light client assembles from proofs.  It holds some
  entries of a full store; an entry's flag says that it directly follows the preceding
  entry held, and \<open>right_edge\<close> that nothing follows the last one.  The store answers a read
  only when the entries held determine the answer, and fails with an unknown-key error
  otherwise.

  \<open>part_of\<close> states what the flags mean relative to the entries of the full store.  Under
  it, every answer is the full store's answer, and \<^verbatim>\<open>join\<close> of two parts of the same
  store does not panic and is a part of that store again.
\<close>

section \<open>The store\<close>

record partial_store =
  pm_map :: "(bytes, bool \<times> bytes) btree"
  pm_right_edge :: bool

definition pm_new :: partial_store where
  "pm_new = \<lparr>pm_map = [], pm_right_edge = False\<rparr>"

definition pm_from_map :: "(bytes, bool \<times> bytes) btree \<Rightarrow> bool \<Rightarrow> partial_store" where
  "pm_from_map m right_edge = \<lparr>pm_map = m, pm_right_edge = right_edge\<rparr>"

fun pm_join_loop ::
  "(bytes, bool \<times> bytes) btree \<Rightarrow> (bytes, bool \<times> bytes) btree \<Rightarrow> (bytes, bool \<times> bytes) btree result" where
  "pm_join_loop m [] = Ok m"
| "pm_join_loop m ((k, (c, v)) # other) = (case map_of m k of
      Some (c2, v2) \<Rightarrow>
        if v \<noteq> v2 then Panic
        else pm_join_loop (bt_insert k (c \<or> c2, v) m) other
    | None \<Rightarrow> pm_join_loop (bt_insert k (c, v) m) other)"

definition pm_join :: "partial_store \<Rightarrow> partial_store \<Rightarrow> partial_store result" where
  "pm_join self other = and_then (pm_join_loop (pm_map self) (pm_map other)) (\<lambda>m.
     Ok \<lparr>pm_map = m, pm_right_edge = pm_right_edge self \<or> pm_right_edge other\<rparr>)"

definition pm_get :: "partial_store \<Rightarrow> bytes \<Rightarrow> bytes option result" where
  "pm_get s key = (case map_of (pm_map s) key of
      Some (_, v) \<Rightarrow> Ok (Some v)
    | None \<Rightarrow>
        (case hd_opt (bt_range (exclusive_range_starting_from key) (pm_map s)) of
          Some (_, (c, _)) \<Rightarrow> if c then Ok None else Err (Error_StoreErr (GetUnknown key))
        | None \<Rightarrow> if pm_right_edge s then Ok None else Err (Error_StoreErr (GetUnknown key))))"

definition pm_get_next :: "partial_store \<Rightarrow> bytes \<Rightarrow> kv option result" where
  "pm_get_next s key = (case hd_opt (bt_range (exclusive_range_starting_from key) (pm_map s)) of
      Some (k, (c, v)) \<Rightarrow> if c then Ok (Some (k, v)) else Err (Error_StoreErr (GetNextUnknown key))
    | None \<Rightarrow> if pm_right_edge s then Ok None else Err (Error_StoreErr (GetNextUnknown key)))"

definition pm_get_prev :: "partial_store \<Rightarrow> bytes option \<Rightarrow> kv option result" where
  "pm_get_prev s key =
     (let range = (case key of
            None \<Rightarrow> (Unbounded, Unbounded)
          | Some key \<Rightarrow> exclusive_range_ending_at key);
          prev = last_opt (bt_range range (pm_map s));
          prev_key = (case prev of Some (k, _) \<Rightarrow> k | None \<Rightarrow> []);
          answer = map_option (\<lambda>(k, (_, v)). (k, v)) prev
      in case hd_opt (bt_range (exclusive_range_starting_from prev_key) (pm_map s)) of
           Some (_, (c, _)) \<Rightarrow> if c then Ok answer else Err (Error_StoreErr (GetPrevUnknown key))
         | None \<Rightarrow> if pm_right_edge s then Ok answer else Err (Error_StoreErr (GetPrevUnknown key)))"

definition pm_reader :: "partial_store \<Rightarrow> reader" where
  "pm_reader s = \<lparr>rd_get = pm_get s, rd_get_next = pm_get_next s, rd_get_prev = pm_get_prev s\<rparr>"

section \<open>Parts of a store\<close>

text \<open>No entry of the full store lies between \<open>k\<close> and the entry held before it.\<close>

definition follows_held :: "kv list \<Rightarrow> bytes set \<Rightarrow> bytes \<Rightarrow> bool" where
  "follows_held es held k \<longleftrightarrow> (\<forall>x \<in> fst ` set es. x < k \<longrightarrow> (\<exists>y \<in> held. x \<le> y \<and> y < k))"

definition part_of :: "partial_store \<Rightarrow> kv list \<Rightarrow> bool" where
  "part_of s es \<longleftrightarrow> bt_wf (pm_map s)
    \<and> (\<forall>(k, (c, v)) \<in> set (pm_map s). map_of es k = Some v
        \<and> (c \<longrightarrow> follows_held es (fst ` set (pm_map s)) k))
    \<and> (pm_right_edge s \<longrightarrow> (\<forall>x \<in> fst ` set es. \<exists>y \<in> fst ` set (pm_map s). x \<le> y))"

text \<open>The neighbours in an ascending list, characterised by what lies between.\<close>

lemma next_entry_eq_Some:
  assumes "bt_wf es"
  shows "next_entry es k = Some (k', v) \<longleftrightarrow>
    k < k' \<and> map_of es k' = Some v \<and> (\<forall>x \<in> fst ` set es. k < x \<longrightarrow> k' \<le> x)"
  using assms
proof (induction es)
  case (Cons e es)
  have "map_of es k' = Some v \<Longrightarrow> fst e < k'"
    using Cons.prems by (auto dest!: map_of_SomeD)
  moreover have "next_entry (e # es) k = (if k < fst e then Some e else next_entry es k)"
    by (simp add: next_entry_def)
  moreover have "map_of es (fst e) = None"
    using Cons.prems by (auto simp: map_of_eq_None_iff)
  ultimately show ?case using Cons by (cases e) (auto intro: less_imp_le)
qed (simp add: next_entry_def)

lemma next_entry_eq_None: "next_entry es k = None \<longleftrightarrow> (\<forall>x \<in> fst ` set es. x \<le> k)"
  by (auto simp: next_entry_def filter_empty_conv not_less)

lemma prev_entry_eq_Some:
  assumes "bt_wf es" and "\<And>k. P k \<longleftrightarrow> (case ko of None \<Rightarrow> True | Some k0 \<Rightarrow> k < k0)"
  shows "prev_entry es ko = Some (k', v) \<longleftrightarrow>
    P k' \<and> map_of es k' = Some v \<and> (\<forall>x \<in> fst ` set es. P x \<longrightarrow> x \<le> k')"
  using assms(1)
proof (induction es rule: rev_induct)
  case (snoc e es)
  have wf: "bt_wf es" and ub: "\<forall>x \<in> fst ` set es. x < fst e"
    using snoc.prems by (auto simp: sorted_wrt_append)
  have step: "prev_entry (es @ [e]) ko = (if P (fst e) then Some e else prev_entry es ko)"
    by (simp add: prev_entry_def assms(2))
  have dom: "map_of es k' = Some v \<Longrightarrow> k' < fst e"
    using ub by (auto dest!: map_of_SomeD)
  have "map_of es (fst e) = None" using ub by (auto simp: map_of_eq_None_iff)
  then show ?case using step dom ub snoc.IH [OF wf]
    by (cases e) (auto simp: map_add_def less_imp_le split: option.splits)
qed (simp add: prev_entry_def)

lemma prev_entry_eq_None:
  "prev_entry es ko = None \<longleftrightarrow> (\<forall>x \<in> fst ` set es. \<not> (case ko of None \<Rightarrow> True | Some k0 \<Rightarrow> x < k0))"
  by (auto simp: prev_entry_def filter_empty_conv)


lemma hd_range_next: "hd_opt (bt_range (exclusive_range_starting_from k) m) = next_entry m k"
  by (simp add: exclusive_range_starting_from_def bt_range_def next_entry_def)

lemma last_range_prev:
  "last_opt (bt_range (case ko of None \<Rightarrow> (Unbounded, Unbounded) | Some k \<Rightarrow> exclusive_range_ending_at k) m)
    = prev_entry m ko"
  by (cases ko) (simp_all add: exclusive_range_ending_at_def bt_range_def prev_entry_def)

lemmas pm_read_defs = pm_get_def pm_get_next_def pm_get_prev_def hd_range_next last_range_prev Let_def

definition pm_prev_key :: "partial_store \<Rightarrow> bytes option \<Rightarrow> bytes" where
  "pm_prev_key s ko = (case prev_entry (pm_map s) ko of Some (k, _) \<Rightarrow> k | None \<Rightarrow> [])"

lemma pm_get_prev_eq_Ok:
  "pm_get_prev s ko = Ok r \<longleftrightarrow>
    r = map_option (\<lambda>(k, (_, v)). (k, v)) (prev_entry (pm_map s) ko)
    \<and> (case next_entry (pm_map s) (pm_prev_key s ko) of
          Some (_, (c, _)) \<Rightarrow> c
        | None \<Rightarrow> pm_right_edge s)"
  unfolding pm_read_defs pm_prev_key_def [symmetric]
  by (cases "next_entry (pm_map s) (pm_prev_key s ko)") (auto split: if_splits)

text \<open>What the entries and flags of a part say about the full store.\<close>

lemma part_wf: "part_of s es \<Longrightarrow> bt_wf (pm_map s)"
  by (simp add: part_of_def)

lemma part_entry: "part_of s es \<Longrightarrow> map_of (pm_map s) k = Some (c, v) \<Longrightarrow> map_of es k = Some v"
  by (auto simp: part_of_def dest!: map_of_SomeD)

lemma part_follows:
  "part_of s es \<Longrightarrow> map_of (pm_map s) k = Some (True, v) \<Longrightarrow> follows_held es (fst ` set (pm_map s)) k"
  by (auto simp: part_of_def dest!: map_of_SomeD)

lemma part_right_edge:
  "part_of s es \<Longrightarrow> pm_right_edge s \<Longrightarrow> x \<in> fst ` set es \<Longrightarrow> \<exists>y \<in> fst ` set (pm_map s). x \<le> y"
  unfolding part_of_def by blast

lemma part_gap:
  assumes p: "part_of s es" and n: "next_entry (pm_map s) k = Some (k', True, v)"
    and x: "x \<in> fst ` set es" "x < k'"
  shows "x \<le> k \<and> (x = k \<longrightarrow> k \<in> fst ` set (pm_map s))"
proof -
  from n have "map_of (pm_map s) k' = Some (True, v)"
    and nx: "\<forall>y \<in> fst ` set (pm_map s). k < y \<longrightarrow> k' \<le> y"
    by (simp_all add: next_entry_eq_Some [OF part_wf [OF p]])
  then have "follows_held es (fst ` set (pm_map s)) k'" by (intro part_follows [OF p])
  with x obtain y where y: "y \<in> fst ` set (pm_map s)" "x \<le> y" "y < k'"
    unfolding follows_held_def by blast
  with nx have "y \<le> k" by (meson leD leI)
  with y show ?thesis by (metis order_trans order_antisym)
qed

lemma part_edge:
  assumes p: "part_of s es" "pm_right_edge s" and n: "next_entry (pm_map s) k = None"
    and x: "x \<in> fst ` set es"
  shows "x \<le> k \<and> (x = k \<longrightarrow> k \<in> fst ` set (pm_map s))"
proof -
  obtain y where "y \<in> fst ` set (pm_map s)" "x \<le> y" using part_right_edge [OF p x] by blast
  with n show ?thesis by (metis next_entry_eq_None order_trans order_antisym)
qed

text \<open>Every answer of a part is the answer of the full store.\<close>

lemma pm_get_sound:
  assumes p: "part_of s es" and r: "pm_get s k = Ok r"
  shows "r = map_of es k"
proof (cases "map_of (pm_map s) k")
  case None
  then have k: "k \<notin> fst ` set (pm_map s)" by (simp add: map_of_eq_None_iff)
  have "k \<notin> fst ` set es"
  proof (cases "next_entry (pm_map s) k")
    case None
    with r \<open>map_of (pm_map s) k = None\<close> have "pm_right_edge s" by (auto simp: pm_read_defs split: if_splits)
    from part_edge [OF p this None] k show ?thesis by blast
  next
    case (Some e)
    then obtain k' v where e: "next_entry (pm_map s) k = Some (k', True, v)"
      using r None by (cases e) (auto simp: pm_read_defs split: if_splits)
    then have "k < k'" by (simp add: next_entry_eq_Some [OF part_wf [OF p]])
    with part_gap [OF p e] k show ?thesis by blast
  qed
  then have "map_of es k = None" by (simp add: map_of_eq_None_iff)
  with r None show ?thesis by (auto simp: pm_read_defs split: option.splits if_splits)
next
  case (Some cv)
  with r part_entry [OF p, of k] show ?thesis by (cases cv) (auto simp: pm_get_def)
qed

lemma pm_get_next_sound:
  assumes p: "part_of s es" and wf: "bt_wf es" and r: "pm_get_next s k = Ok r"
  shows "r = next_entry es k"
proof (cases "next_entry (pm_map s) k")
  case None
  with r have "pm_right_edge s" "r = None" by (auto simp: pm_read_defs split: if_splits)
  with part_edge [OF p _ None] show ?thesis by (metis next_entry_eq_None)
next
  case (Some e)
  then obtain k' v where e: "next_entry (pm_map s) k = Some (k', True, v)" and "r = Some (k', v)"
    using r by (cases e) (auto simp: pm_read_defs split: if_splits)
  moreover have "k < k' \<and> map_of es k' = Some v"
    using e part_entry [OF p, of k'] by (auto simp: next_entry_eq_Some [OF part_wf [OF p]])
  ultimately show ?thesis
    using part_gap [OF p e] next_entry_eq_Some [OF wf, of k k' v] by (metis leD leI)
qed

lemma pm_get_prev_sound:
  assumes p: "part_of s es" and wf: "bt_wf es" and r: "pm_get_prev s ko = Ok r"
  shows "r = prev_entry es ko"
proof -
  define P where "P x = (case ko of None \<Rightarrow> True | Some k0 \<Rightarrow> x < k0)" for x
  have down: "P x" if "P y" "x \<le> y" for x y using that by (auto simp: P_def split: option.splits)
  let ?m = "pm_map s"
  define k0 where "k0 = pm_prev_key s ko"
  note prev_Some = prev_entry_eq_Some [OF _ P_def] and prev_None = prev_entry_eq_None [of _ ko, folded P_def]
  from r have r': "r = map_option (\<lambda>(k, (_, v)). (k, v)) (prev_entry ?m ko)"
    and nx: "case next_entry ?m k0 of Some (_, (c, _)) \<Rightarrow> c | None \<Rightarrow> pm_right_edge s"
    unfolding pm_get_prev_eq_Ok k0_def by simp_all
  have low: "x \<le> k0 \<and> (x = k0 \<longrightarrow> k0 \<in> fst ` set ?m)" if "x \<in> fst ` set es" "P x" for x
  proof (cases "next_entry ?m k0")
    case None
    with nx have "pm_right_edge s" by simp
    from part_edge [OF p this None that(1)] show ?thesis .
  next
    case (Some e)
    then obtain k' v where e: "next_entry ?m k0 = Some (k', True, v)"
      using nx by (cases e) auto
    then have k': "k0 < k'" "k' \<in> fst ` set ?m"
      by (auto simp: next_entry_eq_Some [OF part_wf [OF p]] dest!: map_of_SomeD intro: rev_image_eqI)
    have "x < k'"
    proof (rule ccontr)
      assume "\<not> x < k'"
      with that(2) down have "P k'" by (meson leI)
      with k' have "prev_entry ?m ko \<noteq> None" using prev_None by blast
      then obtain q where "prev_entry ?m ko = Some q" by blast
      then have "k' \<le> k0" using prev_Some [OF part_wf [OF p], of "fst q" "snd q"] k' \<open>P k'\<close>
        by (cases q) (auto simp: k0_def pm_prev_key_def)
      with k' show False by simp
    qed
    from part_gap [OF p e that(1) this] show ?thesis .
  qed
  show ?thesis
  proof (cases "prev_entry ?m ko")
    case None
    have "\<not> P x" if "x \<in> fst ` set es" for x
    proof
      assume "P x"
      moreover from this low [OF that] None have "x = []" "[] \<in> fst ` set ?m"
        by (auto simp: k0_def pm_prev_key_def)
      ultimately show False using None prev_None [of ?m] by blast
    qed
    with None r' show ?thesis using prev_None [of es] by simp
  next
    case (Some q)
    obtain k c v where q: "q = (k, c, v)" by (cases q) auto
    then have "P k \<and> map_of es k = Some v"
      using Some prev_Some [OF part_wf [OF p]] part_entry [OF p] by blast
    then show ?thesis using Some q r' low prev_Some [OF wf, of k v] by (simp add: k0_def pm_prev_key_def)
  qed
qed

section \<open>Joining\<close>

definition joined_entry :: "(bool \<times> bytes) option \<Rightarrow> (bool \<times> bytes) option \<Rightarrow> (bool \<times> bytes) option" where
  "joined_entry a b = (case b of
      None \<Rightarrow> a
    | Some (c, v) \<Rightarrow> (case a of None \<Rightarrow> Some (c, v) | Some (c2, _) \<Rightarrow> Some (c \<or> c2, v)))"

lemma pm_join_loop_ok:
  assumes "bt_wf m" and "distinct (map fst other)"
    and "\<And>k c v c2 v2. (k, c, v) \<in> set other \<Longrightarrow> map_of m k = Some (c2, v2) \<Longrightarrow> v = v2"
  shows "\<exists>m'. pm_join_loop m other = Ok m' \<and> bt_wf m' \<and>
    (\<forall>k. map_of m' k = joined_entry (map_of m k) (map_of other k))"
  using assms
proof (induction other arbitrary: m)
  case (Cons e other)
  obtain k c v where e: "e = (k, c, v)" by (cases e) auto
  define c' where "c' = (case map_of m k of Some (c2, _) \<Rightarrow> c \<or> c2 | None \<Rightarrow> c)"
  let ?m = "bt_insert k (c', v) m"
  have ko: "map_of other k = None" using Cons.prems(2) e by (simp add: map_of_eq_None_iff)
  have step: "pm_join_loop m (e # other) = pm_join_loop ?m other"
    using Cons.prems(3) [of k c v] by (auto simp: e c'_def split: option.splits)
  have "\<exists>m'. pm_join_loop ?m other = Ok m' \<and> bt_wf m' \<and>
      (\<forall>x. map_of m' x = joined_entry (map_of ?m x) (map_of other x))"
  proof (rule Cons.IH)
    show "bt_wf ?m" using Cons.prems(1) by auto
    show "distinct (map fst other)" using Cons.prems(2) by simp
    show "v1 = v2" if "(k1, c1, v1) \<in> set other" "map_of ?m k1 = Some (c2, v2)" for k1 c1 v1 c2 v2
    proof -
      have "k1 \<noteq> k" using that(1) Cons.prems(2) by (force simp: e)
      with that Cons.prems(3) [of k1 c1 v1 c2 v2] show ?thesis by simp
    qed
  qed
  moreover have "joined_entry (map_of ?m x) (map_of other x) = joined_entry (map_of m x) (map_of (e # other) x)" for x
    using ko by (cases "x = k") (auto simp: e joined_entry_def c'_def split: option.splits)
  ultimately show ?case unfolding step by simp
qed (auto simp: joined_entry_def)

lemma map_of_keys: "x \<in> fst ` set m \<longleftrightarrow> map_of m x \<noteq> None"
  by (simp add: map_of_eq_None_iff)

lemma part_of_map_of:
  assumes "bt_wf (pm_map s)"
  shows "part_of s es \<longleftrightarrow>
    (\<forall>k c v. map_of (pm_map s) k = Some (c, v) \<longrightarrow> map_of es k = Some v
      \<and> (c \<longrightarrow> follows_held es (fst ` set (pm_map s)) k))
    \<and> (pm_right_edge s \<longrightarrow> (\<forall>x \<in> fst ` set es. \<exists>y \<in> fst ` set (pm_map s). x \<le> y))"
  using assms by (auto simp: part_of_def bt_wf_distinct dest: map_of_SomeD)

lemma follows_held_mono: "follows_held es held k \<Longrightarrow> held \<subseteq> held' \<Longrightarrow> follows_held es held' k"
  by (fastforce simp: follows_held_def)

lemma joined_entry_from:
  assumes j: "joined_entry a b = Some (c, v)"
    and agree: "\<And>ca va cb vb. a = Some (ca, va) \<Longrightarrow> b = Some (cb, vb) \<Longrightarrow> va = vb"
  shows "\<exists>c'. (c \<longrightarrow> c') \<and> (a = Some (c', v) \<or> b = Some (c', v))"
proof (cases b)
  case (Some bv)
  with j show ?thesis by (cases bv; cases a) (use agree in \<open>auto simp: joined_entry_def\<close>)
qed (use j in \<open>auto simp: joined_entry_def\<close>)

lemma pm_join_part_of:
  assumes "part_of a es" and "part_of b es"
  shows "\<exists>s. pm_join a b = Ok s \<and> part_of s es
    \<and> fst ` set (pm_map s) = fst ` set (pm_map a) \<union> fst ` set (pm_map b)"
proof -
  note wf = assms [THEN part_wf]
  note pa = part_of_map_of [OF wf(1), THEN iffD1, OF assms(1)]
  note pb = part_of_map_of [OF wf(2), THEN iffD1, OF assms(2)]
  have agree: "va = vb" if "map_of (pm_map a) k = Some (ca, va)" "map_of (pm_map b) k = Some (cb, vb)" for k ca va cb vb
    using part_entry [OF assms(1) that(1)] part_entry [OF assms(2) that(2)] by simp
  have "v = v2" if "(k, c, v) \<in> set (pm_map b)" "map_of (pm_map a) k = Some (c2, v2)" for k c v c2 v2
    using agree [OF that(2), of c v] that(1) by (simp add: bt_wf_distinct [OF wf(2)])
  then obtain m where m: "pm_join_loop (pm_map a) (pm_map b) = Ok m" "bt_wf m"
      "\<forall>k. map_of m k = joined_entry (map_of (pm_map a) k) (map_of (pm_map b) k)"
    using pm_join_loop_ok [OF wf(1) bt_wf_distinct [OF wf(2)]] by blast
  let ?s = "\<lparr>pm_map = m, pm_right_edge = pm_right_edge a \<or> pm_right_edge b\<rparr>"
  have keys: "fst ` set m = fst ` set (pm_map a) \<union> fst ` set (pm_map b)"
    using m(3) by (auto simp: set_eq_iff map_of_keys joined_entry_def split: option.splits)
  have entry: "map_of es k = Some v \<and> (c \<longrightarrow> follows_held es (fst ` set m) k)" if k: "map_of m k = Some (c, v)" for k c v
  proof -
    have "\<exists>c'. (c \<longrightarrow> c') \<and> (map_of (pm_map a) k = Some (c', v) \<or> map_of (pm_map b) k = Some (c', v))"
      by (rule joined_entry_from) (use k m(3) agree in \<open>auto\<close>)
    then obtain c' where "c \<longrightarrow> c'" "map_of (pm_map a) k = Some (c', v) \<or> map_of (pm_map b) k = Some (c', v)"
      by blast
    then have "map_of es k = Some v \<and> (c \<longrightarrow> follows_held es (fst ` set (pm_map a)) k
        \<or> follows_held es (fst ` set (pm_map b)) k)"
      using part_entry [OF assms(1)] part_entry [OF assms(2)]
        part_follows [OF assms(1)] part_follows [OF assms(2)] by (cases c) auto
    then show ?thesis using follows_held_mono unfolding keys by (meson sup_ge1 sup_ge2)
  qed
  have "part_of ?s es"
    using entry pa pb keys part_of_map_of [of ?s es] m(2) by (simp; blast)
  with m keys show ?thesis by (simp add: pm_join_def)
qed

section \<open>Properties\<close>

text \<open>
  (C32) Every answer of a partial store is the answer of the full store it is a part of:
  no read returns a value, an absence or a neighbour that the full store would not.
\<close>

theorem partial_store_sound:
  assumes "part_of s es" and "bt_wf es"
  shows "(\<forall>r. pm_get s k = Ok r \<longrightarrow> r = map_of es k)
    \<and> (\<forall>r. pm_get_next s k = Ok r \<longrightarrow> r = next_entry es k)
    \<and> (\<forall>r. pm_get_prev s ko = Ok r \<longrightarrow> r = prev_entry es ko)"
  using pm_get_sound [OF assms(1)] pm_get_next_sound [OF assms] pm_get_prev_sound [OF assms] by blast

theorem partial_store_sound_witness:
  "pm_get_next \<lparr>pm_map = [([1], (False, [3])), ([2], (True, [4]))], pm_right_edge = False\<rparr> [1] = Ok (Some ([2], [4]))
   \<and> Some ([2], [4]) = next_entry [([0], [9]), ([1], [3]), ([2], [4]), ([5], [6 :: byte])] [1 :: byte]"
proof -
  let ?s = "\<lparr>pm_map = [([1], (False, [3])), ([2], (True, [4]))], pm_right_edge = False\<rparr> :: partial_store"
  let ?es = "[([0], [9]), ([1], [3]), ([2], [4]), ([5], [6])] :: kv list"
  have "part_of ?s ?es" by (simp add: part_of_def follows_held_def)
  moreover have "pm_get_next ?s [1] = Ok (Some ([2], [4]))"
    by (simp add: pm_get_next_def exclusive_range_starting_from_def bt_range_def)
  ultimately show ?thesis using partial_store_sound [of ?s ?es "[1]"] by simp
qed

text \<open>
  Joining two parts of the same store never panics; the result is a part of that
  store and holds the keys of both.
\<close>

lemma partial_store_join:
  assumes "part_of a es" and "part_of b es"
  shows "\<exists>s. pm_join a b = Ok s \<and> part_of s es
    \<and> fst ` set (pm_map s) = fst ` set (pm_map a) \<union> fst ` set (pm_map b)"
  by (rule pm_join_part_of [OF assms])

lemma partial_store_join_witness:
  "\<exists>s. pm_join \<lparr>pm_map = [([1], (True, [3]))], pm_right_edge = False\<rparr>
       \<lparr>pm_map = [([1], (False, [3])), ([2], (True, [4]))], pm_right_edge = True\<rparr> = Ok s
    \<and> part_of s [([1], [3]), ([2], [4])]"
proof -
  let ?es = "[([1], [3]), ([2], [4])] :: kv list"
  have "part_of \<lparr>pm_map = [([1], (True, [3]))], pm_right_edge = False\<rparr> ?es"
    "part_of \<lparr>pm_map = [([1], (False, [3])), ([2], (True, [4]))], pm_right_edge = True\<rparr> ?es"
    by (simp_all add: part_of_def follows_held_def)
  from partial_store_join [OF this] show ?thesis by blast
qed

end
