(* ===== verification/Prefix_Store.thy ===== *)
theory Prefix_Store
  imports Buf_Store
begin

text \<open>
  \<^verbatim>\<open>src/store/store.rs\<close>: a \<^verbatim>\<open>Store\<close> is a prefix and a shared handle on a backing store, and
  every operation works on the part of the key space below the prefix.  The handles
  that \<^verbatim>\<open>sub\<close> and \<^verbatim>\<open>clone\<close> make (\<^verbatim>\<open>src/store/share.rs\<close>) all refer to the same backing
  store, so the model passes the state of the one backing store along and a store is
  just its prefix.  \<^verbatim>\<open>src/store/log.rs\<close>, a wrapper that logs the keys it reads, is at the
  end.

  The contract of a sub-store is again \<open>lawful_backing\<close>, for every prefix that is empty or
  does not end in the byte 255; \<open>get_prev\<close> without a key is wrong for some stores with
  other prefixes, because \<open>increment_bytes\<close> does not return the least key above them.
\<close>

section \<open>The store\<close>

definition store_concat :: "bytes \<Rightarrow> bytes \<Rightarrow> bytes" where
  "store_concat a b = a @ b"

definition store_sub :: "bytes \<Rightarrow> bytes \<Rightarrow> bytes" where
  "store_sub self_prefix pfx = store_concat self_prefix pfx"

text \<open>\<^verbatim>\<open>with_prefix\<close> overrides the prefix of the handle.\<close>

definition store_with_prefix :: "bytes \<Rightarrow> bytes \<Rightarrow> bytes" where
  "store_with_prefix self_prefix pfx = pfx"

text \<open>
  \<^verbatim>\<open>increment_bytes\<close>: the loop runs from the last byte towards the first; \<open>increment_loop\<close>
  sees the bytes in that order and tells whether it returned early.
\<close>

fun increment_loop :: "bytes \<Rightarrow> bytes \<times> bool" where
  "increment_loop [] = ([], False)"
| "increment_loop (byte # bytes) =
     (if byte = 255 then (case increment_loop bytes of (bytes', returned) \<Rightarrow> (0 # bytes', returned))
      else ((byte + 1) # bytes, True))"

definition increment_bytes :: "bytes \<Rightarrow> bytes" where
  "increment_bytes bytes = (case increment_loop (rev bytes) of
      (bytes', True) \<Rightarrow> rev bytes'
    | (bytes', False) \<Rightarrow>
        let pushed = rev bytes' @ [0]
        in if 1 < length pushed then (hd pushed + 1) # tl pushed else pushed)"

text \<open>The \<^verbatim>\<open>filter\<close> and \<^verbatim>\<open>map\<close> that turn an entry of the backing store into one of the
  store.\<close>

definition store_strip :: "bytes \<Rightarrow> kv option \<Rightarrow> kv option" where
  "store_strip self_prefix maybe_kv = (case maybe_kv of
      None \<Rightarrow> None
    | Some (k, v) \<Rightarrow> if prefix self_prefix k then Some (drop (length self_prefix) k, v) else None)"

definition store_get :: "reader \<Rightarrow> bytes \<Rightarrow> bytes \<Rightarrow> bytes option result" where
  "store_get r self_prefix key = rd_get r (store_concat self_prefix key)"

definition store_get_next :: "reader \<Rightarrow> bytes \<Rightarrow> bytes \<Rightarrow> kv option result" where
  "store_get_next r self_prefix key =
     and_then (rd_get_next r (store_concat self_prefix key)) (\<lambda>kv. Ok (store_strip self_prefix kv))"

definition store_get_prev :: "reader \<Rightarrow> bytes \<Rightarrow> bytes option \<Rightarrow> kv option result" where
  "store_get_prev r self_prefix key = (case key of
      Some key \<Rightarrow>
        and_then (rd_get_prev r (Some (store_concat self_prefix key))) (\<lambda>kv. Ok (store_strip self_prefix kv))
    | None \<Rightarrow>
        let incremented = increment_bytes self_prefix;
            end_key = (if self_prefix \<noteq> [] then Some incremented else None)
        in and_then (rd_get_prev r end_key) (\<lambda>kv. Ok (store_strip self_prefix kv)))"

definition store_reader :: "reader \<Rightarrow> bytes \<Rightarrow> reader" where
  "store_reader r self_prefix = \<lparr>rd_get = store_get r self_prefix,
     rd_get_next = store_get_next r self_prefix, rd_get_prev = store_get_prev r self_prefix\<rparr>"

definition store_put :: "'s backing \<Rightarrow> bytes \<Rightarrow> bytes \<Rightarrow> bytes \<Rightarrow> ('s, unit) op" where
  "store_put bk self_prefix key value =
     (if 256 \<le> length key + length self_prefix
      then op_err (Error_Store ''Store keys must be < 256 bytes'')
      else bk_put bk (store_concat self_prefix key) value)"

definition store_delete :: "'s backing \<Rightarrow> bytes \<Rightarrow> bytes \<Rightarrow> ('s, unit) op" where
  "store_delete bk self_prefix key = bk_delete bk (store_concat self_prefix key)"

definition store_backing :: "'s backing \<Rightarrow> bytes \<Rightarrow> 's backing" where
  "store_backing bk self_prefix = \<lparr>bk_read = (\<lambda>s. store_reader (bk_read bk s) self_prefix),
     bk_put = store_put bk self_prefix, bk_delete = store_delete bk self_prefix\<rparr>"

text \<open>\<^verbatim>\<open>range\<close> iterates over a clone of the store.\<close>

definition store_range :: "reader \<Rightarrow> bytes \<Rightarrow> bytes bound \<times> bytes bound \<Rightarrow> iter" where
  "store_range r self_prefix bounds = into_iter (store_reader r self_prefix) bounds"

text \<open>
  \<^verbatim>\<open>remove_range\<close>: the iterator reads the backing store while the loop deletes from it,
  so each step looks at the state the last deletion left.
\<close>

fun remove_range_loop :: "'s backing \<Rightarrow> bytes \<Rightarrow> nat \<Rightarrow> iter \<Rightarrow> 's \<Rightarrow> (unit result \<times> 's) option" where
  "remove_range_loop bk self_prefix 0 it s = None"
| "remove_range_loop bk self_prefix (Suc fuel) it s =
    (case iter_next (it\<lparr>iter_parent := store_reader (bk_read bk s) self_prefix\<rparr>) of
      (None, _) \<Rightarrow> Some (Ok (), s)
    | (Some (Err e), _) \<Rightarrow> Some (Err e, s)
    | (Some Panic, _) \<Rightarrow> Some (Panic, s)
    | (Some (Ok (k, _)), it') \<Rightarrow>
        (case store_delete bk self_prefix k s of
          (Ok _, s') \<Rightarrow> remove_range_loop bk self_prefix fuel it' s'
        | (Err e, s') \<Rightarrow> Some (Err e, s')
        | (Panic, s') \<Rightarrow> Some (Panic, s')))"

definition store_remove_range ::
  "'s backing \<Rightarrow> bytes \<Rightarrow> nat \<Rightarrow> bytes bound \<times> bytes bound \<Rightarrow> 's \<Rightarrow> (unit result \<times> 's) option" where
  "store_remove_range bk self_prefix fuel bounds s =
     remove_range_loop bk self_prefix fuel (store_range (bk_read bk s) self_prefix bounds) s"

text \<open>The \<^verbatim>\<open>get_query\<close> and \<^verbatim>\<open>page\<close> queries.  The former reads the backing store itself,
  without the prefix.\<close>

definition store_get_query :: "reader \<Rightarrow> bytes \<Rightarrow> bytes \<Rightarrow> bytes option result" where
  "store_get_query r self_prefix key = rd_get r key"

definition store_page :: "reader \<Rightarrow> bytes \<Rightarrow> bytes \<Rightarrow> bytes option \<Rightarrow> u32 \<Rightarrow> kv list result" where
  "store_page r self_prefix start end_key limit =
     (let limit = min limit 100;
          start = Included start;
          end_bound = (case end_key of Some e \<Rightarrow> Included e | None \<Rightarrow> Unbounded)
      in collect_take iter_next (unat limit) (store_range r self_prefix (start, end_bound)))"

section \<open>Logging reads\<close>

record 's readlog =
  log_inner :: 's
  log_reads :: "bytes list"

definition readlog_new :: "'s \<Rightarrow> 's readlog" where
  "readlog_new inner = \<lparr>log_inner = inner, log_reads = []\<rparr>"

definition readlog_get :: "('s \<Rightarrow> reader) \<Rightarrow> bytes \<Rightarrow> ('s readlog, bytes option) op" where
  "readlog_get rd key = op_bind (op_upd (\<lambda>s. s\<lparr>log_reads := log_reads s @ [key]\<rparr>))
     (\<lambda>_. op_read (\<lambda>s. rd_get (rd (log_inner s)) key))"

definition readlog_get_next :: "('s \<Rightarrow> reader) \<Rightarrow> bytes \<Rightarrow> ('s readlog, kv option) op" where
  "readlog_get_next rd key = op_bind (op_upd (\<lambda>s. s\<lparr>log_reads := log_reads s @ [key]\<rparr>))
     (\<lambda>_. op_read (\<lambda>s. rd_get_next (rd (log_inner s)) key))"

definition readlog_get_prev :: "('s \<Rightarrow> reader) \<Rightarrow> bytes option \<Rightarrow> ('s readlog, kv option) op" where
  "readlog_get_prev rd key = op_bind (op_lift (unwrap key)) (\<lambda>k.
     op_bind (op_upd (\<lambda>s. s\<lparr>log_reads := log_reads s @ [k]\<rparr>))
       (\<lambda>_. op_read (\<lambda>s. rd_get_prev (rd (log_inner s)) key)))"

definition readlog_put :: "'s backing \<Rightarrow> bytes \<Rightarrow> bytes \<Rightarrow> ('s readlog, unit) op" where
  "readlog_put bk key value s = (case bk_put bk key value (log_inner s) of
     (r, inner) \<Rightarrow> (r, s\<lparr>log_inner := inner\<rparr>))"

definition readlog_delete :: "'s backing \<Rightarrow> bytes \<Rightarrow> ('s readlog, unit) op" where
  "readlog_delete bk key s = (case bk_delete bk key (log_inner s) of
     (r, inner) \<Rightarrow> (r, s\<lparr>log_inner := inner\<rparr>))"

section \<open>Incrementing\<close>

lemma increment_loop_all_255:
  "increment_loop (replicate n 255) = (replicate n 0, False)"
  by (induction n) auto

lemma increment_loop_carry:
  "b \<noteq> 255 \<Longrightarrow> increment_loop (replicate n 255 @ b # q) = (replicate n 0 @ (b + 1) # q, True)"
  by (induction n) auto

text \<open>A byte string that is not all 255 is incremented as a base-256 numeral.\<close>

lemma increment_bytes_carry:
  "b \<noteq> 255 \<Longrightarrow> increment_bytes (q @ b # replicate n 255) = q @ (b + 1) # replicate n 0"
  using increment_loop_carry [of b n "rev q"] by (simp add: increment_bytes_def)

lemma increment_bytes_last: "b \<noteq> 255 \<Longrightarrow> increment_bytes (q @ [b]) = q @ [b + 1]"
  using increment_bytes_carry [of b q 0] by simp

lemma increment_bytes_all_255:
  "n \<noteq> 0 \<Longrightarrow> increment_bytes (replicate n 255) = 1 # replicate n 0"
proof (cases n)
  case (Suc m)
  then show ?thesis
    using increment_loop_all_255 [of n]
    by (simp add: increment_bytes_def replicate_append_same flip: replicate_Suc)
qed simp

section \<open>The contract of a sub-store\<close>

definition sub_ents :: "bytes \<Rightarrow> kv list \<Rightarrow> kv list" where
  "sub_ents p es = map (\<lambda>e. (drop (length p) (fst e), snd e)) (filter (\<lambda>e. prefix p (fst e)) es)"

definition good_prefix :: "bytes \<Rightarrow> bool" where
  "good_prefix p \<longleftrightarrow> p = [] \<or> last p \<noteq> 255"

lemma drop_less_iff:
  "prefix p x \<Longrightarrow> k < drop (length p) x \<longleftrightarrow> p @ k < (x :: 'a::linorder list)"
  by (auto simp: prefix_def)

lemma drop_greater_iff:
  "prefix p x \<Longrightarrow> drop (length p) x < k \<longleftrightarrow> x < p @ (k :: 'a::linorder list)"
  by (auto simp: prefix_def)

lemma sub_ents_wf: "bt_wf es \<Longrightarrow> bt_wf (sub_ents p es)"
proof (induction es)
  case (Cons e es)
  show ?case
  proof (cases "prefix p (fst e)")
    case True
    have "drop (length p) (fst e) < drop (length p) (fst x)" if "x \<in> set es" "prefix p (fst x)" for x
      using that True Cons.prems by (auto simp: prefix_def)
    with Cons True show ?thesis by (auto simp: sub_ents_def)
  qed (use Cons in \<open>auto simp: sub_ents_def\<close>)
qed (simp add: sub_ents_def)

lemma map_of_sub_ents: "map_of (sub_ents p es) k = map_of es (p @ k)"
proof (induction es)
  case (Cons e es)
  show ?case
  proof (cases "prefix p (fst e)")
    case True
    then have "drop (length p) (fst e) = k \<longleftrightarrow> fst e = p @ k" by (auto simp: prefix_def)
    with Cons True show ?thesis by (cases e) (auto simp: sub_ents_def)
  next
    case False
    then have "fst e \<noteq> p @ k" by auto
    with Cons False show ?thesis by (cases e) (simp add: sub_ents_def)
  qed
qed (simp add: sub_ents_def)

lemma sub_ents_insert:
  "bt_wf es \<Longrightarrow> sub_ents p (bt_insert (p @ k) v es) = bt_insert k v (sub_ents p es)"
  by (rule bt_eqI) (auto simp: sub_ents_wf bt_wf_insert map_of_sub_ents fun_eq_iff)

lemma sub_ents_remove:
  "bt_wf es \<Longrightarrow> sub_ents p (bt_remove (p @ k) es) = bt_remove k (sub_ents p es)"
  by (rule bt_eqI) (auto simp: sub_ents_wf bt_wf_remove map_of_sub_ents fun_eq_iff)

lemma hd_opt_map: "hd_opt (map f xs) = map_option f (hd_opt xs)"
  by (cases xs) auto

lemma last_opt_map: "last_opt (map f xs) = map_option f (last_opt xs)"
  by (simp add: last_opt_def rev_map hd_opt_map)

lemma next_entry_sub:
  assumes "bt_wf es"
  shows "store_strip p (next_entry es (p @ k)) = next_entry (sub_ents p es) k"
proof -
  let ?P = "\<lambda>x. p @ k < x" and ?Q = "prefix p"
  have sub: "next_entry (sub_ents p es) k
      = map_option (\<lambda>e. (drop (length p) (fst e), snd e)) (hd_opt (filter (\<lambda>e. ?P (fst e) \<and> ?Q (fst e)) es))"
    by (auto simp: next_entry_def sub_ents_def filter_map o_def drop_less_iff hd_opt_map conj_commute
        cong: conj_cong)
  show ?thesis
  proof (cases "next_entry es (p @ k)")
    case None
    then have "hd_opt (filter (\<lambda>e. ?P (fst e) \<and> ?Q (fst e)) es) = None"
      by (auto simp: next_entry_def filter_empty_conv)
    with None sub show ?thesis by (simp add: store_strip_def)
  next
    case (Some e)
    have "hd_opt (filter (\<lambda>e. ?P (fst e) \<and> ?Q (fst e)) es) = (if ?Q (fst e) then Some e else None)"
      by (rule hd_opt_filter_conj [OF assms Some [unfolded next_entry_def]])
        (meson less_imp_le prefixI prefix_convex)
    with Some sub show ?thesis by (cases e) (auto simp: store_strip_def)
  qed
qed

lemma prev_entry_sub_bound:
  assumes "bt_wf es"
    and bound: "\<And>x. prefix p x \<Longrightarrow> x < b \<longleftrightarrow> P (drop (length p) x)"
    and convex: "\<And>x y. prefix p x \<Longrightarrow> x \<le> y \<Longrightarrow> y < b \<Longrightarrow> prefix p y"
  shows "store_strip p (prev_entry es (Some b)) = last_opt (filter (\<lambda>e. P (fst e)) (sub_ents p es))"
proof -
  let ?Q = "\<lambda>x. x < b" and ?P = "prefix p"
  have sub: "last_opt (filter (\<lambda>e. P (fst e)) (sub_ents p es))
      = map_option (\<lambda>e. (drop (length p) (fst e), snd e)) (last_opt (filter (\<lambda>e. ?P (fst e) \<and> ?Q (fst e)) es))"
    by (simp add: sub_ents_def filter_map o_def last_opt_map bound cong: conj_cong)
  show ?thesis
  proof (cases "prev_entry es (Some b)")
    case None
    then have "last_opt (filter (\<lambda>e. ?P (fst e) \<and> ?Q (fst e)) es) = None"
      by (auto simp: prev_entry_def filter_empty_conv)
    with None sub show ?thesis by (simp add: store_strip_def)
  next
    case (Some e)
    have "last_opt (filter (\<lambda>e. ?P (fst e) \<and> ?Q (fst e)) es) = (if ?P (fst e) then Some e else None)"
      using convex by (intro last_opt_filter_conj [OF assms(1)]) (use Some in \<open>auto simp: prev_entry_def\<close>)
    with Some sub show ?thesis by (cases e) (auto simp: store_strip_def)
  qed
qed

lemma prev_entry_sub_Some:
  assumes "bt_wf es"
  shows "store_strip p (prev_entry es (Some (p @ k))) = prev_entry (sub_ents p es) (Some k)"
  using prev_entry_sub_bound [OF assms, of p "p @ k" "\<lambda>x. x < k"]
  by (auto simp: prev_entry_def drop_greater_iff) (meson less_imp_le prefixI prefix_convex)

lemma prev_entry_sub_None:
  assumes "bt_wf es" and "good_prefix p" and "p \<noteq> []"
  shows "store_strip p (prev_entry es (Some (increment_bytes p))) = prev_entry (sub_ents p es) None"
proof -
  obtain q b where p: "p = q @ [b]" using \<open>p \<noteq> []\<close> by (metis rev_exhaust)
  have b: "b \<noteq> 255" using assms p by (auto simp: good_prefix_def)
  have inc: "increment_bytes p = q @ [b + 1]" by (simp add: p increment_bytes_last b)
  have below: "x < q @ [b + 1]" if "prefix p x" for x
    using that byte_succ(2) [OF b] by (auto simp: p prefix_def)
  have convex: "prefix p y" if x: "prefix p x" and "x \<le> y" and y: "y < q @ [b + 1]" for x y
  proof -
    have "prefix q y"
      using prefix_convex [of q x "q @ [b + 1]" y] that by (auto simp: p prefix_def intro: less_imp_le)
    then obtain z where z: "y = q @ z" by (auto simp: prefix_def)
    with that obtain c z' where "z = c # z'" by (cases z) (auto simp: p prefix_def)
    with that z b show ?thesis by (auto simp: p prefix_def byte_less_succ_iff)
  qed
  show ?thesis
    unfolding inc prev_entry_def [of "sub_ents p es"]
    using prev_entry_sub_bound [OF assms(1) _ convex, where P = "\<lambda>_. True"] below by simp
qed

context forward_reader
begin

lemma store_reader_forward: "forward_reader (store_reader r p) (sub_ents p es)"
proof
  show "bt_wf (sub_ents p es)" by (rule sub_ents_wf [OF entries_wf])
  show "rd_get (store_reader r p) key = Ok (map_of (sub_ents p es) key)" for key
    by (simp add: store_reader_def store_get_def store_concat_def get_law map_of_sub_ents)
  show "rd_get_next (store_reader r p) key = Ok (next_entry (sub_ents p es) key)" for key
    by (simp add: store_reader_def store_get_next_def store_concat_def get_next_law
        next_entry_sub [OF entries_wf])
qed

end

lemmas lawful_store_reader_forward = forward_reader.store_reader_forward [OF lawful_forward]

context lawful_reader
begin

lemma store_reader_lawful:
  assumes "good_prefix p"
  shows "lawful_reader (store_reader r p) (sub_ents p es)"
proof (intro lawful_reader.intro store_reader_forward lawful_reader_axioms.intro)
  show "rd_get_prev (store_reader r p) ko = Ok (prev_entry (sub_ents p es) ko)" for ko
  proof (cases ko)
    case None
    show ?thesis
    proof (cases "p = []")
      case True
      have "sub_ents [] es = es" by (simp add: sub_ents_def)
      moreover have "store_strip [] x = x" for x by (auto simp: store_strip_def split: option.splits)
      ultimately show ?thesis using True None by (simp add: store_reader_def store_get_prev_def get_prev_law)
    next
      case False
      with None show ?thesis
        using prev_entry_sub_None [OF entries_wf assms] by (simp add: store_reader_def store_get_prev_def get_prev_law)
    qed
  next
    case (Some k)
    then show ?thesis
      using prev_entry_sub_Some [OF entries_wf] by (simp add: store_reader_def store_get_prev_def store_concat_def get_prev_law)
  qed
qed

end

context lawful_backing
begin

lemma store_backing_lawful:
  assumes "good_prefix p"
  shows "lawful_backing (store_backing bk p) (\<lambda>s. sub_ents p (ents s)) invar
    (\<lambda>k. length k + length p < 256 \<and> ok_key (p @ k))"
proof (intro lawful_backing.intro read_family.intro lawful_backing_axioms.intro)
  fix s key v
  assume inv: "invar s"
  show "lawful_reader (bk_read (store_backing bk p) s) (sub_ents p (ents s))"
    using lawful_reader.store_reader_lawful [OF reads_lawful [OF inv] assms] by (simp add: store_backing_def)
  have wf: "bt_wf (ents s)" by (rule lawful_entries_wf [OF reads_lawful [OF inv]])
  show "\<exists>s'. bk_put (store_backing bk p) key v s = (Ok (), s') \<and> invar s' \<and>
      sub_ents p (ents s') = bt_insert key v (sub_ents p (ents s))"
    if "length key + length p < 256 \<and> ok_key (p @ key)"
    using put_law [OF inv, of "p @ key" v] that sub_ents_insert [OF wf]
    by (auto simp: store_backing_def store_put_def store_concat_def)
  show "\<exists>s'. bk_delete (store_backing bk p) key s = (Ok (), s') \<and> invar s' \<and>
      sub_ents p (ents s') = bt_remove key (sub_ents p (ents s))"
    using delete_law [OF inv, of "p @ key"] sub_ents_remove [OF wf]
    by (auto simp: store_backing_def store_delete_def store_concat_def)
qed

text \<open>
  Deleting what an iterator yields: the entries it has still to yield are those of the
  current store in its range, because the deleted keys lie before its position.
\<close>

lemma remove_range_loop_removes:
  assumes "invar s" and "\<not> iter_done it"
    and "length (bt_range (iter_bounds it) (sub_ents p (ents s))) < fuel"
  shows "\<exists>s'. remove_range_loop bk p fuel it s = Some (Ok (), s') \<and> invar s' \<and>
    sub_ents p (ents s') = filter (\<lambda>e. \<not> bounds_contain (iter_bounds it) (fst e)) (sub_ents p (ents s))
    \<and> filter (\<lambda>e. \<not> prefix p (fst e)) (ents s') = filter (\<lambda>e. \<not> prefix p (fst e)) (ents s)"
  using assms
proof (induction fuel arbitrary: it s)
  case 0
  then show ?case by simp
next
  case (Suc fuel)
  let ?it = "it\<lparr>iter_parent := store_reader (bk_read bk s) p\<rparr>" and ?es = "sub_ents p (ents s)"
  obtain lo hi where b: "iter_bounds it = (lo, hi)" by force
  have r: "forward_reader (store_reader (bk_read bk s) p) ?es"
    by (rule lawful_store_reader_forward [OF reads_lawful [OF Suc.prems(1)]])
  have rest: "iter_rest ?es ?it = bt_range (lo, hi) ?es"
    using Suc.prems(2) b by (simp add: iter_rest_def)
  note step = forward_reader.iter_next_rest [OF r, of ?it, simplified, unfolded rest]
  have wf: "bt_wf ?es" by (rule forward_reader.entries_wf [OF r])
  show ?case
  proof (cases "bt_range (lo, hi) ?es")
    case Nil
    then have "fst (iter_next ?it) = None" using step by simp
    moreover have "filter (\<lambda>e. \<not> bounds_contain (lo, hi) (fst e)) ?es = ?es"
      using Nil by (auto simp: bt_range_def filter_empty_conv)
    ultimately show ?thesis using Suc.prems(1) b by (cases "iter_next ?it") auto
  next
    case (Cons e rest')
    obtain k v where e: "e = (k, v)" by force
    obtain it' where n: "iter_next ?it = (Some (Ok (k, v)), it')" and bnd: "iter_bounds it' = (Excluded k, hi)"
      and nd: "\<not> iter_done it'"
    proof -
      from step Cons e have f: "fst (iter_next ?it) = Some (Ok (k, v))" by simp
      then show ?thesis
        using that b Suc.prems(2)
        by (auto simp: iter_next_def Let_def split: if_splits option.splits result.splits)
    qed
    have wfs: "bt_wf (ents s)" by (rule lawful_entries_wf [OF reads_lawful [OF Suc.prems(1)]])
    obtain s1 where s1: "store_delete bk p k s = (Ok (), s1)" "invar s1" "ents s1 = bt_remove (p @ k) (ents s)"
      using delete_law [OF Suc.prems(1), of "p @ k"] by (auto simp: store_delete_def store_concat_def)
    have es1: "sub_ents p (ents s1) = bt_remove k ?es" using s1(3) sub_ents_remove [OF wfs] by simp
    have kin: "bounds_contain (lo, hi) k" using Cons e by (auto simp: bt_range_def filter_eq_Cons_iff)
    have up: "above_start lo x" if "k < x" for x
      using that kin above_start_mono [of lo k x] by (auto simp: bounds_contain_def)
    have "filter (\<lambda>x. k < fst x \<and> bounds_contain (lo, hi) (fst x)) ?es = rest'"
      using filter_Cons_greater [OF wf Cons [unfolded bt_range_def]] e by simp
    then have rest1: "bt_range (Excluded k, hi) ?es = rest'"
      by (auto simp: bt_range_def bounds_contain_def up cong: conj_cong)
    have "bt_range (Excluded k, hi) (bt_remove k ?es) = rest'"
      using rest1 by (auto simp: bt_range_def bt_remove_def bounds_contain_def intro: filter_cong)
    with Suc.prems(3) b Cons have "length (bt_range (iter_bounds it') (sub_ents p (ents s1))) < fuel"
      by (simp add: bnd es1)
    from Suc.IH [OF s1(2) nd this] obtain s' where s':
      "remove_range_loop bk p fuel it' s1 = Some (Ok (), s')" "invar s'"
      "sub_ents p (ents s') = filter (\<lambda>e. \<not> bounds_contain (Excluded k, hi) (fst e)) (bt_remove k ?es)"
      "filter (\<lambda>e. \<not> prefix p (fst e)) (ents s') = filter (\<lambda>e. \<not> prefix p (fst e)) (ents s1)"
      by (auto simp: bnd es1)
    have first: "k \<le> fst x" if "x \<in> set ?es" "bounds_contain (lo, hi) (fst x)" for x
    proof -
      have "x \<in> set (bt_range (lo, hi) ?es)" using that by (simp add: bt_range_def)
      then have "x \<in> set (e # rest')" unfolding Cons .
      moreover have "bt_wf (e # rest')" using wf Cons bt_wf_range by metis
      ultimately show ?thesis by (auto simp: e intro: less_imp_le)
    qed
    have "filter (\<lambda>e. \<not> bounds_contain (Excluded k, hi) (fst e)) (bt_remove k ?es)
        = filter (\<lambda>e. \<not> bounds_contain (lo, hi) (fst e)) ?es"
      unfolding bt_remove_def filter_filter
    proof (rule filter_cong [OF refl])
      fix x assume x: "x \<in> set ?es"
      show "(fst x \<noteq> k \<and> \<not> bounds_contain (Excluded k, hi) (fst x)) = (\<not> bounds_contain (lo, hi) (fst x))"
        using first [OF x] up [of "fst x"] kin
        by (cases "fst x" k rule: linorder_cases) (auto simp: bounds_contain_def)
    qed
    moreover have "filter (\<lambda>e. \<not> prefix p (fst e)) (ents s1) = filter (\<lambda>e. \<not> prefix p (fst e)) (ents s)"
      by (auto simp: s1(3) bt_remove_def intro: filter_cong)
    ultimately show ?thesis using s' s1(1) n b by auto
  qed
qed

end

interpretation root_store: lawful_backing "store_backing mapstore_backing []"
  "\<lambda>s. sub_ents [] (buf_ents (\<lambda>_. []) s)" "buf_invar (\<lambda>_. True)" "\<lambda>k. length k < 256"
  using mapstore.store_backing_lawful [of "[]"] by (simp add: good_prefix_def)

section \<open>Properties\<close>

text \<open>
  (C30) The contract of a sub-store: over any lawful backing store, a store whose prefix is
  empty or does not end in 255 is a lawful store again, and its entries are those of the
  backing store below the prefix, with the prefix removed.  Writes are accepted exactly for
  keys of fewer than 256 bytes, counting the prefix.
\<close>

theorem sub_store_contract:
  assumes "lawful_backing bk ents invar (\<lambda>_. True)" and "good_prefix p" and "invar s"
  shows "store_get (bk_read bk s) p k = Ok (map_of (sub_ents p (ents s)) k)
    \<and> store_get_next (bk_read bk s) p k = Ok (next_entry (sub_ents p (ents s)) k)
    \<and> store_get_prev (bk_read bk s) p ko = Ok (prev_entry (sub_ents p (ents s)) ko)
    \<and> (\<exists>s'. store_delete bk p k s = (Ok (), s') \<and> invar s' \<and> ents s' = bt_remove (p @ k) (ents s)
          \<and> sub_ents p (ents s') = bt_remove k (sub_ents p (ents s)))
    \<and> (if length k + length p < 256
       then \<exists>s'. store_put bk p k v s = (Ok (), s') \<and> invar s' \<and> ents s' = bt_insert (p @ k) v (ents s)
          \<and> sub_ents p (ents s') = bt_insert k v (sub_ents p (ents s))
       else store_put bk p k v s = (Err (Error_Store ''Store keys must be < 256 bytes''), s))"
proof -
  have rd: "lawful_reader (bk_read bk s) (ents s)"
    using assms by (simp add: lawful_backing_def read_family_def)
  note wf = lawful_entries_wf [OF rd]
  have sub: "lawful_reader (store_reader (bk_read bk s) p) (sub_ents p (ents s))"
    by (rule lawful_reader.store_reader_lawful [OF rd assms(2)])
  show ?thesis
    using lawful_get [OF sub] lawful_get_next [OF sub] lawful_reader.get_prev_law [OF sub]
      lawful_backing.delete_law [OF assms(1,3), of "p @ k"] lawful_backing.put_law [OF assms(1,3), of "p @ k" v]
      sub_ents_insert [OF wf] sub_ents_remove [OF wf]
    by (auto simp: store_reader_def store_delete_def store_put_def store_concat_def)
qed

theorem sub_store_contract_witness:
  "store_get_prev (bk_read mapstore_backing \<lparr>buf_map = [([1, 2], Some [3]), ([1, 4], Some [5]), ([2], Some [7])], buf_store = ()\<rparr>)
     [1] None = Ok (Some ([4], [5]))"
proof -
  let ?s = "\<lparr>buf_map = [([1, 2], Some [3]), ([1, 4], Some [5]), ([2], Some [7])], buf_store = ()\<rparr> :: mapstore"
  have "sub_ents [1] (buf_ents (\<lambda>_. []) ?s) = [([2], [3]), ([4], [5])]"
    by (simp add: sub_ents_def buf_ents_def)
  moreover have "prev_entry [([2], [3]), ([4], [5])] None = Some ([4], [5] :: bytes)"
    by (simp add: prev_entry_def last_opt_def)
  ultimately show ?thesis
    using sub_store_contract [OF mapstore.lawful_backing_axioms, of "[1]" ?s, where ko = None]
    by (simp add: good_prefix_def buf_invar_def)
qed

text \<open>
  (C31) Isolation: what is written below one prefix is invisible below every prefix that is
  neither an extension nor an initial part of it.
\<close>

theorem sub_store_isolation:
  assumes "lawful_backing bk ents invar (\<lambda>_. True)" and "invar s"
    and "\<not> prefix p q" and "\<not> prefix q p"
    and "store_put bk p k v s = (Ok (), s') \<or> store_delete bk p k s = (Ok (), s')"
  shows "sub_ents q (ents s') = sub_ents q (ents s)"
proof -
  have ents: "ents s' = bt_insert (p @ k) v (ents s) \<or> ents s' = bt_remove (p @ k) (ents s)"
    using assms(5) lawful_backing.put_law [OF assms(1,2), of "p @ k" v]
      lawful_backing.delete_law [OF assms(1,2), of "p @ k"]
    by (auto simp: store_put_def store_delete_def store_concat_def split: if_splits)
  have rd: "lawful_reader (bk_read bk s) (ents s)"
    using assms by (simp add: lawful_backing_def read_family_def)
  note wf = lawful_entries_wf [OF rd]
  have "q @ x \<noteq> p @ k" for x using assms(3,4) by (metis prefix_same_cases prefixI)
  then have "map_of (sub_ents q (ents s')) x = map_of (sub_ents q (ents s)) x" for x
    using ents by (auto simp: map_of_sub_ents)
  moreover have "bt_wf (ents s')" using ents wf by auto
  ultimately show ?thesis using wf by (intro bt_eqI sub_ents_wf) auto
qed

theorem sub_store_isolation_witness:
  "sub_ents [2] (buf_ents (\<lambda>_. []) (snd (store_put mapstore_backing [1] [9] [8] \<lparr>buf_map = [([2, 1], Some [3])], buf_store = ()\<rparr>)))
     = sub_ents [2] [([2, 1], [3])]"
proof -
  let ?s = "\<lparr>buf_map = [([2, 1], Some [3])], buf_store = ()\<rparr> :: mapstore"
  have "store_put mapstore_backing [1] [9] [8] ?s = (Ok (), snd (store_put mapstore_backing [1] [9] [8] ?s))"
    by (simp add: store_put_def store_concat_def mapstore_backing_def buf_backing_def buf_put_def)
  then show ?thesis
    using sub_store_isolation [OF mapstore.lawful_backing_axioms, of ?s "[1]" "[2]" "[9]" "[8]"]
    by (simp add: buf_invar_def buf_ents_def)
qed

text \<open>
  \<open>store_remove_range\<close> ends, deletes exactly the entries of the store within the
  bounds, and touches no entry outside the prefix.
\<close>

lemma remove_range_removes:
  assumes "lawful_backing bk ents invar ok_key" and "invar s"
    and "length (bt_range b (sub_ents p (ents s))) < fuel"
  shows "\<exists>s'. store_remove_range bk p fuel b s = Some (Ok (), s') \<and> invar s'
    \<and> sub_ents p (ents s') = filter (\<lambda>e. \<not> bounds_contain b (fst e)) (sub_ents p (ents s))
    \<and> filter (\<lambda>e. \<not> prefix p (fst e)) (ents s') = filter (\<lambda>e. \<not> prefix p (fst e)) (ents s)"
  using lawful_backing.remove_range_loop_removes [OF assms(1), of s
      "store_range (bk_read bk s) p b" p fuel] assms(2,3)
  by (simp add: store_remove_range_def store_range_def into_iter_def iter_new_def)

lemma remove_range_removes_witness:
  "\<exists>s'. store_remove_range mapstore_backing [1] 3 (Included [2], Unbounded)
      \<lparr>buf_map = [([1, 1], Some [3]), ([1, 2], Some [5]), ([2], Some [7])], buf_store = ()\<rparr> = Some (Ok (), s')
    \<and> sub_ents [1] (buf_ents (\<lambda>_. []) s') = [([1], [3])]"
  using remove_range_removes [OF mapstore.lawful_backing_axioms, of
      "\<lparr>buf_map = [([1, 1], Some [3]), ([1, 2], Some [5]), ([2], Some [7])], buf_store = ()\<rparr>"
      "(Included [2], Unbounded)" "[1]" 3]
  by (auto simp: buf_invar_def buf_ents_def sub_ents_def bt_range_def bounds_contain_def)

text \<open>
  \<open>store_page\<close> returns the entries from the start key to the end key, at most \<open>limit\<close>
  and never more than 100 of them.
\<close>

lemma store_page_bounded:
  assumes "lawful_reader r es"
  shows "store_page r p start end_key limit = Ok (take (min (unat limit) 100)
    (filter (\<lambda>e. start \<le> fst e \<and> (case end_key of Some e' \<Rightarrow> fst e \<le> e' | None \<Rightarrow> True)) (sub_ents p es)))"
proof -
  note sub = lawful_store_reader_forward [OF assms]
  have "unat (min limit 100) = min (unat limit) 100" by (simp add: min_def word_le_nat_alt)
  then show ?thesis
    using forward_reader.collect_take_iter_next [OF sub, of "store_range r p (Included start, case end_key of Some e \<Rightarrow> Included e | None \<Rightarrow> Unbounded)"]
    by (cases end_key) (simp_all add: store_page_def store_range_def forward_reader.iter_rest_into_iter [OF sub]
        bt_range_def bounds_contain_def)
qed

lemma store_page_bounded_example:
  "store_page empty_reader [1] [] None 500 = Ok []"
  using store_page_bounded [OF empty_store.lawful_reader_axioms, of "[1]" "[]" None 500]
  by (simp add: sub_ents_def)

text \<open>
  For other prefixes the contract of \<open>store_get_prev\<close> fails: below the prefix
  \<open>[1, 255]\<close> there is an entry, but asking for the last one finds nothing, because
  \<open>increment_bytes\<close> gives \<open>[2, 0]\<close>, above which the unrelated key \<open>[2]\<close> comes first.
\<close>

lemma get_prev_misses_entry:
  "let s = \<lparr>buf_map = [([1, 255, 7], Some [3]), ([2], Some [5])], buf_store = ()\<rparr> :: mapstore
   in store_get (bk_read mapstore_backing s) [1, 255] [7] = Ok (Some [3])
    \<and> store_get_next (bk_read mapstore_backing s) [1, 255] [] = Ok (Some ([7], [3]))
    \<and> store_get_prev (bk_read mapstore_backing s) [1, 255] None = Ok None"
proof -
  let ?s = "\<lparr>buf_map = [([1, 255, 7], Some [3]), ([2], Some [5])], buf_store = ()\<rparr> :: mapstore"
  let ?es = "[([1, 255, 7], [3]), ([2], [5])] :: kv list"
  have rd: "lawful_reader (bk_read mapstore_backing ?s) ?es"
    using mapstore.reads_lawful [of ?s] by (simp add: buf_invar_def buf_ents_def)
  have "increment_bytes [1, 255] = [2, 0]" by (simp add: increment_bytes_def)
  moreover have "prev_entry ?es (Some [2, 0]) = Some ([2], [5])"
    by (simp add: prev_entry_def last_opt_def)
  moreover have "next_entry ?es [1, 255] = Some ([1, 255, 7], [3])"
    by (simp add: next_entry_def)
  ultimately show ?thesis
    using lawful_get [OF rd] lawful_get_next [OF rd] lawful_reader.get_prev_law [OF rd]
    by (simp add: Let_def store_get_def store_get_next_def store_get_prev_def store_concat_def store_strip_def)
qed

text \<open>
  A logging reader answers as the store it wraps and appends exactly the key it read;
  asking for the last entry, which has no key to log, panics.
\<close>

lemma readlog_transparent:
  "readlog_get rd k s = (rd_get (rd (log_inner s)) k, s\<lparr>log_reads := log_reads s @ [k]\<rparr>)
   \<and> readlog_get_next rd k s = (rd_get_next (rd (log_inner s)) k, s\<lparr>log_reads := log_reads s @ [k]\<rparr>)
   \<and> readlog_get_prev rd (Some k) s = (rd_get_prev (rd (log_inner s)) (Some k), s\<lparr>log_reads := log_reads s @ [k]\<rparr>)
   \<and> readlog_get_prev rd None s = (Panic, s)"
  by (simp add: readlog_get_def readlog_get_next_def readlog_get_prev_def op_bind_def op_lift_def)

end
