(* ===== verification/Codec.thy ===== *)
theory Codec
  imports Orga_Prelude
begin

text \<open>
  \<^verbatim>\<open>src/encoding.rs\<close>, \<^verbatim>\<open>src/encoding/encoder.rs\<close> and \<^verbatim>\<open>src/encoding/decoder.rs\<close>: the encodings the
  framework adds to those of the \<^verbatim>\<open>ed\<close> library.

  The \<^verbatim>\<open>Encode\<close> and \<^verbatim>\<open>Decode\<close> traits of \<^verbatim>\<open>ed\<close> are the record \<open>codec\<close>; encodings that the
  library itself provides (integers, vectors) are parameters of the definitions.  What
  the code relies on is the locale \<open>terminated_codec\<close>: decoding consumes exactly the bytes
  that encoding wrote, whatever follows them.  Big-endian integers, which the sources also
  produce with the standard library's \<^verbatim>\<open>to_be_bytes\<close>, are defined here and satisfy it.
\<close>

section \<open>The traits\<close>

record 'a codec =
  enc :: "'a \<Rightarrow> bytes result"
  dec :: "bytes \<Rightarrow> ('a \<times> bytes) result"

locale terminated_codec =
  fixes c :: "'a codec" and ok :: "'a \<Rightarrow> bool"
  assumes enc_total: "ok x \<Longrightarrow> \<exists>bs. enc c x = Ok bs"
    and dec_enc: "ok x \<Longrightarrow> enc c x = Ok bs \<Longrightarrow> dec c (bs @ rest) = Ok (x, rest)"

section \<open>Big-endian integers\<close>

fun be_bytes :: "nat \<Rightarrow> nat \<Rightarrow> bytes" where
  "be_bytes 0 x = []"
| "be_bytes (Suc n) x = be_bytes n (x div 256) @ [of_nat (x mod 256)]"

definition of_be_bytes :: "bytes \<Rightarrow> nat" where
  "of_be_bytes bs = foldl (\<lambda>a b. a * 256 + unat b) 0 bs"

lemma length_be_bytes [simp]: "length (be_bytes n x) = n"
  by (induction n arbitrary: x) auto

lemma of_be_bytes_snoc [simp]: "of_be_bytes (bs @ [b]) = of_be_bytes bs * 256 + unat b"
  by (simp add: of_be_bytes_def)

lemma unat_byte_of_nat [simp]: "unat (of_nat (x mod 256) :: byte) = x mod 256"
  by (simp add: unat_of_nat)

lemma of_be_bytes_be_bytes: "x < 256 ^ n \<Longrightarrow> of_be_bytes (be_bytes n x) = x"
proof (induction n arbitrary: x)
  case 0
  then show ?case by (simp add: of_be_bytes_def)
next
  case (Suc n)
  have "x div 256 < 256 ^ n" using Suc.prems by (simp add: less_mult_imp_div_less mult.commute)
  with Suc.IH show ?case by simp
qed

lemma of_be_bytes_bound: "of_be_bytes bs < 256 ^ length bs"
proof (induction bs rule: rev_induct)
  case (snoc b bs)
  have "unat b < 256" using unsigned_less [of b] by simp
  with snoc show ?case by (simp add: of_be_bytes_def)
qed (simp add: of_be_bytes_def)

lemma be_bytes_of_be_bytes: "be_bytes (length bs) (of_be_bytes bs) = bs"
proof (induction bs rule: rev_induct)
  case (snoc b bs)
  have "unat b < 256" using unsigned_less [of b] by simp
  with snoc show ?case by simp
qed (simp add: of_be_bytes_def)

text \<open>Byte strings of equal length compare as the numbers they denote.\<close>

lemma be_bytes_less_iff:
  "x < 256 ^ n \<Longrightarrow> y < 256 ^ n \<Longrightarrow> be_bytes n x < be_bytes n y \<longleftrightarrow> x < y"
proof (induction n arbitrary: x y)
  case 0
  then show ?case by simp
next
  case (Suc n)
  have d: "x div 256 < 256 ^ n" "y div 256 < 256 ^ n"
    using Suc.prems by (simp_all add: less_mult_imp_div_less mult.commute)
  have low: "(of_nat (x mod 256) :: byte) < of_nat (y mod 256) \<longleftrightarrow> x mod 256 < y mod 256"
    by (simp add: word_less_nat_alt)
  have inj: "be_bytes n (x div 256) = be_bytes n (y div 256) \<longleftrightarrow> x div 256 = y div 256"
    using d of_be_bytes_be_bytes by metis
  show ?case
  proof (cases "x div 256" "y div 256" rule: linorder_cases)
    case equal
    have "x = y div 256 * 256 + x mod 256" using equal div_mult_mod_eq [of x 256] by simp
    moreover have "y = y div 256 * 256 + y mod 256" by simp
    ultimately have "x < y \<longleftrightarrow> x mod 256 < y mod 256" by linarith
    with low equal show ?thesis by simp
  next
    case less
    then have "be_bytes n (x div 256) < be_bytes n (y div 256)" using Suc.IH d by simp
    then have "be_bytes (Suc n) x < be_bytes (Suc n) y"
      by (simp add: less_same_length_append)
    moreover have "x < y" using less by (meson div_le_mono leD leI)
    ultimately show ?thesis by simp
  next
    case greater
    then have "be_bytes n (y div 256) < be_bytes n (x div 256)" using Suc.IH d by simp
    then have "be_bytes (Suc n) y < be_bytes (Suc n) x"
      by (simp add: less_same_length_append)
    moreover have "y < x" using greater by (meson div_le_mono leD leI)
    ultimately show ?thesis by (meson less_asym)
  qed
qed

text \<open>The codec of an unsigned integer of \<open>n\<close> bytes, on numbers and on words.\<close>

definition be_codec :: "nat \<Rightarrow> nat codec" where
  "be_codec n = \<lparr>enc = (\<lambda>x. Ok (be_bytes n x)),
     dec = (\<lambda>bs. if length bs < n then Err (Error_Ed EdIO)
                 else Ok (of_be_bytes (take n bs), drop n bs))\<rparr>"

definition word_codec :: "'a::len word codec" where
  "word_codec = \<lparr>enc = (\<lambda>w. Ok (be_bytes (LENGTH('a) div 8) (unat w))),
     dec = (\<lambda>bs. if length bs < LENGTH('a) div 8 then Err (Error_Ed EdIO)
                 else Ok (of_nat (of_be_bytes (take (LENGTH('a) div 8) bs)), drop (LENGTH('a) div 8) bs))\<rparr>"

interpretation be_codec: terminated_codec "be_codec n" "\<lambda>x. x < 256 ^ n" for n
  by unfold_locales (auto simp: be_codec_def of_be_bytes_be_bytes)

lemma word_codec_terminated:
  assumes "8 * (LENGTH('a::len) div 8) = LENGTH('a)"
  shows "terminated_codec (word_codec :: 'a word codec) (\<lambda>_. True)"
proof
  have "(256 :: nat) ^ (LENGTH('a) div 8) = 2 ^ (8 * (LENGTH('a) div 8))" by (simp add: power_mult)
  then have "(256 :: nat) ^ (LENGTH('a) div 8) = 2 ^ LENGTH('a)" by (simp only: assms)
  then have "unat w < 256 ^ (LENGTH('a) div 8)" for w :: "'a word" by simp
  then show "enc word_codec w = Ok bs \<Longrightarrow> dec word_codec (bs @ rest) = Ok (w, rest)" for w :: "'a word" and bs rest
    by (auto simp: word_codec_def of_be_bytes_be_bytes)
qed (simp add: word_codec_def)

lemma u8_codec_simps [simp]:
  "enc word_codec (b :: byte) = Ok [b]" "dec word_codec (b # rest) = Ok (b :: byte, rest)"
  "dec (word_codec :: byte codec) [] = Err (Error_Ed EdIO)"
proof -
  have "unat b < 256" using unsigned_less [of b] by simp
  then have "unat b mod 256 = unat b" by simp
  then show "enc word_codec b = Ok [b]" by (simp add: word_codec_def)
qed (simp_all add: word_codec_def of_be_bytes_def)

lemma be_codec_1_simps [simp]:
  "enc (be_codec (Suc 0)) x = Ok [of_nat (x mod 256)]" "dec (be_codec (Suc 0)) (b # rest) = Ok (unat b, rest)"
  by (simp_all add: be_codec_def of_be_bytes_def)

section \<open>Vectors with a length prefix\<close>

text \<open>
  \<^verbatim>\<open>LengthVec<P, T>\<close>.  \<open>pc\<close> and \<open>tc\<close> are the encodings of the length type and of the elements,
  \<open>vec_enc\<close> the library's encoding of \<^verbatim>\<open>Vec<T>\<close>, \<open>to_usize\<close> and \<open>of_usize\<close> the conversions
  \<^verbatim>\<open>TryInto<usize>\<close> and \<^verbatim>\<open>TryFrom<usize>\<close> of the length type.
\<close>

record ('p, 'a) length_vec =
  lv_len :: 'p
  lv_values :: "'a list"

definition length_vec_new :: "'p \<Rightarrow> 'a list \<Rightarrow> ('p, 'a) length_vec" where
  "length_vec_new len values = \<lparr>lv_len = len, lv_values = values\<rparr>"

definition length_vec_encode :: "'p codec \<Rightarrow> ('a list \<Rightarrow> bytes result) \<Rightarrow> ('p, 'a) length_vec \<Rightarrow> bytes result" where
  "length_vec_encode pc vec_enc v =
     and_then (enc pc (lv_len v)) (\<lambda>a. and_then (vec_enc (lv_values v)) (\<lambda>b. Ok (a @ b)))"

fun decode_n :: "'a codec \<Rightarrow> nat \<Rightarrow> bytes \<Rightarrow> ('a list \<times> bytes) result" where
  "decode_n tc 0 input = Ok ([], input)"
| "decode_n tc (Suc n) input = and_then (dec tc input) (\<lambda>(x, input).
     and_then (decode_n tc n input) (\<lambda>(xs, input). Ok (x # xs, input)))"

lemma decode_n_2: "decode_n tc 2 input = and_then (dec tc input) (\<lambda>(x, input).
    and_then (decode_n tc 1 input) (\<lambda>(xs, input). Ok (x # xs, input)))"
  "decode_n tc 1 input = and_then (dec tc input) (\<lambda>(x, input). Ok ([x], input))"
  by (simp_all add: numeral_2_eq_2)

definition length_vec_decode ::
  "'p codec \<Rightarrow> 'a codec \<Rightarrow> ('p \<Rightarrow> nat option) \<Rightarrow> bytes \<Rightarrow> (('p, 'a) length_vec \<times> bytes) result" where
  "length_vec_decode pc tc to_usize input =
     and_then (dec pc input) (\<lambda>(len, input).
       and_then (ok_or (Error_Ed (UnexpectedByte 80)) (to_usize len)) (\<lambda>len_usize.
         and_then (decode_n tc len_usize input) (\<lambda>(values, input).
           Ok (\<lparr>lv_len = len, lv_values = values\<rparr>, input))))"

definition length_vec_try_from :: "(nat \<Rightarrow> 'p option) \<Rightarrow> 'a list \<Rightarrow> ('p, 'a) length_vec result" where
  "length_vec_try_from of_usize values =
     and_then (ok_or Error_Overflow (of_usize (length values))) (\<lambda>len.
       Ok \<lparr>lv_len = len, lv_values = values\<rparr>)"

text \<open>\<^verbatim>\<open>State\<close> for \<^verbatim>\<open>LengthVec\<close>: it writes and reads the same bytes.\<close>

definition length_vec_flush :: "'p codec \<Rightarrow> ('a list \<Rightarrow> bytes result) \<Rightarrow> ('p, 'a) length_vec \<Rightarrow> bytes result" where
  "length_vec_flush pc vec_enc v =
     and_then (enc pc (lv_len v)) (\<lambda>a. and_then (vec_enc (lv_values v)) (\<lambda>b. Ok (a @ b)))"

definition length_vec_load ::
  "'p codec \<Rightarrow> 'a codec \<Rightarrow> ('p \<Rightarrow> nat option) \<Rightarrow> bytes \<Rightarrow> (('p, 'a) length_vec \<times> bytes) result" where
  "length_vec_load pc tc to_usize bytes =
     and_then (dec pc bytes) (\<lambda>(len, bytes).
       and_then (ok_or (Error_Ed (UnexpectedByte 80)) (to_usize len)) (\<lambda>len_usize.
         and_then (decode_n tc len_usize bytes) (\<lambda>(values, bytes).
           Ok (\<lparr>lv_len = len, lv_values = values\<rparr>, bytes))))"

section \<open>Strings with a length prefix\<close>

text \<open>
  A Rust \<^verbatim>\<open>String\<close> is the list of its \<^verbatim>\<open>char\<close>s, given by their code points; \<open>utf8\<close> is the byte
  representation that \<^verbatim>\<open>as_bytes\<close> and \<^verbatim>\<open>len\<close> refer to.
\<close>

type_synonym rust_string = "nat list"

fun utf8_char :: "nat \<Rightarrow> bytes" where
  "utf8_char c =
     (if c < 0x80 then [of_nat c]
      else if c < 0x800 then [of_nat (0xC0 + c div 64), of_nat (0x80 + c mod 64)]
      else if c < 0x10000 then
        [of_nat (0xE0 + c div 4096), of_nat (0x80 + c div 64 mod 64), of_nat (0x80 + c mod 64)]
      else [of_nat (0xF0 + c div 262144), of_nat (0x80 + c div 4096 mod 64),
            of_nat (0x80 + c div 64 mod 64), of_nat (0x80 + c mod 64)])"

definition utf8 :: "rust_string \<Rightarrow> bytes" where
  "utf8 s = concat (map utf8_char s)"

record 'p length_string =
  ls_len :: 'p
  ls_inner :: rust_string

definition length_string_new :: "'p \<Rightarrow> rust_string \<Rightarrow> 'p length_string" where
  "length_string_new len inner = \<lparr>ls_len = len, ls_inner = inner\<rparr>"

fun encode_chars :: "byte codec \<Rightarrow> rust_string \<Rightarrow> bytes result" where
  "encode_chars u8c [] = Ok []"
| "encode_chars u8c (c # cs) =
     and_then (enc u8c (of_nat c)) (\<lambda>a. and_then (encode_chars u8c cs) (\<lambda>b. Ok (a @ b)))"

definition length_string_encode :: "'p codec \<Rightarrow> byte codec \<Rightarrow> 'p length_string \<Rightarrow> bytes result" where
  "length_string_encode pc u8c s =
     and_then (enc pc (ls_len s)) (\<lambda>a. and_then (encode_chars u8c (ls_inner s)) (\<lambda>b. Ok (a @ b)))"

definition length_string_decode ::
  "'p codec \<Rightarrow> byte codec \<Rightarrow> ('p \<Rightarrow> nat option) \<Rightarrow> bytes \<Rightarrow> ('p length_string \<times> bytes) result" where
  "length_string_decode pc u8c to_usize input =
     and_then (dec pc input) (\<lambda>(len, input).
       and_then (ok_or (Error_Ed (UnexpectedByte 80)) (to_usize len)) (\<lambda>len_usize.
         and_then (decode_n u8c len_usize input) (\<lambda>(values, input).
           Ok (\<lparr>ls_len = len, ls_inner = map unat values\<rparr>, input))))"

text \<open>\<^verbatim>\<open>flush\<close> writes the UTF-8 bytes, \<^verbatim>\<open>encode\<close> above one byte per \<^verbatim>\<open>char\<close>.  \<open>slice_enc\<close> is the
  library's encoding of a byte slice.\<close>

definition length_string_flush :: "'p codec \<Rightarrow> (bytes \<Rightarrow> bytes result) \<Rightarrow> 'p length_string \<Rightarrow> bytes result" where
  "length_string_flush pc slice_enc s =
     and_then (enc pc (ls_len s)) (\<lambda>a. and_then (slice_enc (utf8 (ls_inner s))) (\<lambda>b. Ok (a @ b)))"

definition length_string_load ::
  "'p codec \<Rightarrow> byte codec \<Rightarrow> ('p \<Rightarrow> nat option) \<Rightarrow> bytes \<Rightarrow> ('p length_string \<times> bytes) result" where
  "length_string_load pc u8c to_usize bytes =
     and_then (dec pc bytes) (\<lambda>(len, bytes).
       and_then (ok_or (Error_Ed (UnexpectedByte 80)) (to_usize len)) (\<lambda>len_usize.
         and_then (decode_n u8c len_usize bytes) (\<lambda>(values, bytes).
           Ok (\<lparr>ls_len = len, ls_inner = map unat values\<rparr>, bytes))))"

definition length_string_try_from :: "(nat \<Rightarrow> 'p option) \<Rightarrow> rust_string \<Rightarrow> 'p length_string result" where
  "length_string_try_from of_usize inner =
     and_then (ok_or Error_Overflow (of_usize (length (utf8 inner)))) (\<lambda>len.
       Ok \<lparr>ls_len = len, ls_inner = inner\<rparr>)"

section \<open>Terminated strings\<close>

text \<open>
  \<^verbatim>\<open>ByteTerminatedString<B, T>\<close>, \<^verbatim>\<open>EofTerminatedString<T>\<close> and \<^verbatim>\<open>FixedString<S>\<close>.  \<open>to_str\<close> gives the
  bytes of \<^verbatim>\<open>ToString\<close>, \<open>of_str\<close> is \<^verbatim>\<open>from_utf8\<close> followed by \<^verbatim>\<open>parse\<close>.
\<close>

definition byte_terminated_encode :: "byte \<Rightarrow> ('t \<Rightarrow> bytes) \<Rightarrow> 't \<Rightarrow> bytes result" where
  "byte_terminated_encode b to_str x =
     (if b \<in> set (to_str x) then Panic else Ok (to_str x @ [b]))"

definition byte_terminated_length :: "('t \<Rightarrow> bytes) \<Rightarrow> 't \<Rightarrow> nat" where
  "byte_terminated_length to_str x = length (to_str x) + 1"

fun read_until :: "byte \<Rightarrow> bytes \<Rightarrow> bytes \<times> bytes" where
  "read_until b [] = ([], [])"
| "read_until b (byte # input) =
     (if byte = b then ([], input)
      else case read_until b input of (bytes, input) \<Rightarrow> (byte # bytes, input))"

definition byte_terminated_decode :: "byte \<Rightarrow> (bytes \<Rightarrow> 't option) \<Rightarrow> bytes \<Rightarrow> ('t \<times> bytes) result" where
  "byte_terminated_decode b of_str input = (case read_until b input of
     (bytes, input) \<Rightarrow> and_then (ok_or (Error_Ed (UnexpectedByte 4)) (of_str bytes)) (\<lambda>inner. Ok (inner, input)))"

definition eof_terminated_encode :: "('t \<Rightarrow> bytes) \<Rightarrow> 't \<Rightarrow> bytes result" where
  "eof_terminated_encode to_str x = Ok (to_str x)"

definition eof_terminated_length :: "('t \<Rightarrow> bytes) \<Rightarrow> 't \<Rightarrow> nat" where
  "eof_terminated_length to_str x = length (to_str x) + 1"

definition eof_terminated_decode :: "(bytes \<Rightarrow> 't option) \<Rightarrow> bytes \<Rightarrow> ('t \<times> bytes) result" where
  "eof_terminated_decode of_str input =
     and_then (ok_or (Error_Ed (UnexpectedByte 4)) (of_str input)) (\<lambda>inner. Ok (inner, []))"

definition fixed_string_encode :: "bytes \<Rightarrow> unit \<Rightarrow> bytes result" where
  "fixed_string_encode S _ = Ok S"

definition fixed_string_decode :: "bytes \<Rightarrow> bytes \<Rightarrow> (unit \<times> bytes) result" where
  "fixed_string_decode S input =
     (if length input < length S then Err (Error_Ed EdIO)
      else if take (length S) input \<noteq> S then Err (Error_Ed (UnexpectedByte 3))
      else Ok ((), drop (length S) input))"

section \<open>Versioned encodings\<close>

text \<open>
  \<^verbatim>\<open>Decoder\<close> and \<^verbatim>\<open>Encoder\<close>; \<open>compat_mode\<close> is the thread-local \<^verbatim>\<open>compat_mode\<close>.  Where a child fails to
  decode, the position of the reader is up to the child and left as it was before.
\<close>

record decoder =
  dc_field_count :: byte
  dc_version :: byte
  dc_bytes :: bytes

definition decoder_new :: "bytes \<Rightarrow> byte \<Rightarrow> decoder" where
  "decoder_new bytes version = \<lparr>dc_field_count = 0, dc_version = version, dc_bytes = bytes\<rparr>"

definition decode_child :: "bool \<Rightarrow> byte codec \<Rightarrow> 'u codec \<Rightarrow> (decoder, 'u) op" where
  "decode_child compat_mode u8c uc = op_bind
     (\<lambda>d. if dc_field_count d = 0 \<and> \<not> compat_mode
          then case dec u8c (dc_bytes d) of
                 Ok (version_byte, rest) \<Rightarrow>
                   let d' = d\<lparr>dc_bytes := rest\<rparr>
                   in if version_byte \<noteq> dc_version d
                      then (Err (Error_Ed (UnexpectedByte version_byte)), d') else (Ok (), d')
               | Err e \<Rightarrow> (Err e, d)
               | Panic \<Rightarrow> (Panic, d)
          else (Ok (), d))
     (\<lambda>_ d. let (res, d') = (case dec uc (dc_bytes d) of
                   Ok (x, rest) \<Rightarrow> (Ok x, d\<lparr>dc_bytes := rest\<rparr>)
                 | Err e \<Rightarrow> (Err e, d)
                 | Panic \<Rightarrow> (Panic, d))
            in case word_add (dc_field_count d') 1 of
                 Ok n \<Rightarrow> (res, d'\<lparr>dc_field_count := n\<rparr>)
               | _ \<Rightarrow> (Panic, d'))"

definition decode_child_as :: "bool \<Rightarrow> byte codec \<Rightarrow> ('t \<Rightarrow> 'u) \<Rightarrow> 't codec \<Rightarrow> (decoder, 'u) op" where
  "decode_child_as compat_mode u8c into tc = op_bind (decode_child compat_mode u8c tc) (\<lambda>x. op_ok (into x))"

definition encode_child :: "'u codec \<Rightarrow> 'u \<Rightarrow> (bytes, unit) op" where
  "encode_child uc x = (\<lambda>out. case enc uc x of
     Ok bs \<Rightarrow> (Ok (), out @ bs) | Err e \<Rightarrow> (Err e, out) | Panic \<Rightarrow> (Panic, out))"

definition encode_child_as :: "('u \<Rightarrow> 't) \<Rightarrow> 't codec \<Rightarrow> 'u \<Rightarrow> (bytes, unit) op" where
  "encode_child_as into tc x = encode_child tc (into x)"

definition encode_version :: "bool \<Rightarrow> byte \<Rightarrow> (bytes, unit) op" where
  "encode_version compat_mode version = (if compat_mode then op_ok () else op_upd (\<lambda>out. out @ [version]))"

section \<open>Round trips\<close>

text \<open>The library's encoding of a vector: the elements one after the other.\<close>

locale vec_encoder = terminated_codec tc ok
  for tc :: "'a codec" and ok :: "'a \<Rightarrow> bool" +
  fixes vec_enc :: "'a list \<Rightarrow> bytes result"
  assumes vec_enc_Nil: "vec_enc [] = Ok []"
    and vec_enc_Cons: "vec_enc (x # xs) = and_then (enc tc x) (\<lambda>a. and_then (vec_enc xs) (\<lambda>b. Ok (a @ b)))"
begin

lemma vec_enc_decode_n:
  "list_all ok xs \<Longrightarrow> vec_enc xs = Ok bs \<Longrightarrow> decode_n tc (length xs) (bs @ rest) = Ok (xs, rest)"
proof (induction xs arbitrary: bs)
  case Nil
  then show ?case by (simp add: vec_enc_Nil)
next
  case (Cons x xs)
  then obtain a b where "enc tc x = Ok a" "vec_enc xs = Ok b" "bs = a @ b"
    by (auto simp: vec_enc_Cons result_simps)
  with Cons dec_enc [of x a "b @ rest"] show ?case by simp
qed

lemma vec_enc_total: "list_all ok xs \<Longrightarrow> \<exists>bs. vec_enc xs = Ok bs"
proof (induction xs)
  case (Cons x xs)
  then show ?case using enc_total [of x] by (auto simp: vec_enc_Cons)
qed (simp add: vec_enc_Nil)

lemma length_vec_round_trip:
  assumes "terminated_codec pc okp" and "okp (lv_len v)" and "list_all ok (lv_values v)"
    and "to_usize (lv_len v) = Some (length (lv_values v))"
  shows "\<exists>bs. length_vec_encode pc vec_enc v = Ok bs \<and> length_vec_flush pc vec_enc v = Ok bs
    \<and> length_vec_decode pc tc to_usize (bs @ rest) = Ok (v, rest)
    \<and> length_vec_load pc tc to_usize (bs @ rest) = Ok (v, rest)"
proof -
  obtain a where a: "enc pc (lv_len v) = Ok a" using terminated_codec.enc_total [OF assms(1,2)] by blast
  obtain b where b: "vec_enc (lv_values v) = Ok b" using vec_enc_total [OF assms(3)] by blast
  have "dec pc (a @ b @ rest) = Ok (lv_len v, b @ rest)" by (rule terminated_codec.dec_enc [OF assms(1,2) a])
  with a b vec_enc_decode_n [OF assms(3) b] assms(4) show ?thesis
    by (simp add: length_vec_encode_def length_vec_flush_def length_vec_decode_def length_vec_load_def)
qed

end

fun enc_all :: "'a codec \<Rightarrow> 'a list \<Rightarrow> bytes result" where
  "enc_all tc [] = Ok []"
| "enc_all tc (x # xs) = and_then (enc tc x) (\<lambda>a. and_then (enc_all tc xs) (\<lambda>b. Ok (a @ b)))"

interpretation be_vec: vec_encoder "be_codec n" "\<lambda>x. x < 256 ^ n" "enc_all (be_codec n)" for n
  by unfold_locales simp_all

interpretation u8_codec: terminated_codec "word_codec :: byte codec" "\<lambda>_. True"
  by (rule word_codec_terminated) simp

interpretation u8_vec: vec_encoder "word_codec :: byte codec" "\<lambda>_. True" "enc_all word_codec"
  by unfold_locales simp_all

lemma encode_chars_enc_all: "encode_chars u8c cs = enc_all u8c (map of_nat cs)"
  by (induction cs) auto

lemma utf8_ascii: "list_all (\<lambda>c. c < 128) cs \<Longrightarrow> utf8 cs = map of_nat cs"
  by (induction cs) (auto simp: utf8_def)

lemma read_until_append: "b \<notin> set s \<Longrightarrow> read_until b (s @ b # rest) = (s, rest)"
  by (induction s) auto

lemma enc_all_decode_n:
  "terminated_codec tc ok \<Longrightarrow> list_all ok xs \<Longrightarrow> enc_all tc xs = Ok bs
    \<Longrightarrow> decode_n tc (length xs) (bs @ rest) = Ok (xs, rest)"
  using vec_encoder.vec_enc_decode_n [of tc ok "enc_all tc"]
  by (simp add: vec_encoder_def vec_encoder_axioms_def)

lemma map_unat_of_nat: "list_all (\<lambda>c. c < 256) cs \<Longrightarrow> map unat (map (of_nat :: nat \<Rightarrow> byte) cs) = cs"
  by (induction cs) (auto simp: unat_of_nat)

section \<open>Properties\<close>

text \<open>
  A \<open>length_vec\<close> whose length field agrees with its elements is encoded and decoded, and
  flushed and loaded, without loss, whatever bytes follow it.
\<close>

lemma length_vec_round_trips:
  assumes "vec_encoder tc ok vec_enc" and "terminated_codec pc okp" and "okp (lv_len v)"
    and "list_all ok (lv_values v)" and "to_usize (lv_len v) = Some (length (lv_values v))"
  shows "\<exists>bs. length_vec_encode pc vec_enc v = Ok bs \<and> length_vec_flush pc vec_enc v = Ok bs
    \<and> length_vec_decode pc tc to_usize (bs @ rest) = Ok (v, rest)
    \<and> length_vec_load pc tc to_usize (bs @ rest) = Ok (v, rest)"
  by (rule vec_encoder.length_vec_round_trip) (fact assms)+

lemma length_vec_round_trips_witness:
  "length_vec_decode (be_codec 1) word_codec Some
     ([2, 7, 9] @ [5]) = Ok (\<lparr>lv_len = 2, lv_values = [7, 9 :: byte]\<rparr>, [5])"
proof -
  let ?v = "\<lparr>lv_len = 2, lv_values = [7, 9 :: byte]\<rparr>"
  have "length_vec_encode (be_codec 1) (enc_all word_codec) ?v = Ok [2, 7, 9]"
    by (simp add: length_vec_encode_def)
  then show ?thesis
    using length_vec_round_trips [OF u8_vec.vec_encoder_axioms be_codec.terminated_codec_axioms [of 1], of ?v Some "[5]"]
    by auto
qed

text \<open>
  A \<open>length_string\<close> built from an ASCII string with \<open>length_string_try_from\<close> survives both
  \<open>encode\<close>/\<open>decode\<close> and \<open>flush\<close>/\<open>load\<close>, and both write the same bytes.
\<close>

lemma length_string_ascii_round_trips:
  assumes "terminated_codec pc okp" and "terminated_codec u8c (\<lambda>_. True)"
    and "\<And>n p. of_usize n = Some p \<Longrightarrow> okp p \<and> to_usize p = Some n"
    and "list_all (\<lambda>c. c < 128) inner" and "length_string_try_from of_usize inner = Ok s"
  shows "\<exists>bs. length_string_encode pc u8c s = Ok bs
    \<and> length_string_flush pc (enc_all u8c) s = Ok bs
    \<and> length_string_decode pc u8c to_usize (bs @ rest) = Ok (s, rest)
    \<and> length_string_load pc u8c to_usize (bs @ rest) = Ok (s, rest)"
proof -
  let ?ws = "map of_nat inner :: bytes"
  obtain len where len: "of_usize (length inner) = Some len" and s: "s = \<lparr>ls_len = len, ls_inner = inner\<rparr>"
    using assms(5) by (auto simp: length_string_try_from_def utf8_ascii [OF assms(4)] result_simps)
  obtain a where a: "enc pc len = Ok a" using terminated_codec.enc_total [OF assms(1)] assms(3) [OF len] by blast
  have v: "vec_encoder u8c (\<lambda>_. True) (enc_all u8c)"
    using assms(2) by (simp add: vec_encoder_def vec_encoder_axioms_def)
  obtain b where b: "enc_all u8c ?ws = Ok b"
    using vec_encoder.vec_enc_total [OF v, of ?ws] by (auto simp: list_all_iff)
  have "dec pc (a @ b @ rest) = Ok (len, b @ rest)"
    using terminated_codec.dec_enc [OF assms(1) _ a] assms(3) [OF len] by blast
  moreover have "decode_n u8c (length inner) (b @ rest) = Ok (?ws, rest)"
    using enc_all_decode_n [OF assms(2) _ b] by (simp add: list_all_iff)
  moreover have "map unat ?ws = inner"
    using assms(4) by (intro map_unat_of_nat) (auto simp: list_all_iff)
  ultimately show ?thesis
    using a b assms(3) [OF len] utf8_ascii [OF assms(4)]
    by (simp add: s length_string_encode_def length_string_flush_def length_string_decode_def
        length_string_load_def encode_chars_enc_all)
qed

lemma length_string_ascii_round_trips_example:
  "length_string_decode (be_codec 1) word_codec Some ([2, 104, 105] @ [9])
     = Ok (\<lparr>ls_len = 2, ls_inner = [104, 105]\<rparr>, [9])"
proof -
  let ?of = "\<lambda>n :: nat. if n < 256 then Some n else None"
  let ?s = "\<lparr>ls_len = 2, ls_inner = [104, 105]\<rparr> :: nat length_string"
  have tf: "length_string_try_from ?of [104, 105] = Ok ?s"
    by (simp add: length_string_try_from_def utf8_def)
  have e: "length_string_encode (be_codec 1) word_codec ?s = Ok [2, 104, 105]"
    by (simp add: length_string_encode_def)
  have of_ok: "p < 256 ^ 1 \<and> Some p = Some n" if "?of n = Some p" for n p
    using that by (simp split: if_splits)
  have ascii: "list_all (\<lambda>c. c < 128) [104, 105 :: nat]" by simp
  show ?thesis
    using length_string_ascii_round_trips [OF be_codec.terminated_codec_axioms [of 1]
        u8_codec.terminated_codec_axioms of_ok ascii tf, of "[9]"]
    unfolding e by auto
qed

text \<open>
  Beyond ASCII this fails: the length counts the two UTF-8 bytes of the character
  233, \<open>length_string_encode\<close> writes one byte for it, and decoding what was written asks for
  a second byte that is not there; \<open>length_string_load\<close> of what \<open>length_string_flush\<close> wrote
  gives two other characters.
\<close>

lemma length_string_non_ascii_lossy:
  "let s = \<lparr>ls_len = 2, ls_inner = [233]\<rparr>
   in length_string_try_from Some [233] = Ok s
    \<and> length_string_encode (be_codec 1) word_codec s = Ok [2, 233]
    \<and> length_string_decode (be_codec 1) word_codec Some [2, 233] = Err (Error_Ed EdIO)
    \<and> length_string_flush (be_codec 1) (enc_all word_codec) s = Ok [2, 195, 169]
    \<and> length_string_load (be_codec 1) word_codec Some [2, 195, 169]
        = Ok (\<lparr>ls_len = 2, ls_inner = [195, 169]\<rparr>, [])"
  by (simp add: Let_def length_string_try_from_def utf8_def length_string_encode_def decode_n_2
      length_string_decode_def length_string_flush_def length_string_load_def)

text \<open>
  A byte-terminated string of a value that prints without the terminator is decoded
  from its encoding, leaving what follows; a fixed string likewise, and any other bytes are
  refused.
\<close>

lemma terminated_strings_round_trip:
  assumes "b \<notin> set (to_str x)" and "of_str (to_str x) = Some x"
  shows "(\<exists>bs. byte_terminated_encode b to_str x = Ok bs \<and> length bs = byte_terminated_length to_str x
      \<and> byte_terminated_decode b of_str (bs @ rest) = Ok (x, rest))
    \<and> (\<exists>bs. eof_terminated_encode to_str x = Ok bs \<and> eof_terminated_decode of_str bs = Ok (x, [])
      \<and> eof_terminated_length to_str x = length bs + 1)
    \<and> (\<forall>input. fixed_string_decode S input = Ok ((), rest) \<longleftrightarrow> input = S @ rest)"
proof (intro conjI allI)
  show "\<exists>bs. byte_terminated_encode b to_str x = Ok bs \<and> length bs = byte_terminated_length to_str x
      \<and> byte_terminated_decode b of_str (bs @ rest) = Ok (x, rest)"
    using assms by (simp add: byte_terminated_encode_def byte_terminated_length_def byte_terminated_decode_def
        read_until_append)
  show "\<exists>bs. eof_terminated_encode to_str x = Ok bs \<and> eof_terminated_decode of_str bs = Ok (x, [])
      \<and> eof_terminated_length to_str x = length bs + 1"
    using assms by (simp add: eof_terminated_encode_def eof_terminated_decode_def eof_terminated_length_def)
  show "fixed_string_decode S input = Ok ((), rest) \<longleftrightarrow> input = S @ rest" for input
    by (auto simp: fixed_string_decode_def) (metis append_take_drop_id)
qed

lemma terminated_strings_round_trip_example:
  "byte_terminated_decode 44 (\<lambda>bs. if bs = [49, 50] then Some (12 :: nat) else None) ([49, 50, 44] @ [53]) = Ok (12, [53])"
  using terminated_strings_round_trip [of 44 "\<lambda>_. [49, 50]" "12 :: nat" "\<lambda>bs. if bs = [49, 50] then Some 12 else None" "[53]"]
  by (auto simp: byte_terminated_encode_def)

text \<open>
  Versioned encoding: what \<open>encode_version\<close> and \<open>encode_child\<close> wrote, \<open>decode_child\<close> reads
  back when the versions agree; with another version it fails with the byte it found.  In
  compatibility mode no version byte is written or expected.
\<close>

lemma versioned_round_trip:
  assumes "terminated_codec uc ok" and "terminated_codec u8c (\<lambda>_. True)" and "\<And>b. enc u8c b = Ok [b]" and "ok x"
  shows "\<exists>bs. op_bind (encode_version m v) (\<lambda>_. encode_child uc x) [] = (Ok (), bs)
    \<and> decode_child m u8c uc (decoder_new (bs @ rest) v) = (Ok x, \<lparr>dc_field_count = 1, dc_version = v, dc_bytes = rest\<rparr>)
    \<and> (\<not> m \<longrightarrow> v' \<noteq> v \<longrightarrow>
        fst (decode_child m u8c uc (decoder_new (bs @ rest) v')) = Err (Error_Ed (UnexpectedByte v)))"
proof -
  obtain a where a: "enc uc x = Ok a" using terminated_codec.enc_total [OF assms(1,4)] by blast
  have d: "dec uc (a @ rest) = Ok (x, rest)" by (rule terminated_codec.dec_enc [OF assms(1,4) a])
  have v: "dec u8c (v # r) = Ok (v, r)" for r
    using terminated_codec.dec_enc [OF assms(2), of v "[v]" r] assms(3) by simp
  have one: "word_add (0 :: byte) 1 = Ok 1" by (simp add: word_add_def checked_add_def)
  show ?thesis
    using a d v one
    by (cases m) (simp_all add: encode_version_def encode_child_def decode_child_def decoder_new_def op_bind_def Let_def)
qed

lemma versioned_round_trip_witness:
  "fst (decode_child False word_codec (word_codec :: byte codec) (decoder_new ([1, 7] @ []) 2))
     = Err (Error_Ed (UnexpectedByte 1))"
proof -
  have u8: "enc word_codec b = Ok [b]" for b :: byte by simp
  have "op_bind (encode_version False 1) (\<lambda>_. encode_child (word_codec :: byte codec) 7) [] = (Ok (), [1, 7])"
    by (simp add: encode_version_def encode_child_def u8)
  then show ?thesis
    using versioned_round_trip [OF u8_codec.terminated_codec_axioms u8_codec.terminated_codec_axioms u8,
        where x = 7 and m = False and v = 1 and rest = "[]" and v' = 2] by auto
qed

end
