(* ===== verification/State_Traits.thy ===== *)
theory State_Traits
  imports Prefix_Store Codec
begin

text \<open>
  The \<^verbatim>\<open>State\<close> trait of \<^verbatim>\<open>src/state/mod.rs\<close>, its implementations for the standard types, and the
  helpers \<^verbatim>\<open>Attacher\<close>, \<^verbatim>\<open>Flusher\<close> and \<^verbatim>\<open>Loader\<close> from which derived implementations are built
  (\<^verbatim>\<open>src/state/attach.rs\<close>, \<^verbatim>\<open>flush.rs\<close>, \<^verbatim>\<open>load.rs\<close>).

  An implementation of the trait is the record \<open>state_ops\<close>.  A \<^verbatim>\<open>Store\<close> argument is its prefix,
  since all handles share one backing store, whose state \<open>'s\<close> is passed along; \<open>st_flush\<close>
  returns the bytes it appends to the output.  The locale \<open>simple_state\<close> is the contract of
  the types the source marks as \<^verbatim>\<open>Simple\<close>: they neither read nor write the store and are
  fully represented by their bytes.  It is closed under options, tuples and arrays.
\<close>

section \<open>The trait\<close>

record ('s, 'v) state_ops =
  st_attach :: "bytes \<Rightarrow> ('v, unit) op"
  st_flush :: "'v \<Rightarrow> ('s, bytes) op"
  st_load :: "'s \<Rightarrow> bytes \<Rightarrow> bytes \<Rightarrow> ('v \<times> bytes) result"

section \<open>Implementations for standard types\<close>

text \<open>The macro \<^verbatim>\<open>state_impl!\<close>, for a type with an encoding.\<close>

definition leaf_state :: "'v codec \<Rightarrow> ('s, 'v) state_ops" where
  "leaf_state c = \<lparr>
     st_attach = (\<lambda>_. op_ok ()),
     st_flush = (\<lambda>v. op_lift (enc c v)),
     st_load = (\<lambda>_ _ bytes. dec c bytes)\<rparr>"

text \<open>\<^verbatim>\<open>varint\<close>; the casts \<^verbatim>\<open>as u8\<close>, \<^verbatim>\<open>as u16\<close> and \<^verbatim>\<open>as u32\<close> keep the low bytes, as \<open>be_bytes\<close> does.\<close>

definition varint :: "nat \<Rightarrow> nat \<Rightarrow> bytes" where
  "varint n max_value =
     (if max_value < 255 then be_bytes 1 n
      else if max_value < 65535 then be_bytes 2 n
      else if max_value < 4294967295 then be_bytes 4 n
      else be_bytes 8 n)"

definition option_state :: "('s, 'v) state_ops \<Rightarrow> byte codec \<Rightarrow> ('s, 'v option) state_ops" where
  "option_state T u8c = \<lparr>
     st_attach = (\<lambda>store self. case self of
         None \<Rightarrow> (Ok (), None)
       | Some inner \<Rightarrow> (case st_attach T store inner of (r, inner') \<Rightarrow> (r, Some inner'))),
     st_flush = (\<lambda>self. case self of
         Some inner \<Rightarrow> op_bind (st_flush T inner) (\<lambda>bs. op_ok (1 # bs))
       | None \<Rightarrow> op_ok [0]),
     st_load = (\<lambda>s store bytes. and_then (dec u8c bytes) (\<lambda>(variant_byte, bytes).
         if variant_byte = 0 then Ok (None, bytes)
         else and_then (st_load T s store bytes) (\<lambda>(x, bytes). Ok (Some x, bytes))))\<rparr>"

text \<open>Arrays and vectors; \<open>pfx\<close> gives the prefix of an index.\<close>

fun attach_from :: "('s, 'v) state_ops \<Rightarrow> (nat \<Rightarrow> bytes) \<Rightarrow> bytes \<Rightarrow> nat \<Rightarrow> ('v list, unit) op" where
  "attach_from T pfx store i [] = (Ok (), [])"
| "attach_from T pfx store i (x # xs) = (case st_attach T (store_sub store (pfx i)) x of
     (Ok _, x') \<Rightarrow> (case attach_from T pfx store (Suc i) xs of (r, xs') \<Rightarrow> (r, x' # xs'))
   | (Err e, x') \<Rightarrow> (Err e, x' # xs)
   | (Panic, x') \<Rightarrow> (Panic, x' # xs))"

fun flush_each :: "('s, 'v) state_ops \<Rightarrow> 'v list \<Rightarrow> ('s, bytes) op" where
  "flush_each T [] = op_ok []"
| "flush_each T (x # xs) = op_bind (st_flush T x) (\<lambda>a. op_bind (flush_each T xs) (\<lambda>b. op_ok (a @ b)))"

fun load_n :: "('s, 'v) state_ops \<Rightarrow> (nat \<Rightarrow> bytes) \<Rightarrow> 's \<Rightarrow> bytes \<Rightarrow> nat \<Rightarrow> nat \<Rightarrow> bytes \<Rightarrow> ('v list \<times> bytes) result" where
  "load_n T pfx s store i 0 bytes = Ok ([], bytes)"
| "load_n T pfx s store i (Suc n) bytes = and_then (st_load T s (store_sub store (pfx i)) bytes) (\<lambda>(x, bytes).
     and_then (load_n T pfx s store (Suc i) n bytes) (\<lambda>(xs, bytes). Ok (x # xs, bytes)))"

definition array_state :: "nat \<Rightarrow> ('s, 'v) state_ops \<Rightarrow> ('s, 'v list) state_ops" where
  "array_state N T = \<lparr>
     st_attach = (\<lambda>store. attach_from T (\<lambda>i. varint i N) store 0),
     st_flush = flush_each T,
     st_load = (\<lambda>s store bytes. load_n T (\<lambda>i. varint i N) s store 0 N bytes)\<rparr>"

text \<open>A vector is loaded until the bytes are used up; an element that takes no bytes would
  make the loop endless, so it has fuel.\<close>

fun load_all :: "('s, 'v) state_ops \<Rightarrow> 's \<Rightarrow> bytes \<Rightarrow> nat \<Rightarrow> nat \<Rightarrow> bytes \<Rightarrow> 'v list result option" where
  "load_all T s store i 0 bytes = None"
| "load_all T s store i (Suc fuel) bytes =
     (if bytes = [] then Some (Ok [])
      else case st_load T s (store_sub store (be_bytes 8 i)) bytes of
             Ok (x, bytes') \<Rightarrow>
               map_option (\<lambda>r. and_then r (\<lambda>xs. Ok (x # xs))) (load_all T s store (Suc i) fuel bytes')
           | Err e \<Rightarrow> Some (Err e)
           | Panic \<Rightarrow> Some Panic)"

definition vec_attach :: "('s, 'v) state_ops \<Rightarrow> bytes \<Rightarrow> ('v list, unit) op" where
  "vec_attach T store = attach_from T (be_bytes 8) store 0"

definition vec_flush :: "('s, 'v) state_ops \<Rightarrow> 'v list \<Rightarrow> ('s, bytes) op" where
  "vec_flush T = flush_each T"

definition vec_load :: "('s, 'v) state_ops \<Rightarrow> nat \<Rightarrow> 's \<Rightarrow> bytes \<Rightarrow> bytes \<Rightarrow> 'v list result option" where
  "vec_load T fuel s store bytes = load_all T s store 0 fuel bytes"

text \<open>\<^verbatim>\<open>PhantomData\<close>, and the macro \<^verbatim>\<open>state_tuple_impl!\<close> for two and three components.\<close>

definition phantom_state :: "('s, unit) state_ops" where
  "phantom_state = \<lparr>st_attach = (\<lambda>_. op_ok ()), st_flush = (\<lambda>_. op_ok []), st_load = (\<lambda>_ _ bytes. Ok ((), bytes))\<rparr>"

definition tuple2_state :: "('s, 'a) state_ops \<Rightarrow> ('s, 'b) state_ops \<Rightarrow> ('s, 'a \<times> 'b) state_ops" where
  "tuple2_state A B = \<lparr>
     st_attach = (\<lambda>store (a, b). case st_attach A (store_sub store [0]) a of
         (Ok _, a') \<Rightarrow> (case st_attach B (store_sub store [1]) b of (r, b') \<Rightarrow> (r, (a', b')))
       | (Err e, a') \<Rightarrow> (Err e, (a', b))
       | (Panic, a') \<Rightarrow> (Panic, (a', b))),
     st_flush = (\<lambda>(a, b). op_bind (st_flush A a) (\<lambda>x. op_bind (st_flush B b) (\<lambda>y. op_ok (x @ y)))),
     st_load = (\<lambda>s store bytes. and_then (st_load A s (store_sub store [0]) bytes) (\<lambda>(a, bytes).
         and_then (st_load B s (store_sub store [1]) bytes) (\<lambda>(b, bytes). Ok ((a, b), bytes))))\<rparr>"

definition tuple3_state ::
  "('s, 'a) state_ops \<Rightarrow> ('s, 'b) state_ops \<Rightarrow> ('s, 'c) state_ops \<Rightarrow> ('s, 'a \<times> 'b \<times> 'c) state_ops" where
  "tuple3_state A B C = \<lparr>
     st_attach = (\<lambda>store (a, b, c). case st_attach A (store_sub store [0]) a of
         (Ok _, a') \<Rightarrow> (case st_attach B (store_sub store [1]) b of
             (Ok _, b') \<Rightarrow> (case st_attach C (store_sub store [2]) c of (r, c') \<Rightarrow> (r, (a', b', c')))
           | (Err e, b') \<Rightarrow> (Err e, (a', b', c))
           | (Panic, b') \<Rightarrow> (Panic, (a', b', c)))
       | (Err e, a') \<Rightarrow> (Err e, (a', b, c))
       | (Panic, a') \<Rightarrow> (Panic, (a', b, c))),
     st_flush = (\<lambda>(a, b, c). op_bind (st_flush A a) (\<lambda>x. op_bind (st_flush B b) (\<lambda>y.
         op_bind (st_flush C c) (\<lambda>z. op_ok (x @ y @ z))))),
     st_load = (\<lambda>s store bytes. and_then (st_load A s (store_sub store [0]) bytes) (\<lambda>(a, bytes).
         and_then (st_load B s (store_sub store [1]) bytes) (\<lambda>(b, bytes).
           and_then (st_load C s (store_sub store [2]) bytes) (\<lambda>(c, bytes). Ok ((a, b, c), bytes)))))\<rparr>"

text \<open>\<^verbatim>\<open>State\<close> for \<^verbatim>\<open>Store\<close> itself: attaching takes over the given store.\<close>

definition store_state :: "('s, bytes) state_ops" where
  "store_state = \<lparr>st_attach = (\<lambda>store. op_upd (\<lambda>_. store)), st_flush = (\<lambda>_. op_ok []),
     st_load = (\<lambda>_ store bytes. Ok (store, bytes))\<rparr>"

section \<open>Derived implementations\<close>

text \<open>\<^verbatim>\<open>Attacher\<close>: the store and the number of fields attached.\<close>

record attacher =
  at_store :: bytes
  at_field_count :: byte

definition attacher_new :: "bytes \<Rightarrow> attacher" where
  "attacher_new store = \<lparr>at_store = store, at_field_count = 0\<rparr>"

definition attacher_count :: "attacher \<Rightarrow> attacher result" where
  "attacher_count a = and_then (word_add (at_field_count a) 1) (\<lambda>n. Ok (a\<lparr>at_field_count := n\<rparr>))"

definition attach_at :: "('s, 'u) state_ops \<Rightarrow> bytes \<Rightarrow> attacher \<Rightarrow> 'u \<Rightarrow> (attacher result) \<times> 'u" where
  "attach_at U store a x = (case st_attach U store x of
      (Ok _, x') \<Rightarrow> (attacher_count a, x')
    | (Err e, x') \<Rightarrow> (Err e, x')
    | (Panic, x') \<Rightarrow> (Panic, x'))"

definition attach_child :: "('s, 'u) state_ops \<Rightarrow> attacher \<Rightarrow> 'u \<Rightarrow> attacher result \<times> 'u" where
  "attach_child U a = attach_at U (store_sub (at_store a) [at_field_count a]) a"

definition attach_child_with_relative_prefix ::
  "('s, 'u) state_ops \<Rightarrow> bytes \<Rightarrow> attacher \<Rightarrow> 'u \<Rightarrow> attacher result \<times> 'u" where
  "attach_child_with_relative_prefix U pfx a = attach_at U (store_sub (at_store a) pfx) a"

definition attach_child_with_absolute_prefix ::
  "('s, 'u) state_ops \<Rightarrow> bytes \<Rightarrow> attacher \<Rightarrow> 'u \<Rightarrow> attacher result \<times> 'u" where
  "attach_child_with_absolute_prefix U pfx a = attach_at U (store_with_prefix (at_store a) pfx) a"

definition attach_child_as :: "attacher \<Rightarrow> attacher result" where
  "attach_child_as a = attacher_count a"

definition attach_skipped_child :: "attacher \<Rightarrow> attacher result" where
  "attach_skipped_child a = Ok a"

definition attach_transparent_child :: "('s, 'u) state_ops \<Rightarrow> attacher \<Rightarrow> 'u \<Rightarrow> attacher result \<times> 'u" where
  "attach_transparent_child U a x = (case st_attach U (at_store a) x of
      (Ok _, x') \<Rightarrow> (Ok a, x') | (Err e, x') \<Rightarrow> (Err e, x') | (Panic, x') \<Rightarrow> (Panic, x'))"

text \<open>\<^verbatim>\<open>Flusher\<close>: the output written so far.\<close>

definition flush_child :: "('s, 'u) state_ops \<Rightarrow> 'u \<Rightarrow> bytes \<Rightarrow> ('s, bytes) op" where
  "flush_child U x out = op_bind (st_flush U x) (\<lambda>bs. op_ok (out @ bs))"

definition flush_child_as :: "('u \<Rightarrow> 't) \<Rightarrow> ('s, 't) state_ops \<Rightarrow> 'u \<Rightarrow> bytes \<Rightarrow> ('s, bytes) op" where
  "flush_child_as into T x out = flush_child T (into x) out"

definition flush_skipped_child :: "bytes \<Rightarrow> ('s, bytes) op" where
  "flush_skipped_child out = op_ok out"

definition flush_transparent_child :: "('s, 'u) state_ops \<Rightarrow> 'u \<Rightarrow> bytes \<Rightarrow> ('s, bytes) op" where
  "flush_transparent_child U x out = flush_child U x out"

definition flush_version :: "bool \<Rightarrow> byte \<Rightarrow> bytes \<Rightarrow> ('s, bytes) op" where
  "flush_version compat_mode version out = op_ok (if compat_mode then out else out @ [version])"

text \<open>\<^verbatim>\<open>Loader\<close>.  The text of its version error is a function of the two versions and the
  type name.\<close>

record loader =
  ld_version :: byte
  ld_field_count :: byte
  ld_store :: bytes
  ld_bytes :: bytes

definition loader_new :: "bytes \<Rightarrow> bytes \<Rightarrow> byte \<Rightarrow> loader" where
  "loader_new store bytes version =
     \<lparr>ld_version = version, ld_field_count = 0, ld_store = store, ld_bytes = bytes\<rparr>"

definition load_child ::
  "bool \<Rightarrow> (byte \<Rightarrow> byte \<Rightarrow> string) \<Rightarrow> ('s, 'u) state_ops \<Rightarrow> 's \<Rightarrow> (loader, 'u) op" where
  "load_child compat_mode version_msg U s = op_bind
     (\<lambda>l. if \<not> compat_mode \<and> ld_field_count l = 0
          then case ld_bytes l of
                 [] \<Rightarrow> (Err (Error_State ''Unexpected EOF''), l)
               | b # rest \<Rightarrow>
                   if b \<noteq> ld_version l then (Err (Error_State (version_msg (ld_version l) b)), l)
                   else (Ok (), l\<lparr>ld_bytes := rest\<rparr>)
          else (Ok (), l))
     (\<lambda>_ l. let (res, l') = (case st_load U s (store_sub (ld_store l) [ld_field_count l]) (ld_bytes l) of
                   Ok (x, rest) \<Rightarrow> (Ok x, l\<lparr>ld_bytes := rest\<rparr>)
                 | Err e \<Rightarrow> (Err e, l)
                 | Panic \<Rightarrow> (Panic, l))
            in case word_add (ld_field_count l') 1 of
                 Ok n \<Rightarrow> (res, l'\<lparr>ld_field_count := n\<rparr>)
               | _ \<Rightarrow> (Panic, l'))"

definition load_child_as ::
  "bool \<Rightarrow> (byte \<Rightarrow> byte \<Rightarrow> string) \<Rightarrow> ('t \<Rightarrow> 'u) \<Rightarrow> ('s, 't) state_ops \<Rightarrow> 's \<Rightarrow> (loader, 'u) op" where
  "load_child_as compat_mode version_msg into T s =
     op_bind (load_child compat_mode version_msg T s) (\<lambda>x. op_ok (into x))"

definition load_skipped_child :: "'u \<Rightarrow> (loader, 'u) op" where
  "load_skipped_child default_value = op_ok default_value"

definition load_transparent_child_inner :: "bool \<Rightarrow> ('s, 'u) state_ops \<Rightarrow> 's \<Rightarrow> (loader, 'u) op" where
  "load_transparent_child_inner compat_mode U s = op_bind
     (\<lambda>l. if compat_mode then (Ok (), l)
          else case ld_bytes l of [] \<Rightarrow> (Panic, l) | b # rest \<Rightarrow> (Ok (), l\<lparr>ld_bytes := rest\<rparr>))
     (\<lambda>_ l. case st_load U s (ld_store l) (ld_bytes l) of
         Ok (x, rest) \<Rightarrow> (Ok x, l\<lparr>ld_bytes := rest\<rparr>) | Err e \<Rightarrow> (Err e, l) | Panic \<Rightarrow> (Panic, l))"

section \<open>Simple types\<close>

locale simple_state =
  fixes S :: "('s, 'v) state_ops" and ok :: "'v \<Rightarrow> bool"
  assumes attach_id: "ok v \<Longrightarrow> st_attach S p v = (Ok (), v)"
    and flush_load: "ok v \<Longrightarrow> \<exists>bs. (\<forall>s. st_flush S v s = (Ok bs, s))
      \<and> (\<forall>s p rest. st_load S s p (bs @ rest) = Ok (v, rest))"

text \<open>The weaker contract of a type whose value is stored under a key of its own: decoding may
  use up all the bytes.\<close>

locale stored_state =
  fixes S :: "('s, 'v) state_ops" and ok :: "'v \<Rightarrow> bool"
  assumes attach_same: "ok v \<Longrightarrow> st_attach S p v = (Ok (), v)"
    and flush_load_all: "ok v \<Longrightarrow> \<exists>bs. (\<forall>s. st_flush S v s = (Ok bs, s)) \<and> (\<forall>s p. st_load S s p bs = Ok (v, []))"

sublocale simple_state \<subseteq> stored: stored_state S ok
proof
  fix v assume "ok v"
  then show "st_attach S p v = (Ok (), v)" for p by (rule attach_id)
  obtain bs where "\<forall>s. st_flush S v s = (Ok bs, s)" "\<forall>s p rest. st_load S s p (bs @ rest) = Ok (v, rest)"
    using flush_load [OF \<open>ok v\<close>] by blast
  then show "\<exists>bs. (\<forall>s. st_flush S v s = (Ok bs, s)) \<and> (\<forall>s p. st_load S s p bs = Ok (v, []))"
    by (intro exI [of _ bs]) (metis append_Nil2)
qed

context simple_state
begin

lemmas stored_contract = stored.stored_state_axioms

end

lemma leaf_state_simple: "terminated_codec c ok \<Longrightarrow> simple_state (leaf_state c) ok"
proof
  fix v p assume c: "terminated_codec c ok" and v: "ok v"
  show "st_attach (leaf_state c) p v = (Ok (), v)" by (simp add: leaf_state_def)
  obtain bs where "enc c v = Ok bs" using terminated_codec.enc_total [OF c v] by blast
  then show "\<exists>bs. (\<forall>s. st_flush (leaf_state c) v s = (Ok bs, s))
      \<and> (\<forall>s p rest. st_load (leaf_state c) s p (bs @ rest) = Ok (v, rest))"
    using terminated_codec.dec_enc [OF c v] by (auto simp: leaf_state_def)
qed

lemma phantom_state_simple: "simple_state phantom_state (\<lambda>_. True)"
  by unfold_locales (simp_all add: phantom_state_def)

context simple_state
begin

lemma option_state_simple:
  assumes u8: "\<And>b rest. dec u8c (b # rest) = Ok (b, rest)"
  shows "simple_state (option_state S u8c) (\<lambda>x. case x of None \<Rightarrow> True | Some v \<Rightarrow> ok v)"
proof
  fix x :: "'v option" and p assume x: "case x of None \<Rightarrow> True | Some v \<Rightarrow> ok v"
  show "st_attach (option_state S u8c) p x = (Ok (), x)"
    using x by (cases x) (simp_all add: option_state_def attach_id)
  show "\<exists>bs. (\<forall>s. st_flush (option_state S u8c) x s = (Ok bs, s))
      \<and> (\<forall>s p rest. st_load (option_state S u8c) s p (bs @ rest) = Ok (x, rest))"
  proof (cases x)
    case None
    then show ?thesis by (intro exI [of _ "[0]"]) (simp add: option_state_def u8)
  next
    case (Some v)
    then obtain bs where "\<forall>s. st_flush S v s = (Ok bs, s)"
        "\<forall>s p rest. st_load S s p (bs @ rest) = Ok (v, rest)" using x flush_load [of v] by auto
    with Some show ?thesis by (intro exI [of _ "1 # bs"]) (simp add: option_state_def u8 op_bind_def)
  qed
qed

lemma tuple2_state_simple:
  assumes B: "simple_state B okB"
  shows "simple_state (tuple2_state S B) (\<lambda>(a, b). ok a \<and> okB b)"
proof (unfold_locales; clarify)
  fix a b p assume ok: "ok a" "okB b"
  show "st_attach (tuple2_state S B) p (a, b) = (Ok (), (a, b))"
    by (simp add: tuple2_state_def attach_id ok simple_state.attach_id [OF B])
  obtain bs where "\<forall>s. st_flush S a s = (Ok bs, s)" "\<forall>s p rest. st_load S s p (bs @ rest) = Ok (a, rest)"
    using flush_load [OF ok(1)] by blast
  moreover obtain cs where "\<forall>s. st_flush B b s = (Ok cs, s)" "\<forall>s p rest. st_load B s p (cs @ rest) = Ok (b, rest)"
    using simple_state.flush_load [OF B ok(2)] by blast
  ultimately show "\<exists>bs. (\<forall>s. st_flush (tuple2_state S B) (a, b) s = (Ok bs, s))
      \<and> (\<forall>s p rest. st_load (tuple2_state S B) s p (bs @ rest) = Ok ((a, b), rest))"
    by (intro exI [of _ "bs @ cs"]) (simp add: tuple2_state_def op_bind_def)
qed

lemma tuple3_state_simple:
  assumes B: "simple_state B okB" and C: "simple_state C okC"
  shows "simple_state (tuple3_state S B C) (\<lambda>(a, b, c). ok a \<and> okB b \<and> okC c)"
proof (unfold_locales; clarify)
  fix a b c p assume ok: "ok a" "okB b" "okC c"
  show "st_attach (tuple3_state S B C) p (a, b, c) = (Ok (), (a, b, c))"
    by (simp add: tuple3_state_def attach_id ok simple_state.attach_id [OF B] simple_state.attach_id [OF C])
  obtain bs where "\<forall>s. st_flush S a s = (Ok bs, s)" "\<forall>s p rest. st_load S s p (bs @ rest) = Ok (a, rest)"
    using flush_load [OF ok(1)] by blast
  moreover obtain cs where "\<forall>s. st_flush B b s = (Ok cs, s)" "\<forall>s p rest. st_load B s p (cs @ rest) = Ok (b, rest)"
    using simple_state.flush_load [OF B ok(2)] by blast
  moreover obtain ds where "\<forall>s. st_flush C c s = (Ok ds, s)" "\<forall>s p rest. st_load C s p (ds @ rest) = Ok (c, rest)"
    using simple_state.flush_load [OF C ok(3)] by blast
  ultimately show "\<exists>bs. (\<forall>s. st_flush (tuple3_state S B C) (a, b, c) s = (Ok bs, s))
      \<and> (\<forall>s p rest. st_load (tuple3_state S B C) s p (bs @ rest) = Ok ((a, b, c), rest))"
    by (intro exI [of _ "bs @ cs @ ds"]) (simp add: tuple3_state_def op_bind_def)
qed

lemma attach_from_id: "list_all ok xs \<Longrightarrow> attach_from S pfx p i xs = (Ok (), xs)"
  by (induction xs arbitrary: i) (auto simp: attach_id)

lemma flush_each_load:
  "list_all ok xs \<Longrightarrow> \<exists>bs. (\<forall>s. flush_each S xs s = (Ok bs, s))
    \<and> (\<forall>s p i rest pfx. load_n S pfx s p i (length xs) (bs @ rest) = Ok (xs, rest))"
proof (induction xs)
  case (Cons x xs)
  then obtain bs where bs: "\<forall>s. flush_each S xs s = (Ok bs, s)"
      "\<forall>s p i rest pfx. load_n S pfx s p i (length xs) (bs @ rest) = Ok (xs, rest)" by auto
  obtain a where a: "\<forall>s. st_flush S x s = (Ok a, s)" "\<forall>s p rest. st_load S s p (a @ rest) = Ok (x, rest)"
    using flush_load [of x] Cons.prems by auto
  then show ?case using bs by (intro exI [of _ "a @ bs"]) (simp add: op_bind_def)
qed simp

lemma array_state_simple: "simple_state (array_state n S) (\<lambda>xs. length xs = n \<and> list_all ok xs)"
proof (unfold_locales; elim conjE)
  fix xs p assume xs: "length xs = n" "list_all ok xs"
  show "st_attach (array_state n S) p xs = (Ok (), xs)"
    by (simp add: array_state_def attach_from_id xs(2))
  obtain bs where bs: "\<forall>s. flush_each S xs s = (Ok bs, s)"
      "\<forall>s p i rest pfx. load_n S pfx s p i (length xs) (bs @ rest) = Ok (xs, rest)"
    using flush_each_load [OF xs(2)] by blast
  then show "\<exists>bs. (\<forall>s. st_flush (array_state n S) xs s = (Ok bs, s))
      \<and> (\<forall>s p rest. st_load (array_state n S) s p (bs @ rest) = Ok (xs, rest))"
    using xs(1) by (intro exI [of _ bs]) (auto simp: array_state_def)
qed

text \<open>A vector whose elements all take at least one byte is loaded in full.\<close>

lemma vec_flush_load:
  assumes "list_all ok xs" and nonempty: "\<And>v s s'. ok v \<Longrightarrow> st_flush S v s \<noteq> (Ok [], s')"
  shows "\<exists>bs. (\<forall>s. vec_flush S xs s = (Ok bs, s))
    \<and> (\<forall>s p i fuel. length xs < fuel \<longrightarrow> load_all S s p i fuel bs = Some (Ok xs))"
  using assms(1)
proof (induction xs)
  case Nil
  have "load_all S s p i fuel [] = Some (Ok [])" if "0 < fuel" for s p i fuel
    using that by (cases fuel) auto
  then show ?case by (simp add: vec_flush_def)
next
  case (Cons x xs)
  then obtain bs where bs: "\<forall>s. vec_flush S xs s = (Ok bs, s)"
      "\<forall>s p i fuel. length xs < fuel \<longrightarrow> load_all S s p i fuel bs = Some (Ok xs)" by auto
  obtain a where a: "\<forall>s. st_flush S x s = (Ok a, s)" "\<forall>s p rest. st_load S s p (a @ rest) = Ok (x, rest)"
    using flush_load [of x] Cons.prems by auto
  have "a \<noteq> []" using a(1) nonempty [of x] Cons.prems by auto
  have "load_all S s p i fuel (a @ bs) = Some (Ok (x # xs))" if "length (x # xs) < fuel" for s p i fuel
    using that a bs \<open>a \<noteq> []\<close> by (cases fuel) auto
  then show ?case using a bs by (intro exI [of _ "a @ bs"]) (simp add: vec_flush_def op_bind_def)
qed

end

interpretation u8_state: simple_state "leaf_state word_codec :: ('s, byte) state_ops" "\<lambda>_. True"
  by (rule leaf_state_simple [OF u8_codec.terminated_codec_axioms])

interpretation be_state: simple_state "leaf_state (be_codec n)" "\<lambda>x. x < 256 ^ n" for n
  by (rule leaf_state_simple [OF be_codec.terminated_codec_axioms])

section \<open>Properties\<close>

text \<open>
  (C33) The types fully represented by their bytes are closed under the framework's
  implementations: the options, pairs, triples and arrays over such types are
  attached without change, flushed without touching the store, and loaded back as the same
  value, leaving the bytes that follow.
\<close>

theorem simple_types_closed:
  assumes "simple_state A okA" and "simple_state B okB" and "simple_state C okC" and "\<And>b rest. dec u8c (b # rest) = Ok (b, rest)"
  shows "simple_state (option_state A u8c) (\<lambda>x. case x of None \<Rightarrow> True | Some v \<Rightarrow> okA v)
    \<and> simple_state (tuple2_state A B) (\<lambda>(a, b). okA a \<and> okB b)
    \<and> simple_state (tuple3_state A B C) (\<lambda>(a, b, c). okA a \<and> okB b \<and> okC c)
    \<and> simple_state (array_state n A) (\<lambda>xs. length xs = n \<and> list_all okA xs)"
  using simple_state.option_state_simple [OF assms(1), of u8c] assms(4) simple_state.tuple2_state_simple [OF assms(1,2)]
    simple_state.tuple3_state_simple [OF assms(1-3)] simple_state.array_state_simple [OF assms(1)]
  by blast

theorem simple_types_closed_witness:
  "simple_state (tuple3_state (leaf_state word_codec) (leaf_state word_codec) (leaf_state (be_codec 8)) :: (unit, byte \<times> byte \<times> nat) state_ops)
     (\<lambda>(a, b, c). True \<and> True \<and> c < 256 ^ 8)
   \<and> simple_state (array_state 2 (leaf_state word_codec) :: (unit, byte list) state_ops) (\<lambda>xs. length xs = 2 \<and> list_all (\<lambda>_. True) xs)"
  using simple_types_closed [OF u8_state.simple_state_axioms u8_state.simple_state_axioms be_state.simple_state_axioms u8_codec_simps(2), of 8 2]
  by blast

text \<open>
  A vector of such a type, each of whose elements takes at least one byte, is loaded in
  as many steps as it has elements, as the same vector.
\<close>

lemma vec_state_round_trip:
  assumes "simple_state T ok" and "list_all ok xs" and "\<And>v s s'. ok v \<Longrightarrow> st_flush T v s \<noteq> (Ok [], s')"
    and "length xs < fuel"
  shows "\<exists>bs. vec_flush T xs s = (Ok bs, s) \<and> vec_load T fuel s' p bs = Some (Ok xs)"
  using simple_state.vec_flush_load [OF assms(1,2), OF assms(3)] assms(4)
  by (auto simp: vec_load_def)

lemma vec_state_round_trip_example:
  "\<exists>bs. vec_flush (leaf_state word_codec) [7, 8 :: byte] () = (Ok bs, ())
     \<and> vec_load (leaf_state word_codec) 3 () [1] bs = Some (Ok [7, 8 :: byte])"
  by (rule vec_state_round_trip [OF u8_state.simple_state_axioms]) (simp_all add: leaf_state_def)

text \<open>
  A derived implementation with two fields: loading what was flushed gives the fields
  back; a value flushed with another version is refused, and so is an empty input.
\<close>

lemma derived_state_round_trip:
  assumes "simple_state A okA" and "simple_state B okB" and "okA a" and "okB b"
  shows "\<exists>bs. op_bind (flush_version m v []) (\<lambda>out. op_bind (flush_child A a out) (flush_child B b)) s = (Ok bs, s)
    \<and> op_bind (load_child m msg A s') (\<lambda>x. op_bind (load_child m msg B s') (\<lambda>y. op_ok (x, y))) (loader_new p (bs @ rest) v)
        = (Ok (a, b), \<lparr>ld_version = v, ld_field_count = 2, ld_store = p, ld_bytes = rest\<rparr>)
    \<and> (\<not> m \<longrightarrow> v' \<noteq> v \<longrightarrow> fst (load_child m msg A s' (loader_new p (bs @ rest) v')) = Err (Error_State (msg v' v)))
    \<and> (\<not> m \<longrightarrow> fst (load_child m msg A s' (loader_new p [] v)) = Err (Error_State ''Unexpected EOF''))"
proof -
  obtain x where x: "\<forall>s. st_flush A a s = (Ok x, s)" "\<forall>s p rest. st_load A s p (x @ rest) = Ok (a, rest)"
    using simple_state.flush_load [OF assms(1,3)] by blast
  obtain y where y: "\<forall>s. st_flush B b s = (Ok y, s)" "\<forall>s p rest. st_load B s p (y @ rest) = Ok (b, rest)"
    using simple_state.flush_load [OF assms(2,4)] by blast
  have w: "word_add (0 :: byte) 1 = Ok 1" "word_add (1 :: byte) 1 = Ok 2"
    by (simp_all add: word_add_def checked_add_def)
  show ?thesis
    using x y w
    by (cases m) (simp_all add: flush_version_def flush_child_def load_child_def loader_new_def op_bind_def Let_def)
qed

lemma derived_state_round_trip_witness:
  "\<exists>bs. op_bind (flush_version False 1 []) (\<lambda>out. op_bind (flush_child (leaf_state word_codec) (7 :: byte) out)
      (flush_child (leaf_state word_codec) (8 :: byte))) () = (Ok bs, ())"
  using derived_state_round_trip [OF u8_state.simple_state_axioms u8_state.simple_state_axioms,
      where a = 7 and b = 8 and m = False and v = 1 and s = "()"] by blast

end
