(* ===== verification/Map_Coll.thy ===== *)
theory Map_Coll
  imports State_Traits
begin

text \<open>
  \<^verbatim>\<open>src/collections/map.rs\<close>: the map collection.  Values that were inserted, changed or removed
  are kept in memory (\<open>mp_children\<close>) until the map is flushed; all others are read from the
  store, below the map's prefix, at the encoding of their key.

  The types a map is used with are the record \<open>map_types\<close>: the backing store, the encoding
  of keys and the \<^verbatim>\<open>State\<close> implementation of values.  The in-memory map is keyed by the
  encoded key, as the source's \<^verbatim>\<open>MapKey\<close> is ordered by it, and also holds the key.  Loops
  over the store take fuel \<open>mt_fuel\<close>; a loop that runs out of it has not returned, which the
  methods report as \<open>Panic\<close>, and the theorems show that it does not happen when the fuel
  exceeds the number of entries in the store.
\<close>

section \<open>The collection\<close>

record ('s, 'k, 'v) map_types =
  mt_backing :: "'s backing"
  mt_key :: "'k codec"
  mt_value :: "('s, 'v) state_ops"
  mt_fuel :: nat

record 'k map_key =
  mk_inner :: 'k
  mk_bytes :: bytes

definition map_key_new :: "'k codec \<Rightarrow> 'k \<Rightarrow> 'k map_key result" where
  "map_key_new K key = and_then (enc K key) (\<lambda>inner_bytes. Ok \<lparr>mk_inner = key, mk_bytes = inner_bytes\<rparr>)"

type_synonym ('k, 'v) children = "(bytes, 'k \<times> 'v option) btree"

record ('k, 'v) omap =
  mp_store :: bytes
  mp_children :: "('k, 'v) children"

definition map_new :: "('k, 'v) omap" where
  "map_new = \<lparr>mp_store = [], mp_children = []\<rparr>"

text \<open>\<^verbatim>\<open>BTreeMap::insert\<close> keeps the key that is already there.\<close>

definition children_insert :: "'k map_key \<Rightarrow> 'v option \<Rightarrow> ('k, 'v) children \<Rightarrow> ('k, 'v) children" where
  "children_insert map_key value m = bt_insert (mk_bytes map_key)
     (case map_of m (mk_bytes map_key) of Some (k, _) \<Rightarrow> k | None \<Rightarrow> mk_inner map_key, value) m"

abbreviation map_insert_child :: "'k map_key \<Rightarrow> 'v option \<Rightarrow> ('k, 'v) omap \<Rightarrow> ('k, 'v) omap" where
  "map_insert_child map_key value m \<equiv> m\<lparr>mp_children := children_insert map_key value (mp_children m)\<rparr>"

fun attach_children :: "('s, 'v) state_ops \<Rightarrow> bytes \<Rightarrow> (('k, 'v) children, unit) op" where
  "attach_children V store [] = (Ok (), [])"
| "attach_children V store ((kb, k, None) # m) =
     (case attach_children V store m of (r, m') \<Rightarrow> (r, (kb, k, None) # m'))"
| "attach_children V store ((kb, k, Some v) # m) = (case st_attach V (store_sub store kb) v of
     (Ok _, v') \<Rightarrow> (case attach_children V store m of (r, m') \<Rightarrow> (r, (kb, k, Some v') # m'))
   | (Err e, v') \<Rightarrow> (Err e, (kb, k, Some v') # m)
   | (Panic, v') \<Rightarrow> (Panic, (kb, k, Some v') # m))"

definition map_attach :: "('s, 'k, 'v) map_types \<Rightarrow> bytes \<Rightarrow> (('k, 'v) omap, unit) op" where
  "map_attach D store m = (case attach_children (mt_value D) store (mp_children m) of
     (Ok _, children) \<Rightarrow> (Ok (), m\<lparr>mp_children := children, mp_store := store\<rparr>)
   | (Err e, children) \<Rightarrow> (Err e, m\<lparr>mp_children := children\<rparr>)
   | (Panic, children) \<Rightarrow> (Panic, m\<lparr>mp_children := children\<rparr>))"

definition map_load :: "('s, 'k, 'v) map_types \<Rightarrow> bytes \<Rightarrow> ('k, 'v) omap result" where
  "map_load D store = (case map_attach D store map_new of
     (Ok _, m) \<Rightarrow> Ok m | (Err e, _) \<Rightarrow> Err e | (Panic, _) \<Rightarrow> Panic)"

definition map_with_store :: "('s, 'k, 'v) map_types \<Rightarrow> bytes \<Rightarrow> ('k, 'v) omap result" where
  "map_with_store D store = (case map_attach D store map_new of
     (Ok _, m) \<Rightarrow> Ok m | (Err e, _) \<Rightarrow> Err e | (Panic, _) \<Rightarrow> Panic)"

section \<open>Looking up\<close>

text \<open>Loading a value from its bytes; bytes left over violate a debug assertion.\<close>

definition load_value :: "('s, 'k, 'v) map_types \<Rightarrow> ('k, 'v) omap \<Rightarrow> 's \<Rightarrow> bytes \<Rightarrow> bytes \<Rightarrow> 'v result" where
  "load_value D m s key_bytes value_bytes =
     and_then (st_load (mt_value D) s (store_sub (mp_store m) key_bytes) value_bytes)
       (\<lambda>(v, rest). if rest = [] then Ok v else Panic)"

definition get_from_store :: "('s, 'k, 'v) map_types \<Rightarrow> ('k, 'v) omap \<Rightarrow> 's \<Rightarrow> 'k \<Rightarrow> 'v option result" where
  "get_from_store D m s key =
     and_then (enc (mt_key D) key) (\<lambda>key_bytes.
       and_then (store_get (bk_read (mt_backing D) s) (mp_store m) key_bytes) (\<lambda>r. case r of
           None \<Rightarrow> Ok None
         | Some value_bytes \<Rightarrow> and_then (load_value D m s key_bytes value_bytes) (\<lambda>v. Ok (Some v))))"

definition map_contains_key :: "('s, 'k, 'v) map_types \<Rightarrow> ('k, 'v) omap \<Rightarrow> 's \<Rightarrow> 'k \<Rightarrow> bool result" where
  "map_contains_key D m s key =
     and_then (map_key_new (mt_key D) key) (\<lambda>map_key.
       case map_of (mp_children m) (mk_bytes map_key) of
         Some (_, entry) \<Rightarrow> Ok (entry \<noteq> None)
       | None \<Rightarrow> and_then (get_from_store D m s (mk_inner map_key)) (\<lambda>r. Ok (r \<noteq> None)))"

text \<open>\<^verbatim>\<open>Ref\<close>: a value loaded from the store, or one retained in memory.\<close>

datatype 'a ref_to = Owned 'a | Borrowed 'a

fun ref_deref :: "'a ref_to \<Rightarrow> 'a" where
  "ref_deref (Owned inner) = inner"
| "ref_deref (Borrowed value) = value"

definition map_get :: "('s, 'k, 'v) map_types \<Rightarrow> ('k, 'v) omap \<Rightarrow> 's \<Rightarrow> 'k \<Rightarrow> 'v ref_to option result" where
  "map_get D m s key =
     and_then (map_key_new (mt_key D) key) (\<lambda>map_key.
       case map_of (mp_children m) (mk_bytes map_key) of
         Some (_, entry) \<Rightarrow> Ok (map_option Borrowed entry)
       | None \<Rightarrow> and_then (get_from_store D m s (mk_inner map_key)) (\<lambda>r. Ok (map_option Owned r)))"

definition map_get_or_default ::
  "('s, 'k, 'v) map_types \<Rightarrow> 'v \<Rightarrow> ('k, 'v) omap \<Rightarrow> 's \<Rightarrow> 'k \<Rightarrow> 'v ref_to result" where
  "map_get_or_default D default_value m s key =
     and_then (enc (mt_key D) key) (\<lambda>key_bytes.
       and_then (map_get D m s key) (\<lambda>maybe_value. case maybe_value of
           Some value \<Rightarrow> Ok value
         | None \<Rightarrow> (case st_attach (mt_value D) (store_sub (mp_store m) key_bytes) default_value of
             (Ok _, v) \<Rightarrow> Ok (Owned v) | (Err e, _) \<Rightarrow> Err e | (Panic, _) \<Rightarrow> Panic)))"

section \<open>Changing\<close>

definition map_insert :: "('s, 'k, 'v) map_types \<Rightarrow> 'k \<Rightarrow> 'v \<Rightarrow> (('k, 'v) omap, unit) op" where
  "map_insert D key value = (\<lambda>m. case map_key_new (mt_key D) key of
      Ok map_key \<Rightarrow> (case st_attach (mt_value D) (store_sub (mp_store m) (mk_bytes map_key)) value of
          (Ok _, v) \<Rightarrow> (Ok (), map_insert_child map_key (Some v) m)
        | (Err e, _) \<Rightarrow> (Err e, m)
        | (Panic, _) \<Rightarrow> (Panic, m))
    | Err e \<Rightarrow> (Err e, m)
    | Panic \<Rightarrow> (Panic, m))"

text \<open>\<^verbatim>\<open>remove\<close> and \<^verbatim>\<open>remove_raw\<close> differ in the wrapper \<^verbatim>\<open>ReadOnly\<close> around the value.  Removing and
  inserting again replaces the key object as well.\<close>

definition map_remove_raw :: "('s, 'k, 'v) map_types \<Rightarrow> 's \<Rightarrow> 'k \<Rightarrow> (('k, 'v) omap, 'v option) op" where
  "map_remove_raw D s key = (\<lambda>m. case map_key_new (mt_key D) key of
      Ok map_key \<Rightarrow> (case map_of (mp_children m) (mk_bytes map_key) of
          Some (_, result) \<Rightarrow>
            (Ok result, m\<lparr>mp_children := children_insert map_key None (bt_remove (mk_bytes map_key) (mp_children m))\<rparr>)
        | None \<Rightarrow> (case get_from_store D m s (mk_inner map_key) of
            Ok None \<Rightarrow> (Ok None, m)
          | Ok (Some v) \<Rightarrow> (Ok (Some v), map_insert_child map_key None m)
          | Err e \<Rightarrow> (Err e, m)
          | Panic \<Rightarrow> (Panic, m)))
    | Err e \<Rightarrow> (Err e, m)
    | Panic \<Rightarrow> (Panic, m))"

datatype 'v read_only = ReadOnly (into_inner: 'v)

definition map_remove :: "('s, 'k, 'v) map_types \<Rightarrow> 's \<Rightarrow> 'k \<Rightarrow> (('k, 'v) omap, 'v read_only option) op" where
  "map_remove D s key = (\<lambda>m. case map_key_new (mt_key D) key of
      Ok map_key \<Rightarrow> (case map_of (mp_children m) (mk_bytes map_key) of
          Some (_, result) \<Rightarrow>
            (Ok (map_option ReadOnly result),
             m\<lparr>mp_children := children_insert map_key None (bt_remove (mk_bytes map_key) (mp_children m))\<rparr>)
        | None \<Rightarrow> (case get_from_store D m s (mk_inner map_key) of
            Ok None \<Rightarrow> (Ok None, m)
          | Ok (Some v) \<Rightarrow> (Ok (Some (ReadOnly v)), map_insert_child map_key None m)
          | Err e \<Rightarrow> (Err e, m)
          | Panic \<Rightarrow> (Panic, m)))
    | Err e \<Rightarrow> (Err e, m)
    | Panic \<Rightarrow> (Panic, m))"

definition map_swap :: "('s, 'k, 'v) map_types \<Rightarrow> 's \<Rightarrow> 'k \<Rightarrow> 'k \<Rightarrow> (('k, 'v) omap, unit) op" where
  "map_swap D s i j =
     op_bind (op_read (\<lambda>m. map_contains_key D m s i)) (\<lambda>has_i.
     op_bind (if has_i then op_read (\<lambda>m. map_contains_key D m s j) else op_ok False) (\<lambda>has_both.
       if \<not> has_both then op_err (Error_App ''Swap failed. Key not found.'')
       else
         op_bind (map_remove_raw D s i) (\<lambda>a.
         op_bind (map_remove_raw D s j) (\<lambda>b.
         op_bind (op_lift (map_key_new (mt_key D) i)) (\<lambda>mi.
         op_bind (op_upd (map_insert_child mi b)) (\<lambda>_.
         op_bind (op_lift (map_key_new (mt_key D) j)) (\<lambda>mj.
           op_upd (map_insert_child mj a))))))))"

section \<open>Entries\<close>

text \<open>
  \<^verbatim>\<open>Entry\<close> and \<^verbatim>\<open>ChildMut\<close> borrow the map mutably; here the map is passed along.  \<open>Modified\<close> refers
  to an entry of the in-memory map by its key.
\<close>

datatype ('k, 'v) child_mut = Unmodified 'k 'v | Modified bytes

datatype ('k, 'v) map_entry = Vacant 'k | Occupied "('k, 'v) child_mut"

definition entry :: "('s, 'k, 'v) map_types \<Rightarrow> ('k, 'v) omap \<Rightarrow> 's \<Rightarrow> 'k \<Rightarrow> ('k, 'v) map_entry result" where
  "entry D m s key =
     and_then (map_key_new (mt_key D) key) (\<lambda>map_key.
       if map_of (mp_children m) (mk_bytes map_key) \<noteq> None
       then Ok (Occupied (Modified (mk_bytes map_key)))
       else and_then (get_from_store D m s (mk_inner map_key)) (\<lambda>r. case r of
           Some value \<Rightarrow> Ok (Occupied (Unmodified (mk_inner map_key) value))
         | None \<Rightarrow> Ok (Vacant (mk_inner map_key))))"

fun entry_into_option :: "('k, 'v) map_entry \<Rightarrow> ('k, 'v) child_mut option" where
  "entry_into_option (Vacant _) = None"
| "entry_into_option (Occupied child) = Some child"

definition map_get_mut :: "('s, 'k, 'v) map_types \<Rightarrow> ('k, 'v) omap \<Rightarrow> 's \<Rightarrow> 'k \<Rightarrow> ('k, 'v) child_mut option result" where
  "map_get_mut D m s key = and_then (entry D m s key) (\<lambda>e. Ok (entry_into_option e))"

fun child_deref :: "('k, 'v) omap \<Rightarrow> ('k, 'v) child_mut \<Rightarrow> 'v result" where
  "child_deref m (Unmodified _ value) = Ok value"
| "child_deref m (Modified kb) = (case map_of (mp_children m) kb of
     Some (_, Some value) \<Rightarrow> Ok value | _ \<Rightarrow> Panic)"

text \<open>\<^verbatim>\<open>deref_mut\<close> moves an unmodified child into the in-memory map; \<open>child_modify\<close> is an
  assignment through it.\<close>

fun child_deref_mut :: "('s, 'k, 'v) map_types \<Rightarrow> ('k, 'v) child_mut \<Rightarrow> (('k, 'v) omap, ('k, 'v) child_mut) op" where
  "child_deref_mut D (Unmodified key value) = (\<lambda>m. case map_key_new (mt_key D) key of
     Ok map_key \<Rightarrow> (Ok (Modified (mk_bytes map_key)), map_insert_child map_key (Some value) m)
   | _ \<Rightarrow> (Panic, m))"
| "child_deref_mut D (Modified kb) = (\<lambda>m. case map_of (mp_children m) kb of
     Some (_, Some value) \<Rightarrow> (Ok (Modified kb), m) | _ \<Rightarrow> (Panic, m))"

definition child_modify :: "('s, 'k, 'v) map_types \<Rightarrow> ('v \<Rightarrow> 'v) \<Rightarrow> ('k, 'v) child_mut \<Rightarrow> (('k, 'v) omap, ('k, 'v) child_mut) op" where
  "child_modify D f child = op_bind (child_deref_mut D child) (\<lambda>child' m. case child' of
      Modified kb \<Rightarrow> (case map_of (mp_children m) kb of
        Some (k, Some value) \<Rightarrow> (Ok child', m\<lparr>mp_children := bt_insert kb (k, Some (f value)) (mp_children m)\<rparr>)
      | _ \<Rightarrow> (Panic, m))
    | Unmodified _ _ \<Rightarrow> (Panic, m))"

fun child_remove :: "('s, 'k, 'v) map_types \<Rightarrow> 's \<Rightarrow> ('k, 'v) child_mut \<Rightarrow> (('k, 'v) omap, unit) op" where
  "child_remove D s (Unmodified key _) = op_bind (map_remove D s key) (\<lambda>_. op_ok ())"
| "child_remove D s (Modified kb) = (\<lambda>m. case map_of (mp_children m) kb of
     Some (k, _) \<Rightarrow> (Ok (), m\<lparr>mp_children := bt_insert kb (k, None) (mp_children m)\<rparr>)
   | None \<Rightarrow> (Panic, m))"

fun or_create :: "('s, 'k, 'v) map_types \<Rightarrow> 'v \<Rightarrow> ('k, 'v) map_entry \<Rightarrow> (('k, 'v) omap, ('k, 'v) child_mut) op" where
  "or_create D value (Vacant key) = (\<lambda>m. case enc (mt_key D) key of
     Ok key_bytes \<Rightarrow> (case st_attach (mt_value D) (store_sub (mp_store m) key_bytes) value of
         (Ok _, v) \<Rightarrow> (Ok (Unmodified key v), m) | (Err e, _) \<Rightarrow> (Err e, m) | (Panic, _) \<Rightarrow> (Panic, m))
   | Err e \<Rightarrow> (Err e, m)
   | Panic \<Rightarrow> (Panic, m))"
| "or_create D value (Occupied child) = op_ok child"

definition or_insert :: "('s, 'k, 'v) map_types \<Rightarrow> 'v \<Rightarrow> ('k, 'v) map_entry \<Rightarrow> (('k, 'v) omap, ('k, 'v) child_mut) op" where
  "or_insert D value e = op_bind (or_create D value e) (child_deref_mut D)"

definition or_default :: "('s, 'k, 'v) map_types \<Rightarrow> 'v \<Rightarrow> ('k, 'v) map_entry \<Rightarrow> (('k, 'v) omap, ('k, 'v) child_mut) op" where
  "or_default D default_value e = or_create D default_value e"

definition or_insert_default :: "('s, 'k, 'v) map_types \<Rightarrow> 'v \<Rightarrow> ('k, 'v) map_entry \<Rightarrow> (('k, 'v) omap, ('k, 'v) child_mut) op" where
  "or_insert_default D default_value e = or_insert D default_value e"

fun entry_remove :: "('s, 'k, 'v) map_types \<Rightarrow> 's \<Rightarrow> ('k, 'v) map_entry \<Rightarrow> (('k, 'v) omap, bool) op" where
  "entry_remove D s (Occupied child) = op_bind (child_remove D s child) (\<lambda>_. op_ok True)"
| "entry_remove D s (Vacant _) = op_ok False"

section \<open>Flushing\<close>

text \<open>\<^verbatim>\<open>remove_from_store\<close>: collect the keys that start with the prefix, then delete them.\<close>

fun keys_with_prefix :: "bytes \<Rightarrow> nat \<Rightarrow> iter \<Rightarrow> bytes list result option" where
  "keys_with_prefix pfx 0 it = None"
| "keys_with_prefix pfx (Suc fuel) it = (case iter_next it of
      (None, _) \<Rightarrow> Some (Ok [])
    | (Some (Err e), _) \<Rightarrow> Some (Err e)
    | (Some Panic, _) \<Rightarrow> Some Panic
    | (Some (Ok (key, _)), it') \<Rightarrow>
        if \<not> prefix pfx key then Some (Ok [])
        else map_option (\<lambda>r. and_then r (\<lambda>keys. Ok (key # keys))) (keys_with_prefix pfx fuel it'))"

fun delete_keys :: "'s backing \<Rightarrow> bytes \<Rightarrow> bytes list \<Rightarrow> ('s, unit) op" where
  "delete_keys bk store [] = op_ok ()"
| "delete_keys bk store (key # keys) = op_bind (store_delete bk store key) (\<lambda>_. delete_keys bk store keys)"

definition remove_from_store :: "('s, 'k, 'v) map_types \<Rightarrow> bytes \<Rightarrow> bytes \<Rightarrow> ('s, bool) op" where
  "remove_from_store D store pfx = (\<lambda>s.
     case keys_with_prefix pfx (mt_fuel D)
            (store_range (bk_read (mt_backing D) s) store (Included pfx, Unbounded)) of
       None \<Rightarrow> (Panic, s)
     | Some (Err e) \<Rightarrow> (Err e, s)
     | Some Panic \<Rightarrow> (Panic, s)
     | Some (Ok to_delete) \<Rightarrow>
         op_bind (delete_keys (mt_backing D) store to_delete) (\<lambda>_. op_ok (to_delete \<noteq> [])) s)"

definition apply_change :: "('s, 'k, 'v) map_types \<Rightarrow> bytes \<Rightarrow> bytes \<Rightarrow> 'v option \<Rightarrow> ('s, unit) op" where
  "apply_change D store key_bytes maybe_value = (case maybe_value of
      Some value \<Rightarrow> op_bind (st_flush (mt_value D) value) (\<lambda>value_bytes.
        store_put (mt_backing D) store key_bytes value_bytes)
    | None \<Rightarrow> op_bind (remove_from_store D store key_bytes) (\<lambda>_. op_ok ()))"

fun flush_children :: "('s, 'k, 'v) map_types \<Rightarrow> bytes \<Rightarrow> ('k, 'v) children \<Rightarrow> ('s, unit) op" where
  "flush_children D store [] = op_ok ()"
| "flush_children D store ((_, key, maybe_value) # m) =
     op_bind (op_lift (enc (mt_key D) key)) (\<lambda>key_bytes.
     op_bind (apply_change D store key_bytes maybe_value) (\<lambda>_. flush_children D store m))"

definition map_flush :: "('s, 'k, 'v) map_types \<Rightarrow> ('k, 'v) omap \<Rightarrow> ('s, unit) op" where
  "map_flush D m = flush_children D (mp_store m) (mp_children m)"

text \<open>The map's own \<^verbatim>\<open>State\<close> implementation, with which maps are nested.\<close>

definition map_state :: "('s, 'k, 'v) map_types \<Rightarrow> ('s, ('k, 'v) omap) state_ops" where
  "map_state D = \<lparr>st_attach = map_attach D,
     st_flush = (\<lambda>m. op_bind (map_flush D m) (\<lambda>_. op_ok [])),
     st_load = (\<lambda>_ store bytes. and_then (map_load D store) (\<lambda>m. Ok (m, bytes)))\<rparr>"

section \<open>Deleting below a key\<close>

lemma takeWhile_prefix:
  assumes "bt_wf es"
  shows "takeWhile (\<lambda>e. prefix p (fst e)) (filter (\<lambda>e. p \<le> fst e) es) = filter (\<lambda>e. prefix p (fst e)) es"
  using assms
proof (induction es)
  case (Cons e es)
  have below: "\<not> prefix p (fst x)" if "p \<le> fst e" "\<not> prefix p (fst e)" "x \<in> set es" for x
  proof
    assume "prefix p (fst x)"
    from not_prefix_above [OF that(2,1) this] have "fst x < fst e" .
    with Cons.prems that(3) show False by fastforce
  qed
  show ?case
  proof (cases "p \<le> fst e")
    case True
    with Cons below show ?thesis by (auto simp: filter_empty_conv)
  next
    case False
    then have "\<not> prefix p (fst e)" using prefix_imp_le by blast
    with False Cons show ?thesis by simp
  qed
qed simp

context forward_reader
begin

lemma keys_with_prefix_rest:
  assumes "iter_parent it = r" and "length (iter_rest es it) < fuel"
  shows "keys_with_prefix p fuel it = Some (Ok (map fst (takeWhile (\<lambda>e. prefix p (fst e)) (iter_rest es it))))"
  using assms
proof (induction fuel arbitrary: it)
  case (Suc fuel)
  note step = iter_next_rest [OF Suc.prems(1)]
  obtain o' it' where n: "iter_next it = (o', it')" by force
  with Suc.IH [of it'] step Suc.prems show ?case by (cases "iter_rest es it") auto
qed simp

lemma keys_with_prefix_range:
  assumes "length es < fuel"
  shows "keys_with_prefix p fuel (into_iter r (Included p, Unbounded))
    = Some (Ok (map fst (filter (\<lambda>e. prefix p (fst e)) es)))"
proof -
  have rest: "iter_rest es (into_iter r (Included p, Unbounded)) = filter (\<lambda>e. p \<le> fst e) es"
    by (simp add: bt_range_def bounds_contain_def)
  have "length (filter (\<lambda>e. p \<le> fst e) es) < fuel" using assms length_filter_le le_less_trans by blast
  then show ?thesis
    using keys_with_prefix_rest [of "into_iter r (Included p, Unbounded)" fuel p]
    unfolding rest takeWhile_prefix [OF entries_wf] by simp
qed

end

context lawful_backing
begin

lemma delete_keys_law:
  "invar s \<Longrightarrow> \<exists>s'. delete_keys bk p keys s = (Ok (), s') \<and> invar s'
    \<and> ents s' = filter (\<lambda>e. fst e \<notin> (@) p ` set keys) (ents s)"
proof (induction keys arbitrary: s)
  case (Cons k keys)
  obtain s1 where s1: "store_delete bk p k s = (Ok (), s1)" "invar s1" "ents s1 = bt_remove (p @ k) (ents s)"
    using delete_law [OF Cons.prems, of "p @ k"] by (auto simp: store_delete_def store_concat_def)
  obtain s2 where s2: "delete_keys bk p keys s1 = (Ok (), s2)" "invar s2"
      "ents s2 = filter (\<lambda>e. fst e \<notin> (@) p ` set keys) (ents s1)"
    using Cons.IH [OF s1(2)] by blast
  have "ents s2 = filter (\<lambda>e. fst e \<notin> (@) p ` set (k # keys)) (ents s)"
    unfolding s2(3) s1(3) bt_remove_def filter_filter by (rule filter_cong) auto
  with s1 s2 show ?case by (simp add: op_bind_def)
qed simp

lemma remove_from_store_law:
  assumes "mt_backing D = bk" and "invar s" and "length (sub_ents p (ents s)) < mt_fuel D"
  shows "\<exists>b s'. remove_from_store D p q s = (Ok b, s') \<and> invar s'
    \<and> b = (\<exists>e \<in> set (sub_ents p (ents s)). prefix q (fst e))
    \<and> ents s' = filter (\<lambda>e. \<not> prefix (p @ q) (fst e)) (ents s)"
proof -
  let ?keys = "map fst (filter (\<lambda>e. prefix q (fst e)) (sub_ents p (ents s)))"
  have keys: "keys_with_prefix q (mt_fuel D) (store_range (bk_read bk s) p (Included q, Unbounded)) = Some (Ok ?keys)"
    unfolding store_range_def
    by (rule forward_reader.keys_with_prefix_range
        [OF lawful_store_reader_forward [OF reads_lawful [OF assms(2)]] assms(3)])
  obtain s' where s': "delete_keys bk p ?keys s = (Ok (), s')" "invar s'"
      "ents s' = filter (\<lambda>e. fst e \<notin> (@) p ` set ?keys) (ents s)"
    using delete_keys_law [OF assms(2)] by blast
  have "(fst e \<notin> (@) p ` set ?keys) = (\<not> prefix (p @ q) (fst e))" if "e \<in> set (ents s)" for e
  proof -
    have "fst e \<in> (@) p ` set ?keys" if pq: "prefix (p @ q) (fst e)"
    proof -
      obtain r where r: "fst e = p @ q @ r" using pq by (auto simp: prefix_def)
      then have "(q @ r, snd e) = (drop (length p) (fst e), snd e)" "prefix p (fst e)" by simp_all
      then have "(q @ r, snd e) \<in> set (sub_ents p (ents s))"
        unfolding sub_ents_def set_map set_filter using \<open>e \<in> set (ents s)\<close> by blast
      then have "q @ r \<in> set ?keys" by (simp add: image_iff) (metis fst_conv prefixI)
      with r show ?thesis by blast
    qed
    then show ?thesis by (auto simp: prefix_def)
  qed
  then have "ents s' = filter (\<lambda>e. \<not> prefix (p @ q) (fst e)) (ents s)"
    unfolding s'(3) by (intro filter_cong) auto
  with s' keys assms(1) show ?thesis
    by (auto simp: remove_from_store_def op_bind_def filter_empty_conv)
qed

end

lemma sub_ents_filter_prefix:
  "sub_ents p (filter (\<lambda>e. \<not> prefix (p @ q) (fst e)) es) = filter (\<lambda>e. \<not> prefix q (fst e)) (sub_ents p es)"
  by (induction es) (auto simp: sub_ents_def prefix_def)

section \<open>The contract of a map\<close>

text \<open>
  \<open>look m s k\<close> is the value a map holds at a key, taking the in-memory changes and the store
  together.  The laws say what each method returns and what it does to the lookups; they
  are what other collections rely on.
\<close>

locale map_contract =
  fixes D :: "('s, 'k, 'v) map_types" and look :: "('k, 'v) omap \<Rightarrow> 's \<Rightarrow> 'k \<Rightarrow> 'v option"
    and wf :: "('k, 'v) omap \<Rightarrow> 's \<Rightarrow> bool" and okk :: "'k \<Rightarrow> bool" and okv :: "'v \<Rightarrow> bool"
  assumes get_law: "wf m s \<Longrightarrow> okk k \<Longrightarrow> \<exists>r. map_get D m s k = Ok r \<and> map_option ref_deref r = look m s k"
    and contains_law: "wf m s \<Longrightarrow> okk k \<Longrightarrow> map_contains_key D m s k = Ok (look m s k \<noteq> None)"
    and look_ok: "wf m s \<Longrightarrow> okk k \<Longrightarrow> look m s k = Some v \<Longrightarrow> okv v"
    and insert_law: "wf m s \<Longrightarrow> okk k \<Longrightarrow> okv v \<Longrightarrow> \<exists>m'. map_insert D k v m = (Ok (), m') \<and> wf m' s
      \<and> mp_store m' = mp_store m \<and> (\<forall>k'. okk k' \<longrightarrow> look m' s k' = (if k' = k then Some v else look m s k'))"
    and remove_law: "wf m s \<Longrightarrow> okk k \<Longrightarrow> \<exists>m'. map_remove D s k m = (Ok (map_option ReadOnly (look m s k)), m') \<and> wf m' s
      \<and> mp_store m' = mp_store m \<and> (\<forall>k'. okk k' \<longrightarrow> look m' s k' = (if k' = k then None else look m s k'))"
    and swap_law: "wf m s \<Longrightarrow> okk i \<Longrightarrow> okk j \<Longrightarrow>
      if look m s i = None \<or> look m s j = None
      then map_swap D s i j m = (Err (Error_App ''Swap failed. Key not found.''), m)
      else \<exists>m'. map_swap D s i j m = (Ok (), m') \<and> wf m' s \<and> mp_store m' = mp_store m
        \<and> (\<forall>k'. okk k' \<longrightarrow> look m' s k' = (if k' = i then look m s j else if k' = j then look m s i else look m s k'))"
    and get_mut_law: "wf m s \<Longrightarrow> okk k \<Longrightarrow> look m s k = Some v \<Longrightarrow>
      \<exists>c. map_get_mut D m s k = Ok (Some c) \<and> child_deref m c = Ok v
        \<and> (okv (f v) \<longrightarrow> (\<exists>c' m'. child_modify D f c m = (Ok c', m') \<and> wf m' s \<and> mp_store m' = mp_store m
            \<and> (\<forall>k'. okk k' \<longrightarrow> look m' s k' = (if k' = k then Some (f v) else look m s k'))))"

section \<open>Maps of simple values\<close>

text \<open>The bytes a simple value is stored as.\<close>

definition stored_as :: "('s, 'v) state_ops \<Rightarrow> 'v \<Rightarrow> bytes \<Rightarrow> bool" where
  "stored_as V v bs \<longleftrightarrow> (\<forall>s. st_flush V v s = (Ok bs, s)) \<and> (\<forall>s p. st_load V s p bs = Ok (v, []))"

lemma stored_as_load: "stored_as V v bs \<Longrightarrow> st_load V s p bs = Ok (v, [])"
  by (simp add: stored_as_def)

text \<open>What a map holds at an encoded key: the in-memory change if there is one, and
  otherwise what is loaded from the store.\<close>

definition store_look :: "('s, 'v) state_ops \<Rightarrow> bytes \<Rightarrow> kv list \<Rightarrow> 's \<Rightarrow> bytes \<Rightarrow> 'v option" where
  "store_look V p es s kb = (case map_of (sub_ents p es) kb of
      None \<Rightarrow> None
    | Some bs \<Rightarrow> (case st_load V s (store_sub p kb) bs of Ok (v, _) \<Rightarrow> Some v | _ \<Rightarrow> None))"

definition byte_look :: "('s, 'k, 'v) map_types \<Rightarrow> ('s \<Rightarrow> kv list) \<Rightarrow> ('k, 'v) omap \<Rightarrow> 's \<Rightarrow> bytes \<Rightarrow> 'v option" where
  "byte_look D ents m s kb = (case map_of (mp_children m) kb of
      Some (_, vo) \<Rightarrow> vo
    | None \<Rightarrow> store_look (mt_value D) (mp_store m) (ents s) s kb)"

definition key_bytes :: "'k codec \<Rightarrow> 'k \<Rightarrow> bytes" where
  "key_bytes K k = (case enc K k of Ok bs \<Rightarrow> bs | _ \<Rightarrow> [])"

definition map_look :: "('s, 'k, 'v) map_types \<Rightarrow> ('s \<Rightarrow> kv list) \<Rightarrow> ('k, 'v) omap \<Rightarrow> 's \<Rightarrow> 'k \<Rightarrow> 'v option" where
  "map_look D ents m s k = byte_look D ents m s (key_bytes (mt_key D) k)"

text \<open>A well-formed map: the in-memory map is sorted and its keys belong to its entries;
  every entry of the store below the prefix, apart from one at the empty key, is a value
  stored at the encoding of a key.\<close>

definition store_wf :: "('s, 'k, 'v) map_types \<Rightarrow> ('k \<Rightarrow> bool) \<Rightarrow> ('v \<Rightarrow> bool) \<Rightarrow> kv list \<Rightarrow> bool" where
  "store_wf D okk okv es \<longleftrightarrow> (\<forall>(kb, bs) \<in> set es.
     kb = [] \<and> (\<forall>k. okk k \<longrightarrow> enc (mt_key D) k \<noteq> Ok []) \<or> (\<exists>k v. okk k \<and> enc (mt_key D) k = Ok kb \<and> okv v \<and> stored_as (mt_value D) v bs))"

definition children_wf :: "('s, 'k, 'v) map_types \<Rightarrow> ('k \<Rightarrow> bool) \<Rightarrow> ('v \<Rightarrow> bool) \<Rightarrow> ('k, 'v) children \<Rightarrow> bool" where
  "children_wf D okk okv m \<longleftrightarrow> bt_wf m \<and> (\<forall>kb k vo. map_of m kb = Some (k, vo) \<longrightarrow>
     okk k \<and> enc (mt_key D) k = Ok kb \<and> pred_option okv vo)"

definition map_wf :: "('s, 'k, 'v) map_types \<Rightarrow> ('s \<Rightarrow> kv list) \<Rightarrow> ('s \<Rightarrow> bool) \<Rightarrow> ('k \<Rightarrow> bool) \<Rightarrow> ('v \<Rightarrow> bool)
    \<Rightarrow> ('k, 'v) omap \<Rightarrow> 's \<Rightarrow> bool" where
  "map_wf D ents invar okk okv m s \<longleftrightarrow> invar s \<and> children_wf D okk okv (mp_children m)
     \<and> store_wf D okk okv (sub_ents (mp_store m) (ents s))"

locale simple_map =
  backing: lawful_backing "mt_backing D" ents invar "\<lambda>_. True" +
  key: terminated_codec "mt_key D" okk +
  val: stored_state "mt_value D" okv
  for D :: "('s, 'k, 'v) map_types" and ents :: "'s \<Rightarrow> kv list" and invar :: "'s \<Rightarrow> bool"
    and okk :: "'k \<Rightarrow> bool" and okv :: "'v \<Rightarrow> bool"
begin

abbreviation wf :: "('k, 'v) omap \<Rightarrow> 's \<Rightarrow> bool" where
  "wf \<equiv> map_wf D ents invar okk okv"

abbreviation look :: "('k, 'v) omap \<Rightarrow> 's \<Rightarrow> 'k \<Rightarrow> 'v option" where
  "look \<equiv> map_look D ents"

abbreviation kb :: "'k \<Rightarrow> bytes" where
  "kb \<equiv> key_bytes (mt_key D)"

lemma enc_kb: "okk k \<Longrightarrow> enc (mt_key D) k = Ok (kb k)"
  using key.enc_total [of k] by (auto simp: key_bytes_def)

lemma dec_kb: "okk k \<Longrightarrow> dec (mt_key D) (kb k @ rest) = Ok (k, rest)"
  by (rule key.dec_enc [OF _ enc_kb])

lemma kb_prefix_free: "okk k \<Longrightarrow> okk k' \<Longrightarrow> prefix (kb k) (kb k') \<Longrightarrow> k = k'"
proof (elim prefixE)
  fix rest assume k: "okk k" "okk k'" and eq: "kb k' = kb k @ rest"
  have "dec (mt_key D) (kb k') = Ok (k, rest)" unfolding eq by (rule dec_kb [OF k(1)])
  moreover have "dec (mt_key D) (kb k') = Ok (k', [])" using dec_kb [OF k(2), of "[]"] by simp
  ultimately show ?thesis by simp
qed

lemma kb_inj: "okk k \<Longrightarrow> okk k' \<Longrightarrow> kb k = kb k' \<longleftrightarrow> k = k'"
  using kb_prefix_free [of k k'] by auto

lemma map_key_new_kb: "okk k \<Longrightarrow> map_key_new (mt_key D) k = Ok \<lparr>mk_inner = k, mk_bytes = kb k\<rparr>"
  by (simp add: map_key_new_def enc_kb)

lemma stored_as_ex: "okv v \<Longrightarrow> \<exists>bs. stored_as (mt_value D) v bs"
  using val.flush_load_all [of v] by (auto simp: stored_as_def)

lemma store_look_Some:
  assumes "store_wf D okk okv (sub_ents p es)" and "map_of (sub_ents p es) (kb k) = Some bs" and "okk k"
  shows "\<exists>v. okv v \<and> stored_as (mt_value D) v bs \<and> store_look (mt_value D) p es s (kb k) = Some v"
proof -
  obtain v where v: "okv v" "stored_as (mt_value D) v bs"
    using assms map_of_SomeD [OF assms(2)] enc_kb [OF assms(3)] by (fastforce simp: store_wf_def)
  with assms(2) show ?thesis by (simp add: store_look_def stored_as_load)
qed

lemma get_from_store_look:
  assumes "wf m s" and "okk k"
  shows "get_from_store D m s k = Ok (store_look (mt_value D) (mp_store m) (ents s) s (kb k))"
proof -
  let ?es = "sub_ents (mp_store m) (ents s)"
  have rd: "lawful_reader (bk_read (mt_backing D) s) (ents s)"
    using assms backing.reads_lawful by (simp add: map_wf_def)
  have get: "store_get (bk_read (mt_backing D) s) (mp_store m) (kb k) = Ok (map_of ?es (kb k))"
    using lawful_get [OF rd] by (simp add: store_get_def store_concat_def map_of_sub_ents)
  show ?thesis
  proof (cases "map_of ?es (kb k)")
    case None
    then show ?thesis using get by (simp add: get_from_store_def enc_kb [OF assms(2)] store_look_def)
  next
    case (Some bs)
    have swf: "store_wf D okk okv ?es" using assms(1) by (simp add: map_wf_def)
    obtain v where v: "okv v" "stored_as (mt_value D) v bs"
        "store_look (mt_value D) (mp_store m) (ents s) s (kb k) = Some v"
      using store_look_Some [OF swf Some assms(2)] by blast
    then have "load_value D m s (kb k) bs = Ok v" by (simp add: load_value_def stored_as_load)
    with v Some get show ?thesis by (simp add: get_from_store_def enc_kb [OF assms(2)])
  qed
qed

lemma look_children: "look m s k = (case map_of (mp_children m) (kb k) of
    Some (_, vo) \<Rightarrow> vo | None \<Rightarrow> store_look (mt_value D) (mp_store m) (ents s) s (kb k))"
  by (simp add: map_look_def byte_look_def)

lemma look_ok: "wf m s \<Longrightarrow> okk k \<Longrightarrow> look m s k = Some v \<Longrightarrow> okv v"
proof (cases "map_of (mp_children m) (kb k)")
  case None
  assume a: "wf m s" "okk k" "look m s k = Some v"
  then obtain bs where "map_of (sub_ents (mp_store m) (ents s)) (kb k) = Some bs"
    using None by (auto simp: look_children store_look_def split: option.splits)
  with a None show ?thesis
    using store_look_Some [of "mp_store m" "ents s" k bs s] by (auto simp: look_children map_wf_def)
next
  case (Some e)
  assume "wf m s" "okk k" "look m s k = Some v"
  with Some show ?thesis
    by (cases e) (fastforce simp: look_children map_wf_def children_wf_def)
qed

text \<open>Updating the in-memory map.\<close>

lemma children_wf_insert:
  assumes "children_wf D okk okv m" and "okk k" and "enc (mt_key D) k = Ok b" and "pred_option okv vo"
  shows "children_wf D okk okv (bt_insert b (k, vo) m)"
  using assms by (auto simp: children_wf_def)

lemma children_insert_eq:
  assumes "children_wf D okk okv m" and "okk k"
  shows "children_insert \<lparr>mk_inner = k, mk_bytes = kb k\<rparr> vo m = bt_insert (kb k) (k, vo) m"
proof (cases "map_of m (kb k)")
  case (Some e)
  obtain k' x where e: "e = (k', x)" by force
  with Some assms have "okk k'" "enc (mt_key D) k' = Ok (kb k)" by (auto simp: children_wf_def)
  then have "k' = k" using kb_inj [of k' k] enc_kb [of k'] assms(2) by simp
  with Some e show ?thesis by (simp add: children_insert_def)
qed (simp add: children_insert_def)

lemma wf_set_child:
  assumes "wf m s" and "okk k" and "pred_option okv vo"
  shows "wf (m\<lparr>mp_children := bt_insert (kb k) (k, vo) (mp_children m)\<rparr>) s"
    and "okk k' \<Longrightarrow> look (m\<lparr>mp_children := bt_insert (kb k) (k, vo) (mp_children m)\<rparr>) s k'
      = (if k' = k then vo else look m s k')"
  using assms children_wf_insert [OF _ assms(2) enc_kb [OF assms(2)], of "mp_children m" vo]
  by (auto simp: map_wf_def look_children kb_inj split: option.splits)

lemma map_get_look:
  assumes "wf m s" and "okk k"
  shows "\<exists>r. map_get D m s k = Ok r \<and> map_option ref_deref r = look m s k"
proof (cases "map_of (mp_children m) (kb k)")
  case None
  then show ?thesis
    using get_from_store_look [OF assms]
    by (simp add: map_get_def map_key_new_kb [OF assms(2)] look_children option.map_comp comp_def option.map_ident)
next
  case (Some e)
  then show ?thesis
    by (cases e) (simp add: map_get_def map_key_new_kb [OF assms(2)] look_children option.map_comp comp_def option.map_ident)
qed

lemma map_contains_look:
  assumes "wf m s" and "okk k"
  shows "map_contains_key D m s k = Ok (look m s k \<noteq> None)"
  using get_from_store_look [OF assms]
  by (auto simp: map_contains_key_def map_key_new_kb [OF assms(2)] look_children split: option.splits)

lemma map_insert_look:
  assumes "wf m s" and "okk k" and "okv v"
  shows "map_insert D k v m = (Ok (), m\<lparr>mp_children := bt_insert (kb k) (k, Some v) (mp_children m)\<rparr>)"
  using assms children_insert_eq [of "mp_children m" k "Some v"]
  by (simp add: map_insert_def map_key_new_kb val.attach_same map_wf_def)

text \<open>Removing: whether the key was in memory or not, the result is the lookup and, unless
  there was nothing, the map records the removal.\<close>

lemma bt_insert_remove: "bt_wf m \<Longrightarrow> bt_insert k x (bt_remove k m) = bt_insert k x m"
  by (rule bt_eqI) (auto simp: bt_wf_insert bt_wf_remove)

lemma children_insert_removed:
  assumes "children_wf D okk okv m" and "okk k"
  shows "children_insert \<lparr>mk_inner = k, mk_bytes = kb k\<rparr> vo (bt_remove (kb k) m) = bt_insert (kb k) (k, vo) m"
  using assms bt_insert_remove [of m "kb k"] by (simp add: children_insert_def children_wf_def)

lemma map_remove_raw_look:
  assumes "wf m s" and "okk k"
  shows "map_remove_raw D s k m = (Ok (look m s k),
    if map_of (mp_children m) (kb k) = None \<and> look m s k = None then m
    else m\<lparr>mp_children := bt_insert (kb k) (k, None) (mp_children m)\<rparr>)"
proof -
  have cwf: "children_wf D okk okv (mp_children m)" using assms(1) by (simp add: map_wf_def)
  show ?thesis
  proof (cases "map_of (mp_children m) (kb k)")
    case None
    then show ?thesis
      using get_from_store_look [OF assms] children_insert_eq [OF cwf assms(2), of None]
      by (auto simp: map_remove_raw_def map_key_new_kb [OF assms(2)] look_children split: option.splits)
  next
    case (Some e)
    then show ?thesis
      by (cases e) (simp add: map_remove_raw_def map_key_new_kb [OF assms(2)] look_children
          children_insert_removed [OF cwf assms(2)])
  qed
qed

lemma map_remove_raw:
  "map_remove D s k m = (case map_remove_raw D s k m of
     (Ok r, m') \<Rightarrow> (Ok (map_option ReadOnly r), m') | (Err e, m') \<Rightarrow> (Err e, m') | (Panic, m') \<Rightarrow> (Panic, m'))"
  by (auto simp: map_remove_def map_remove_raw_def split: result.splits option.splits)

lemma wf_remove_raw:
  assumes "wf m s" and "okk k"
  obtains m' where "map_remove_raw D s k m = (Ok (look m s k), m')" "wf m' s" "mp_store m' = mp_store m"
    "\<forall>k'. okk k' \<longrightarrow> look m' s k' = (if k' = k then None else look m s k')"
    "look m s k \<noteq> None \<Longrightarrow> m' = m\<lparr>mp_children := bt_insert (kb k) (k, None) (mp_children m)\<rparr>"
  using map_remove_raw_look [OF assms] wf_set_child [OF assms, of None] assms(1)
  by (cases "map_of (mp_children m) (kb k) = None \<and> look m s k = None") auto

lemma map_swap_look:
  assumes "wf m s" and "okk i" and "okk j" and "look m s i \<noteq> None" and "look m s j \<noteq> None"
  shows "\<exists>m'. map_swap D s i j m = (Ok (), m') \<and> wf m' s \<and> mp_store m' = mp_store m
    \<and> (\<forall>k'. okk k' \<longrightarrow> look m' s k' = (if k' = i then look m s j else if k' = j then look m s i else look m s k'))"
proof -
  obtain m1 where m1: "map_remove_raw D s i m = (Ok (look m s i), m1)" "wf m1 s" "mp_store m1 = mp_store m"
      "\<forall>k'. okk k' \<longrightarrow> look m1 s k' = (if k' = i then None else look m s k')"
    by (rule wf_remove_raw [OF assms(1,2)])
  obtain m2 where m2: "map_remove_raw D s j m1 = (Ok (look m1 s j), m2)" "wf m2 s" "mp_store m2 = mp_store m1"
      "\<forall>k'. okk k' \<longrightarrow> look m2 s k' = (if k' = j then None else look m1 s k')"
    by (rule wf_remove_raw [OF m1(2) assms(3)])
  let ?m3 = "m2\<lparr>mp_children := bt_insert (kb i) (i, look m1 s j) (mp_children m2)\<rparr>"
  have ok_b: "pred_option okv (look m1 s j)" using look_ok [OF m1(2) assms(3)] by (simp add: pred_option_def)
  have ok_a: "pred_option okv (look m s i)" using look_ok [OF assms(1,2)] by (simp add: pred_option_def)
  note m3 = wf_set_child [OF m2(2) assms(2) ok_b]
  let ?m4 = "?m3\<lparr>mp_children := bt_insert (kb j) (j, look m s i) (mp_children ?m3)\<rparr>"
  note m4 = wf_set_child [OF m3(1) assms(3) ok_a]
  have c: "children_wf D okk okv (mp_children m2)" "children_wf D okk okv (mp_children ?m3)"
    using m2(2) m3(1) by (simp_all add: map_wf_def)
  have "map_swap D s i j m = (Ok (), ?m4)"
    using m1(1) m2(1) map_contains_look [OF assms(1,2)] map_contains_look [OF assms(1,3)] assms(4,5)
      children_insert_eq [OF c(1) assms(2)] children_insert_eq [OF c(2) assms(3)]
    by (simp add: map_swap_def op_bind_def map_key_new_kb assms)
  moreover have "look ?m4 s k' = (if k' = i then look m s j else if k' = j then look m s i else look m s k')"
    if "okk k'" for k'
    using m4(2) [OF that] m3(2) [OF that] m2(4) that m1(4) assms(3) by (auto simp del: fun_upd_apply)
  ultimately show ?thesis using m4(1) m1(3) m2(3) by auto
qed

lemma map_swap_missing:
  assumes "wf m s" and "okk i" and "okk j" and "look m s i = None \<or> look m s j = None"
  shows "map_swap D s i j m = (Err (Error_App ''Swap failed. Key not found.''), m)"
  using assms(4) map_contains_look [OF assms(1,2)] map_contains_look [OF assms(1,3)]
  by (auto simp: map_swap_def op_bind_def)

lemma map_get_mut_look:
  assumes "wf m s" and "okk k" and "look m s k = Some v"
  shows "\<exists>c. map_get_mut D m s k = Ok (Some c) \<and> child_deref m c = Ok v
    \<and> (okv (f v) \<longrightarrow> child_modify D f c m
        = (Ok (Modified (kb k)), m\<lparr>mp_children := bt_insert (kb k) (k, Some (f v)) (mp_children m)\<rparr>))"
proof -
  have cwf: "children_wf D okk okv (mp_children m)" using assms(1) by (simp add: map_wf_def)
  show ?thesis
  proof (cases "map_of (mp_children m) (kb k)")
    case None
    then have "get_from_store D m s k = Ok (Some v)"
      using get_from_store_look [OF assms(1,2)] assms(3) by (simp add: look_children)
    moreover have "bt_insert (kb k) x (bt_insert (kb k) y (mp_children m)) = bt_insert (kb k) x (mp_children m)" for x y
      using cwf by (intro bt_eqI) (auto simp: children_wf_def)
    ultimately show ?thesis
      using None children_insert_eq [OF cwf assms(2), of "Some v"]
      by (simp add: map_get_mut_def entry_def map_key_new_kb [OF assms(2)] child_modify_def op_bind_def)
  next
    case (Some e)
    obtain k' vo where e: "e = (k', vo)" by force
    have "okk k'" "enc (mt_key D) k' = Ok (kb k)" using Some e cwf by (auto simp: children_wf_def)
    then have "k' = k" using kb_inj [of k' k] enc_kb [of k'] assms(2) by simp
    with Some e assms(3) show ?thesis
      by (simp add: map_get_mut_def entry_def map_key_new_kb [OF assms(2)] look_children child_modify_def op_bind_def)
  qed
qed

lemma simple_map_contract: "map_contract D look wf okk okv"
proof
  fix m s k v f
  assume wf: "wf m s" and k: "okk k"
  show "\<exists>r. map_get D m s k = Ok r \<and> map_option ref_deref r = look m s k" by (rule map_get_look [OF wf k])
  show "map_contains_key D m s k = Ok (look m s k \<noteq> None)" by (rule map_contains_look [OF wf k])
  show "okv v" if "look m s k = Some v" using look_ok [OF wf k that] .
  show "\<exists>m'. map_insert D k v m = (Ok (), m') \<and> wf m' s \<and> mp_store m' = mp_store m
      \<and> (\<forall>k'. okk k' \<longrightarrow> look m' s k' = (if k' = k then Some v else look m s k'))" if "okv v"
    using map_insert_look [OF wf k that] wf_set_child [OF wf k, of "Some v"] that by auto
  show "\<exists>m'. map_remove D s k m = (Ok (map_option ReadOnly (look m s k)), m') \<and> wf m' s \<and> mp_store m' = mp_store m
      \<and> (\<forall>k'. okk k' \<longrightarrow> look m' s k' = (if k' = k then None else look m s k'))"
    by (rule wf_remove_raw [OF wf k]) (simp add: map_remove_raw)
  show "if look m s k = None \<or> look m s j = None
      then map_swap D s k j m = (Err (Error_App ''Swap failed. Key not found.''), m)
      else \<exists>m'. map_swap D s k j m = (Ok (), m') \<and> wf m' s \<and> mp_store m' = mp_store m
        \<and> (\<forall>k'. okk k' \<longrightarrow> look m' s k' = (if k' = k then look m s j else if k' = j then look m s k else look m s k'))"
    if "okk j" for j
    using map_swap_look [OF wf k that] map_swap_missing [OF wf k that] by simp
  show "\<exists>c. map_get_mut D m s k = Ok (Some c) \<and> child_deref m c = Ok v
      \<and> (okv (f v) \<longrightarrow> (\<exists>c' m'. child_modify D f c m = (Ok c', m') \<and> wf m' s \<and> mp_store m' = mp_store m
          \<and> (\<forall>k'. okk k' \<longrightarrow> look m' s k' = (if k' = k then Some (f v) else look m s k'))))"
    if "look m s k = Some v"
    using map_get_mut_look [OF wf k that, of f] wf_set_child [OF wf k, of "Some (f v)"] by auto
qed

text \<open>Flushing one entry.\<close>

lemma store_look_state:
  assumes "store_wf D okk okv (sub_ents p es)" and "okk k"
  shows "store_look (mt_value D) p es s (kb k) = store_look (mt_value D) p es t (kb k)"
proof (cases "map_of (sub_ents p es) (kb k)")
  case (Some bs)
  then obtain v where "okv v" "stored_as (mt_value D) v bs"
    using store_look_Some [OF assms(1) Some assms(2)] by blast
  with Some show ?thesis by (simp add: store_look_def stored_as_load)
qed (simp add: store_look_def)

lemma length_bt_insert: "length (bt_insert k v m) \<le> Suc (length m)"
  by (induction m) auto

lemma store_wf_insert:
  "store_wf D okk okv es \<Longrightarrow> okk k \<Longrightarrow> okv v \<Longrightarrow> stored_as (mt_value D) v bs \<Longrightarrow> store_wf D okk okv (bt_insert (kb k) bs es)"
  by (induction es) (auto simp: store_wf_def enc_kb)

lemma apply_change_look:
  assumes "invar s" and swf: "store_wf D okk okv (sub_ents p (ents s))" and k: "okk k" and "pred_option okv vo"
    and len: "length (kb k) + length p < 256" and fuel: "length (sub_ents p (ents s)) < mt_fuel D"
  shows "\<exists>s'. apply_change D p (kb k) vo s = (Ok (), s') \<and> invar s'
    \<and> store_wf D okk okv (sub_ents p (ents s')) \<and> length (sub_ents p (ents s')) \<le> Suc (length (sub_ents p (ents s)))
    \<and> (\<forall>k' t. okk k' \<longrightarrow> store_look (mt_value D) p (ents s') t (kb k')
        = (if k' = k then vo else store_look (mt_value D) p (ents s) t (kb k')))
    \<and> (\<forall>x. \<not> prefix p x \<longrightarrow> map_of (ents s') x = map_of (ents s) x)"
proof (cases vo)
  case (Some v)
  then have "okv v" using assms(4) by simp
  then obtain bs where bs: "stored_as (mt_value D) v bs" using stored_as_ex by blast
  have wf: "bt_wf (ents s)" by (rule lawful_entries_wf [OF backing.reads_lawful [OF assms(1)]])
  obtain s' where s': "bk_put (mt_backing D) (p @ kb k) bs s = (Ok (), s')" "invar s'"
      "ents s' = bt_insert (p @ kb k) bs (ents s)"
    using backing.put_law [OF assms(1)] by blast
  have sub: "sub_ents p (ents s') = bt_insert (kb k) bs (sub_ents p (ents s))"
    unfolding s'(3) by (rule sub_ents_insert [OF wf])
  have "apply_change D p (kb k) vo s = (Ok (), s')"
    using bs s'(1) len Some by (simp add: apply_change_def op_bind_def stored_as_def store_put_def store_concat_def)
  moreover have "store_look (mt_value D) p (ents s') t (kb k')
      = (if k' = k then vo else store_look (mt_value D) p (ents s) t (kb k'))" if "okk k'" for k' t
    using that k bs Some by (auto simp: store_look_def sub kb_inj stored_as_load)
  moreover have "map_of (ents s') x = map_of (ents s) x" if "\<not> prefix p x" for x
    using that by (auto simp: s'(3))
  ultimately show ?thesis
    using s'(2) store_wf_insert [OF swf k \<open>okv v\<close> bs] length_bt_insert [of "kb k" bs] by (simp add: sub)
next
  case None
  obtain b s' where s': "remove_from_store D p (kb k) s = (Ok b, s')" "invar s'"
      "ents s' = filter (\<lambda>e. \<not> prefix (p @ kb k) (fst e)) (ents s)"
    using backing.remove_from_store_law [OF refl assms(1) fuel] by blast
  have sub: "sub_ents p (ents s') = filter (\<lambda>e. \<not> prefix (kb k) (fst e)) (sub_ents p (ents s))"
    unfolding s'(3) by (rule sub_ents_filter_prefix)
  have "apply_change D p (kb k) vo s = (Ok (), s')"
    using s'(1) None by (simp add: apply_change_def op_bind_def)
  moreover have "store_look (mt_value D) p (ents s') t (kb k')
      = (if k' = k then vo else store_look (mt_value D) p (ents s) t (kb k'))" if "okk k'" for k' t
    using that k kb_prefix_free [OF k that] None
    by (auto simp: store_look_def sub map_of_filter_key [of "\<lambda>x. \<not> prefix (kb k) x"])
  moreover have "map_of (ents s') x = map_of (ents s) x" if "\<not> prefix p x" for x
  proof -
    have "\<not> prefix (p @ kb k) x" using that by (auto simp: prefix_def)
    then show ?thesis by (simp add: s'(3) map_of_filter_key [of "\<lambda>x. \<not> prefix (p @ kb k) x"])
  qed
  moreover have "store_wf D okk okv (sub_ents p (ents s'))"
    using swf by (auto simp: sub store_wf_def)
  ultimately show ?thesis using s'(2) by (simp add: sub le_SucI)
qed

lemma children_wf_ConsD:
  assumes "children_wf D okk okv ((b, k, vo) # m)"
  shows "okk k" and "enc (mt_key D) k = Ok b" and "pred_option okv vo" and "map_of m b = None"
    and "children_wf D okk okv m"
proof -
  have wf: "bt_wf ((b, k, vo) # m)"
    and *: "\<And>kb ka voa. map_of ((b, k, vo) # m) kb = Some (ka, voa) \<Longrightarrow>
      okk ka \<and> enc (mt_key D) ka = Ok kb \<and> pred_option okv voa"
    using assms by (auto simp: children_wf_def)
  show "okk k" "enc (mt_key D) k = Ok b" "pred_option okv vo" using * [of b k vo] by simp_all
  show fresh: "map_of m b = None" using wf by (auto simp: map_of_eq_None_iff)
  have "okk ka \<and> enc (mt_key D) ka = Ok kb \<and> pred_option okv voa" if "map_of m kb = Some (ka, voa)" for kb ka voa
    using * [of kb ka voa] that fresh by (cases "kb = b") auto
  then show "children_wf D okk okv m" using wf by (simp add: children_wf_def)
qed

lemma flush_children_look:
  assumes "invar s" and "store_wf D okk okv (sub_ents p (ents s))" and "children_wf D okk okv m"
    and "\<forall>b \<in> fst ` set m. length b + length p < 256" and "length (sub_ents p (ents s)) + length m < mt_fuel D"
  shows "\<exists>s'. flush_children D p m s = (Ok (), s') \<and> invar s' \<and> store_wf D okk okv (sub_ents p (ents s'))
    \<and> (\<forall>k' t. okk k' \<longrightarrow> store_look (mt_value D) p (ents s') t (kb k')
        = (case map_of m (kb k') of Some (_, vo) \<Rightarrow> vo | None \<Rightarrow> store_look (mt_value D) p (ents s) t (kb k')))
    \<and> (\<forall>x. \<not> prefix p x \<longrightarrow> map_of (ents s') x = map_of (ents s) x)"
  using assms
proof (induction m arbitrary: s)
  case (Cons e m)
  obtain b k vo where e: "e = (b, k, vo)" by (cases e) auto
  note e_ok = children_wf_ConsD [OF Cons.prems(3) [unfolded e]]
  have b: "b = kb k" using e_ok(2) enc_kb [OF e_ok(1)] by simp
  have "\<exists>s1. apply_change D p (kb k) vo s = (Ok (), s1) \<and> invar s1
    \<and> store_wf D okk okv (sub_ents p (ents s1)) \<and> length (sub_ents p (ents s1)) \<le> Suc (length (sub_ents p (ents s)))
    \<and> (\<forall>k' t. okk k' \<longrightarrow> store_look (mt_value D) p (ents s1) t (kb k')
        = (if k' = k then vo else store_look (mt_value D) p (ents s) t (kb k')))
    \<and> (\<forall>x. \<not> prefix p x \<longrightarrow> map_of (ents s1) x = map_of (ents s) x)"
    using Cons.prems e b by (intro apply_change_look e_ok) auto
  then obtain s1 where s1: "apply_change D p (kb k) vo s = (Ok (), s1)" "invar s1"
      "store_wf D okk okv (sub_ents p (ents s1))" "length (sub_ents p (ents s1)) \<le> Suc (length (sub_ents p (ents s)))"
      "\<forall>k' t. okk k' \<longrightarrow> store_look (mt_value D) p (ents s1) t (kb k')
        = (if k' = k then vo else store_look (mt_value D) p (ents s) t (kb k'))"
      "\<forall>x. \<not> prefix p x \<longrightarrow> map_of (ents s1) x = map_of (ents s) x" by blast
  obtain s2 where s2: "flush_children D p m s1 = (Ok (), s2)" "invar s2" "store_wf D okk okv (sub_ents p (ents s2))"
      "\<forall>k' t. okk k' \<longrightarrow> store_look (mt_value D) p (ents s2) t (kb k')
        = (case map_of m (kb k') of Some (_, vo) \<Rightarrow> vo | None \<Rightarrow> store_look (mt_value D) p (ents s1) t (kb k'))"
      "\<forall>x. \<not> prefix p x \<longrightarrow> map_of (ents s2) x = map_of (ents s1) x"
    using Cons.IH [OF s1(2,3) e_ok(5)] Cons.prems(4,5) s1(4) by auto
  have "store_look (mt_value D) p (ents s2) t (kb k')
      = (case map_of (e # m) (kb k') of Some (_, vo) \<Rightarrow> vo | None \<Rightarrow> store_look (mt_value D) p (ents s) t (kb k'))"
    if "okk k'" for k' t
    using that s2(4) s1(5) e b e_ok(4) kb_inj [OF that e_ok(1)]
    by (cases "k' = k") (auto split: option.splits)
  moreover have "flush_children D p (e # m) s = (Ok (), s2)"
    using s1(1) s2(1) e e_ok(2) b by (simp add: op_bind_def)
  ultimately show ?case using s1(6) s2 by auto
qed (simp add: op_ok_def)

end

section \<open>Maps over the in-memory store\<close>

text \<open>Maps with unsigned integer keys of \<open>n\<close> bytes on a \<^verbatim>\<open>MapStore\<close>: with byte values, and with
  such maps as values.\<close>

definition uint_map :: "nat \<Rightarrow> nat \<Rightarrow> (mapstore, nat, byte) map_types" where
  "uint_map n fuel = \<lparr>mt_backing = mapstore_backing, mt_key = be_codec n, mt_value = leaf_state word_codec, mt_fuel = fuel\<rparr>"

definition nested_map :: "nat \<Rightarrow> nat \<Rightarrow> (mapstore, nat, (nat, byte) omap) map_types" where
  "nested_map n fuel = \<lparr>mt_backing = mapstore_backing, mt_key = be_codec n, mt_value = map_state (uint_map n fuel), mt_fuel = fuel\<rparr>"

abbreviation mapstore_ents :: "mapstore \<Rightarrow> kv list" where
  "mapstore_ents \<equiv> buf_ents (\<lambda>_. [])"

abbreviation mapstore_invar :: "mapstore \<Rightarrow> bool" where
  "mapstore_invar \<equiv> buf_invar (\<lambda>_. True)"

text \<open>Iteration needs keys whose encoding is not empty.\<close>

locale keyed_map = simple_map D ents invar okk okv
  for D :: "('s, 'k, 'v) map_types" and ents :: "'s \<Rightarrow> kv list" and invar :: "'s \<Rightarrow> bool"
    and okk :: "'k \<Rightarrow> bool" and okv :: "'v \<Rightarrow> bool" +
  assumes key_nonempty: "okk k \<Longrightarrow> enc (mt_key D) k \<noteq> Ok []"
begin

lemma kb_nonempty: "okk k \<Longrightarrow> kb k \<noteq> []"
  using enc_kb key_nonempty by fastforce

end

interpretation uint_map: keyed_map "uint_map (Suc n) fuel" mapstore_ents mapstore_invar "\<lambda>k. k < 256 ^ Suc n" "\<lambda>_. True"
  for n fuel
proof (intro keyed_map.intro simple_map.intro keyed_map_axioms.intro)
  show "lawful_backing (mt_backing (uint_map (Suc n) fuel)) mapstore_ents mapstore_invar (\<lambda>_. True)"
    by (simp add: uint_map_def mapstore.lawful_backing_axioms)
  show "terminated_codec (mt_key (uint_map (Suc n) fuel)) (\<lambda>k. k < 256 ^ Suc n)"
    using be_codec.terminated_codec_axioms [of "Suc n"] by (simp add: uint_map_def)
  show "stored_state (mt_value (uint_map (Suc n) fuel)) (\<lambda>_. True)"
    by (simp add: uint_map_def u8_state.stored.stored_state_axioms)
  show "enc (mt_key (uint_map (Suc n) fuel)) k \<noteq> Ok []" for k
    by (simp add: uint_map_def be_codec_def)
qed

interpretation uint_map_contract: map_contract "uint_map (Suc n) fuel" "map_look (uint_map (Suc n) fuel) mapstore_ents"
  "map_wf (uint_map (Suc n) fuel) mapstore_ents mapstore_invar (\<lambda>k. k < 256 ^ Suc n) (\<lambda>_. True)"
  "\<lambda>k. k < 256 ^ Suc n" "\<lambda>_. True" for n fuel
  by (rule uint_map.simple_map_contract)

lemma uint_map_new_wf:
  "map_wf (uint_map (Suc n) fuel) mapstore_ents mapstore_invar (\<lambda>k. k < 256 ^ Suc n) (\<lambda>_. True) map_new mapstore_new"
  by (simp add: map_wf_def map_new_def mapstore_new_def buf_invar_def children_wf_def store_wf_def buf_ents_def sub_ents_def)

section \<open>Properties\<close>

text \<open>
  (C34) Looking up, inserting and removing in a map of values without sub-entries.  What a map holds
  at a key (\<open>map_look\<close>) is its in-memory change there, and otherwise the value stored below the
  map's prefix.  \<open>map_get\<close> and \<open>map_contains_key\<close> report exactly that; after \<open>map_insert\<close> the key has the
  new value and every other key what it had; \<open>map_remove\<close> of any key, inserted before, stored or
  absent, returns what the key had and leaves it without a value, although the store still has
  it.  None of them fails, and all keep the map well-formed.
\<close>

theorem map_insert_get_remove:
  assumes "simple_map D ents invar okk okv" and "map_wf D ents invar okk okv m s" and "okk k" and "okv v"
  shows "(\<exists>r. map_get D m s k = Ok r \<and> map_option ref_deref r = map_look D ents m s k)
    \<and> map_contains_key D m s k = Ok (map_look D ents m s k \<noteq> None)
    \<and> (\<exists>m1. map_insert D k v m = (Ok (), m1) \<and> map_wf D ents invar okk okv m1 s \<and> (\<forall>k'. okk k' \<longrightarrow>
        (\<exists>r. map_get D m1 s k' = Ok r \<and> map_option ref_deref r = (if k' = k then Some v else map_look D ents m s k'))))
    \<and> (\<exists>m2. map_remove D s k m = (Ok (map_option ReadOnly (map_look D ents m s k)), m2) \<and> map_wf D ents invar okk okv m2 s \<and> (\<forall>k'. okk k' \<longrightarrow>
        (\<exists>r. map_get D m2 s k' = Ok r \<and> map_option ref_deref r = (if k' = k then None else map_look D ents m s k'))))"
proof -
  have c: "map_contract D (map_look D ents) (map_wf D ents invar okk okv) okk okv"
    by (rule simple_map.simple_map_contract [OF assms(1)])
  obtain m1 where m1: "map_insert D k v m = (Ok (), m1)" "map_wf D ents invar okk okv m1 s"
      "\<forall>k'. okk k' \<longrightarrow> map_look D ents m1 s k' = (if k' = k then Some v else map_look D ents m s k')"
    using map_contract.insert_law [OF c assms(2-4)] by blast
  obtain m2 where m2: "map_remove D s k m = (Ok (map_option ReadOnly (map_look D ents m s k)), m2)"
      "map_wf D ents invar okk okv m2 s"
      "\<forall>k'. okk k' \<longrightarrow> map_look D ents m2 s k' = (if k' = k then None else map_look D ents m s k')"
    using map_contract.remove_law [OF c assms(2,3)] by blast
  show ?thesis
    using map_contract.get_law [OF c assms(2,3)] map_contract.contains_law [OF c assms(2,3)]
      m1 map_contract.get_law [OF c m1(2)] m2 map_contract.get_law [OF c m2(2)] by metis
qed

text \<open>A map without changes, over a store with one entry.\<close>

abbreviation one_entry :: mapstore where
  "one_entry \<equiv> \<lparr>buf_map = [([7], Some [9])], buf_store = ()\<rparr>"

lemma one_entry_wf: "map_wf (uint_map (Suc 0) 5) mapstore_ents mapstore_invar (\<lambda>k. k < 256 ^ Suc 0) (\<lambda>_. True) map_new one_entry"
proof -
  have "stored_as (mt_value (uint_map (Suc 0) 5)) (9 :: byte) [9]" by (simp add: stored_as_def uint_map_def leaf_state_def)
  moreover have "enc (mt_key (uint_map (Suc 0) 5)) 7 = Ok [7]" by (simp add: uint_map_def be_codec_def)
  ultimately have "store_wf (uint_map (Suc 0) 5) (\<lambda>k. k < 256 ^ Suc 0) (\<lambda>_. True) [([7], [9])]"
    unfolding store_wf_def by (auto intro!: exI [of _ "7 :: nat"])
  then show ?thesis by (simp add: map_wf_def map_new_def children_wf_def buf_invar_def buf_ents_def sub_ents_def)
qed

theorem map_insert_get_remove_witness:
  "(\<exists>m1 r1. map_insert (uint_map 1 5) 8 3 map_new = (Ok (), m1) \<and> map_get (uint_map 1 5) m1 one_entry 8 = Ok r1 \<and> map_option ref_deref r1 = Some 3)
    \<and> (\<exists>m2. map_remove (uint_map 1 5) one_entry 7 map_new = (Ok (Some (ReadOnly 9)), m2) \<and> map_get (uint_map 1 5) m2 one_entry 7 = Ok None)"
proof -
  note law = map_insert_get_remove [OF uint_map.simple_map_axioms [of 0 5] one_entry_wf]
  obtain m1 where m1: "map_insert (uint_map 1 5) 8 3 map_new = (Ok (), m1)"
      "\<forall>k'. k' < 256 ^ Suc 0 \<longrightarrow> (\<exists>r. map_get (uint_map (Suc 0) 5) m1 one_entry k' = Ok r
        \<and> map_option ref_deref r = (if k' = 8 then Some 3 else map_look (uint_map (Suc 0) 5) mapstore_ents map_new one_entry k'))"
    using law [of 8 3] by auto
  have "map_look (uint_map (Suc 0) 5) mapstore_ents map_new one_entry 7 = Some 9" by code_simp
  then obtain m2 where m2: "map_remove (uint_map 1 5) one_entry 7 map_new = (Ok (Some (ReadOnly 9)), m2)"
      "\<forall>k'. k' < 256 ^ Suc 0 \<longrightarrow> (\<exists>r. map_get (uint_map (Suc 0) 5) m2 one_entry k' = Ok r
        \<and> map_option ref_deref r = (if k' = 7 then None else map_look (uint_map (Suc 0) 5) mapstore_ents map_new one_entry k'))"
    using law [of 7 3] by auto
  from m1(2) [rule_format, of 8] m2(2) [rule_format, of 7] m1(1) m2(1) show ?thesis by auto
qed

text \<open>
  Swapping exchanges the values of two keys that have one and touches no other; if
  either has none, it fails and changes nothing.
\<close>

lemma map_swap_exchanges:
  assumes "simple_map D ents invar okk okv" and "map_wf D ents invar okk okv m s" and "okk i" and "okk j"
  shows "if map_look D ents m s i = None \<or> map_look D ents m s j = None
    then map_swap D s i j m = (Err (Error_App ''Swap failed. Key not found.''), m)
    else \<exists>m'. map_swap D s i j m = (Ok (), m') \<and> map_wf D ents invar okk okv m' s
      \<and> (\<forall>k. okk k \<longrightarrow> map_look D ents m' s k =
          (if k = i then map_look D ents m s j else if k = j then map_look D ents m s i else map_look D ents m s k))"
proof -
  note law = map_contract.swap_law [OF simple_map.simple_map_contract [OF assms(1)] assms(2-4)]
  show ?thesis
  proof (cases "map_look D ents m s i = None \<or> map_look D ents m s j = None")
    case False
    from law [unfolded if_not_P [OF False]] show ?thesis unfolding if_not_P [OF False] by blast
  qed (use law in \<open>simp only: if_True\<close>)
qed

lemma map_swap_exchanges_witness:
  "map_swap (uint_map 1 5) mapstore_new 3 4 map_new = (Err (Error_App ''Swap failed. Key not found.''), map_new)"
proof -
  have "map_look (uint_map 1 5) mapstore_ents map_new mapstore_new 3 = None" by code_simp
  then show ?thesis
    using map_swap_exchanges [OF uint_map.simple_map_axioms [of 0 5] uint_map_new_wf, of 3 4] by simp
qed



text \<open>
  Removing a key from the store deletes exactly the entries whose keys start with its
  encoding, the sub-entries of a nested value included, and reports whether there were any.
\<close>

lemma remove_from_store_deletes:
  assumes "lawful_backing (mt_backing D) ents invar ok_key" and "invar s" and "length (sub_ents p (ents s)) < mt_fuel D"
  shows "\<exists>s'. remove_from_store D p q s = (Ok (\<exists>e \<in> set (sub_ents p (ents s)). prefix q (fst e)), s') \<and> invar s'
    \<and> ents s' = filter (\<lambda>e. \<not> prefix (p @ q) (fst e)) (ents s)"
  using lawful_backing.remove_from_store_law [OF assms(1) refl assms(2,3)] by blast

lemma remove_from_store_deletes_example:
  "\<exists>s'. remove_from_store (uint_map 1 5) [] [1] \<lparr>buf_map = [([1], Some []), ([1, 3], Some [4]), ([2], Some [])], buf_store = ()\<rparr>
      = (Ok True, s') \<and> mapstore_ents s' = [([2], [])]"
proof -
  let ?s = "\<lparr>buf_map = [([1], Some []), ([1, 3], Some [4]), ([2], Some [])], buf_store = ()\<rparr> :: mapstore"
  have "lawful_backing (mt_backing (uint_map 1 5)) mapstore_ents mapstore_invar (\<lambda>_. True)"
    by (simp add: uint_map_def mapstore.lawful_backing_axioms)
  from remove_from_store_deletes [OF this, of ?s "[]" "[1]"] show ?thesis
    by (auto simp: buf_invar_def buf_ents_def sub_ents_def uint_map_def)
qed

text \<open>
  Changing a value in place: for a key with a value, \<open>map_get_mut\<close> gives access to that
  value, and assigning through it changes this key and no other.
\<close>

lemma map_get_mut_modifies:
  assumes "simple_map D ents invar okk okv" and "map_wf D ents invar okk okv m s" and "okk k"
    and "map_look D ents m s k = Some v" and "okv (f v)"
  shows "\<exists>c c' m'. map_get_mut D m s k = Ok (Some c) \<and> child_deref m c = Ok v
    \<and> child_modify D f c m = (Ok c', m') \<and> map_wf D ents invar okk okv m' s
    \<and> (\<forall>k'. okk k' \<longrightarrow> map_look D ents m' s k' = (if k' = k then Some (f v) else map_look D ents m s k'))"
  using map_contract.get_mut_law [OF simple_map.simple_map_contract [OF assms(1)] assms(2-4), of f] assms(5) by blast

lemma map_get_mut_modifies_witness:
  "\<exists>c c' m'. map_get_mut (uint_map 1 5) \<lparr>mp_store = [], mp_children = [([7], 7, Some 9)]\<rparr> mapstore_new 7 = Ok (Some c)
    \<and> child_modify (uint_map 1 5) (\<lambda>v. v + 1) c \<lparr>mp_store = [], mp_children = [([7], 7, Some 9)]\<rparr> = (Ok c', m')
    \<and> map_look (uint_map 1 5) mapstore_ents m' mapstore_new 7 = Some 10"
proof -
  let ?m = "\<lparr>mp_store = [], mp_children = [([7], 7, Some 9)]\<rparr> :: (nat, byte) omap"
  have wf: "map_wf (uint_map (Suc 0) 5) mapstore_ents mapstore_invar (\<lambda>k. k < 256 ^ Suc 0) (\<lambda>_. True) ?m mapstore_new"
    by (simp add: map_wf_def mapstore_new_def buf_invar_def children_wf_def store_wf_def buf_ents_def sub_ents_def uint_map_def)
  have "map_look (uint_map (Suc 0) 5) mapstore_ents ?m mapstore_new 7 = Some 9" by code_simp
  from map_get_mut_modifies [OF uint_map.simple_map_axioms wf _ this, of "\<lambda>v. v + 1"] show ?thesis by auto
qed

text \<open>
  After a key with an in-memory value is removed, \<open>map_get\<close> finds nothing there, but
  \<open>map_get_mut\<close> still returns a child, and dereferencing this child panics; \<open>or_insert\<close> on the
  key's entry panics too instead of inserting, and removing the entry again reports that a
  value existed.
\<close>

lemma get_mut_after_remove_panics:
  "let D = uint_map 1 5;
       m = snd (map_insert D 7 9 map_new);
       m' = snd (map_remove D mapstore_new 7 m);
       e = Occupied (Modified [7])
   in map_get D m' mapstore_new 7 = Ok None
    \<and> map_get_mut D m' mapstore_new 7 = Ok (Some (Modified [7]))
    \<and> child_deref m' (Modified [7]) = Panic
    \<and> entry D m' mapstore_new 7 = Ok e
    \<and> fst (or_insert D 3 e m') = Panic
    \<and> fst (entry_remove D mapstore_new e m') = Ok True"
  by code_simp

text \<open>
  Swapping values that have sub-entries does not swap those: two nested maps, at keys 1
  and 2, are swapped and everything is flushed; key 1 read back still has the entry at 10 of
  the map that was there before.
\<close>

lemma swap_keeps_sub_entries:
  "let D = nested_map 1 20; I = uint_map 1 20;
       a = snd (map_insert I 10 100 map_new);
       b = snd (map_insert I 20 200 map_new);
       m = snd (map_insert D 2 b (snd (map_insert D 1 a map_new)));
       m' = snd (map_swap D mapstore_new 1 2 m);
       s' = snd (map_flush D m' mapstore_new)
   in fst (map_swap D mapstore_new 1 2 m) = Ok ()
    \<and> fst (map_flush D m' mapstore_new) = Ok ()
    \<and> map_get D map_new s' 1 = Ok (Some (Owned \<lparr>mp_store = [1], mp_children = []\<rparr>))
    \<and> map_get I \<lparr>mp_store = [1], mp_children = []\<rparr> s' 10 = Ok (Some (Owned 100))
    \<and> map_get I \<lparr>mp_store = [1], mp_children = []\<rparr> s' 20 = Ok None"
  by code_simp

end
