(* ===== verification/Map_Iter.thy ===== *)
theory Map_Iter
  imports Map_Coll
begin

text \<open>
  Iteration over the map collection (\<^verbatim>\<open>src/collections/map.rs\<close>, from \<^verbatim>\<open>iter\<close> and \<^verbatim>\<open>range\<close> to
  \<^verbatim>\<open>StoreNextIter\<close>).  An iterator merges the in-memory entries with those of the store.  To
  skip the sub-entries of a value, the iterator over the store continues from the
  incremented key instead of the key's successor.

  For keys of one length, none of them all 255, forward iteration is shown to yield exactly
  the entries of the map in key order.  For the other cases there are theorems that show
  what goes wrong: a key of all 255 bytes makes the iterator repeat itself without end, and
  a range that excludes its start key yields a sub-entry of the value at that key.
\<close>

section \<open>The iterator over the store\<close>

fun encode_bound :: "'k codec \<Rightarrow> 'k bound \<Rightarrow> bytes bound result" where
  "encode_bound K (Included inner) = and_then (enc K inner) (\<lambda>b. Ok (Included b))"
| "encode_bound K (Excluded inner) = and_then (enc K inner) (\<lambda>b. Ok (Excluded b))"
| "encode_bound K Unbounded = Ok Unbounded"

record store_next_iter =
  sn_next_key :: "bytes bound"
  sn_end_key :: "bytes bound"

definition map_increment_bytes :: "bytes \<Rightarrow> bytes" where
  "map_increment_bytes bytes = (case increment_loop (rev bytes) of
      (bytes', True) \<Rightarrow> rev bytes'
    | (bytes', False) \<Rightarrow>
        let pushed = rev bytes' @ [0]
        in if 1 < length pushed then (hd pushed + 1) # tl pushed else pushed)"

fun decrement_loop :: "bytes \<Rightarrow> bytes \<times> bool" where
  "decrement_loop [] = ([], False)"
| "decrement_loop (byte # bytes) =
     (if byte = 0 then (case decrement_loop bytes of (bytes', returned) \<Rightarrow> (255 # bytes', returned))
      else ((byte - 1) # bytes, True))"

definition decrement_bytes :: "bytes \<Rightarrow> bytes option" where
  "decrement_bytes bytes = (case decrement_loop (rev bytes) of
      (bytes', True) \<Rightarrow> Some (rev bytes')
    | (bytes', False) \<Rightarrow> if bytes' = [] then Some [] else None)"

text \<open>\<open>vc\<close> is the library's encoding of \<^verbatim>\<open>Vec<u8>\<close>, which the constructor applies to its bounds.\<close>

definition store_next_iter_new :: "bytes codec \<Rightarrow> bytes bound \<times> bytes bound \<Rightarrow> store_next_iter result" where
  "store_next_iter_new vc bounds =
     and_then (encode_bound vc (fst bounds)) (\<lambda>next_key.
     and_then (encode_bound vc (snd bounds)) (\<lambda>end_key.
       Ok \<lparr>sn_next_key = next_key, sn_end_key = end_key\<rparr>))"

definition sni_peek :: "reader \<Rightarrow> store_next_iter \<Rightarrow> kv result option" where
  "sni_peek store it =
     (let get_res = (case sn_next_key it of
            Included key \<Rightarrow> get_next_inclusive store key
          | Excluded key \<Rightarrow> rd_get_next store key
          | Unbounded \<Rightarrow> rd_get_next store [])
      in case get_res of
           Err e \<Rightarrow> Some (Err e)
         | Panic \<Rightarrow> Some Panic
         | Ok None \<Rightarrow> None
         | Ok (Some (key, value)) \<Rightarrow> (case sn_end_key it of
               Excluded end_key \<Rightarrow> if end_key \<le> key then None else Some (Ok (key, value))
             | Included end_key \<Rightarrow> if end_key < key then None else Some (Ok (key, value))
             | Unbounded \<Rightarrow> Some (Ok (key, value))))"

definition sni_peek_back :: "'k codec \<Rightarrow> reader \<Rightarrow> store_next_iter \<Rightarrow> kv result option" where
  "sni_peek_back K store it =
     (let get_res = (case sn_end_key it of
            Included key \<Rightarrow> get_prev_inclusive store (Some key)
          | Excluded key \<Rightarrow> rd_get_prev store (Some key)
          | Unbounded \<Rightarrow> rd_get_prev store None)
      in case get_res of
           Err e \<Rightarrow> Some (Err e)
         | Panic \<Rightarrow> Some Panic
         | Ok None \<Rightarrow> None
         | Ok (Some (key, value)) \<Rightarrow>
             if (case sn_next_key it of
                   Excluded end_key \<Rightarrow> key \<le> end_key
                 | Included end_key \<Rightarrow> key < end_key
                 | Unbounded \<Rightarrow> key = [])
             then None
             else (case dec K key of
                 Err e \<Rightarrow> Some (Err e)
               | Panic \<Rightarrow> Some Panic
               | Ok (_, key_slice) \<Rightarrow>
                   if key_slice \<noteq> []
                   then let trimmed_key = take (length key - length key_slice) key
                        in (case rd_get store trimmed_key of
                              Err e \<Rightarrow> Some (Err e)
                            | Panic \<Rightarrow> Some Panic
                            | Ok None \<Rightarrow> Some (Err (Error_Store ''Expected value''))
                            | Ok (Some value) \<Rightarrow> Some (Ok (trimmed_key, value)))
                   else Some (Ok (key, value))))"

definition sni_next :: "reader \<Rightarrow> store_next_iter \<Rightarrow> kv result option \<times> store_next_iter" where
  "sni_next store it = (case sni_peek store it of
      Some (Ok (key, value)) \<Rightarrow> (Some (Ok (key, value)), it\<lparr>sn_next_key := Included (map_increment_bytes key)\<rparr>)
    | r \<Rightarrow> (r, it))"

definition sni_next_back :: "'k codec \<Rightarrow> reader \<Rightarrow> store_next_iter \<Rightarrow> kv result option \<times> store_next_iter" where
  "sni_next_back K store it = (case sni_peek_back K store it of
      Some (Ok (key, value)) \<Rightarrow> (Some (Ok (key, value)),
        it\<lparr>sn_end_key := (case decrement_bytes key of Some b \<Rightarrow> Included b | None \<Rightarrow> Excluded [])\<rparr>)
    | r \<Rightarrow> (r, it))"

section \<open>The iterator over the map\<close>

record ('k, 'v) map_iter =
  mi_map :: "('k, 'v) children"
  mi_store :: store_next_iter

definition map_bound :: "'k codec \<Rightarrow> 'k bound \<Rightarrow> bytes bound result" where
  "map_bound K b = (case b of
      Unbounded \<Rightarrow> Ok Unbounded
    | Included inner \<Rightarrow> (case map_key_new K inner of Ok mk \<Rightarrow> Ok (Included (mk_bytes mk)) | _ \<Rightarrow> Panic)
    | Excluded inner \<Rightarrow> (case map_key_new K inner of Ok mk \<Rightarrow> Ok (Excluded (mk_bytes mk)) | _ \<Rightarrow> Panic))"

definition map_range ::
  "('s, 'k, 'v) map_types \<Rightarrow> bytes codec \<Rightarrow> ('k, 'v) omap \<Rightarrow> 'k bound \<times> 'k bound \<Rightarrow> ('k, 'v) map_iter result" where
  "map_range D vc m bounds =
     and_then (map_bound (mt_key D) (fst bounds)) (\<lambda>map_start.
     and_then (map_bound (mt_key D) (snd bounds)) (\<lambda>map_end.
       if bt_range_panics (map_start, map_end) then Panic
       else
         and_then (encode_bound (mt_key D) (fst bounds)) (\<lambda>start.
         and_then (encode_bound (mt_key D) (snd bounds)) (\<lambda>end_key.
         and_then (store_next_iter_new vc (start, end_key)) (\<lambda>store_iter.
           Ok \<lparr>mi_map = bt_range (map_start, map_end) (mp_children m), mi_store = store_iter\<rparr>)))))"

definition map_iter_all :: "('s, 'k, 'v) map_types \<Rightarrow> bytes codec \<Rightarrow> ('k, 'v) omap \<Rightarrow> ('k, 'v) map_iter result" where
  "map_iter_all D vc m = map_range D vc m (Unbounded, Unbounded)"

text \<open>\<^verbatim>\<open>peek_map_back\<close> takes the last entry (and, to know it, the first) off the range and then
  asks the map for the range between them again.\<close>

definition peek_map_back ::
  "('k, 'v) omap \<Rightarrow> ('k, 'v) map_iter \<Rightarrow> (bytes \<times> 'k \<times> 'v option) option \<times> ('k, 'v) map_iter" where
  "peek_map_back m it = (case mi_map it of
      [] \<Rightarrow> (None, it)
    | _ \<Rightarrow>
        let back_entry = last (mi_map it);
            front = (case butlast (mi_map it) of [] \<Rightarrow> fst back_entry | e # _ \<Rightarrow> fst e)
        in (Some back_entry,
            it\<lparr>mi_map := bt_range (Included front, Included (fst back_entry)) (mp_children m)\<rparr>))"

definition decode_key :: "('s, 'k, 'v) map_types \<Rightarrow> bytes \<Rightarrow> 'k result" where
  "decode_key D kbs = and_then (dec (mt_key D) kbs) (\<lambda>(key, rest). if rest = [] then Ok key else Panic)"

definition map_next :: "bool \<Rightarrow> ('k, 'v) map_iter \<Rightarrow> ('k, 'v) map_iter" where
  "map_next forward it = it\<lparr>mi_map := if forward then tl (mi_map it) else butlast (mi_map it)\<rparr>"

definition store_next ::
  "('s, 'k, 'v) map_types \<Rightarrow> ('k, 'v) omap \<Rightarrow> 's \<Rightarrow> bool \<Rightarrow> ('k, 'v) map_iter \<Rightarrow> kv result option \<times> ('k, 'v) map_iter" where
  "store_next D m s forward it =
     (let r = store_reader (bk_read (mt_backing D) s) (mp_store m)
      in case (if forward then sni_next r (mi_store it) else sni_next_back (mt_key D) r (mi_store it)) of
           (x, si) \<Rightarrow> (x, it\<lparr>mi_store := si\<rparr>))"

text \<open>\<^verbatim>\<open>iter_merge_next\<close>.  Each turn of the loop that does not return consumes an in-memory
  entry, so as many turns as there are entries suffice.\<close>

fun map_merge_next ::
  "('s, 'k, 'v) map_types \<Rightarrow> ('k, 'v) omap \<Rightarrow> 's \<Rightarrow> bool \<Rightarrow> nat \<Rightarrow> ('k, 'v) map_iter
    \<Rightarrow> (('k ref_to \<times> 'v ref_to) option result \<times> ('k, 'v) map_iter) option" where
  "map_merge_next D m s forward 0 it = None"
| "map_merge_next D m s forward (Suc fuel) it0 =
     (let r = store_reader (bk_read (mt_backing D) s) (mp_store m);
          (map_entry, it) = (if forward then (hd_opt (mi_map it0), it0) else peek_map_back m it0);
          backing_entry = (if forward then sni_peek r (mi_store it) else sni_peek_back (mt_key D) r (mi_store it))
      in case (map_entry, backing_entry) of
           (None, None) \<Rightarrow> Some (Ok None, it)
         | (Some (_, key, Some value), None) \<Rightarrow> Some (Ok (Some (Borrowed key, Borrowed value)), map_next forward it)
         | (Some (_, _, None), None) \<Rightarrow> map_merge_next D m s forward fuel (map_next forward it)
         | (None, Some (Err e)) \<Rightarrow> Some (Err e, it)
         | (None, Some Panic) \<Rightarrow> Some (Panic, it)
         | (None, Some (Ok _)) \<Rightarrow>
             (case store_next D m s forward it of
                (Some (Ok ent), it') \<Rightarrow>
                  Some (and_then (decode_key D (fst ent)) (\<lambda>key.
                          and_then (load_value D m s (fst ent) (snd ent)) (\<lambda>value.
                            Ok (Some (Owned key, Owned value)))), it')
              | (Some (Err e), it') \<Rightarrow> Some (Err e, it')
              | (_, it') \<Rightarrow> Some (Panic, it'))
         | (Some _, Some (Err _)) \<Rightarrow> Some (Err (Error_Store ''Backing key does not exist''), it)
         | (Some _, Some Panic) \<Rightarrow> Some (Panic, it)
         | (Some (map_key, k, map_value), Some (Ok (backing_key, _))) \<Rightarrow>
             (case decode_key D backing_key of
                Err e \<Rightarrow> Some (Err e, it)
              | Panic \<Rightarrow> Some (Panic, it)
              | Ok key \<Rightarrow>
                  if (forward \<and> backing_key < map_key) \<or> (\<not> forward \<and> map_key < backing_key)
                  then (case store_next D m s forward it of
                          (Some (Ok ent), it') \<Rightarrow>
                            Some (and_then (load_value D m s (fst ent) (snd ent)) (\<lambda>value.
                                    Ok (Some (Owned key, Owned value))), it')
                        | (Some (Err e), it') \<Rightarrow> Some (Err e, it')
                        | (_, it') \<Rightarrow> Some (Panic, it'))
                  else
                    (case (if map_key = backing_key then store_next D m s forward it else (None, it)) of
                       (Some (Err e), it') \<Rightarrow> Some (Err e, it')
                     | (Some Panic, it') \<Rightarrow> Some (Panic, it')
                     | (_, it') \<Rightarrow>
                         (case map_value of
                            Some value \<Rightarrow> Some (Ok (Some (Borrowed k, Borrowed value)), map_next forward it')
                          | None \<Rightarrow> map_merge_next D m s forward fuel (map_next forward it')))))"

definition map_iter_step ::
  "('s, 'k, 'v) map_types \<Rightarrow> ('k, 'v) omap \<Rightarrow> 's \<Rightarrow> bool \<Rightarrow> ('k, 'v) map_iter
    \<Rightarrow> ('k ref_to \<times> 'v ref_to) result option \<times> ('k, 'v) map_iter" where
  "map_iter_step D m s forward it = (case map_merge_next D m s forward (Suc (length (mp_children m))) it of
      None \<Rightarrow> (Some Panic, it)
    | Some (r, it') \<Rightarrow> (transpose_res r, it'))"

section \<open>Incrementing keys of one length\<close>

lemma map_increment_bytes_eq: "map_increment_bytes = increment_bytes"
  by (simp add: fun_eq_iff map_increment_bytes_def increment_bytes_def)

lemma of_be_bytes_append: "of_be_bytes (xs @ ys) = of_be_bytes xs * 256 ^ length ys + of_be_bytes ys"
proof (induction ys rule: rev_induct)
  case (snoc y ys)
  have "of_be_bytes (xs @ ys @ [y]) = of_be_bytes (xs @ ys) * 256 + unat y"
    using of_be_bytes_snoc [of "xs @ ys" y] by simp
  with snoc show ?case by (simp add: algebra_simps)
qed (simp add: of_be_bytes_def)

lemma of_be_bytes_255: "of_be_bytes (replicate n 255) + 1 = 256 ^ n"
proof (induction n)
  case (Suc n)
  have "of_be_bytes (replicate (Suc n) 255) = of_be_bytes (replicate n 255) * 256 + 255"
    using of_be_bytes_snoc [of "replicate n 255" 255] by (simp add: replicate_append_same)
  with Suc show ?case by simp
qed (simp add: of_be_bytes_def)

lemma of_be_bytes_0: "of_be_bytes (replicate n 0) = 0"
proof (induction n)
  case (Suc n)
  have "of_be_bytes (replicate (Suc n) 0) = of_be_bytes (replicate n 0) * 256 + 0"
    using of_be_bytes_snoc [of "replicate n 0" 0] by (simp add: replicate_append_same)
  with Suc show ?case by simp
qed (simp add: of_be_bytes_def)

lemma split_carry:
  "a \<noteq> replicate (length a) 255 \<Longrightarrow> \<exists>q b n. a = q @ b # replicate n 255 \<and> b \<noteq> (255 :: byte)"
proof (induction a rule: rev_induct)
  case (snoc x a)
  show ?case
  proof (cases "x = 255")
    case True
    have "a \<noteq> replicate (length a) 255"
      using snoc.prems True by (metis append_same_eq length_append_singleton replicate_Suc replicate_append_same)
    then obtain q b n where "a = q @ b # replicate n 255" "b \<noteq> 255" using snoc.IH by blast
    then show ?thesis using True
      by (intro exI [of _ q] exI [of _ b] exI [of _ "Suc n"]) (simp add: replicate_append_same)
  next
    case False
    then show ?thesis by (intro exI [of _ a] exI [of _ x] exI [of _ 0]) simp
  qed
qed simp

lemma increment_bytes_number:
  assumes "a \<noteq> replicate (length a) 255"
  shows "length (increment_bytes a) = length a" and "of_be_bytes (increment_bytes a) = of_be_bytes a + 1"
proof -
  obtain q b n where a: "a = q @ b # replicate n 255" "b \<noteq> 255" using split_carry [OF assms] by blast
  have inc: "increment_bytes a = q @ (b + 1) # replicate n 0" using a increment_bytes_carry by simp
  show "length (increment_bytes a) = length a" using a inc by simp
  have num: "of_be_bytes (q @ c # xs) = (of_be_bytes q * 256 + unat c) * 256 ^ length xs + of_be_bytes xs" for c xs
    using of_be_bytes_append [of "q @ [c]" xs] by simp
  have "unat (b + 1) = unat b + 1" using byte_succ(1) [OF a(2)] by simp
  then show "of_be_bytes (increment_bytes a) = of_be_bytes a + 1"
    using of_be_bytes_255 [of n] unfolding inc unfolding a(1) num
    by (simp add: of_be_bytes_0 algebra_simps)
qed

lemma less_iff_number:
  "length a = length b \<Longrightarrow> a < b \<longleftrightarrow> of_be_bytes a < of_be_bytes b"
  using be_bytes_less_iff [of "of_be_bytes a" "length a" "of_be_bytes b"]
    of_be_bytes_bound [of a] of_be_bytes_bound [of b] be_bytes_of_be_bytes [of a] be_bytes_of_be_bytes [of b]
  by simp

lemma increment_le_iff:
  assumes "length a = length b" and "a \<noteq> replicate (length a) 255"
  shows "increment_bytes a \<le> b \<longleftrightarrow> a < b"
  using assms increment_bytes_number [OF assms(2)] less_iff_number [of a b] less_iff_number [of b "increment_bytes a"]
  by (auto simp: not_less [symmetric])

section \<open>What the store iterator has still to yield\<close>

definition sni_above :: "bytes bound \<Rightarrow> bytes \<Rightarrow> bool" where
  "sni_above b k \<longleftrightarrow> (case b of Included x \<Rightarrow> x \<le> k | Excluded x \<Rightarrow> x < k | Unbounded \<Rightarrow> k \<noteq> [])"

definition sni_rest :: "kv list \<Rightarrow> store_next_iter \<Rightarrow> kv list" where
  "sni_rest es it = filter (\<lambda>e. sni_above (sn_next_key it) (fst e) \<and> below_end (sn_end_key it) (fst e)) es"

text \<open>Keys of length \<open>n\<close> that can be incremented, beside the empty key.\<close>

definition plain_keys :: "nat \<Rightarrow> kv list \<Rightarrow> bool" where
  "plain_keys n es \<longleftrightarrow> (\<forall>e \<in> set es. fst e = [] \<or> (length (fst e) = n \<and> fst e \<noteq> replicate n 255))"

context forward_reader
begin

lemma sni_peek_rest: "sni_peek r it = map_option Ok (hd_opt (sni_rest es it))"
proof -
  let ?up = "filter (\<lambda>e. sni_above (sn_next_key it) (fst e)) es"
  have "Nil_less": "[] < k \<longleftrightarrow> k \<noteq> []" for k :: bytes by (cases k) auto
  have get: "(case sn_next_key it of
            Included key \<Rightarrow> get_next_inclusive r key
          | Excluded key \<Rightarrow> rd_get_next r key
          | Unbounded \<Rightarrow> rd_get_next r []) = Ok (hd_opt ?up)"
    by (cases "sn_next_key it")
      (simp_all add: get_next_inclusive_law get_next_law next_entry_def sni_above_def Nil_less)
  show ?thesis
  proof (cases "hd_opt ?up")
    case None
    then have "sni_rest es it = []" by (auto simp: sni_rest_def filter_empty_conv)
    with None get show ?thesis by (simp add: sni_peek_def)
  next
    case (Some e)
    have "hd_opt (filter (\<lambda>e. sni_above (sn_next_key it) (fst e) \<and> below_end (sn_end_key it) (fst e)) es)
        = (if below_end (sn_end_key it) (fst e) then Some e else None)"
      by (rule hd_opt_filter_conj [OF entries_wf Some]) (blast intro: below_end_mono)
    with Some get show ?thesis
      by (cases e; cases "sn_end_key it") (simp_all add: sni_peek_def sni_rest_def not_less not_le)
  qed
qed

lemma sni_next_rest:
  assumes "plain_keys n es" and "n \<noteq> 0" and "sn_next_key it \<noteq> Included []" and "sni_rest es it = e # rest"
  shows "fst (sni_next r it) = Some (Ok e) \<and> sni_rest es (snd (sni_next r it)) = rest
    \<and> sn_next_key (snd (sni_next r it)) \<noteq> Included []"
proof -
  obtain key val where e: "e = (key, val)" by force
  let ?it = "it\<lparr>sn_next_key := Included (increment_bytes key)\<rparr>"
  have step: "sni_next r it = (Some (Ok e), ?it)"
    using sni_peek_rest [of it] assms(4) e by (simp add: sni_next_def map_increment_bytes_eq)
  have "e \<in> set (sni_rest es it)" using assms(4) by simp
  then have in_es: "e \<in> set es" and up: "sni_above (sn_next_key it) key" and dn: "below_end (sn_end_key it) key"
    using e by (auto simp: sni_rest_def)
  have "key \<noteq> []" using up assms(3) by (cases "sn_next_key it") (auto simp: sni_above_def)
  then have key: "length key = n" "key \<noteq> replicate (length key) 255"
    using assms(1) in_es e by (auto simp: plain_keys_def)
  have inc_ne: "increment_bytes key \<noteq> []" using increment_bytes_number(1) [OF key(2)] key(1) assms(2) by auto
  have mono: "sni_above (sn_next_key it) k" if "key < k" for k
    using up that by (cases "sn_next_key it") (auto simp: sni_above_def)
  have "filter (\<lambda>x. fst e < fst x \<and> sni_above (sn_next_key it) (fst x) \<and> below_end (sn_end_key it) (fst x)) es = rest"
    using filter_Cons_greater [OF entries_wf, of "\<lambda>k. sni_above (sn_next_key it) k \<and> below_end (sn_end_key it) k"]
      assms(4) by (simp add: sni_rest_def)
  moreover have "(fst e < fst x \<and> sni_above (sn_next_key it) (fst x) \<and> below_end (sn_end_key it) (fst x))
      = (sni_above (Included (increment_bytes key)) (fst x) \<and> below_end (sn_end_key it) (fst x))" if "x \<in> set es" for x
  proof (cases "fst x = []")
    case True
    then show ?thesis using inc_ne by (simp add: e sni_above_def)
  next
    case False
    then have "length key = length (fst x)" using assms(1) that key(1) by (auto simp: plain_keys_def)
    then have "increment_bytes key \<le> fst x \<longleftrightarrow> key < fst x" by (rule increment_le_iff [OF _ key(2)])
    then show ?thesis using mono by (auto simp: e sni_above_def)
  qed
  ultimately have "sni_rest es ?it = rest" by (simp add: sni_rest_def cong: filter_cong)
  with step inc_ne show ?thesis by simp
qed

end

section \<open>The merged entries\<close>

text \<open>An in-memory entry and an entry of the store as entries of the merged list, which pairs
  an encoded key with the key and the value.\<close>

definition child_item :: "bytes \<times> 'k \<times> 'v option \<Rightarrow> bytes \<times> ('k \<times> 'v) option" where
  "child_item c = (case c of (b, k, vo) \<Rightarrow> (b, map_option (\<lambda>v. (k, v)) vo))"

definition store_item :: "('s, 'k, 'v) map_types \<Rightarrow> ('k, 'v) omap \<Rightarrow> 's \<Rightarrow> kv \<Rightarrow> bytes \<times> ('k \<times> 'v)" where
  "store_item D m s e = (fst e,
     (case decode_key D (fst e) of Ok k \<Rightarrow> k), (case load_value D m s (fst e) (snd e) of Ok v \<Rightarrow> v))"

definition merged :: "('s, 'k, 'v) map_types \<Rightarrow> ('k, 'v) omap \<Rightarrow> 's \<Rightarrow> kv list \<Rightarrow> ('k, 'v) map_iter \<Rightarrow> (bytes \<times> ('k \<times> 'v)) list" where
  "merged D m s es it = overlay (map child_item (mi_map it)) (map (store_item D m s) (sni_rest es (mi_store it)))"

lemma merge_by_length: "length (merge_by lt ms es) \<le> length ms + length es"
proof (induction lt ms es rule: merge_by.induct)
  case (3 lt k mv ms e es)
  then show ?case by (cases "lt (fst e) k"; cases mv; cases "k = fst e") auto
qed (auto split: option.splits)

abbreviation ref_pair :: "'k ref_to \<times> 'v ref_to \<Rightarrow> 'k \<times> 'v" where
  "ref_pair x \<equiv> (ref_deref (fst x), ref_deref (snd x))"

context keyed_map
begin

lemma store_item_decodes:
  assumes "wf m s" and "e \<in> set (sub_ents (mp_store m) (ents s))" and "fst e \<noteq> []"
  shows "\<exists>k v. okk k \<and> fst e = kb k \<and> decode_key D (fst e) = Ok k \<and> load_value D m s (fst e) (snd e) = Ok v
    \<and> store_look (mt_value D) (mp_store m) (ents s) s (kb k) = Some v"
proof -
  have swf: "store_wf D okk okv (sub_ents (mp_store m) (ents s))" and inv: "invar s"
    using assms(1) by (simp_all add: map_wf_def)
  obtain k v where kv: "okk k" "enc (mt_key D) k = Ok (fst e)" "stored_as (mt_value D) v (snd e)"
    using swf assms(2,3) by (fastforce simp: store_wf_def)
  then have key: "fst e = kb k" using enc_kb by simp
  have "bt_wf (sub_ents (mp_store m) (ents s))"
    by (rule sub_ents_wf [OF lawful_entries_wf [OF backing.reads_lawful [OF inv]]])
  then have "map_of (sub_ents (mp_store m) (ents s)) (kb k) = Some (snd e)"
    using assms(2) key by (metis bt_wf_distinct map_of_is_SomeI prod.collapse)
  then have "store_look (mt_value D) (mp_store m) (ents s) s (kb k) = Some v"
    using kv(3) by (simp add: store_look_def stored_as_load)
  moreover have "decode_key D (fst e) = Ok k"
    using dec_kb [OF kv(1), of "[]"] by (simp add: decode_key_def key)
  moreover have "load_value D m s (fst e) (snd e) = Ok v"
    using kv(3) by (simp add: load_value_def stored_as_load)
  ultimately show ?thesis using kv(1) key by blast
qed

text \<open>One step of the iterator returns the first merged entry and leaves the others.\<close>

lemma map_merge_next_merged:
  assumes "wf m s" and "plain_keys n (sub_ents (mp_store m) (ents s))" and "n \<noteq> 0"
    and "sn_next_key (mi_store it) \<noteq> Included []" and "length (mi_map it) < fuel"
  shows "\<exists>r it'. map_merge_next D m s True fuel it = Some (Ok r, it')
    \<and> map_option ref_pair r = map_option snd (hd_opt (merged D m s (sub_ents (mp_store m) (ents s)) it))
    \<and> merged D m s (sub_ents (mp_store m) (ents s)) it' = tl (merged D m s (sub_ents (mp_store m) (ents s)) it)
    \<and> sn_next_key (mi_store it') \<noteq> Included [] \<and> length (mi_map it') \<le> length (mi_map it)"
  using assms(4,5)
proof (induction fuel arbitrary: it)
  case 0
  then show ?case by simp
next
  case (Suc fuel)
  let ?es = "sub_ents (mp_store m) (ents s)"
  let ?r = "store_reader (bk_read (mt_backing D) s) (mp_store m)"
  have fr: "forward_reader ?r ?es"
    using assms(1) by (intro lawful_store_reader_forward backing.reads_lawful) (simp add: map_wf_def)
  note peek = forward_reader.sni_peek_rest [OF fr, of "mi_store it"]
  note nxt = forward_reader.sni_next_rest [OF fr assms(2,3) Suc.prems(1)]
  have item: "\<exists>k v. decode_key D (fst e) = Ok k \<and> load_value D m s (fst e) (snd e) = Ok v
      \<and> store_item D m s e = (fst e, k, v)" if "sni_rest ?es (mi_store it) = e # rest" for e rest
  proof -
    have "e \<in> set (sni_rest ?es (mi_store it))" using that by simp
    then have "e \<in> set ?es" "fst e \<noteq> []"
      using Suc.prems(1) by (cases "sn_next_key (mi_store it)"; auto simp: sni_rest_def sni_above_def)+
    from store_item_decodes [OF assms(1) this] show ?thesis by (auto simp: store_item_def)
  qed
  show ?case
  proof (cases "mi_map it")
    case Nil
    show ?thesis
    proof (cases "sni_rest ?es (mi_store it)")
      case Nil
      with \<open>mi_map it = []\<close> peek Suc.prems show ?thesis by (simp add: merged_def)
    next
      case (Cons e rest)
      then obtain k v where kv: "decode_key D (fst e) = Ok k" "load_value D m s (fst e) (snd e) = Ok v"
          "store_item D m s e = (fst e, k, v)" using item by blast
      obtain x si where x: "sni_next ?r (mi_store it) = (x, si)" by force
      with nxt [OF Cons] have "x = Some (Ok e)" "sni_rest ?es si = rest" "sn_next_key si \<noteq> Included []" by auto
      with x Cons \<open>mi_map it = []\<close> peek kv show ?thesis by (simp add: merged_def store_next_def)
    qed
  next
    case (Cons c cs)
    obtain b k vo where c: "c = (b, k, vo)" by (cases c) auto
    let ?it1 = "map_next True it"
    have it1: "mi_map ?it1 = cs" "mi_store ?it1 = mi_store it" by (simp_all add: map_next_def Cons)
    show ?thesis
    proof (cases "sni_rest ?es (mi_store it)")
      case Nil
      show ?thesis
      proof (cases vo)
        case None
        from Suc.IH [of ?it1] Suc.prems it1 Cons
        obtain r it' where "map_merge_next D m s True fuel ?it1 = Some (Ok r, it')"
          "map_option ref_pair r = map_option snd (hd_opt (merged D m s ?es ?it1))"
          "merged D m s ?es it' = tl (merged D m s ?es ?it1)"
          "sn_next_key (mi_store it') \<noteq> Included []" "length (mi_map it') \<le> length cs" by auto
        moreover have "merged D m s ?es it = merged D m s ?es ?it1"
          using Nil None Cons c it1 by (simp add: merged_def child_item_def)
        ultimately show ?thesis using Nil None Cons c peek by simp
      next
        case (Some v)
        with Nil Cons c peek it1 Suc.prems show ?thesis by (simp add: merged_def child_item_def)
      qed
    next
      case (Cons e rest)
      note rs = Cons and cs = \<open>mi_map it = c # cs\<close>
      obtain key val where e: "e = (key, val)" by force
      from rs obtain k' v where kv: "decode_key D key = Ok k'" "load_value D m s key val = Ok v"
          "store_item D m s e = (key, k', v)" using item e by auto
      obtain x si where x: "sni_next ?r (mi_store it) = (x, si)" by force
      with nxt [OF rs] have si: "x = Some (Ok e)" "sni_rest ?es si = rest" "sn_next_key si \<noteq> Included []" by auto
      show ?thesis
      proof (cases "key < b")
        case True
        with x si kv rs cs c e peek show ?thesis
          by (cases vo) (simp_all add: merged_def child_item_def store_next_def)
      next
        case False
        define it2 where "it2 = (if b = key then it\<lparr>mi_store := si\<rparr> else it)"
        have it2: "mi_map (map_next True it2) = cs" "sn_next_key (mi_store (map_next True it2)) \<noteq> Included []"
          using cs si(3) Suc.prems(1) by (simp_all add: it2_def map_next_def)
        have rest2: "sni_rest ?es (mi_store (map_next True it2)) = (if b = key then rest else e # rest)"
          using si rs by (simp add: it2_def map_next_def)
        have mrg: "merged D m s ?es it = (case vo of Some v \<Rightarrow> [(b, k, v)] | None \<Rightarrow> [])
            @ merged D m s ?es (map_next True it2)"
          using False rs cs c kv(3) it2(1) rest2 by (cases vo) (auto simp: merged_def child_item_def)
        have run: "map_merge_next D m s True (Suc fuel) it = (case vo of
            Some v \<Rightarrow> Some (Ok (Some (Borrowed k, Borrowed v)), map_next True it2)
          | None \<Rightarrow> map_merge_next D m s True fuel (map_next True it2))"
          using False rs cs c e kv(1) peek x si(1) by (cases vo) (auto simp: it2_def store_next_def)
        show ?thesis
        proof (cases vo)
          case None
          from Suc.IH [OF it2(2)] Suc.prems(2) it2(1) cs
          obtain r it' where "map_merge_next D m s True fuel (map_next True it2) = Some (Ok r, it')"
            "map_option ref_pair r = map_option snd (hd_opt (merged D m s ?es (map_next True it2)))"
            "merged D m s ?es it' = tl (merged D m s ?es (map_next True it2))"
            "sn_next_key (mi_store it') \<noteq> Included []" "length (mi_map it') \<le> length cs" by auto
          with None run mrg cs show ?thesis by simp
        next
          case (Some v)
          with run mrg it2 cs show ?thesis by simp
        qed
      qed
    qed
  qed
qed

lemma collect_map_iter:
  assumes "wf m s" and "plain_keys n (sub_ents (mp_store m) (ents s))" and "n \<noteq> 0"
    and "sn_next_key (mi_store it) \<noteq> Included []" and "length (mi_map it) \<le> length (mp_children m)"
    and "length (merged D m s (sub_ents (mp_store m) (ents s)) it) < fuel"
  shows "\<exists>xs. collect (map_iter_step D m s True) fuel it = Some (Ok xs)
    \<and> map ref_pair xs = map snd (merged D m s (sub_ents (mp_store m) (ents s)) it)"
  using assms(4-6)
proof (induction fuel arbitrary: it)
  case (Suc fuel)
  let ?es = "sub_ents (mp_store m) (ents s)"
  obtain r it' where step: "map_merge_next D m s True (Suc (length (mp_children m))) it = Some (Ok r, it')"
      "map_option ref_pair r = map_option snd (hd_opt (merged D m s ?es it))"
      "merged D m s ?es it' = tl (merged D m s ?es it)"
      "sn_next_key (mi_store it') \<noteq> Included []" "length (mi_map it') \<le> length (mi_map it)"
    using map_merge_next_merged [OF assms(1-3) Suc.prems(1), of "Suc (length (mp_children m))"] Suc.prems(2) by auto
  have run: "map_iter_step D m s True it = (transpose_res (Ok r), it')"
    using step(1) by (simp add: map_iter_step_def del: map_merge_next.simps)
  show ?case
  proof (cases "merged D m s ?es it")
    case Nil
    with step have "r = None" by simp
    with run Nil show ?thesis by simp
  next
    case (Cons x xs)
    with step obtain y where y: "r = Some y" "ref_pair y = snd x" by auto
    obtain ys where "collect (map_iter_step D m s True) fuel it' = Some (Ok ys)"
        "map ref_pair ys = map snd (merged D m s ?es it')"
      using Suc.IH [OF step(4)] step(3,5) Suc.prems(2,3) Cons by auto
    with step(3) run y Cons show ?thesis by simp
  qed
qed simp

lemma map_of_child_items: "map_of (map child_item cs) x = map_option (\<lambda>(k, vo). map_option (\<lambda>v. (k, v)) vo) (map_of cs x)"
  by (induction cs) (auto simp: child_item_def split: prod.splits)

lemma fst_child_items [simp]: "map fst (map child_item cs) = map fst cs"
  by (induction cs) (auto simp: child_item_def split: prod.splits)

lemma fst_store_items [simp]: "map fst (map (store_item D m s) es) = map fst es"
  by (induction es) (auto simp: store_item_def)

lemma map_of_store_items: "map_of (map (store_item D m s) es) x
    = map_option (\<lambda>bs. snd (store_item D m s (x, bs))) (map_of es x)"
  by (induction es) (auto simp: store_item_def)

text \<open>The merged entries of a whole map are its lookups.\<close>

lemma merged_all:
  assumes "wf m s" and it: "mi_map it = mp_children m" "mi_store it = \<lparr>sn_next_key = Unbounded, sn_end_key = Unbounded\<rparr>"
  defines "M \<equiv> merged D m s (sub_ents (mp_store m) (ents s)) it"
  shows "bt_wf M" and "(b, k, v) \<in> set M \<longleftrightarrow> b = kb k \<and> okk k \<and> look m s k = Some v"
proof -
  let ?es = "sub_ents (mp_store m) (ents s)" and ?V = "mt_value D"
  have cwf: "children_wf D okk okv (mp_children m)" and inv: "invar s" using assms(1) by (simp_all add: map_wf_def)
  have wfe: "bt_wf ?es" by (rule sub_ents_wf [OF lawful_entries_wf [OF backing.reads_lawful [OF inv]]])
  have wfc: "bt_wf (mp_children m)" using cwf by (simp add: children_wf_def)
  have rest: "sni_rest ?es (mi_store it) = filter (\<lambda>e. fst e \<noteq> []) ?es"
    by (simp add: it sni_rest_def sni_above_def)
  have wf1: "bt_wf (map child_item (mi_map it))" using wfc unfolding fst_child_items it(1) .
  have wf2: "bt_wf (map (store_item D m s) (sni_rest ?es (mi_store it)))"
    using bt_wf_filter [OF wfe] unfolding rest fst_store_items by blast
  show wfM: "bt_wf M" unfolding M_def merged_def by (rule overlay_wf [OF wf1 wf2])
  have stored: "map_of (map (store_item D m s) (sni_rest ?es (mi_store it))) b = Some (k, v)
      \<longleftrightarrow> (\<exists>bs. map_of ?es b = Some bs \<and> b \<noteq> [] \<and> store_item D m s (b, bs) = (b, k, v))"
    unfolding map_of_store_items rest map_of_filter_key [of "\<lambda>x. x \<noteq> []"]
    by (auto simp: store_item_def split: if_splits)
  have "map_of M b = (case map_of (map child_item (mi_map it)) b of
      Some v \<Rightarrow> v | None \<Rightarrow> map_of (map (store_item D m s) (sni_rest ?es (mi_store it))) b)"
    unfolding M_def merged_def by (rule overlay_map_of [OF wf1 wf2])
  then have lkM: "map_of M b = Some (k, v) \<longleftrightarrow> (case map_of (mp_children m) b of
      Some (k', vo) \<Rightarrow> k' = k \<and> vo = Some v
    | None \<Rightarrow> (\<exists>bs. map_of ?es b = Some bs \<and> b \<noteq> [] \<and> store_item D m s (b, bs) = (b, k, v)))"
    unfolding stored [symmetric] map_of_child_items it(1) by (auto split: option.splits)
  have "map_of M b = Some (k, v) \<longleftrightarrow> b = kb k \<and> okk k \<and> look m s k = Some v"
  proof (cases "map_of (mp_children m) b")
    case (Some c)
    obtain k' vo where c: "c = (k', vo)" by force
    with Some cwf have k': "okk k'" "enc (mt_key D) k' = Ok b" by (auto simp: children_wf_def)
    then have "b = kb k'" using enc_kb by simp
    with Some c lkM k'(1) show ?thesis using kb_inj [OF k'(1), of k] by (auto simp: look_children)
  next
    case None
    have item: "store_item D m s (b, bs) = (b, k', v') \<longleftrightarrow> k' = k2 \<and> v' = v2"
      if "map_of ?es b = Some bs" "b = kb k2" "okk k2"
        "store_look ?V (mp_store m) (ents s) s (kb k2) = Some v2" for bs k' v' k2 v2
    proof -
      note a = that
      obtain k1 v1 where k1: "okk k1" "b = kb k1" "decode_key D b = Ok k1" "load_value D m s b bs = Ok v1"
          "store_look ?V (mp_store m) (ents s) s (kb k1) = Some v1"
        using store_item_decodes [OF assms(1) map_of_SomeD [OF a(1)]] a(2) kb_nonempty [OF a(3)]
        by (metis fst_conv snd_conv)
      have "k1 = k2" using kb_inj [OF k1(1) a(3)] a(2) k1(2) by simp
      with k1 a(4) show ?thesis by (auto simp: store_item_def)
    qed
    show ?thesis
    proof
      assume "map_of M b = Some (k, v)"
      then obtain bs where bs: "map_of ?es b = Some bs" "b \<noteq> []" "store_item D m s (b, bs) = (b, k, v)"
        using lkM None by auto
      obtain k2 v2 where k2: "okk k2" "b = kb k2" "store_look ?V (mp_store m) (ents s) s (kb k2) = Some v2"
        using store_item_decodes [OF assms(1) map_of_SomeD [OF bs(1)]] bs(2) by auto
      with item [OF bs(1) k2(2,1,3), of k v] bs(3) None show "b = kb k \<and> okk k \<and> look m s k = Some v"
        by (auto simp: look_children)
    next
      assume r: "b = kb k \<and> okk k \<and> look m s k = Some v"
      then have lk: "store_look ?V (mp_store m) (ents s) s (kb k) = Some v" using None by (simp add: look_children)
      then obtain bs where bs: "map_of ?es b = Some bs" using r by (auto simp: store_look_def split: option.splits)
      with item [OF bs, of k v k v] r lk None lkM kb_nonempty show "map_of M b = Some (k, v)" by auto
    qed
  qed
  moreover have "(b, k, v) \<in> set M \<longleftrightarrow> map_of M b = Some (k, v)"
    using wfM by (simp add: bt_wf_distinct)
  ultimately show "(b, k, v) \<in> set M \<longleftrightarrow> b = kb k \<and> okk k \<and> look m s k = Some v" by simp
qed

lemma map_iteration:
  assumes "wf m s" and "plain_keys n (sub_ents (mp_store m) (ents s))" and "n \<noteq> 0"
    and "length (mp_children m) + length (sub_ents (mp_store m) (ents s)) < fuel"
  shows "\<exists>it xs. map_iter_all D vc m = Ok it \<and> collect (map_iter_step D m s True) fuel it = Some (Ok xs)
    \<and> sorted_wrt (<) (map (\<lambda>x. kb (ref_deref (fst x))) xs)
    \<and> (\<forall>k v. (k, v) \<in> set (map ref_pair xs) \<longleftrightarrow> okk k \<and> look m s k = Some v)"
proof -
  let ?es = "sub_ents (mp_store m) (ents s)"
  let ?it = "\<lparr>mi_map = mp_children m, mi_store = \<lparr>sn_next_key = Unbounded, sn_end_key = Unbounded\<rparr>\<rparr>"
  have it: "map_iter_all D vc m = Ok ?it"
    by (simp add: map_iter_all_def map_range_def map_bound_def store_next_iter_new_def bt_range_def)
  let ?M = "merged D m s ?es ?it"
  note M = merged_all [OF assms(1), of ?it, simplified]
  have "length ?M \<le> length (mp_children m) + length (sni_rest ?es (mi_store ?it))"
    using merge_by_length [of "(<)" "map child_item (mi_map ?it)" "map (store_item D m s) (sni_rest ?es (mi_store ?it))"]
    by (simp add: merged_def)
  also have "length (sni_rest ?es (mi_store ?it)) \<le> length ?es" by (simp add: sni_rest_def)
  finally have len: "length ?M < fuel" using assms(4) by simp
  obtain xs where xs: "collect (map_iter_step D m s True) fuel ?it = Some (Ok xs)" "map ref_pair xs = map snd ?M"
    using collect_map_iter [OF assms(1-3), of ?it fuel] len by auto
  have keys: "map fst ?M = map (\<lambda>x. kb (fst (snd x))) ?M"
    using M(2) by (intro map_cong) (auto simp: split_paired_all)
  have "map (\<lambda>x. kb (ref_deref (fst x))) xs = map (\<lambda>y. kb (fst y)) (map ref_pair xs)" by simp
  also have "\<dots> = map fst ?M" unfolding xs(2) keys by simp
  finally have srt: "sorted_wrt (<) (map (\<lambda>x. kb (ref_deref (fst x))) xs)" using M(1) by simp
  have "(k, v) \<in> set (map ref_pair xs) \<longleftrightarrow> okk k \<and> look m s k = Some v" for k v
    unfolding xs(2) set_map image_iff using M(2) by (metis prod.collapse snd_conv)
  with it xs(1) srt show ?thesis by blast
qed

end

section \<open>Keys that cannot be incremented\<close>

lemma increment_all_255: "n \<noteq> 0 \<Longrightarrow> increment_bytes (replicate n 255) = 1 # replicate n 0"
proof -
  assume n: "n \<noteq> 0"
  show ?thesis using n by (cases n) (simp_all add: increment_bytes_def increment_loop_all_255 Let_def replicate_append_same)
qed

lemma increment_below_255:
  assumes "length key = n" and "n \<noteq> 0"
  shows "increment_bytes key \<le> replicate n 255 \<and> increment_bytes key \<noteq> []"
proof (cases "key = replicate n 255")
  case True
  have "1 # replicate n 0 \<le> replicate n (255 :: byte)" using assms(2) by (cases n) simp_all
  then show ?thesis using True increment_all_255 [OF assms(2)] by simp
next
  case False
  have "of_be_bytes key < 256 ^ n" using of_be_bytes_bound [of key] assms(1) by simp
  then have "of_be_bytes key \<le> of_be_bytes (replicate n 255)" using of_be_bytes_255 [of n] by linarith
  moreover have "of_be_bytes key \<noteq> of_be_bytes (replicate n 255)"
    using False assms(1) be_bytes_of_be_bytes [of key] be_bytes_of_be_bytes [of "replicate n 255"] by (metis length_replicate)
  ultimately have "key < replicate n 255" using less_iff_number [of key "replicate n 255"] assms(1) by simp
  then show ?thesis
    using increment_le_iff [of key "replicate n 255"] increment_bytes_number(1) [of key] False assms by auto
qed

text \<open>An iterator that has the key of 255 bytes still before it.\<close>

definition endless :: "nat \<Rightarrow> nat \<Rightarrow> ('k, 'v) map_iter \<Rightarrow> bool" where
  "endless n l it \<longleftrightarrow> sn_next_key (mi_store it) \<noteq> Included [] \<and> sn_end_key (mi_store it) = Unbounded
     \<and> sni_above (sn_next_key (mi_store it)) (replicate n 255) \<and> length (mi_map it) \<le> l"

context keyed_map
begin

lemma endless_store:
  assumes "wf m s" and "\<forall>e\<in>set (sub_ents (mp_store m) (ents s)). fst e = [] \<or> length (fst e) = n" and "n \<noteq> 0"
    and "map_of (sub_ents (mp_store m) (ents s)) (replicate n 255) \<noteq> None" and "endless n l it"
  shows "\<exists>e si. sni_peek (store_reader (bk_read (mt_backing D) s) (mp_store m)) (mi_store it) = Some (Ok e)
    \<and> sni_next (store_reader (bk_read (mt_backing D) s) (mp_store m)) (mi_store it) = (Some (Ok e), si)
    \<and> endless n l (it\<lparr>mi_store := si\<rparr>)
    \<and> (\<exists>k v. decode_key D (fst e) = Ok k \<and> load_value D m s (fst e) (snd e) = Ok v)"
proof -
  let ?es = "sub_ents (mp_store m) (ents s)" and ?r = "store_reader (bk_read (mt_backing D) s) (mp_store m)"
  have fr: "forward_reader ?r ?es"
    using assms(1) by (intro lawful_store_reader_forward backing.reads_lawful) (simp add: map_wf_def)
  obtain bs where "(replicate n 255, bs) \<in> set ?es" using assms(4) map_of_SomeD by fast
  then have "(replicate n 255, bs) \<in> set (sni_rest ?es (mi_store it))" using assms(5) by (simp add: sni_rest_def endless_def)
  then obtain e rest where rest: "sni_rest ?es (mi_store it) = e # rest" by (cases "sni_rest ?es (mi_store it)") auto
  have peek: "sni_peek ?r (mi_store it) = Some (Ok e)" using forward_reader.sni_peek_rest [OF fr, of "mi_store it"] rest by simp
  have "e \<in> set (sni_rest ?es (mi_store it))" using rest by simp
  then have e: "e \<in> set ?es" "fst e \<noteq> []"
    using assms(5) by (cases "sn_next_key (mi_store it)"; auto simp: sni_rest_def sni_above_def endless_def)+
  then have "length (fst e) = n" using assms(2) by blast
  then have "increment_bytes (fst e) \<le> replicate n 255 \<and> increment_bytes (fst e) \<noteq> []" by (rule increment_below_255 [OF _ assms(3)])
  then have "endless n l (it\<lparr>mi_store := (mi_store it)\<lparr>sn_next_key := Included (increment_bytes (fst e))\<rparr>\<rparr>)"
    using assms(5) by (simp add: endless_def sni_above_def)
  moreover have "sni_next ?r (mi_store it) = (Some (Ok e), (mi_store it)\<lparr>sn_next_key := Included (increment_bytes (fst e))\<rparr>)"
    using peek by (cases e) (simp add: sni_next_def map_increment_bytes_eq)
  ultimately show ?thesis using peek store_item_decodes [OF assms(1) e] by blast
qed

lemma endless_next:
  assumes "wf m s" and "\<forall>e\<in>set (sub_ents (mp_store m) (ents s)). fst e = [] \<or> length (fst e) = n" and "n \<noteq> 0"
    and "map_of (sub_ents (mp_store m) (ents s)) (replicate n 255) \<noteq> None" and "endless n l it" and "length (mi_map it) < fuel"
  shows "\<exists>x it'. map_merge_next D m s True fuel it = Some (Ok (Some x), it') \<and> endless n l it'"
  using assms(5,6)
proof (induction fuel arbitrary: it)
  case (Suc fuel)
  obtain e si k' v' where st: "sni_peek (store_reader (bk_read (mt_backing D) s) (mp_store m)) (mi_store it) = Some (Ok e)"
      "sni_next (store_reader (bk_read (mt_backing D) s) (mp_store m)) (mi_store it) = (Some (Ok e), si)"
      "endless n l (it\<lparr>mi_store := si\<rparr>)" "decode_key D (fst e) = Ok k'" "load_value D m s (fst e) (snd e) = Ok v'"
    using endless_store [OF assms(1-4) Suc.prems(1)] by blast
  show ?case
  proof (cases "mi_map it")
    case Nil
    then show ?thesis using st by (simp add: store_next_def)
  next
    case (Cons c cs)
    obtain b k vo where c: "c = (b, k, vo)" by (cases c) auto
    obtain key val where e: "e = (key, val)" by force
    show ?thesis
    proof (cases "key < b")
      case True
      then show ?thesis using Cons c e st by (cases vo) (simp_all add: store_next_def)
    next
      case False
      define it2 where "it2 = (if b = key then it\<lparr>mi_store := si\<rparr> else it)"
      have it2: "endless n l (map_next True it2)" "length (mi_map (map_next True it2)) < fuel"
        using Cons st(3) Suc.prems by (auto simp: it2_def map_next_def endless_def)
      have run: "map_merge_next D m s True (Suc fuel) it = (case vo of
          Some v \<Rightarrow> Some (Ok (Some (Borrowed k, Borrowed v)), map_next True it2)
        | None \<Rightarrow> map_merge_next D m s True fuel (map_next True it2))"
        using False Cons c e st by (cases vo) (auto simp: it2_def store_next_def)
      show ?thesis using run it2(1) Suc.IH [OF it2] by (cases vo) simp_all
    qed
  qed
qed simp

lemma endless_step:
  assumes "wf m s" and "\<forall>e\<in>set (sub_ents (mp_store m) (ents s)). fst e = [] \<or> length (fst e) = n" and "n \<noteq> 0"
    and "map_of (sub_ents (mp_store m) (ents s)) (replicate n 255) \<noteq> None" and "endless n (length (mp_children m)) it"
  shows "\<exists>x it'. map_iter_step D m s True it = (Some (Ok x), it') \<and> endless n (length (mp_children m)) it'"
  using endless_next [OF assms, of "Suc (length (mp_children m))"] assms(5)
  by (auto simp: map_iter_step_def endless_def simp del: map_merge_next.simps)

lemma endless_collect:
  assumes "wf m s" and "\<forall>e\<in>set (sub_ents (mp_store m) (ents s)). fst e = [] \<or> length (fst e) = n" and "n \<noteq> 0"
    and "map_of (sub_ents (mp_store m) (ents s)) (replicate n 255) \<noteq> None" and "endless n (length (mp_children m)) it"
  shows "collect (map_iter_step D m s True) fuel it = None"
  using assms(5)
proof (induction fuel arbitrary: it)
  case (Suc fuel)
  then show ?case using endless_step [OF assms(1-4) Suc.prems] by fastforce
qed simp

lemma endless_take:
  assumes "wf m s" and "\<forall>e\<in>set (sub_ents (mp_store m) (ents s)). fst e = [] \<or> length (fst e) = n" and "n \<noteq> 0"
    and "map_of (sub_ents (mp_store m) (ents s)) (replicate n 255) \<noteq> None" and "endless n (length (mp_children m)) it"
  shows "\<exists>xs. collect_take (map_iter_step D m s True) N it = Ok xs \<and> length xs = N"
  using assms(5)
proof (induction N arbitrary: it)
  case (Suc N)
  then show ?case using endless_step [OF assms(1-4) Suc.prems] by fastforce
qed simp

end

section \<open>Properties\<close>

text \<open>
  (C36) Iterating over a map whose stored keys all have one length and are not all 255: the
  iteration ends, its keys ascend in encoded order, and it yields exactly the keys and
  values the map holds, in-memory changes and removals included.
\<close>

theorem map_iteration_complete:
  assumes "keyed_map D ents invar okk okv" and "map_wf D ents invar okk okv m s"
    and "plain_keys n (sub_ents (mp_store m) (ents s))" and "n \<noteq> 0"
    and "length (mp_children m) + length (sub_ents (mp_store m) (ents s)) < fuel"
  shows "\<exists>it xs. map_iter_all D vc m = Ok it \<and> collect (map_iter_step D m s True) fuel it = Some (Ok xs)
    \<and> sorted_wrt (<) (map (\<lambda>x. key_bytes (mt_key D) (ref_deref (fst x))) xs)
    \<and> (\<forall>k v. (k, v) \<in> set (map ref_pair xs) \<longleftrightarrow> okk k \<and> map_look D ents m s k = Some v)"
  by (rule keyed_map.map_iteration [OF assms])

theorem map_iteration_complete_witness:
  "\<exists>it xs. map_iter_all (uint_map 1 5) \<lparr>enc = Ok, dec = (\<lambda>b. Ok (b, []))\<rparr> \<lparr>mp_store = [], mp_children = [([7], 7, Some 9)]\<rparr> = Ok it
    \<and> collect (map_iter_step (uint_map 1 5) \<lparr>mp_store = [], mp_children = [([7], 7, Some 9)]\<rparr>
        \<lparr>buf_map = [([3], Some [4])], buf_store = ()\<rparr> True) 5 it = Some (Ok xs)
    \<and> (\<forall>k v. (k, v) \<in> set (map ref_pair xs) \<longleftrightarrow> k < 256 \<and> map_look (uint_map 1 5) mapstore_ents
        \<lparr>mp_store = [], mp_children = [([7], 7, Some 9)]\<rparr> \<lparr>buf_map = [([3], Some [4])], buf_store = ()\<rparr> k = Some v)"
proof -
  let ?m = "\<lparr>mp_store = [], mp_children = [([7], 7, Some 9)]\<rparr> :: (nat, byte) omap"
  let ?s = "\<lparr>buf_map = [([3], Some [4])], buf_store = ()\<rparr> :: mapstore"
  have es: "sub_ents [] (mapstore_ents ?s) = [([3], [4])]" by (simp add: buf_ents_def sub_ents_def)
  have "stored_as (leaf_state word_codec) (4 :: byte) [4]" by (simp add: stored_as_def leaf_state_def)
  then have "store_wf (uint_map (Suc 0) 5) (\<lambda>k. k < 256 ^ Suc 0) (\<lambda>_. True) [([3], [4])]"
    unfolding store_wf_def by (auto simp: uint_map_def intro!: exI [of _ 3] exI [of _ "4 :: byte"])
  then have wf: "map_wf (uint_map (Suc 0) 5) mapstore_ents mapstore_invar (\<lambda>k. k < 256 ^ Suc 0) (\<lambda>_. True) ?m ?s"
    by (simp add: map_wf_def buf_invar_def children_wf_def es uint_map_def)
  show ?thesis
    using map_iteration_complete [OF uint_map.keyed_map_axioms wf, of 1 5 "\<lparr>enc = Ok, dec = (\<lambda>b. Ok (b, []))\<rparr>"]
    by (simp add: es plain_keys_def) blast
qed

text \<open>
  (C37) A stored key of all 255 bytes makes the iteration endless: the iteration over any map whose
  stored keys have one length, and among which there is such a key, in whatever way the map is
  changed in memory, yields any number of entries without reaching an end.
\<close>

theorem map_iteration_diverges:
  assumes "keyed_map D ents invar okk okv" and "map_wf D ents invar okk okv m s"
    and "\<forall>e\<in>set (sub_ents (mp_store m) (ents s)). fst e = [] \<or> length (fst e) = n" and "n \<noteq> 0"
    and "map_of (sub_ents (mp_store m) (ents s)) (replicate n 255) \<noteq> None"
  shows "\<exists>it. map_iter_all D vc m = Ok it
    \<and> (\<forall>fuel. collect (map_iter_step D m s True) fuel it = None)
    \<and> (\<forall>N. \<exists>xs. collect_take (map_iter_step D m s True) N it = Ok xs \<and> length xs = N)"
proof -
  let ?it = "\<lparr>mi_map = mp_children m, mi_store = \<lparr>sn_next_key = Unbounded, sn_end_key = Unbounded\<rparr>\<rparr>"
  have it: "map_iter_all D vc m = Ok ?it"
    by (simp add: map_iter_all_def map_range_def map_bound_def store_next_iter_new_def bt_range_def)
  have e: "endless n (length (mp_children m)) ?it" using assms(4) by (simp add: endless_def sni_above_def)
  show ?thesis
    using it keyed_map.endless_collect [OF assms e] keyed_map.endless_take [OF assms e] by blast
qed

theorem map_iteration_diverges_witness:
  "\<exists>it. map_iter_all (uint_map 1 5) \<lparr>enc = Ok, dec = (\<lambda>b. Ok (b, []))\<rparr> map_new = Ok it
    \<and> (\<forall>fuel. collect (map_iter_step (uint_map 1 5) map_new \<lparr>buf_map = [([255], Some [7])], buf_store = ()\<rparr> True) fuel it = None)"
proof -
  let ?s = "\<lparr>buf_map = [([255], Some [7])], buf_store = ()\<rparr> :: mapstore"
  have es: "sub_ents (mp_store (map_new :: (nat, byte) omap)) (mapstore_ents ?s) = [([255], [7])]"
    by (simp add: map_new_def buf_ents_def sub_ents_def)
  have "stored_as (leaf_state word_codec) (7 :: byte) [7]" by (simp add: stored_as_def leaf_state_def)
  then have "store_wf (uint_map (Suc 0) 5) (\<lambda>k. k < 256 ^ Suc 0) (\<lambda>_. True) [([255], [7])]"
    by (auto simp: store_wf_def uint_map_def be_codec_def intro!: exI [of _ "255 :: nat"])
  then have wf: "map_wf (uint_map (Suc 0) 5) mapstore_ents mapstore_invar (\<lambda>k. k < 256 ^ Suc 0) (\<lambda>_. True) map_new ?s"
    unfolding map_wf_def es by (simp add: buf_invar_def children_wf_def map_new_def)
  show ?thesis
    using map_iteration_diverges [OF uint_map.keyed_map_axioms wf, of 1 "\<lparr>enc = Ok, dec = (\<lambda>b. Ok (b, []))\<rparr>"] by (simp add: es) blast
qed

text \<open>
  A range that excludes its start key, on a map whose values have sub-entries: instead of
  the next key, the iterator finds a sub-entry of the excluded key, whose bytes are more than
  a key, and panics on the debug assertion.
\<close>

lemma excluded_start_finds_sub_entry:
  assumes "\<And>b. enc vc_bytes b = Ok b"
  shows "let D = nested_map 1 20;
       s = \<lparr>buf_map = [([1], Some []), ([1, 10], Some [100]), ([2], Some [])], buf_store = ()\<rparr> :: mapstore
   in \<exists>it. map_range D vc_bytes map_new (Excluded 1, Unbounded) = Ok it
        \<and> fst (map_iter_step D map_new s True it) = Some Panic"
proof -
  let ?D = "nested_map 1 20"
  let ?s = "\<lparr>buf_map = [([1], Some []), ([1, 10], Some [100]), ([2], Some [])], buf_store = ()\<rparr> :: mapstore"
  let ?it = "\<lparr>mi_map = [], mi_store = \<lparr>sn_next_key = Excluded [1], sn_end_key = Unbounded\<rparr>\<rparr> :: (nat, (nat, byte) omap) map_iter"
  have "map_range ?D vc_bytes map_new (Excluded 1, Unbounded) = Ok ?it"
    by (simp add: map_range_def map_bound_def map_key_new_def store_next_iter_new_def bt_range_def map_new_def
        nested_map_def assms)
  moreover have "fst (map_iter_step ?D map_new ?s True ?it) = Some Panic" by code_simp
  ultimately show ?thesis unfolding Let_def by blast
qed

lemma excluded_start_finds_sub_entry_witness:
  "let D = nested_map 1 20;
       s = \<lparr>buf_map = [([1], Some []), ([1, 10], Some [100]), ([2], Some [])], buf_store = ()\<rparr> :: mapstore
   in \<exists>it. map_range D \<lparr>enc = Ok, dec = (\<lambda>b. Ok (b, []))\<rparr> map_new (Excluded 1, Unbounded) = Ok it
        \<and> fst (map_iter_step D map_new s True it) = Some Panic"
  using excluded_start_finds_sub_entry [of "\<lparr>enc = Ok, dec = (\<lambda>b. Ok (b, []))\<rparr>"] by simp

end
