(* ===== verification/Deque_Coll.thy ===== *)
theory Deque_Coll
  imports Map_Iter "HOL-Library.Multiset"
begin

text \<open>
  \<^verbatim>\<open>src/collections/deque.rs\<close>: a double-ended queue in a map from 64-bit indices.  The elements
  are at the indices from \<open>dq_head\<close> up to \<open>dq_tail\<close>; both start at the middle of the range.

  The map is used only through its methods, so the proofs are in the locale \<open>map_contract\<close>:
  each method of the deque is shown to be the corresponding operation on the list of
  elements, including both \<^verbatim>\<open>retain\<close> loops.
\<close>

section \<open>The collection\<close>

record 'v deque =
  dq_head :: u64
  dq_tail :: u64
  dq_map :: "(u64, 'v) omap"

definition deque_midpoint :: u64 where
  "deque_midpoint = (2 ^ 64 - 1) div 2"

definition deque_new :: "'v deque" where
  "deque_new = \<lparr>dq_head = deque_midpoint, dq_tail = deque_midpoint, dq_map = map_new\<rparr>"

definition deque_with_store :: "('s, u64, 'v) map_types \<Rightarrow> bytes \<Rightarrow> 'v deque result" where
  "deque_with_store D store = and_then (map_with_store D store) (\<lambda>m.
     Ok \<lparr>dq_head = deque_midpoint, dq_tail = deque_midpoint, dq_map = m\<rparr>)"

text \<open>A method of the map run on the map of the deque.\<close>

definition on_map :: "((u64, 'v) omap, 'a) op \<Rightarrow> ('v deque, 'a) op" where
  "on_map f d = (case f (dq_map d) of (r, m) \<Rightarrow> (r, d\<lparr>dq_map := m\<rparr>))"

text \<open>\<^verbatim>\<open>State\<close>: the bytes of the two indices (a derived implementation, version 0), then the map.
  \<open>u64c\<close> is the library's encoding of \<^verbatim>\<open>u64\<close>.\<close>

definition deque_attach :: "('s, u64, 'v) map_types \<Rightarrow> bytes \<Rightarrow> ('v deque, unit) op" where
  "deque_attach D store = on_map (map_attach D store)"

definition deque_flush :: "bool \<Rightarrow> u64 codec \<Rightarrow> ('s, u64, 'v) map_types \<Rightarrow> 'v deque \<Rightarrow> ('s, bytes) op" where
  "deque_flush compat_mode u64c D d =
     op_bind (op_bind (flush_version compat_mode 0 []) (\<lambda>out.
       op_bind (flush_child (leaf_state u64c) (dq_head d) out) (flush_child (leaf_state u64c) (dq_tail d)))) (\<lambda>out.
     op_bind (map_flush D (dq_map d)) (\<lambda>_. op_ok out))"

definition deque_load :: "bool \<Rightarrow> (byte \<Rightarrow> byte \<Rightarrow> string) \<Rightarrow> u64 codec \<Rightarrow> ('s, u64, 'v) map_types \<Rightarrow> 's \<Rightarrow> bytes \<Rightarrow> bytes
    \<Rightarrow> ('v deque \<times> bytes) result" where
  "deque_load compat_mode msg u64c D s store bytes =
     (case op_bind (load_child compat_mode msg (leaf_state u64c) s) (\<lambda>head.
             op_bind (load_child compat_mode msg (leaf_state u64c) s) (\<lambda>tail. op_ok (head, tail)))
             (loader_new store bytes 0) of
        (Ok (head, tail), l) \<Rightarrow> and_then (map_load D store) (\<lambda>m.
          case deque_attach D store \<lparr>dq_head = head, dq_tail = tail, dq_map = m\<rparr> of
            (Ok _, d) \<Rightarrow> Ok (d, ld_bytes l) | (Err e, _) \<Rightarrow> Err e | (Panic, _) \<Rightarrow> Panic)
      | (Err e, _) \<Rightarrow> Err e
      | (Panic, _) \<Rightarrow> Panic)"

section \<open>Methods\<close>

definition deque_len :: "'v deque \<Rightarrow> u64 result" where
  "deque_len d = word_sub (dq_tail d) (dq_head d)"

definition deque_is_empty :: "'v deque \<Rightarrow> bool result" where
  "deque_is_empty d = and_then (deque_len d) (\<lambda>n. Ok (n = 0))"

definition deque_get_raw :: "('s, u64, 'v) map_types \<Rightarrow> 'v deque \<Rightarrow> 's \<Rightarrow> u64 \<Rightarrow> 'v ref_to option result" where
  "deque_get_raw D d s key = map_get D (dq_map d) s key"

definition deque_get :: "('s, u64, 'v) map_types \<Rightarrow> 'v deque \<Rightarrow> 's \<Rightarrow> u64 \<Rightarrow> 'v ref_to option result" where
  "deque_get D d s index = and_then (word_add index (dq_head d)) (map_get D (dq_map d) s)"

definition deque_front :: "('s, u64, 'v) map_types \<Rightarrow> 'v deque \<Rightarrow> 's \<Rightarrow> 'v ref_to option result" where
  "deque_front D d s = map_get D (dq_map d) s (dq_head d)"

definition deque_back :: "('s, u64, 'v) map_types \<Rightarrow> 'v deque \<Rightarrow> 's \<Rightarrow> 'v ref_to option result" where
  "deque_back D d s = and_then (word_sub (dq_tail d) 1) (map_get D (dq_map d) s)"

definition deque_get_mut :: "('s, u64, 'v) map_types \<Rightarrow> 's \<Rightarrow> u64 \<Rightarrow> ('v deque, (u64, 'v) child_mut option) op" where
  "deque_get_mut D s index = op_read (\<lambda>d. and_then (word_add index (dq_head d)) (map_get_mut D (dq_map d) s))"

definition deque_push_back :: "('s, u64, 'v) map_types \<Rightarrow> 'v \<Rightarrow> ('v deque, unit) op" where
  "deque_push_back D v d =
     (let index = dq_tail d
      in op_bind (op_lift (word_add (dq_tail d) 1)) (\<lambda>tail.
         op_bind (op_upd (\<lambda>d. d\<lparr>dq_tail := tail\<rparr>)) (\<lambda>_. on_map (map_insert D index v))) d)"

definition deque_push_front :: "('s, u64, 'v) map_types \<Rightarrow> 'v \<Rightarrow> ('v deque, unit) op" where
  "deque_push_front D v d =
     op_bind (op_lift (word_sub (dq_head d) 1)) (\<lambda>index.
     op_bind (op_upd (\<lambda>d. d\<lparr>dq_head := index\<rparr>)) (\<lambda>_. on_map (map_insert D index v))) d"

definition deque_pop_front :: "('s, u64, 'v) map_types \<Rightarrow> 's \<Rightarrow> ('v deque, 'v read_only option) op" where
  "deque_pop_front D s d =
     op_bind (op_lift (deque_is_empty d)) (\<lambda>empty.
       if empty then op_ok None
       else op_bind (op_lift (word_add (dq_head d) 1)) (\<lambda>head.
            op_bind (op_upd (\<lambda>d. d\<lparr>dq_head := head\<rparr>)) (\<lambda>_.
            op_bind (op_lift (word_sub head 1)) (\<lambda>index. on_map (map_remove D s index))))) d"

definition deque_pop_back :: "('s, u64, 'v) map_types \<Rightarrow> 's \<Rightarrow> ('v deque, 'v read_only option) op" where
  "deque_pop_back D s d =
     op_bind (op_lift (deque_is_empty d)) (\<lambda>empty.
       if empty then op_ok None
       else op_bind (op_lift (word_sub (dq_tail d) 1)) (\<lambda>tail.
            op_bind (op_upd (\<lambda>d. d\<lparr>dq_tail := tail\<rparr>)) (\<lambda>_. on_map (map_remove D s tail)))) d"

definition deque_front_mut :: "('s, u64, 'v) map_types \<Rightarrow> 's \<Rightarrow> ('v deque, (u64, 'v) child_mut option) op" where
  "deque_front_mut D s = deque_get_mut D s 0"

definition deque_back_mut :: "('s, u64, 'v) map_types \<Rightarrow> 's \<Rightarrow> ('v deque, (u64, 'v) child_mut option) op" where
  "deque_back_mut D s =
     op_bind (op_read deque_len) (\<lambda>n. op_bind (op_lift (word_sub n 1)) (deque_get_mut D s))"

definition deque_swap :: "('s, u64, 'v) map_types \<Rightarrow> 's \<Rightarrow> u64 \<Rightarrow> u64 \<Rightarrow> ('v deque, unit) op" where
  "deque_swap D s i j d =
     op_bind (op_lift (word_add i (dq_head d))) (\<lambda>i.
     op_bind (op_lift (word_add j (dq_head d))) (\<lambda>j. on_map (map_swap D s i j))) d"

definition deque_swap_remove_front :: "('s, u64, 'v) map_types \<Rightarrow> 's \<Rightarrow> u64 \<Rightarrow> ('v deque, unit) op" where
  "deque_swap_remove_front D s i =
     op_bind (deque_swap D s i 0) (\<lambda>_. op_bind (deque_pop_front D s) (\<lambda>_. op_ok ()))"

definition deque_swap_remove_back :: "('s, u64, 'v) map_types \<Rightarrow> 's \<Rightarrow> u64 \<Rightarrow> ('v deque, unit) op" where
  "deque_swap_remove_back D s i =
     op_bind (op_read deque_len) (\<lambda>n.
     op_bind (op_lift (word_sub n 1)) (\<lambda>last.
     op_bind (deque_swap D s i last) (\<lambda>_. op_bind (deque_pop_back D s) (\<lambda>_. op_ok ()))))"

text \<open>
  The closure of \<^verbatim>\<open>retain\<close> gets a mutable reference to an element; it has a state \<open>'c\<close> of its own
  and may change the map.  The loops count the indices still to visit, so that they are
  recursive in a number; the indices themselves stay below the length and do not overflow.
\<close>

type_synonym ('v, 'c) retain_fn = "'c \<Rightarrow> (u64, 'v) child_mut \<Rightarrow> ((u64, 'v) omap, bool \<times> 'c) op"

definition call_at :: "('s, u64, 'v) map_types \<Rightarrow> 's \<Rightarrow> ('v, 'c) retain_fn \<Rightarrow> 'c \<Rightarrow> u64 \<Rightarrow> ('v deque, bool \<times> 'c) op" where
  "call_at D s f c index =
     op_bind (deque_get_mut D s index) (\<lambda>item.
     op_bind (op_lift (unwrap item)) (\<lambda>child. on_map (f c child)))"

fun retain_scan :: "('s, u64, 'v) map_types \<Rightarrow> 's \<Rightarrow> ('v, 'c) retain_fn \<Rightarrow> nat \<Rightarrow> u64 \<Rightarrow> u64 \<Rightarrow> 'c
    \<Rightarrow> ('v deque, u64 \<times> u64 \<times> 'c) op" where
  "retain_scan D s f 0 curr_index retained_index c = op_ok (curr_index, retained_index, c)"
| "retain_scan D s f (Suc n) curr_index retained_index c =
     op_bind (call_at D s f c curr_index) (\<lambda>(keep, c).
       if \<not> keep then op_ok (curr_index + 1, retained_index, c)
       else retain_scan D s f n (curr_index + 1) (retained_index + 1) c)"

fun retain_shift :: "('s, u64, 'v) map_types \<Rightarrow> 's \<Rightarrow> ('v, 'c) retain_fn \<Rightarrow> nat \<Rightarrow> u64 \<Rightarrow> u64 \<Rightarrow> 'c
    \<Rightarrow> ('v deque, u64 \<times> u64 \<times> 'c) op" where
  "retain_shift D s f 0 curr_index retained_index c = op_ok (curr_index, retained_index, c)"
| "retain_shift D s f (Suc n) curr_index retained_index c =
     op_bind (call_at D s f c curr_index) (\<lambda>(keep, c).
       if \<not> keep then retain_shift D s f n (curr_index + 1) retained_index c
       else op_bind (deque_swap D s retained_index curr_index) (\<lambda>_.
              retain_shift D s f n (curr_index + 1) (retained_index + 1) c))"

text \<open>The last loop pops from the back until the length is right; its fuel exceeds the
  length by one.\<close>

fun retain_truncate :: "('s, u64, 'v) map_types \<Rightarrow> 's \<Rightarrow> nat \<Rightarrow> u64 \<Rightarrow> ('v deque, unit) op" where
  "retain_truncate D s 0 retained_index = op_lift Panic"
| "retain_truncate D s (Suc fuel) retained_index =
     op_bind (op_read deque_len) (\<lambda>n.
       if retained_index < n
       then op_bind (deque_pop_back D s) (\<lambda>_. retain_truncate D s fuel retained_index)
       else op_ok ())"

definition deque_retain :: "('s, u64, 'v) map_types \<Rightarrow> 's \<Rightarrow> ('v, 'c) retain_fn \<Rightarrow> 'c \<Rightarrow> ('v deque, unit) op" where
  "deque_retain D s f c =
     op_bind (op_read deque_len) (\<lambda>len.
     op_bind (retain_scan D s f (unat len) 0 0 c) (\<lambda>(curr_index, retained_index, c).
     op_bind (retain_shift D s f (unat (len - curr_index)) curr_index retained_index c) (\<lambda>(curr_index, retained_index, c).
       if curr_index \<noteq> retained_index then retain_truncate D s (Suc (unat len)) retained_index else op_ok ())))"

fun retain_unordered_loop :: "('s, u64, 'v) map_types \<Rightarrow> 's \<Rightarrow> ('v, 'c) retain_fn \<Rightarrow> nat \<Rightarrow> u64 \<Rightarrow> 'c \<Rightarrow> ('v deque, unit) op" where
  "retain_unordered_loop D s f 0 i c = op_ok ()"
| "retain_unordered_loop D s f (Suc n) i c =
     op_bind (call_at D s f c i) (\<lambda>(keep, c).
       if \<not> keep then op_bind (deque_swap_remove_back D s i) (\<lambda>_. retain_unordered_loop D s f n i c)
       else retain_unordered_loop D s f n (i + 1) c)"

definition deque_retain_unordered :: "('s, u64, 'v) map_types \<Rightarrow> 's \<Rightarrow> ('v, 'c) retain_fn \<Rightarrow> 'c \<Rightarrow> ('v deque, unit) op" where
  "deque_retain_unordered D s f c =
     op_bind (op_read deque_len) (\<lambda>len. retain_unordered_loop D s f (unat len) 0 c)"

text \<open>Iteration: the values of the map's iterator.\<close>

definition deque_iter :: "('s, u64, 'v) map_types \<Rightarrow> bytes codec \<Rightarrow> 'v deque \<Rightarrow> (u64, 'v) map_iter result" where
  "deque_iter D vc d = map_iter_all D vc (dq_map d)"

definition deque_iter_step :: "('s, u64, 'v) map_types \<Rightarrow> 'v deque \<Rightarrow> 's \<Rightarrow> bool \<Rightarrow> (u64, 'v) map_iter
    \<Rightarrow> 'v ref_to result option \<times> (u64, 'v) map_iter" where
  "deque_iter_step D d s forward it = (case map_iter_step D (dq_map d) s forward it of
      (None, it') \<Rightarrow> (None, it')
    | (Some (Ok ent), it') \<Rightarrow> (Some (Ok (snd ent)), it')
    | (Some (Err e), it') \<Rightarrow> (Some (Err e), it')
    | (Some Panic, it') \<Rightarrow> (Some Panic, it'))"

section \<open>A deque is a list\<close>

text \<open>The laws of the map, for 64-bit keys of which none is excluded.\<close>

locale deque_map =
  map_contract D look wf "\<lambda>_. True" okv
  for D :: "('s, u64, 'v) map_types" and look :: "(u64, 'v) omap \<Rightarrow> 's \<Rightarrow> u64 \<Rightarrow> 'v option"
    and wf :: "(u64, 'v) omap \<Rightarrow> 's \<Rightarrow> bool" and okv :: "'v \<Rightarrow> bool"

text \<open>The element of a list that is placed at the positions from \<open>h\<close> on.\<close>

definition nth_at :: "nat \<Rightarrow> 'v list \<Rightarrow> nat \<Rightarrow> 'v option" where
  "nth_at h vs n = (if h \<le> n \<and> n - h < length vs then Some (vs ! (n - h)) else None)"

lemma nth_at_append: "nth_at h (vs @ [v]) n = (if n = h + length vs then Some v else nth_at h vs n)"
  by (auto simp: nth_at_def nth_append)

lemma nth_at_Cons: "nth_at h (v # vs) n = (if n = h then Some v else nth_at (Suc h) vs n)"
  by (auto simp: nth_at_def nth_Cons split: nat.splits) (metis Suc_diff_le diff_Suc_Suc nat.inject)+

lemma nth_at_update: "i < length vs \<Longrightarrow> nth_at h (vs[i := v]) n = (if n = h + i then Some v else nth_at h vs n)"
  by (auto simp: nth_at_def)

lemma nth_at_butlast: "vs \<noteq> [] \<Longrightarrow> nth_at h (butlast vs) n = (if n = h + length vs - 1 then None else nth_at h vs n)"
  by (auto simp: nth_at_def nth_butlast)

text \<open>The deque holds the list \<open>vs\<close>: its map has exactly the indices from head to tail, with
  the elements of \<open>vs\<close> in order.\<close>

definition holds_list :: "((u64, 'v) omap \<Rightarrow> 's \<Rightarrow> u64 \<Rightarrow> 'v option) \<Rightarrow> ((u64, 'v) omap \<Rightarrow> 's \<Rightarrow> bool)
    \<Rightarrow> 'v deque \<Rightarrow> 's \<Rightarrow> 'v list \<Rightarrow> bool" where
  "holds_list look mwf d s vs \<longleftrightarrow> mwf (dq_map d) s \<and> unat (dq_head d) + length vs = unat (dq_tail d)
     \<and> (\<forall>k. look (dq_map d) s k = nth_at (unat (dq_head d)) vs (unat k))"

text \<open>The closure that decides by a predicate on the element and changes nothing.\<close>

definition pred_closure :: "('v \<Rightarrow> bool) \<Rightarrow> ('v, unit) retain_fn" where
  "pred_closure P c child = op_read (\<lambda>m. and_then (child_deref m child) (\<lambda>v. Ok (P v, c)))"

lemma unat_u64_less: "unat (x :: u64) < 18446744073709551616"
  by (rule order_less_le_trans [OF unsigned_less]) simp

lemma unat_u64_eq: "unat (x :: u64) = unat y \<longleftrightarrow> x = y"
  by (metis unsigned_word_eqI)

lemma word_pred:
  assumes "(x :: u64) \<noteq> 0"
  shows "word_sub x 1 = Ok (x - 1)" and "unat (x - 1) = unat x - 1" and "0 < unat x"
proof -
  show g: "0 < unat x" using assms by (simp add: unat_gt_0)
  then have "1 \<le> x" by (simp add: word_le_nat_alt)
  then show "word_sub x 1 = Ok (x - 1)" "unat (x - 1) = unat x - 1"
    by (simp_all add: word_sub_def checked_sub_def unat_sub)
qed

lemma word_succ:
  assumes "unat (x :: u64) + 1 < 2 ^ 64"
  shows "word_add x 1 = Ok (x + 1)" and "unat (x + 1) = Suc (unat x)"
  using assms by (simp_all add: word_add_def checked_add_def unat_add_no_overflow)

lemma mset_swap_remove:
  assumes "i < length vs"
  shows "mset (butlast (vs[i := last vs])) = mset vs - {#vs ! i#}"
proof -
  obtain xs x where vs: "vs = xs @ [x]" using assms by (cases vs rule: rev_cases) auto
  show ?thesis
  proof (cases "i = length xs")
    case False
    then have "i < length xs" using assms vs by simp
    then show ?thesis by (simp add: vs list_update_append mset_update nth_append add_mset_diff_bothsides)
  qed (simp add: vs)
qed

context deque_map
begin

abbreviation holds :: "'v deque \<Rightarrow> 's \<Rightarrow> 'v list \<Rightarrow> bool" where
  "holds \<equiv> holds_list look wf"

lemma holds_wf: "holds d s vs \<Longrightarrow> wf (dq_map d) s"
  by (simp add: holds_list_def)

lemma holds_tail: "holds d s vs \<Longrightarrow> unat (dq_tail d) = unat (dq_head d) + length vs"
  by (simp add: holds_list_def)

lemma holds_len: "holds d s vs \<Longrightarrow> deque_len d = Ok (dq_tail d - dq_head d) \<and> unat (dq_tail d - dq_head d) = length vs"
proof -
  assume "holds d s vs"
  then have "dq_head d \<le> dq_tail d" "unat (dq_tail d) - unat (dq_head d) = length vs"
    by (simp_all add: holds_tail word_le_nat_alt)
  then show ?thesis by (simp add: deque_len_def word_sub_def checked_sub_def unat_sub)
qed

lemma holds_is_empty: "holds d s vs \<Longrightarrow> deque_is_empty d = Ok (vs = [])"
  using holds_len [of d s vs] by (simp add: deque_is_empty_def flip: unat_u64_eq)

text \<open>Positions in the list and indices of the map.\<close>

lemma holds_index:
  assumes "holds d s vs" and "unat i < length vs"
  shows "word_add i (dq_head d) = Ok (i + dq_head d)" and "unat (i + dq_head d) = unat i + unat (dq_head d)"
    and "look (dq_map d) s (i + dq_head d) = Some (vs ! unat i)"
proof -
  have lt: "unat i + unat (dq_head d) < 2 ^ 64"
    using assms(2) holds_tail [OF assms(1)] unat_u64_less [of "dq_tail d"] by simp
  then show u: "unat (i + dq_head d) = unat i + unat (dq_head d)" by (simp add: unat_add_no_overflow)
  from lt show "word_add i (dq_head d) = Ok (i + dq_head d)" by (simp add: word_add_eq_Ok)
  show "look (dq_map d) s (i + dq_head d) = Some (vs ! unat i)"
    using assms u by (simp add: holds_list_def nth_at_def)
qed

lemma holds_ok: "holds d s vs \<Longrightarrow> list_all okv vs"
  unfolding list_all_length
proof (intro allI impI)
  fix n assume h: "holds d s vs" and n: "n < length vs"
  then have "n < 18446744073709551616" using unat_u64_less [of "dq_tail d"] holds_tail [OF h] by simp
  then have u: "unat (of_nat n :: u64) = n" by (simp add: unat_of_nat)
  show "okv (vs ! n)"
    using look_ok [OF holds_wf [OF h] TrueI holds_index(3) [OF h, of "of_nat n"]] n u by simp
qed

lemma deque_get_nth:
  assumes "holds d s vs" and "unat i + unat (dq_head d) < 2 ^ 64"
  shows "\<exists>r. deque_get D d s i = Ok r
    \<and> map_option ref_deref r = (if unat i < length vs then Some (vs ! unat i) else None)"
proof -
  have add: "word_add i (dq_head d) = Ok (i + dq_head d)" using assms(2) by (simp add: word_add_eq_Ok)
  have u: "unat (i + dq_head d) = unat i + unat (dq_head d)" using assms(2) by (simp add: unat_add_no_overflow)
  obtain r where "map_get D (dq_map d) s (i + dq_head d) = Ok r"
      "map_option ref_deref r = look (dq_map d) s (i + dq_head d)"
    using get_law [OF holds_wf [OF assms(1)] TrueI, of "i + dq_head d"] by blast
  then show ?thesis using add u assms(1) by (simp add: deque_get_def holds_list_def nth_at_def)
qed

lemma deque_front_hd:
  assumes "holds d s vs"
  shows "\<exists>r. deque_front D d s = Ok r \<and> map_option ref_deref r = (if vs = [] then None else Some (hd vs))"
proof -
  have "word_add 0 (dq_head d) = Ok (dq_head d)" using unat_u64_less [of "dq_head d"] by (simp add: word_add_eq_Ok)
  then show ?thesis
    using deque_get_nth [OF assms, of 0] unat_u64_less [of "dq_head d"]
    by (auto simp: deque_get_def deque_front_def hd_conv_nth)
qed

lemma deque_back_last:
  assumes "holds d s vs" and "dq_tail d \<noteq> 0"
  shows "\<exists>r. deque_back D d s = Ok r \<and> map_option ref_deref r = (if vs = [] then None else Some (last vs))"
proof -
  note t = word_pred [OF assms(2)]
  obtain r where r: "map_get D (dq_map d) s (dq_tail d - 1) = Ok r"
      "map_option ref_deref r = look (dq_map d) s (dq_tail d - 1)"
    using get_law [OF holds_wf [OF assms(1)] TrueI, of "dq_tail d - 1"] by blast
  have "look (dq_map d) s (dq_tail d - 1) = nth_at (unat (dq_head d)) vs (unat (dq_head d) + length vs - 1)"
    using assms(1) t by (simp add: holds_list_def)
  also have "\<dots> = (if vs = [] then None else Some (last vs))"
    using t(3) holds_tail [OF assms(1)] by (cases vs rule: rev_cases) (simp_all add: nth_at_def nth_append)
  finally show ?thesis using r t by (simp add: deque_back_def)
qed

lemma deque_push_back_append:
  assumes "holds d s vs" and "okv v" and "unat (dq_tail d) + 1 < 2 ^ 64"
  shows "\<exists>d'. deque_push_back D v d = (Ok (), d') \<and> holds d' s (vs @ [v]) \<and> dq_head d' = dq_head d"
proof -
  obtain m' where m': "map_insert D (dq_tail d) v (dq_map d) = (Ok (), m')" "wf m' s"
      "\<forall>k'. look m' s k' = (if k' = dq_tail d then Some v else look (dq_map d) s k')"
    using insert_law [OF holds_wf [OF assms(1)] TrueI assms(2), of "dq_tail d"] by auto
  note t = word_succ [OF assms(3)]
  let ?d = "d\<lparr>dq_tail := dq_tail d + 1, dq_map := m'\<rparr>"
  have "holds ?d s (vs @ [v])"
    using m'(2,3) t(2) assms(1) unat_u64_eq [of _ "dq_tail d"]
    by (auto simp: holds_list_def nth_at_append)
  moreover have "deque_push_back D v d = (Ok (), ?d)"
    using m'(1) t(1) by (simp add: deque_push_back_def on_map_def)
  ultimately show ?thesis by auto
qed

lemma deque_push_front_Cons:
  assumes "holds d s vs" and "okv v" and "dq_head d \<noteq> 0"
  shows "\<exists>d'. deque_push_front D v d = (Ok (), d') \<and> holds d' s (v # vs) \<and> dq_tail d' = dq_tail d"
proof -
  note h = word_pred [OF assms(3)]
  obtain m' where m': "map_insert D (dq_head d - 1) v (dq_map d) = (Ok (), m')" "wf m' s"
      "\<forall>k'. look m' s k' = (if k' = dq_head d - 1 then Some v else look (dq_map d) s k')"
    using insert_law [OF holds_wf [OF assms(1)] TrueI assms(2), of "dq_head d - 1"] by auto
  let ?d = "d\<lparr>dq_head := dq_head d - 1, dq_map := m'\<rparr>"
  have "k = dq_head d - 1 \<longleftrightarrow> unat k = unat (dq_head d) - 1" for k using unat_u64_eq [of k "dq_head d - 1"] h(2) by simp
  then have "holds ?d s (v # vs)"
    using m'(2,3) h(2,3) assms(1) by (simp add: holds_list_def nth_at_Cons)
  moreover have "deque_push_front D v d = (Ok (), ?d)"
    using m'(1) h(1) by (simp add: deque_push_front_def on_map_def)
  ultimately show ?thesis by auto
qed

lemma deque_pop_front_Cons:
  assumes "holds d s (v # vs)"
  shows "\<exists>d'. deque_pop_front D s d = (Ok (Some (ReadOnly v)), d') \<and> holds d' s vs"
proof -
  have lt: "unat (dq_head d) + 1 < 2 ^ 64" using holds_tail [OF assms] unat_u64_less [of "dq_tail d"] by simp
  note h = word_succ [OF lt]
  have "dq_head d + 1 \<noteq> 0" using h(2) by (metis nat.distinct(1) unsigned_0)
  then have undo: "word_sub (dq_head d + 1) 1 = Ok (dq_head d)" using word_pred(1) [of "dq_head d + 1"] by simp
  have "look (dq_map d) s (dq_head d) = Some v" using assms by (simp add: holds_list_def nth_at_def)
  then obtain m' where m': "map_remove D s (dq_head d) (dq_map d) = (Ok (Some (ReadOnly v)), m')" "wf m' s"
      "\<forall>k'. look m' s k' = (if k' = dq_head d then None else look (dq_map d) s k')"
    using remove_law [OF holds_wf [OF assms] TrueI, of "dq_head d"] by auto
  let ?d = "d\<lparr>dq_head := dq_head d + 1, dq_map := m'\<rparr>"
  have "nth_at (Suc (unat (dq_head d))) vs (unat (dq_head d)) = None" by (simp add: nth_at_def)
  then have "holds ?d s vs"
    using m'(2,3) h(2) assms unat_u64_eq [of _ "dq_head d"]
    by (auto simp: holds_list_def nth_at_Cons)
  moreover have "deque_pop_front D s d = (Ok (Some (ReadOnly v)), ?d)"
    using m'(1) h(1) undo holds_is_empty [OF assms] by (simp add: deque_pop_front_def on_map_def)
  ultimately show ?thesis by blast
qed

lemma deque_pop_back_butlast:
  assumes "holds d s vs" and "vs \<noteq> []"
  shows "\<exists>d'. deque_pop_back D s d = (Ok (Some (ReadOnly (last vs))), d') \<and> holds d' s (butlast vs) \<and> dq_head d' = dq_head d"
proof -
  have "dq_tail d \<noteq> 0" using holds_tail [OF assms(1)] assms(2) by auto
  note t = word_pred [OF this]
  have at: "unat (dq_tail d) - 1 = unat (dq_head d) + length vs - 1"
    "unat (dq_tail d) - 1 = unat (dq_head d) + (length vs - 1)"
    using holds_tail [OF assms(1)] assms(2) by (cases vs; simp)+
  have "look (dq_map d) s (dq_tail d - 1) = Some (last vs)"
    using assms(1) t(2) at nth_at_append [of "unat (dq_head d)" "butlast vs" "last vs"] assms(2)
    by (auto simp: holds_list_def)
  then obtain m' where m': "map_remove D s (dq_tail d - 1) (dq_map d) = (Ok (Some (ReadOnly (last vs))), m')" "wf m' s"
      "\<forall>k'. look m' s k' = (if k' = dq_tail d - 1 then None else look (dq_map d) s k')"
    using remove_law [OF holds_wf [OF assms(1)] TrueI, of "dq_tail d - 1"] by auto
  let ?d = "d\<lparr>dq_tail := dq_tail d - 1, dq_map := m'\<rparr>"
  have "k = dq_tail d - 1 \<longleftrightarrow> unat k = unat (dq_head d) + length vs - 1" for k
    using unat_u64_eq [of k "dq_tail d - 1"] t(2) at by simp
  moreover have "unat (dq_head d) + length (butlast vs) = unat (dq_tail d) - 1" using at assms(2) by (cases vs) auto
  ultimately have "holds ?d s (butlast vs)"
    using m'(2,3) t(2) assms unfolding holds_list_def by (simp add: nth_at_butlast)
  moreover have "deque_pop_back D s d = (Ok (Some (ReadOnly (last vs))), ?d)"
    using m'(1) t(1) holds_is_empty [OF assms(1)] assms(2) by (simp add: deque_pop_back_def on_map_def)
  ultimately show ?thesis by auto
qed

lemma deque_swap_update:
  assumes "holds d s vs" and "unat i < length vs" and "unat j < length vs"
  shows "\<exists>d'. deque_swap D s i j d = (Ok (), d') \<and> holds d' s (vs[unat i := vs ! unat j, unat j := vs ! unat i])"
proof -
  note i = holds_index [OF assms(1,2)] and j = holds_index [OF assms(1,3)]
  obtain m' where m': "map_swap D s (i + dq_head d) (j + dq_head d) (dq_map d) = (Ok (), m')" "wf m' s"
      "\<forall>k'. look m' s k' = (if k' = i + dq_head d then look (dq_map d) s (j + dq_head d)
        else if k' = j + dq_head d then look (dq_map d) s (i + dq_head d) else look (dq_map d) s k')"
    using swap_law [OF holds_wf [OF assms(1)] TrueI TrueI, of "i + dq_head d" "j + dq_head d"] i(3) j(3) by auto
  have eq: "k = i + dq_head d \<longleftrightarrow> unat k = unat (dq_head d) + unat i" "k = j + dq_head d \<longleftrightarrow> unat k = unat (dq_head d) + unat j" for k
    using unat_u64_eq [of k "i + dq_head d"] unat_u64_eq [of k "j + dq_head d"] i(2) j(2) by (simp_all add: add.commute)
  have "holds (d\<lparr>dq_map := m'\<rparr>) s (vs[unat i := vs ! unat j, unat j := vs ! unat i])"
    using m'(2,3) assms i(3) j(3) by (auto simp: holds_list_def nth_at_update eq)
  moreover have "deque_swap D s i j d = (Ok (), d\<lparr>dq_map := m'\<rparr>)"
    using m'(1) i(1) j(1) by (simp add: deque_swap_def on_map_def)
  ultimately show ?thesis by blast
qed

lemma deque_swap_remove_back_update:
  assumes "holds d s vs" and "unat i < length vs"
  shows "\<exists>d'. deque_swap_remove_back D s i d = (Ok (), d') \<and> holds d' s (butlast (vs[unat i := last vs]))"
proof -
  have len: "deque_len d = Ok (dq_tail d - dq_head d)" "unat (dq_tail d - dq_head d) = length vs"
    using holds_len [OF assms(1)] by simp_all
  have "dq_tail d - dq_head d \<noteq> 0" using len(2) assms(2) by (metis less_nat_zero_code unsigned_0)
  note l = word_pred [OF this]
  let ?l = "dq_tail d - dq_head d - 1"
  let ?vs = "vs[unat i := vs ! unat ?l, unat ?l := vs ! unat i]"
  have ul: "unat ?l = length vs - 1" using l(2) len(2) by simp
  have vs: "vs \<noteq> []" using assms(2) by auto
  obtain d1 where d1: "deque_swap D s i ?l d = (Ok (), d1)" "holds d1 s ?vs"
    using deque_swap_update [OF assms(1,2), of ?l] ul vs by auto
  have "?vs \<noteq> []" using vs by simp
  obtain d2 where d2: "deque_pop_back D s d1 = (Ok (Some (ReadOnly (last ?vs))), d2)" "holds d2 s (butlast ?vs)"
    using deque_pop_back_butlast [OF d1(2) \<open>?vs \<noteq> []\<close>] by blast
  have "butlast ?vs = butlast (vs[unat i := last vs])"
    using vs ul by (simp add: last_conv_nth butlast_list_update butlast_conv_take take_update_cancel)
  moreover have "deque_swap_remove_back D s i d = (Ok (), d2)"
    using len(1) l(1) d1(1) d2(1) by (simp add: deque_swap_remove_back_def op_bind_def)
  ultimately show ?thesis using d2(2) by auto
qed

lemma deque_swap_remove_front_update:
  assumes "holds d s vs" and "unat i < length vs"
  shows "\<exists>d'. deque_swap_remove_front D s i d = (Ok (), d') \<and> holds d' s (tl (vs[unat i := hd vs]))"
proof -
  have vs: "vs \<noteq> []" using assms(2) by auto
  let ?vs = "vs[unat i := vs ! unat (0 :: u64), unat (0 :: u64) := vs ! unat i]"
  obtain d1 where d1: "deque_swap D s i 0 d = (Ok (), d1)" "holds d1 s ?vs"
    using deque_swap_update [OF assms, of 0] vs by auto
  have c: "?vs = (vs ! unat i) # tl (vs[unat i := hd vs])"
    using vs by (cases vs; cases "unat i") (simp_all add: hd_conv_nth)
  obtain d2 where d2: "deque_pop_front D s d1 = (Ok (Some (ReadOnly (vs ! unat i))), d2)" "holds d2 s (tl (vs[unat i := hd vs]))"
    using deque_pop_front_Cons [OF d1(2) [unfolded c]] by blast
  then show ?thesis using d1(1) by (auto simp: deque_swap_remove_front_def op_bind_def)
qed

text \<open>Calling the closure changes nothing and gives the predicate at the element.\<close>

lemma call_at_pred:
  assumes "holds d s vs" and "unat i < length vs"
  shows "call_at D s (pred_closure P) c i d = (Ok (P (vs ! unat i), c), d)"
proof -
  note i = holds_index [OF assms]
  obtain child where "map_get_mut D (dq_map d) s (i + dq_head d) = Ok (Some child)"
      "child_deref (dq_map d) child = Ok (vs ! unat i)"
    using get_mut_law [OF holds_wf [OF assms(1)] TrueI i(3)] by blast
  with i(1) show ?thesis
    by (simp add: call_at_def deque_get_mut_def op_bind_def on_map_def pred_closure_def)
qed

lemma unat_succ_u64:
  assumes "holds d s vs" and "unat (i :: u64) < length vs"
  shows "unat (i + 1) = Suc (unat i)"
  using word_succ(2) [of i] assms(2) holds_tail [OF assms(1)] unat_u64_less [of "dq_tail d"] by simp

text \<open>The first loop stops after the first element to be dropped.\<close>

lemma retain_scan_pred:
  assumes "holds d s vs" and "unat i + n = length vs" and "filter P (take (unat i) vs) = take (unat i) vs"
  shows "\<exists>i' r'. retain_scan D s (pred_closure P) n i i c d = (Ok (i', r', c), d)
    \<and> unat r' \<le> unat i' \<and> unat i' \<le> length vs \<and> filter P (take (unat i') vs) = take (unat r') vs"
  using assms
proof (induction n arbitrary: i)
  case (Suc n)
  have i: "unat i < length vs" using Suc.prems(2) by simp
  note call = call_at_pred [OF Suc.prems(1) i, of P c] and u = unat_succ_u64 [OF Suc.prems(1) i]
  have t: "take (unat (i + 1)) vs = take (unat i) vs @ [vs ! unat i]" using i u by (simp add: take_Suc_conv_app_nth)
  show ?case
  proof (cases "P (vs ! unat i)")
    case True
    have "unat (i + 1) + n = length vs" "filter P (take (unat (i + 1)) vs) = take (unat (i + 1)) vs"
      using Suc.prems u t True by simp_all
    from Suc.IH [OF Suc.prems(1) this] show ?thesis using call True by (simp add: op_bind_def)
  next
    case False
    then show ?thesis using call u t i Suc.prems(3) by (simp add: op_bind_def)
  qed
qed auto

text \<open>The second loop: the kept elements among those visited are in front, the others have
  not been touched.\<close>

lemma retain_shift_pred:
  assumes "holds d s ws" and "length ws = length vs" and "unat i + n = length vs" and "unat r \<le> unat i"
    and "take (unat r) ws = filter P (take (unat i) vs)" and "drop (unat i) ws = drop (unat i) vs"
  shows "\<exists>i' r' d' ws'. retain_shift D s (pred_closure P) n i r c d = (Ok (i', r', c), d') \<and> holds d' s ws'
    \<and> length ws' = length vs \<and> unat i' = length vs \<and> unat r' \<le> length vs \<and> take (unat r') ws' = filter P vs"
  using assms
proof (induction n arbitrary: i r d ws)
  case (Suc n)
  have i: "unat i < length ws" using Suc.prems(2,3) by simp
  have r: "unat r < length ws" using Suc.prems(4) i by simp
  have wi: "ws ! unat i = vs ! unat i" using Suc.prems(6) i Suc.prems(2) by (metis Cons_nth_drop_Suc list.inject)
  note call = call_at_pred [OF Suc.prems(1) i, of P c] and u = unat_succ_u64 [OF Suc.prems(1) i]
    and ur = unat_succ_u64 [OF Suc.prems(1) r]
  have t: "take (unat (i + 1)) vs = take (unat i) vs @ [vs ! unat i]"
    using i u Suc.prems(2) by (simp add: take_Suc_conv_app_nth)
  have dr: "drop (unat (i + 1)) ws = drop (unat (i + 1)) vs"
    using Suc.prems(6) u by (metis drop_Suc tl_drop)
  have n: "unat (i + 1) + n = length vs" using Suc.prems(3) u by simp
  show ?case
  proof (cases "P (vs ! unat i)")
    case False
    have "take (unat r) ws = filter P (take (unat (i + 1)) vs)" using t False Suc.prems(5) by simp
    from Suc.IH [OF Suc.prems(1,2) n _ this dr] show ?thesis
      using call wi False u Suc.prems(4) by (simp add: op_bind_def)
  next
    case True
    let ?ws = "ws[unat r := ws ! unat i, unat i := ws ! unat r]"
    obtain d1 where d1: "deque_swap D s r i d = (Ok (), d1)" "holds d1 s ?ws"
      using deque_swap_update [OF Suc.prems(1) r i] by blast
    have "take (unat (r + 1)) ?ws = take (unat r) ws @ [ws ! unat i]"
      using r i ur Suc.prems(4) by (cases "unat r = unat i") (auto simp: take_Suc_conv_app_nth)
    then have "take (unat (r + 1)) ?ws = filter P (take (unat (i + 1)) vs)"
      using t True Suc.prems(5) wi by simp
    moreover have "drop (unat (i + 1)) ?ws = drop (unat (i + 1)) vs"
      using dr u Suc.prems(4) by simp
    moreover have "length ?ws = length vs" "unat (r + 1) \<le> unat (i + 1)" using Suc.prems(2,4) u ur by simp_all
    ultimately show ?thesis
      using Suc.IH [OF d1(2) _ n, of "r + 1"] call wi True d1(1) by (simp add: op_bind_def)
  qed
qed auto

lemma retain_truncate_take:
  assumes "holds d s ws" and "unat r \<le> length ws" and "length ws - unat r < fuel"
  shows "\<exists>d'. retain_truncate D s fuel r d = (Ok (), d') \<and> holds d' s (take (unat r) ws)"
  using assms
proof (induction fuel arbitrary: d ws)
  case (Suc fuel)
  have len: "deque_len d = Ok (dq_tail d - dq_head d)" "unat (dq_tail d - dq_head d) = length ws"
    using holds_len [OF Suc.prems(1)] by simp_all
  show ?case
  proof (cases "unat r < length ws")
    case True
    then have ne: "ws \<noteq> []" by auto
    obtain x d1 where d1: "deque_pop_back D s d = (Ok x, d1)" "holds d1 s (butlast ws)"
      using deque_pop_back_butlast [OF Suc.prems(1) ne] by blast
    obtain d2 where d2: "retain_truncate D s fuel r d1 = (Ok (), d2)" "holds d2 s (take (unat r) (butlast ws))"
      using Suc.IH [OF d1(2)] Suc.prems(2,3) True by fastforce
    have "take (unat r) (butlast ws) = take (unat r) ws" using True by (simp add: butlast_conv_take)
    with d1(1) d2 len True show ?thesis by (simp add: op_bind_def word_less_nat_alt)
  next
    case False
    with len Suc.prems show ?thesis by (simp add: op_bind_def word_less_nat_alt)
  qed
qed simp

lemma deque_retain_filter:
  assumes "holds d s vs"
  shows "\<exists>d'. deque_retain D s (pred_closure P) c d = (Ok (), d') \<and> holds d' s (filter P vs)"
proof -
  let ?len = "dq_tail d - dq_head d"
  have len: "deque_len d = Ok ?len" "unat ?len = length vs" using holds_len [OF assms] by simp_all
  obtain i r where scan: "retain_scan D s (pred_closure P) (unat ?len) 0 0 c d = (Ok (i, r, c), d)"
      "unat r \<le> unat i" "unat i \<le> length vs" "filter P (take (unat i) vs) = take (unat r) vs"
    using retain_scan_pred [OF assms, of 0 "length vs" P c] len(2) by auto
  have n: "unat i + unat (?len - i) = length vs"
    using scan(3) len(2) by (simp add: unat_sub word_le_nat_alt)
  obtain i' r' d1 ws where shift: "retain_shift D s (pred_closure P) (unat (?len - i)) i r c d = (Ok (i', r', c), d1)"
      "holds d1 s ws" "length ws = length vs" "unat i' = length vs" "unat r' \<le> length vs" "take (unat r') ws = filter P vs"
    using retain_shift_pred [OF assms refl n scan(2) scan(4) [symmetric] refl, of c] by blast
  show ?thesis
  proof (cases "i' = r'")
    case True
    then have "ws = filter P vs" using shift by (metis order_refl take_all)
    with len(1) scan(1) shift True show ?thesis by (auto simp: deque_retain_def op_bind_def)
  next
    case False
    have "length ws - unat r' < Suc (unat ?len)" "unat r' \<le> length ws" using shift(3,5) len(2) by simp_all
    then obtain d2 where "retain_truncate D s (Suc (unat ?len)) r' d1 = (Ok (), d2)" "holds d2 s (take (unat r') ws)"
      using retain_truncate_take [OF shift(2)] by blast
    with len(1) scan(1) shift False show ?thesis by (auto simp: deque_retain_def op_bind_def simp del: retain_truncate.simps)
  qed
qed

lemma retain_unordered_loop_pred:
  assumes "holds d s vs" and "unat i + n = length vs" and "list_all P (take (unat i) vs)"
  shows "\<exists>d' ws. retain_unordered_loop D s (pred_closure P) n i c d = (Ok (), d') \<and> holds d' s ws
    \<and> mset ws = filter_mset P (mset vs)"
  using assms
proof (induction n arbitrary: i d vs)
  case 0
  then have "filter P vs = vs" by (simp add: list_all_iff filter_id_conv)
  with 0 show ?case by (metis mset_filter op_ok_app retain_unordered_loop.simps(1))
next
  case (Suc n)
  have i: "unat i < length vs" using Suc.prems(2) by simp
  note call = call_at_pred [OF Suc.prems(1) i, of P c] and u = unat_succ_u64 [OF Suc.prems(1) i]
  show ?case
  proof (cases "P (vs ! unat i)")
    case True
    have "unat (i + 1) + n = length vs" "list_all P (take (unat (i + 1)) vs)"
      using Suc.prems u True i by (simp_all add: take_Suc_conv_app_nth)
    from Suc.IH [OF Suc.prems(1) this] show ?thesis using call True by (simp add: op_bind_def)
  next
    case False
    let ?vs = "butlast (vs[unat i := last vs])"
    obtain d1 where d1: "deque_swap_remove_back D s i d = (Ok (), d1)" "holds d1 s ?vs"
      using deque_swap_remove_back_update [OF Suc.prems(1) i] by blast
    have "unat i + n = length ?vs" using Suc.prems(2) by simp
    moreover have "list_all P (take (unat i) ?vs)" using Suc.prems(3) i by (simp add: butlast_conv_take take_take min_def)
    ultimately obtain d2 ws where d2: "retain_unordered_loop D s (pred_closure P) n i c d1 = (Ok (), d2)" "holds d2 s ws"
        "mset ws = filter_mset P (mset ?vs)"
      using Suc.IH [OF d1(2)] by blast
    have "mset ?vs = mset vs - {#vs ! unat i#}" by (rule mset_swap_remove [OF i])
    then have "filter_mset P (mset ?vs) = filter_mset P (mset vs)" using False by simp
    with d1(1) d2 call False show ?thesis by (auto simp: op_bind_def)
  qed
qed

end

section \<open>Deques on the in-memory store\<close>

definition u64_map :: "nat \<Rightarrow> (mapstore, u64, byte) map_types" where
  "u64_map fuel = \<lparr>mt_backing = mapstore_backing, mt_key = word_codec, mt_value = leaf_state word_codec, mt_fuel = fuel\<rparr>"

lemma simple_map_deque: "simple_map D ents invar (\<lambda>_. True) okv
    \<Longrightarrow> deque_map D (map_look D ents) (map_wf D ents invar (\<lambda>_. True) okv) okv"
  by (simp add: deque_map_def simple_map.simple_map_contract)

interpretation u64_map: simple_map "u64_map fuel" mapstore_ents mapstore_invar "\<lambda>_. True" "\<lambda>_. True" for fuel
proof (intro simple_map.intro)
  show "lawful_backing (mt_backing (u64_map fuel)) mapstore_ents mapstore_invar (\<lambda>_. True)"
    by (simp add: u64_map_def mapstore.lawful_backing_axioms)
  show "terminated_codec (mt_key (u64_map fuel)) (\<lambda>_. True)"
    by (simp add: u64_map_def word_codec_terminated)
  show "stored_state (mt_value (u64_map fuel)) (\<lambda>_. True)"
    by (simp add: u64_map_def u8_state.stored.stored_state_axioms)
qed

interpretation u64_deque: deque_map "u64_map fuel" "map_look (u64_map fuel) mapstore_ents"
  "map_wf (u64_map fuel) mapstore_ents mapstore_invar (\<lambda>_. True) (\<lambda>_. True)" "\<lambda>_. True" for fuel
  by (rule simple_map_deque [OF u64_map.simple_map_axioms])

lemma deque_new_holds:
  "holds_list (map_look (u64_map fuel) mapstore_ents) (map_wf (u64_map fuel) mapstore_ents mapstore_invar (\<lambda>_. True) (\<lambda>_. True))
     deque_new mapstore_new []"
  by (simp add: holds_list_def deque_new_def map_wf_def map_new_def mapstore_new_def buf_invar_def children_wf_def
      store_wf_def buf_ents_def sub_ents_def nth_at_def map_look_def byte_look_def store_look_def)

section \<open>Properties\<close>

text \<open>
  (C38) A deque is a list: reading at a position, at the front and at the back, pushing and
  popping at both ends and swapping two positions are the operations on the list of its
  elements.  Pushing panics, and changes nothing, only when the index range is exhausted at
  that end; popping from an empty deque returns nothing.
\<close>

theorem deque_is_a_list:
  assumes "simple_map D ents invar (\<lambda>_. True) okv" and "okv v"
    and "holds_list (map_look D ents) (map_wf D ents invar (\<lambda>_. True) okv) d s vs"
  shows "let holds = holds_list (map_look D ents) (map_wf D ents invar (\<lambda>_. True) okv)
   in and_then (deque_len d) (\<lambda>n. Ok (unat n)) = Ok (length vs)
    \<and> (unat i < length vs \<longrightarrow> (\<exists>r. deque_get D d s i = Ok (Some r) \<and> ref_deref r = vs ! unat i))
    \<and> (vs \<noteq> [] \<longrightarrow> (\<exists>r. deque_front D d s = Ok (Some r) \<and> ref_deref r = hd vs))
    \<and> (vs \<noteq> [] \<longrightarrow> (\<exists>r. deque_back D d s = Ok (Some r) \<and> ref_deref r = last vs))
    \<and> (if dq_tail d = 2 ^ 64 - 1 then deque_push_back D v d = (Panic, d)
       else \<exists>d'. deque_push_back D v d = (Ok (), d') \<and> holds d' s (vs @ [v]))
    \<and> (if dq_head d = 0 then deque_push_front D v d = (Panic, d)
       else \<exists>d'. deque_push_front D v d = (Ok (), d') \<and> holds d' s (v # vs))
    \<and> (if vs = [] then deque_pop_front D s d = (Ok None, d)
       else \<exists>d'. deque_pop_front D s d = (Ok (Some (ReadOnly (hd vs))), d') \<and> holds d' s (tl vs))
    \<and> (if vs = [] then deque_pop_back D s d = (Ok None, d)
       else \<exists>d'. deque_pop_back D s d = (Ok (Some (ReadOnly (last vs))), d') \<and> holds d' s (butlast vs))
    \<and> (unat i < length vs \<longrightarrow> unat j < length vs \<longrightarrow>
       (\<exists>d'. deque_swap D s i j d = (Ok (), d') \<and> holds d' s (vs[unat i := vs ! unat j, unat j := vs ! unat i])))"
proof -
  note dm = simple_map_deque [OF assms(1)] and h = assms(3)
  note empty = deque_map.holds_is_empty [OF dm h]
  have "\<exists>r. deque_get D d s i = Ok (Some r) \<and> ref_deref r = vs ! unat i" if "unat i < length vs"
  proof -
    have "unat i + unat (dq_head d) < 2 ^ 64"
      using that deque_map.holds_tail [OF dm h] unat_u64_less [of "dq_tail d"] by simp
    from deque_map.deque_get_nth [OF dm h this] show ?thesis using that by auto
  qed
  moreover have "\<exists>r. deque_front D d s = Ok (Some r) \<and> ref_deref r = hd vs" if "vs \<noteq> []"
    using deque_map.deque_front_hd [OF dm h] that by auto
  moreover have "\<exists>r. deque_back D d s = Ok (Some r) \<and> ref_deref r = last vs" if "vs \<noteq> []"
  proof -
    have "dq_tail d \<noteq> 0" using deque_map.holds_tail [OF dm h] that by auto
    from deque_map.deque_back_last [OF dm h this] show ?thesis using that by auto
  qed
  moreover have "deque_push_back D v d = (Panic, d)" if "dq_tail d = 2 ^ 64 - 1"
    using that by (simp add: deque_push_back_def word_add_def checked_add_def)
  moreover have "unat (dq_tail d) + 1 < 2 ^ 64" if "dq_tail d \<noteq> 2 ^ 64 - 1"
    using that unat_u64_less [of "dq_tail d"] unat_u64_eq [of "dq_tail d" "2 ^ 64 - 1"] by simp
  moreover have "deque_push_front D v d = (Panic, d)" if "dq_head d = 0"
    using that by (simp add: deque_push_front_def word_sub_def checked_sub_def)
  moreover have "deque_pop_front D s d = (Ok None, d)" "deque_pop_back D s d = (Ok None, d)" if "vs = []"
    using that empty by (simp_all add: deque_pop_front_def deque_pop_back_def)
  moreover have "\<exists>d'. deque_pop_front D s d = (Ok (Some (ReadOnly (hd vs))), d')
      \<and> holds_list (map_look D ents) (map_wf D ents invar (\<lambda>_. True) okv) d' s (tl vs)" if "vs \<noteq> []"
    using deque_map.deque_pop_front_Cons [OF dm, of d s "hd vs" "tl vs"] h that by simp
  ultimately show ?thesis
    using deque_map.holds_len [OF dm h] deque_map.deque_push_back_append [OF dm h assms(2)]
      deque_map.deque_push_front_Cons [OF dm h assms(2)] deque_map.deque_pop_back_butlast [OF dm h]
      deque_map.deque_swap_update [OF dm h, of i j]
    by (auto simp: Let_def)
qed

theorem deque_is_a_list_witness:
  "\<exists>d. deque_push_back (u64_map 5) 7 deque_new = (Ok (), d)
    \<and> holds_list (map_look (u64_map 5) mapstore_ents)
        (map_wf (u64_map 5) mapstore_ents mapstore_invar (\<lambda>_. True) (\<lambda>_. True)) d mapstore_new [7]"
  using deque_is_a_list [OF u64_map.simple_map_axioms TrueI deque_new_holds, of 5 7]
  by (simp add: deque_new_def deque_midpoint_def Let_def)

text \<open>
  (C39) Retaining: with a closure that decides by a predicate, \<open>deque_retain\<close> leaves the list
  of the elements that satisfy it, in their order, and \<open>deque_retain_unordered\<close> leaves the
  same elements, each as often as before, in some order.  Both loops end without failing.
\<close>

theorem deque_retain_keeps:
  assumes "simple_map D ents invar (\<lambda>_. True) okv"
    and "holds_list (map_look D ents) (map_wf D ents invar (\<lambda>_. True) okv) d s vs"
  shows "(\<exists>d'. deque_retain D s (pred_closure P) () d = (Ok (), d')
      \<and> holds_list (map_look D ents) (map_wf D ents invar (\<lambda>_. True) okv) d' s (filter P vs))
    \<and> (\<exists>d' ws. deque_retain_unordered D s (pred_closure P) () d = (Ok (), d')
      \<and> holds_list (map_look D ents) (map_wf D ents invar (\<lambda>_. True) okv) d' s ws
      \<and> mset ws = filter_mset P (mset vs))"
proof -
  note dm = simple_map_deque [OF assms(1)]
  have "unat (0 :: u64) + unat (dq_tail d - dq_head d) = length vs" "deque_len d = Ok (dq_tail d - dq_head d)"
    using deque_map.holds_len [OF dm assms(2)] by simp_all
  then show ?thesis
    using deque_map.deque_retain_filter [OF dm assms(2)]
      deque_map.retain_unordered_loop_pred [OF dm assms(2), of 0 "unat (dq_tail d - dq_head d)" P "()"]
    by (simp add: deque_retain_unordered_def op_bind_def)
qed

theorem deque_retain_keeps_witness:
  "\<exists>d1 d2 d3. deque_push_back (u64_map 5) 7 deque_new = (Ok (), d1) \<and> deque_push_front (u64_map 5) 9 d1 = (Ok (), d2)
    \<and> deque_retain (u64_map 5) mapstore_new (pred_closure (\<lambda>v. 8 < v)) () d2 = (Ok (), d3)
    \<and> holds_list (map_look (u64_map 5) mapstore_ents)
        (map_wf (u64_map 5) mapstore_ents mapstore_invar (\<lambda>_. True) (\<lambda>_. True)) d3 mapstore_new [9]"
proof -
  let ?holds = "holds_list (map_look (u64_map 5) mapstore_ents) (map_wf (u64_map 5) mapstore_ents mapstore_invar (\<lambda>_. True) (\<lambda>_. True))"
  note dm = simple_map_deque [OF u64_map.simple_map_axioms]
  have new: "unat (dq_tail (deque_new :: byte deque)) + 1 < 2 ^ 64" "dq_head (deque_new :: byte deque) \<noteq> 0"
    by (simp_all add: deque_new_def deque_midpoint_def)
  obtain d1 where d1: "deque_push_back (u64_map 5) 7 deque_new = (Ok (), d1)" "?holds d1 mapstore_new [7]" "dq_head d1 = dq_head (deque_new :: byte deque)"
    using deque_map.deque_push_back_append [OF dm deque_new_holds TrueI new(1), of 5 7] by auto
  obtain d2 where d2: "deque_push_front (u64_map 5) 9 d1 = (Ok (), d2)" "?holds d2 mapstore_new [9, 7]"
    using deque_map.deque_push_front_Cons [OF dm d1(2) TrueI, of 9] d1(3) new(2) by auto
  have "filter (\<lambda>v. 8 < v) [9, 7 :: byte] = [9]" by simp
  then obtain d3 where "deque_retain (u64_map 5) mapstore_new (pred_closure (\<lambda>v. 8 < v)) () d2 = (Ok (), d3)" "?holds d3 mapstore_new [9]"
    using deque_retain_keeps [OF u64_map.simple_map_axioms d2(2), of "\<lambda>v. 8 < v"] by auto
  with d1(1) d2(1) show ?thesis by blast
qed

text \<open>
  Mutable access outside the list: when an element has been pushed to an empty deque and
  popped from the other end, the deque is empty again, but \<open>deque_front_mut\<close> still returns a
  reference, and dereferencing it panics; \<open>deque_back_mut\<close> on an empty deque panics at once.
\<close>

lemma deque_mut_on_empty_panics:
  assumes "simple_map D ents invar (\<lambda>_. True) okv" and "okv v" and "dq_head d \<noteq> 0"
    and "holds_list (map_look D ents) (map_wf D ents invar (\<lambda>_. True) okv) d s []"
  shows "\<exists>d1 d2 c. deque_push_front D v d = (Ok (), d1) \<and> deque_pop_back D s d1 = (Ok (Some (ReadOnly v)), d2)
    \<and> deque_is_empty d2 = Ok True
    \<and> deque_front_mut D s d2 = (Ok (Some c), d2) \<and> child_deref (dq_map d2) c = Panic
    \<and> deque_back_mut D s d2 = (Panic, d2)"
proof -
  note dm = simple_map_deque [OF assms(1)] and sm = assms(1) and k = word_pred [OF assms(3)]
  let ?k = "dq_head d - 1" and ?m = "dq_map d"
  let ?m1 = "?m\<lparr>mp_children := bt_insert (key_bytes (mt_key D) ?k) (?k, Some v) (mp_children ?m)\<rparr>"
  let ?m2 = "?m1\<lparr>mp_children := bt_insert (key_bytes (mt_key D) ?k) (?k, None) (mp_children ?m1)\<rparr>"
  let ?d1 = "d\<lparr>dq_head := ?k, dq_map := ?m1\<rparr>" and ?d2 = "d\<lparr>dq_head := ?k, dq_tail := ?k, dq_map := ?m2\<rparr>"
  have wf: "map_wf D ents invar (\<lambda>_. True) okv ?m s" by (rule deque_map.holds_wf [OF dm assms(4)])
  have "dq_tail d = dq_head d" using deque_map.holds_tail [OF dm assms(4)] by (simp add: unat_u64_eq)
  then have t: "word_sub (dq_tail d) 1 = Ok ?k" "word_sub (dq_tail d) ?k = Ok 1" "?k \<le> dq_tail d"
    using k by (simp_all add: word_sub_def checked_sub_def word_le_nat_alt)
  have insert: "map_insert D ?k v ?m = (Ok (), ?m1)" by (rule simple_map.map_insert_look [OF sm wf TrueI assms(2)])
  have wf1: "map_wf D ents invar (\<lambda>_. True) okv ?m1 s" "map_look D ents ?m1 s ?k = Some v"
    using simple_map.wf_set_child [OF sm wf TrueI, of "Some v" ?k] assms(2) by simp_all
  have remove: "map_remove D s ?k ?m1 = (Ok (Some (ReadOnly v)), ?m2)"
    using simple_map.map_remove_raw_look [OF sm wf1(1) TrueI, of ?k] wf1(2) simple_map.map_remove_raw [OF sm]
    by simp
  have "deque_push_front D v d = (Ok (), ?d1)"
    using k(1) insert by (simp add: deque_push_front_def on_map_def)
  moreover have "deque_pop_back D s ?d1 = (Ok (Some (ReadOnly v)), ?d2)"
    using t remove by (simp add: deque_pop_back_def deque_is_empty_def deque_len_def on_map_def op_bind_def)
  moreover have "deque_front_mut D s ?d2 = (Ok (Some (Modified (key_bytes (mt_key D) ?k))), ?d2)"
    using simple_map.map_key_new_kb [OF sm, of ?k] unat_u64_less [of ?k]
    by (simp add: deque_front_mut_def deque_get_mut_def word_add_def checked_add_def map_get_mut_def entry_def)
  ultimately show ?thesis
    by (auto simp: deque_is_empty_def deque_len_def word_sub_def checked_sub_def deque_back_mut_def op_bind_def)
qed

lemma deque_mut_on_empty_panics_witness:
  "\<exists>d1 d2 c. deque_push_front (u64_map 5) 7 deque_new = (Ok (), d1)
    \<and> deque_pop_back (u64_map 5) mapstore_new d1 = (Ok (Some (ReadOnly 7)), d2)
    \<and> deque_front_mut (u64_map 5) mapstore_new d2 = (Ok (Some c), d2) \<and> child_deref (dq_map d2) c = Panic"
  using deque_mut_on_empty_panics [OF u64_map.simple_map_axioms TrueI _ deque_new_holds, of 5 7]
  by (auto simp: deque_new_def deque_midpoint_def)

end
