(* ===== verification/Amounts.thy ===== *)
theory Amounts
  imports Orga_Prelude Complex_Main
begin

text \<open>
  The financial primitives: \<^verbatim>\<open>src/coins/amount.rs\<close>, \<^verbatim>\<open>math.rs\<close>, \<^verbatim>\<open>decimal.rs\<close>, the operators of
  \<^verbatim>\<open>ops/\<close>, \<^verbatim>\<open>coin.rs\<close> and \<^verbatim>\<open>share.rs\<close>.

  An operator returns a \<^verbatim>\<open>MathResult\<close>, whose \<^verbatim>\<open>?\<close> replaces every error by \<^verbatim>\<open>Error::Unknown\<close>; only
  \<^verbatim>\<open>.result()\<close> keeps it.  Decimals are those of the library \<^verbatim>\<open>rust_decimal\<close>: its functions are
  the record \<open>num_decimal\<close>, and the locale \<open>decimal_lib\<close> states what the code relies on.
\<close>

section \<open>Results of operators\<close>

datatype 'a math_result = MOk 'a | MErr error

fun math_into :: "'a math_result \<Rightarrow> 'a result" where
  "math_into (MOk t) = Ok t"
| "math_into (MErr err) = Err err"

text \<open>\<^verbatim>\<open>?\<close> on a \<^verbatim>\<open>MathResult\<close>, in a function that returns a \<^verbatim>\<open>Result\<close> and in one that returns a
  \<^verbatim>\<open>MathResult\<close>; and \<^verbatim>\<open>?\<close> on a \<^verbatim>\<open>Result\<close> in one that returns a \<^verbatim>\<open>MathResult\<close>.\<close>

fun math_q :: "'a math_result \<Rightarrow> 'a result" where
  "math_q (MOk v) = Ok v"
| "math_q (MErr _) = Err Error_Unknown"

fun math_try :: "'a math_result \<Rightarrow> ('a \<Rightarrow> 'b math_result) \<Rightarrow> 'b math_result" where
  "math_try (MOk v) f = f v"
| "math_try (MErr _) f = MErr Error_Unknown"

definition math_ok_or :: "error \<Rightarrow> 'a option \<Rightarrow> 'a math_result" where
  "math_ok_or e x = (case x of Some v \<Rightarrow> MOk v | None \<Rightarrow> MErr e)"

definition math_ok_or_q :: "error \<Rightarrow> 'a option \<Rightarrow> 'a math_result" where
  "math_ok_or_q e x = (case x of Some v \<Rightarrow> MOk v | None \<Rightarrow> MErr Error_Unknown)"

lemma math_ok_or_simps [simp]:
  "math_ok_or e (Some v) = MOk v" "math_ok_or e None = MErr e"
  "math_ok_or_q e (Some v) = MOk v" "math_ok_or_q e None = MErr Error_Unknown"
  by (simp_all add: math_ok_or_def math_ok_or_q_def)

text \<open>An operator with a result on its left, on its right or on both sides.\<close>

definition op_lhs :: "('a \<Rightarrow> 'b \<Rightarrow> 'c math_result) \<Rightarrow> 'a math_result \<Rightarrow> 'b \<Rightarrow> 'c math_result" where
  "op_lhs f self other = math_try self (\<lambda>a. f a other)"

definition op_rhs :: "('a \<Rightarrow> 'b \<Rightarrow> 'c math_result) \<Rightarrow> 'a \<Rightarrow> 'b math_result \<Rightarrow> 'c math_result" where
  "op_rhs f self other = math_try other (\<lambda>b. f self b)"

definition op_both :: "('a \<Rightarrow> 'b \<Rightarrow> 'c math_result) \<Rightarrow> 'a math_result \<Rightarrow> 'b math_result \<Rightarrow> 'c math_result" where
  "op_both f self other = math_try self (\<lambda>a. math_try other (\<lambda>b. f a b))"

section \<open>Amounts\<close>

datatype amount = Amount (am_value: u64)

instantiation amount :: linorder
begin

definition less_eq_amount :: "amount \<Rightarrow> amount \<Rightarrow> bool" where
  "less_eq_amount a b \<longleftrightarrow> am_value a \<le> am_value b"

definition less_amount :: "amount \<Rightarrow> amount \<Rightarrow> bool" where
  "less_amount a b \<longleftrightarrow> am_value a < am_value b"

instance
  by standard (auto simp: less_eq_amount_def less_amount_def intro: amount.expand)

end

abbreviation am_nat :: "amount \<Rightarrow> nat" where
  "am_nat a \<equiv> unat (am_value a)"

definition amount_add :: "amount \<Rightarrow> amount \<Rightarrow> amount math_result" where
  "amount_add self other = math_ok_or Error_Overflow (map_option Amount (checked_add (am_value self) (am_value other)))"

definition amount_sub :: "amount \<Rightarrow> amount \<Rightarrow> amount math_result" where
  "amount_sub self other = math_ok_or Error_Overflow (map_option Amount (checked_sub (am_value self) (am_value other)))"

text \<open>Multiplication applies \<^verbatim>\<open>?\<close> to the overflow error and thereby replaces it.\<close>

definition amount_mul :: "amount \<Rightarrow> amount \<Rightarrow> amount math_result" where
  "amount_mul self other = math_ok_or_q Error_Overflow (map_option Amount (checked_mul (am_value self) (am_value other)))"

lemma amount_less: "a < b \<longleftrightarrow> am_nat a < am_nat b"
  by (simp add: less_amount_def word_less_nat_alt)

lemma amount_eqI: "am_nat a = am_nat b \<Longrightarrow> a = b"
  by (intro amount.expand unsigned_word_eqI)

lemma amount_add_cases:
  "if am_nat a + am_nat b < 2 ^ 64 then \<exists>c. amount_add a b = MOk c \<and> am_nat c = am_nat a + am_nat b
   else amount_add a b = MErr Error_Overflow"
  by (simp add: amount_add_def checked_add_def unat_add_no_overflow)

lemma amount_sub_cases:
  "if am_nat b \<le> am_nat a then \<exists>c. amount_sub a b = MOk c \<and> am_nat c = am_nat a - am_nat b
   else amount_sub a b = MErr Error_Overflow"
  by (simp add: amount_sub_def checked_sub_def word_le_nat_alt unat_sub)

lemma amount_mul_cases:
  "if am_nat a * am_nat b < 2 ^ 64 then \<exists>c. amount_mul a b = MOk c \<and> am_nat c = am_nat a * am_nat b
   else amount_mul a b = MErr Error_Unknown"
  by (simp add: amount_mul_def checked_mul_def unat_word_ariths)

section \<open>Decimals\<close>

text \<open>The functions of \<^verbatim>\<open>rust_decimal::Decimal\<close> that the sources call.\<close>

record 'd num_decimal =
  nd_zero :: 'd
  nd_one :: 'd
  nd_from_u64 :: "u64 \<Rightarrow> 'd"
  nd_to_u64 :: "'d \<Rightarrow> u64 option"
  nd_round :: "'d \<Rightarrow> 'd"
  nd_abs :: "'d \<Rightarrow> 'd"
  nd_is_sign_negative :: "'d \<Rightarrow> bool"
  nd_is_zero :: "'d \<Rightarrow> bool"
  nd_checked_add :: "'d \<Rightarrow> 'd \<Rightarrow> 'd option"
  nd_checked_sub :: "'d \<Rightarrow> 'd \<Rightarrow> 'd option"
  nd_checked_mul :: "'d \<Rightarrow> 'd \<Rightarrow> 'd option"
  nd_checked_div :: "'d \<Rightarrow> 'd \<Rightarrow> 'd option"
  nd_less :: "'d \<Rightarrow> 'd \<Rightarrow> bool"
  nd_eq :: "'d \<Rightarrow> 'd \<Rightarrow> bool"
  nd_serialize :: "'d \<Rightarrow> bytes"
  nd_deserialize :: "bytes \<Rightarrow> 'd"

datatype 'd decimal = Decimal (dec_value: 'd)

definition decimal_from_u64 :: "'d num_decimal \<Rightarrow> u64 \<Rightarrow> 'd decimal" where
  "decimal_from_u64 N v = Decimal (nd_from_u64 N v)"

definition decimal_from_amount :: "'d num_decimal \<Rightarrow> amount \<Rightarrow> 'd decimal" where
  "decimal_from_amount N a = Decimal (nd_from_u64 N (am_value a))"

definition decimal_amount :: "'d num_decimal \<Rightarrow> 'd decimal \<Rightarrow> amount result" where
  "decimal_amount N self =
     (if nd_is_sign_negative N (dec_value self) then Err (Error_Coins ''Amounts may not be negative'')
      else case nd_to_u64 N (nd_round N (dec_value self)) of
             Some v \<Rightarrow> Ok (Amount v)
           | None \<Rightarrow> Err (Error_Coins ''Amounts may not be greater than u64::MAX''))"

definition decimal_abs :: "'d num_decimal \<Rightarrow> 'd decimal \<Rightarrow> 'd decimal" where
  "decimal_abs N self = Decimal (nd_abs N (dec_value self))"

definition decimal_zero :: "'d num_decimal \<Rightarrow> 'd decimal" where
  "decimal_zero N = Decimal (nd_zero N)"

definition decimal_one :: "'d num_decimal \<Rightarrow> 'd decimal" where
  "decimal_one N = Decimal (nd_one N)"

text \<open>The encoding: the 16 bytes of the library.\<close>

definition decimal_encode :: "'d num_decimal \<Rightarrow> 'd decimal \<Rightarrow> bytes result" where
  "decimal_encode N self = Ok (nd_serialize N (dec_value self))"

definition decimal_decode :: "'d num_decimal \<Rightarrow> bytes \<Rightarrow> ('d decimal \<times> bytes) result" where
  "decimal_decode N source = (if length source < 16 then Err (Error_Ed EdIO)
     else Ok (Decimal (nd_deserialize N (take 16 source)), drop 16 source))"

text \<open>Operators.  Where an operand is an amount it is converted first.\<close>

definition decimal_add :: "'d num_decimal \<Rightarrow> 'd decimal \<Rightarrow> 'd decimal \<Rightarrow> 'd decimal math_result" where
  "decimal_add N self other = math_ok_or Error_Overflow (map_option Decimal (nd_checked_add N (dec_value self) (dec_value other)))"

definition amount_add_decimal :: "'d num_decimal \<Rightarrow> amount \<Rightarrow> 'd decimal \<Rightarrow> 'd decimal math_result" where
  "amount_add_decimal N self other = (let self_decimal = decimal_from_amount N self
     in math_ok_or Error_Overflow (map_option Decimal (nd_checked_add N (dec_value self_decimal) (dec_value other))))"

definition decimal_add_amount :: "'d num_decimal \<Rightarrow> 'd decimal \<Rightarrow> amount \<Rightarrow> 'd decimal math_result" where
  "decimal_add_amount N self other = amount_add_decimal N other self"

definition decimal_sub :: "'d num_decimal \<Rightarrow> 'd decimal \<Rightarrow> 'd decimal \<Rightarrow> 'd decimal math_result" where
  "decimal_sub N self other = math_ok_or Error_Overflow (map_option Decimal (nd_checked_sub N (dec_value self) (dec_value other)))"

definition amount_sub_decimal :: "'d num_decimal \<Rightarrow> amount \<Rightarrow> 'd decimal \<Rightarrow> 'd decimal math_result" where
  "amount_sub_decimal N self other = (let self_decimal = decimal_from_amount N self
     in math_ok_or Error_Overflow (map_option Decimal (nd_checked_sub N (dec_value self_decimal) (dec_value other))))"

definition decimal_sub_amount :: "'d num_decimal \<Rightarrow> 'd decimal \<Rightarrow> amount \<Rightarrow> 'd decimal math_result" where
  "decimal_sub_amount N self other = (let other_decimal = decimal_from_amount N other
     in math_ok_or Error_Overflow (map_option Decimal (nd_checked_sub N (dec_value self) (dec_value other_decimal))))"

definition decimal_mul :: "'d num_decimal \<Rightarrow> 'd decimal \<Rightarrow> 'd decimal \<Rightarrow> 'd decimal math_result" where
  "decimal_mul N self other = math_ok_or Error_Overflow (map_option Decimal (nd_checked_mul N (dec_value self) (dec_value other)))"

definition amount_mul_decimal :: "'d num_decimal \<Rightarrow> amount \<Rightarrow> 'd decimal \<Rightarrow> 'd decimal math_result" where
  "amount_mul_decimal N self other = (let self_decimal = decimal_from_amount N self
     in math_ok_or Error_Overflow (map_option Decimal (nd_checked_mul N (dec_value self_decimal) (dec_value other))))"

definition decimal_mul_amount :: "'d num_decimal \<Rightarrow> 'd decimal \<Rightarrow> amount \<Rightarrow> 'd decimal math_result" where
  "decimal_mul_amount N self other = (let other_decimal = decimal_from_amount N other
     in math_ok_or Error_Overflow (map_option Decimal (nd_checked_mul N (dec_value other_decimal) (dec_value self))))"

definition decimal_div :: "'d num_decimal \<Rightarrow> 'd decimal \<Rightarrow> 'd decimal \<Rightarrow> 'd decimal math_result" where
  "decimal_div N self other = math_ok_or Error_DivideByZero (map_option Decimal (nd_checked_div N (dec_value self) (dec_value other)))"

definition amount_div :: "'d num_decimal \<Rightarrow> amount \<Rightarrow> amount \<Rightarrow> 'd decimal math_result" where
  "amount_div N self other = decimal_div N (decimal_from_amount N self) (decimal_from_amount N other)"

definition amount_div_decimal :: "'d num_decimal \<Rightarrow> amount \<Rightarrow> 'd decimal \<Rightarrow> 'd decimal math_result" where
  "amount_div_decimal N self other = (let self_decimal = decimal_from_amount N self
     in math_ok_or Error_DivideByZero (map_option Decimal (nd_checked_div N (dec_value self_decimal) (dec_value other))))"

definition decimal_less :: "'d num_decimal \<Rightarrow> 'd decimal \<Rightarrow> 'd decimal \<Rightarrow> bool" where
  "decimal_less N self other = nd_less N (dec_value self) (dec_value other)"

definition decimal_less_amount :: "'d num_decimal \<Rightarrow> 'd decimal \<Rightarrow> amount \<Rightarrow> bool" where
  "decimal_less_amount N self other = (let other_decimal = decimal_from_amount N other
     in nd_less N (dec_value self) (dec_value other_decimal))"

definition amount_less_decimal :: "'d num_decimal \<Rightarrow> amount \<Rightarrow> 'd decimal \<Rightarrow> bool" where
  "amount_less_decimal N self other = (let self_decimal = decimal_from_amount N self
     in nd_less N (dec_value self_decimal) (dec_value other))"

definition decimal_eq_amount :: "'d num_decimal \<Rightarrow> 'd decimal \<Rightarrow> amount \<Rightarrow> bool" where
  "decimal_eq_amount N self other = (let other_decimal = decimal_from_amount N other
     in nd_eq N (dec_value self) (dec_value other_decimal))"

text \<open>
  What the sources rely on, with \<open>dv\<close> the number a decimal stands for: comparison and sign are
  those of the numbers, every \<^verbatim>\<open>u64\<close> is represented, \<^verbatim>\<open>to_u64\<close> of a rounded value is that
  integer if it fits, and sums and differences are exact as long as both operands and the
  result are integers below the 96-bit bound of the representation.
\<close>

locale decimal_lib =
  fixes N :: "'d num_decimal" and dv :: "'d \<Rightarrow> real"
  assumes less_law: "nd_less N a b \<longleftrightarrow> dv a < dv b"
    and eq_law: "nd_eq N a b \<longleftrightarrow> dv a = dv b"
    and neg_law: "dv a < 0 \<Longrightarrow> nd_is_sign_negative N a" "0 < dv a \<Longrightarrow> \<not> nd_is_sign_negative N a"
    and is_zero_law: "nd_is_zero N a \<longleftrightarrow> dv a = 0"
    and zero_law: "dv (nd_zero N) = 0" "\<not> nd_is_sign_negative N (nd_zero N)" and one_law: "dv (nd_one N) = 1"
    and from_u64_law: "dv (nd_from_u64 N w) = real (unat w)" "\<not> nd_is_sign_negative N (nd_from_u64 N w)"
    and round_law: "\<bar>dv (nd_round N a) - dv a\<bar> \<le> 1 / 2" "dv (nd_round N a) \<in> \<int>"
    and to_u64_law: "dv a \<in> \<int> \<Longrightarrow> nd_to_u64 N a
      = (if 0 \<le> dv a \<and> dv a < 2 ^ 64 then Some (of_nat (nat \<lfloor>dv a\<rfloor>)) else None)"
    and add_law: "dv a \<in> \<int> \<Longrightarrow> dv b \<in> \<int> \<Longrightarrow> \<bar>dv a\<bar> < 2 ^ 95 \<Longrightarrow> \<bar>dv b\<bar> < 2 ^ 95
      \<Longrightarrow> \<exists>c. nd_checked_add N a b = Some c \<and> dv c = dv a + dv b"
    and sub_law: "dv a \<in> \<int> \<Longrightarrow> dv b \<in> \<int> \<Longrightarrow> \<bar>dv a\<bar> < 2 ^ 95 \<Longrightarrow> \<bar>dv b\<bar> < 2 ^ 95
      \<Longrightarrow> \<exists>c. nd_checked_sub N a b = Some c \<and> dv c = dv a - dv b"

section \<open>Coins\<close>

text \<open>The symbol is a type; what is used of it is its index.\<close>

datatype coin = Coin (coin_amount: amount)

definition coin_new :: coin where
  "coin_new = Coin (Amount 0)"

definition coin_mint :: "amount \<Rightarrow> coin" where
  "coin_mint a = Coin a"

definition coin_take :: "amount \<Rightarrow> (coin, coin) op" where
  "coin_take a self =
     (if a > coin_amount self then (Err (Error_Coins ''Insufficient funds''), self)
      else case math_q (amount_sub (coin_amount self) a) of
             Ok rest \<Rightarrow> (Ok (coin_mint a), Coin rest)
           | Err e \<Rightarrow> (Err e, self)
           | Panic \<Rightarrow> (Panic, self))"

definition coin_give :: "coin \<Rightarrow> (coin, unit) op" where
  "coin_give v self = (case math_q (amount_add (coin_amount self) (coin_amount v)) of
      Ok new_amount \<Rightarrow> (Ok (), Coin new_amount)
    | Err e \<Rightarrow> (Err e, self)
    | Panic \<Rightarrow> (Panic, self))"

abbreviation coin_nat :: "coin \<Rightarrow> nat" where
  "coin_nat c \<equiv> am_nat (coin_amount c)"

lemma coin_take_cases:
  "if am_nat a \<le> coin_nat c
   then \<exists>c'. coin_take a c = (Ok (Coin a), c') \<and> coin_nat c' + am_nat a = coin_nat c
   else coin_take a c = (Err (Error_Coins ''Insufficient funds''), c)"
proof (cases "am_nat a \<le> coin_nat c")
  case True
  then obtain r where "amount_sub (coin_amount c) a = MOk r" "am_nat r = coin_nat c - am_nat a"
    using amount_sub_cases [of a "coin_amount c"] by auto
  with True show ?thesis by (auto simp: coin_take_def coin_mint_def amount_less)
qed (simp add: coin_take_def amount_less)

lemma coin_give_cases:
  "if coin_nat c + coin_nat v < 2 ^ 64
   then \<exists>c'. coin_give v c = (Ok (), c') \<and> coin_nat c' = coin_nat c + coin_nat v
   else coin_give v c = (Err Error_Unknown, c)"
proof (cases "coin_nat c + coin_nat v < 2 ^ 64")
  case True
  then obtain r where "amount_add (coin_amount c) (coin_amount v) = MOk r" "am_nat r = coin_nat c + coin_nat v"
    using amount_add_cases [of "coin_amount c" "coin_amount v"] by auto
  with True show ?thesis by (auto simp: coin_give_def)
next
  case False
  then show ?thesis using amount_add_cases [of "coin_amount c" "coin_amount v"] by (simp add: coin_give_def)
qed

section \<open>Shares\<close>

datatype 'd share = Share (share_shares: "'d decimal")

definition share_new :: "'d num_decimal \<Rightarrow> 'd share" where
  "share_new N = Share (decimal_from_u64 N 0)"

definition share_amount :: "'d num_decimal \<Rightarrow> 'd share \<Rightarrow> amount result" where
  "share_amount N self = decimal_amount N (share_shares self)"

definition share_balance :: "'d num_decimal \<Rightarrow> 'd share \<Rightarrow> amount result" where
  "share_balance N self = decimal_amount N (share_shares self)"

definition share_take :: "'d num_decimal \<Rightarrow> amount \<Rightarrow> ('d share, coin) op" where
  "share_take N a self =
     (if decimal_less_amount N (share_shares self) a then (Err (Error_Coins ''Insufficient balance''), self)
      else case math_q (decimal_sub_amount N (share_shares self) a) of
             Ok rest \<Rightarrow> (Ok (coin_mint a), Share rest)
           | Err e \<Rightarrow> (Err e, self)
           | Panic \<Rightarrow> (Panic, self))"

definition share_give :: "'d num_decimal \<Rightarrow> coin \<Rightarrow> ('d share, unit) op" where
  "share_give N c self = (case math_q (decimal_add_amount N (share_shares self) (coin_amount c)) of
      Ok new_shares \<Rightarrow> (Ok (), Share new_shares)
    | Err e \<Rightarrow> (Err e, self)
    | Panic \<Rightarrow> (Panic, self))"

definition share_from_coin :: "'d num_decimal \<Rightarrow> coin \<Rightarrow> 'd share" where
  "share_from_coin N c = Share (decimal_from_amount N (coin_amount c))"

context decimal_lib
begin

abbreviation val :: "'d decimal \<Rightarrow> real" where
  "val x \<equiv> dv (dec_value x)"

lemma am_bound: "real (am_nat a) < 2 ^ 95"
proof -
  have "am_nat a < 2 ^ 64" using unsigned_less [of "am_value a"] by (simp add: unsigned_less)
  then have "real (am_nat a) < 2 ^ 64" by (metis of_nat_less_iff of_nat_numeral of_nat_power)
  then show ?thesis by simp
qed

lemma val_from_amount [simp]: "val (decimal_from_amount N a) = real (am_nat a)"
  by (simp add: decimal_from_amount_def from_u64_law)

lemma less_amount_law: "decimal_less_amount N d a \<longleftrightarrow> val d < real (am_nat a)"
  by (simp add: decimal_less_amount_def less_law del: val_from_amount)
     (simp add: decimal_from_amount_def from_u64_law)

lemma add_amount_law:
  assumes "val d \<in> \<int>" and "\<bar>val d\<bar> < 2 ^ 95"
  shows "\<exists>c. decimal_add_amount N d a = MOk c \<and> val c = val d + real (am_nat a)"
proof -
  let ?a = "dec_value (decimal_from_amount N a)"
  have a: "dv ?a = real (am_nat a)" by simp
  have "dv ?a \<in> \<int>" "\<bar>dv ?a\<bar> < 2 ^ 95" unfolding a abs_of_nat by (rule Ints_of_nat, rule am_bound)
  from add_law [OF this(1) assms(1) this(2) assms(2)]
  obtain c where "nd_checked_add N ?a (dec_value d) = Some c" "dv c = dv ?a + val d" by blast
  then show ?thesis
    by (intro exI [of _ "Decimal c"]) (simp add: decimal_add_amount_def amount_add_decimal_def)
qed

lemma sub_amount_law:
  assumes "val d \<in> \<int>" and "\<bar>val d\<bar> < 2 ^ 95"
  shows "\<exists>c. decimal_sub_amount N d a = MOk c \<and> val c = val d - real (am_nat a)"
proof -
  let ?a = "dec_value (decimal_from_amount N a)"
  have a: "dv ?a = real (am_nat a)" by simp
  have "dv ?a \<in> \<int>" "\<bar>dv ?a\<bar> < 2 ^ 95" unfolding a abs_of_nat by (rule Ints_of_nat, rule am_bound)
  from sub_law [OF assms(1) this(1) assms(2) this(2)]
  obtain c where "nd_checked_sub N (dec_value d) ?a = Some c" "dv c = val d - dv ?a" by blast
  then show ?thesis by (intro exI [of _ "Decimal c"]) (simp add: decimal_sub_amount_def)
qed

text \<open>Converting to an amount rounds to an integer no more than one half away.\<close>

lemma decimal_amount_rounds:
  assumes "0 < val d" and "val d < 2 ^ 64 - 1"
  shows "\<exists>a. decimal_amount N d = Ok a \<and> \<bar>real (am_nat a) - val d\<bar> \<le> 1 / 2"
proof -
  let ?r = "nd_round N (dec_value d)"
  obtain z :: int where z: "dv ?r = of_int z" using round_law(2) by (metis Ints_cases)
  have near: "\<bar>of_int z - val d\<bar> \<le> 1 / 2" using round_law(1) [of "dec_value d"] z by simp
  have "- 1 < real_of_int z" "real_of_int z < 2 ^ 64" using near assms by linarith+
  then have bounds: "0 \<le> z" "z < 2 ^ 64" by simp_all
  have "nd_to_u64 N ?r = Some (of_nat (nat z))"
    using to_u64_law [of ?r] bounds by (simp add: z)
  moreover have "unat (of_nat (nat z) :: u64) = nat z"
    using bounds by (simp add: unat_of_nat nat_less_iff del: of_nat_nat)
  ultimately show ?thesis
    using neg_law(2) [OF assms(1)] near bounds by (intro exI [of _ "Amount (of_nat (nat z))"]) (simp add: decimal_amount_def)
qed

end

text \<open>An exact implementation, for concrete inputs: integers below the bound.\<close>

definition int_decimal :: "int num_decimal" where
  "int_decimal = \<lparr>nd_zero = 0, nd_one = 1, nd_from_u64 = (\<lambda>w. int (unat w)),
     nd_to_u64 = (\<lambda>a. if 0 \<le> a \<and> a < 2 ^ 64 then Some (of_int a) else None),
     nd_round = (\<lambda>a. a), nd_abs = abs, nd_is_sign_negative = (\<lambda>a. a < 0), nd_is_zero = (\<lambda>a. a = 0),
     nd_checked_add = (\<lambda>a b. if \<bar>a + b\<bar> < 2 ^ 96 then Some (a + b) else None),
     nd_checked_sub = (\<lambda>a b. if \<bar>a - b\<bar> < 2 ^ 96 then Some (a - b) else None),
     nd_checked_mul = (\<lambda>a b. if \<bar>a * b\<bar> < 2 ^ 96 then Some (a * b) else None),
     nd_checked_div = (\<lambda>a b. if b = 0 then None else Some (a div b)),
     nd_less = (<), nd_eq = (=), nd_serialize = (\<lambda>_. replicate 16 0), nd_deserialize = (\<lambda>_. 0)\<rparr>"

interpretation int_decimal: decimal_lib int_decimal of_int
proof
  fix a b :: int
  assume b: "\<bar>real_of_int a\<bar> < 2 ^ 95" "\<bar>real_of_int b\<bar> < 2 ^ 95"
  then have "\<bar>a\<bar> < 2 ^ 95" "\<bar>b\<bar> < 2 ^ 95" by (simp_all flip: of_int_abs)
  then show "\<exists>c. nd_checked_add int_decimal a b = Some c \<and> real_of_int c = real_of_int a + real_of_int b"
      "\<exists>c. nd_checked_sub int_decimal a b = Some c \<and> real_of_int c = real_of_int a - real_of_int b"
    by (auto simp: int_decimal_def)
qed (auto simp: int_decimal_def of_nat_nat)

text \<open>Another one: all rational numbers, which are closed under division too.\<close>

definition rat_decimal :: "rat num_decimal" where
  "rat_decimal = \<lparr>nd_zero = 0, nd_one = 1, nd_from_u64 = (\<lambda>w. of_nat (unat w)),
     nd_to_u64 = (\<lambda>a. if 0 \<le> a \<and> a < 2 ^ 64 then Some (of_int \<lfloor>a\<rfloor>) else None),
     nd_round = (\<lambda>a. of_int (round a)), nd_abs = abs, nd_is_sign_negative = (\<lambda>a. a < 0), nd_is_zero = (\<lambda>a. a = 0),
     nd_checked_add = (\<lambda>a b. Some (a + b)), nd_checked_sub = (\<lambda>a b. Some (a - b)), nd_checked_mul = (\<lambda>a b. Some (a * b)),
     nd_checked_div = (\<lambda>a b. if b = 0 then None else Some (a / b)),
     nd_less = (<), nd_eq = (=), nd_serialize = (\<lambda>_. replicate 16 0), nd_deserialize = (\<lambda>_. 0)\<rparr>"

interpretation rat_decimal: decimal_lib rat_decimal of_rat
proof
  show "of_rat (nd_from_u64 rat_decimal w) = real (unat w)" for w by (simp add: rat_decimal_def del: of_nat_unat)
  show "\<not> nd_is_sign_negative rat_decimal (nd_from_u64 rat_decimal w)" for w by (simp add: rat_decimal_def del: of_nat_unat)
  fix a :: rat
  have "\<bar>of_int (round a) - a\<bar> \<le> 1 / 2" by (rule of_int_round_abs_le)
  then have "of_rat (of_int (round a) - a) \<le> (of_rat (1 / 2) :: real)" "of_rat (a - of_int (round a)) \<le> (of_rat (1 / 2) :: real)"
    unfolding of_rat_less_eq by linarith+
  then show "\<bar>of_rat (nd_round rat_decimal a) - of_rat a\<bar> \<le> (1 / 2 :: real)"
    by (simp add: rat_decimal_def of_rat_diff of_rat_divide abs_if)
  assume "(of_rat a :: real) \<in> \<int>"
  then obtain z where "(of_rat a :: real) = of_int z" by (auto elim: Ints_cases)
  then have a: "a = of_int z" by (metis of_rat_eq_iff of_rat_of_int_eq)
  have z: "rat_of_int z < 2 ^ 64 \<longleftrightarrow> z < 2 ^ 64" "real_of_int z < 2 ^ 64 \<longleftrightarrow> z < 2 ^ 64" by simp_all
  show "nd_to_u64 rat_decimal a = (if 0 \<le> (of_rat a :: real) \<and> (of_rat a :: real) < 2 ^ 64 then Some (of_nat (nat \<lfloor>of_rat a :: real\<rfloor>)) else None)"
    unfolding a of_rat_of_int_eq z(2) by (simp add: rat_decimal_def del: of_int_less_numeral_power_cancel_iff add: z(1))
qed (auto simp: rat_decimal_def of_rat_less of_rat_add of_rat_diff)

section \<open>Properties\<close>

text \<open>
  Arithmetic on amounts never wraps: addition, subtraction and multiplication return the
  exact result when it is in the range of 64 bits and an error otherwise.
\<close>

lemma amount_arithmetic_exact:
  "(if am_nat a + am_nat b < 2 ^ 64 then \<exists>c. amount_add a b = MOk c \<and> am_nat c = am_nat a + am_nat b
    else amount_add a b = MErr Error_Overflow)
   \<and> (if am_nat b \<le> am_nat a then \<exists>c. amount_sub a b = MOk c \<and> am_nat c = am_nat a - am_nat b
      else amount_sub a b = MErr Error_Overflow)
   \<and> (if am_nat a * am_nat b < 2 ^ 64 then \<exists>c. amount_mul a b = MOk c \<and> am_nat c = am_nat a * am_nat b
      else amount_mul a b = MErr Error_Unknown)"
  using amount_add_cases [of a b] amount_sub_cases [of b a] amount_mul_cases [of a b] by blast

text \<open>
  Taking from a coin and giving to one: the amount taken is removed exactly, taking more
  than there is fails; giving adds exactly, and fails if the sum does not fit.  A failed
  operation leaves the coin as it was.
\<close>

lemma coin_take_give:
  "(if am_nat a \<le> coin_nat c
    then \<exists>c'. coin_take a c = (Ok (Coin a), c') \<and> coin_nat c' + am_nat a = coin_nat c
    else coin_take a c = (Err (Error_Coins ''Insufficient funds''), c))
   \<and> (if coin_nat c + coin_nat v < 2 ^ 64
      then \<exists>c'. coin_give v c = (Ok (), c') \<and> coin_nat c' = coin_nat c + coin_nat v
      else coin_give v c = (Err Error_Unknown, c))"
  using coin_take_cases [of a c] coin_give_cases [of c v] by blast

text \<open>
  A share that holds a whole number: giving a coin adds its amount, taking an amount
  removes it and fails, without a change, exactly if the share is smaller; and converting a
  positive decimal to an amount rounds it by at most one half.
\<close>

lemma share_take_give:
  assumes "decimal_lib N dv" and "dv (dec_value (share_shares sh)) \<in> \<int>" and "0 \<le> dv (dec_value (share_shares sh))"
    and "dv (dec_value (share_shares sh)) < 2 ^ 64 - 1"
  shows "let held = (\<lambda>sh. dv (dec_value (share_shares sh)))
   in (\<exists>sh'. share_give N c sh = (Ok (), sh') \<and> held sh' = held sh + real (coin_nat c))
    \<and> (if held sh < real (am_nat a) then share_take N a sh = (Err (Error_Coins ''Insufficient balance''), sh)
       else \<exists>sh'. share_take N a sh = (Ok (Coin a), sh') \<and> held sh' = held sh - real (am_nat a))
    \<and> (0 < held sh \<longrightarrow> (\<exists>b. share_balance N sh = Ok b \<and> \<bar>real (am_nat b) - held sh\<bar> \<le> 1 / 2))"
proof -
  let ?d = "share_shares sh"
  have bound: "\<bar>dv (dec_value ?d)\<bar> < 2 ^ 95" using assms(3,4) by simp
  obtain x where "decimal_add_amount N ?d (coin_amount c) = MOk x" "dv (dec_value x) = dv (dec_value ?d) + real (coin_nat c)"
    using decimal_lib.add_amount_law [OF assms(1,2) bound] by blast
  moreover obtain y where "decimal_sub_amount N ?d a = MOk y" "dv (dec_value y) = dv (dec_value ?d) - real (am_nat a)"
    using decimal_lib.sub_amount_law [OF assms(1,2) bound] by blast
  moreover have "\<exists>b. share_balance N sh = Ok b \<and> \<bar>real (am_nat b) - dv (dec_value ?d)\<bar> \<le> 1 / 2" if "0 < dv (dec_value ?d)"
    unfolding share_balance_def by (rule decimal_lib.decimal_amount_rounds [OF assms(1) that assms(4)])
  ultimately show ?thesis
    by (auto simp: share_give_def share_take_def coin_mint_def decimal_lib.less_amount_law [OF assms(1)])
qed

lemma share_take_give_witness:
  "\<exists>sh'. share_give int_decimal (Coin (Amount 5)) (Share (Decimal 7)) = (Ok (), sh')
    \<and> real_of_int (dec_value (share_shares sh')) = 12"
  using share_take_give [OF int_decimal.decimal_lib_axioms, of "Share (Decimal 7)" "Coin (Amount 5)"] by auto

end
