(* ===== verification/Payable.thy ===== *)
theory Payable
  imports Amounts Codec
begin

text \<open>
  The contexts of \<^verbatim>\<open>src/context.rs\<close>, the addresses of \<^verbatim>\<open>src/coins/mod.rs\<close>, the plugin for pairs of
  calls (\<^verbatim>\<open>src/plugins/payable.rs\<close>) and the fee plugin (\<^verbatim>\<open>src/plugins/fee.rs\<close>).

  A context is a global value found by its type; the types that occur are the fields of the
  record \<open>contexts\<close>.  A plugin's \<^verbatim>\<open>call\<close> works on its inner value and the contexts, and takes
  the \<^verbatim>\<open>call\<close> of the inner type as an argument.
\<close>

section \<open>Addresses\<close>

datatype address = Address (address_bytes: bytes)

definition address_length :: nat where
  "address_length = 20"

definition address_null :: address where
  "address_null = Address (replicate address_length 0)"

definition address_is_null :: "address \<Rightarrow> bool" where
  "address_is_null self \<longleftrightarrow> self = address_null"

text \<open>The hashes \<open>sha256\<close>, \<open>ripemd160\<close> and \<open>keccak256\<close> are library functions; \<^verbatim>\<open>copy_from_slice\<close>
  panics if the lengths differ.\<close>

definition copy_from_slice :: "nat \<Rightarrow> bytes \<Rightarrow> bytes result" where
  "copy_from_slice n src = (if length src = n then Ok src else Panic)"

definition address_from_pubkey :: "(bytes \<Rightarrow> bytes) \<Rightarrow> (bytes \<Rightarrow> bytes) \<Rightarrow> bytes \<Rightarrow> address result" where
  "address_from_pubkey sha256 ripemd160 pubkey =
     and_then (copy_from_slice address_length (ripemd160 (sha256 pubkey))) (\<lambda>b. Ok (Address b))"

definition address_from_pubkey_eth :: "(bytes \<Rightarrow> bytes) \<Rightarrow> bytes \<Rightarrow> address result" where
  "address_from_pubkey_eth keccak256 pubkey =
     and_then (copy_from_slice address_length (drop 12 (keccak256 pubkey))) (\<lambda>b. Ok (Address b))"

definition address_ok :: "address \<Rightarrow> bool" where
  "address_ok a \<longleftrightarrow> length (address_bytes a) = address_length"

lemma finite_addresses: "finite {a. address_ok a}"
proof -
  have "finite {bs :: bytes. set bs \<subseteq> UNIV \<and> length bs = address_length}"
    by (rule finite_lists_length_eq) simp
  moreover have "{a. address_ok a} = Address ` {bs. set bs \<subseteq> UNIV \<and> length bs = address_length}"
    by (auto simp: address_ok_def image_iff) (metis address.collapse)
  ultimately show ?thesis by simp
qed

section \<open>Contexts\<close>

record paid =
  pd_map :: "byte \<Rightarrow> amount option"
  pd_running_payer :: bool
  pd_fee_disabled :: bool

datatype signer = Signer (signer_signer: "address option")

text \<open>An event, as far as the sources create them: its type and its attributes.\<close>

record event =
  ev_type :: string
  ev_attributes :: "(string \<times> bytes) list"

text \<open>\<^verbatim>\<open>Time\<close> of \<^verbatim>\<open>src/plugins/abci.rs\<close>.\<close>

record time =
  tm_seconds :: int
  tm_nanos :: int

definition time_from_seconds :: "int \<Rightarrow> time" where
  "time_from_seconds seconds = \<lparr>tm_seconds = seconds, tm_nanos = 0\<rparr>"

record contexts =
  cx_paid :: "paid option"
  cx_signer :: "signer option"
  cx_chain_id :: "bytes option"
  cx_events :: "event list option"
  cx_time :: "time option"

definition context_add :: "(('a option \<Rightarrow> 'a option) \<Rightarrow> 'c \<Rightarrow> 'c) \<Rightarrow> 'a \<Rightarrow> 'c \<Rightarrow> 'c" where
  "context_add upd ctx = upd (\<lambda>_. Some ctx)"

definition context_resolve :: "('c \<Rightarrow> 'a option) \<Rightarrow> 'c \<Rightarrow> 'a option" where
  "context_resolve sel = sel"

definition context_remove :: "(('a option \<Rightarrow> 'a option) \<Rightarrow> 'c \<Rightarrow> 'c) \<Rightarrow> 'c \<Rightarrow> 'c" where
  "context_remove upd = upd (\<lambda>_. None)"

lemmas context_defs [simp] = context_add_def context_resolve_def context_remove_def

text \<open>The state a call works on: a value and the contexts.\<close>

type_synonym ('t, 'z) world = "'t \<times> 'z contexts_scheme"

definition on_contexts :: "('z contexts_scheme \<Rightarrow> 'z contexts_scheme) \<Rightarrow> (('t, 'z) world, unit) op" where
  "on_contexts f = op_upd (\<lambda>(t, cx). (t, f cx))"

lemma on_contexts_app [simp]: "on_contexts f (t, cx) = (Ok (), (t, f cx))"
  by (simp add: on_contexts_def)

section \<open>The paid context\<close>

definition paid_default :: paid where
  "paid_default = \<lparr>pd_map = (\<lambda>_. None), pd_running_payer = False, pd_fee_disabled = False\<rparr>"

text \<open>\<^verbatim>\<open>entry(denom).or_insert_with(0)\<close> inserts the zero before anything else happens.\<close>

definition paid_entry :: "byte \<Rightarrow> paid \<Rightarrow> amount" where
  "paid_entry denom p = (case pd_map p denom of Some a \<Rightarrow> a | None \<Rightarrow> Amount 0)"

definition paid_set :: "byte \<Rightarrow> amount \<Rightarrow> paid \<Rightarrow> paid" where
  "paid_set denom a p = p\<lparr>pd_map := (pd_map p)(denom \<mapsto> a)\<rparr>"

definition paid_give_denom :: "amount \<Rightarrow> byte \<Rightarrow> (paid, unit) op" where
  "paid_give_denom a denom p =
     (let cur = paid_entry denom p; p = paid_set denom cur p
      in case math_q (amount_add cur a) of
           Ok v \<Rightarrow> (Ok (), paid_set denom v p)
         | Err e \<Rightarrow> (Err e, p)
         | Panic \<Rightarrow> (Panic, p))"

definition paid_give :: "byte \<Rightarrow> amount \<Rightarrow> (paid, unit) op" where
  "paid_give index a = paid_give_denom a index"

definition paid_take_denom :: "amount \<Rightarrow> byte \<Rightarrow> (paid, unit) op" where
  "paid_take_denom a denom p =
     (let cur = paid_entry denom p; p = paid_set denom cur p
      in if cur < a then (Err (Error_Coins ''Insufficient funding for paid call''), p)
         else case math_q (amount_sub cur a) of
                Ok v \<Rightarrow> (Ok (), paid_set denom v p)
              | Err e \<Rightarrow> (Err e, p)
              | Panic \<Rightarrow> (Panic, p))"

definition paid_take :: "byte \<Rightarrow> amount \<Rightarrow> (paid, coin) op" where
  "paid_take index a = op_bind (paid_take_denom a index) (\<lambda>_. op_ok (coin_mint a))"

definition paid_balance :: "byte \<Rightarrow> paid \<Rightarrow> amount result" where
  "paid_balance index p = Ok (case pd_map p index of Some amt \<Rightarrow> amt | None \<Rightarrow> Amount 0)"

abbreviation paid_nat :: "byte \<Rightarrow> paid \<Rightarrow> nat" where
  "paid_nat index p \<equiv> am_nat (paid_entry index p)"

lemma paid_entry_set [simp]: "paid_entry i (paid_set d a p) = (if i = d then a else paid_entry i p)"
  by (simp add: paid_entry_def paid_set_def)

lemma paid_set_flags [simp]:
  "pd_running_payer (paid_set d a p) = pd_running_payer p" "pd_fee_disabled (paid_set d a p) = pd_fee_disabled p"
  by (simp_all add: paid_set_def)

lemma paid_default_entry [simp]: "paid_entry i paid_default = Amount 0"
  by (simp add: paid_entry_def paid_default_def)

text \<open>What a failed operation leaves behind has the same amounts.\<close>

definition same_paid :: "paid \<Rightarrow> paid \<Rightarrow> bool" where
  "same_paid p q \<longleftrightarrow> (\<forall>i. paid_entry i p = paid_entry i q) \<and> pd_running_payer p = pd_running_payer q
     \<and> pd_fee_disabled p = pd_fee_disabled q"

lemma paid_give_cases:
  "if paid_nat i p + am_nat a < 2 ^ 64
   then \<exists>p'. paid_give i a p = (Ok (), p') \<and> paid_nat i p' = paid_nat i p + am_nat a
     \<and> (\<forall>j. j \<noteq> i \<longrightarrow> paid_entry j p' = paid_entry j p)
     \<and> pd_running_payer p' = pd_running_payer p \<and> pd_fee_disabled p' = pd_fee_disabled p
   else \<exists>p'. paid_give i a p = (Err Error_Unknown, p') \<and> same_paid p' p"
proof (cases "paid_nat i p + am_nat a < 2 ^ 64")
  case True
  then obtain c where "amount_add (paid_entry i p) a = MOk c" "am_nat c = paid_nat i p + am_nat a"
    using amount_add_cases [of "paid_entry i p" a] by auto
  with True show ?thesis by (auto simp: paid_give_def paid_give_denom_def Let_def)
next
  case False
  then show ?thesis
    using amount_add_cases [of "paid_entry i p" a]
    by (auto simp: paid_give_def paid_give_denom_def Let_def same_paid_def)
qed

lemma paid_take_cases:
  "if am_nat a \<le> paid_nat i p
   then \<exists>p'. paid_take i a p = (Ok (Coin a), p') \<and> paid_nat i p' + am_nat a = paid_nat i p
     \<and> (\<forall>j. j \<noteq> i \<longrightarrow> paid_entry j p' = paid_entry j p)
     \<and> pd_running_payer p' = pd_running_payer p \<and> pd_fee_disabled p' = pd_fee_disabled p
   else \<exists>p'. paid_take i a p = (Err (Error_Coins ''Insufficient funding for paid call''), p') \<and> same_paid p' p"
proof (cases "am_nat a \<le> paid_nat i p")
  case True
  then obtain c where "amount_sub (paid_entry i p) a = MOk c" "am_nat c = paid_nat i p - am_nat a"
    using amount_sub_cases [of a "paid_entry i p"] by auto
  with True show ?thesis
    by (auto simp: paid_take_def paid_take_denom_def Let_def op_bind_def coin_mint_def amount_less)
next
  case False
  then show ?thesis
    by (auto simp: paid_take_def paid_take_denom_def Let_def op_bind_def same_paid_def amount_less)
qed

text \<open>Resolving the context and running a method of it.\<close>

definition on_paid :: "error \<Rightarrow> (paid, 'a) op \<Rightarrow> (('t, 'z) world, 'a) op" where
  "on_paid missing f = (\<lambda>(t, cx). case context_resolve cx_paid cx of
      None \<Rightarrow> (Err missing, (t, cx))
    | Some p \<Rightarrow> (case f p of (r, p') \<Rightarrow> (r, (t, cx\<lparr>cx_paid := Some p'\<rparr>))))"

section \<open>Pairs of calls\<close>

datatype 'c paid_call = PaidCall (pc_payer: 'c) (pc_paid: 'c)

datatype 'c payable_call = Paid "'c paid_call" | Unpaid 'c

definition max_subcall_len :: nat where
  "max_subcall_len = 200000"

definition paid_call_encoding_length :: "('c \<Rightarrow> nat result) \<Rightarrow> 'c paid_call \<Rightarrow> nat result" where
  "paid_call_encoding_length elen call =
     and_then (elen (pc_payer call)) (\<lambda>a. and_then (elen (pc_paid call)) (\<lambda>b. Ok (a + b + 8)))"

text \<open>\<open>u32c\<close> is the library's encoding of \<^verbatim>\<open>u32\<close>, \<open>cc\<close> that of the inner calls.\<close>

definition len_u32 :: "bytes \<Rightarrow> u32 result" where
  "len_u32 bytes = (if length bytes < 2 ^ 32 then Ok (of_nat (length bytes)) else Err (Error_Ed (UnexpectedByte 0)))"

definition paid_call_encode :: "u32 codec \<Rightarrow> 'c codec \<Rightarrow> 'c paid_call \<Rightarrow> bytes result" where
  "paid_call_encode u32c cc call =
     and_then (enc cc (pc_payer call)) (\<lambda>payer_call_bytes.
     and_then (len_u32 payer_call_bytes) (\<lambda>payer_call_len.
     and_then (enc cc (pc_paid call)) (\<lambda>paid_call_bytes.
     and_then (len_u32 paid_call_bytes) (\<lambda>paid_call_len.
     and_then (enc u32c payer_call_len) (\<lambda>l1.
     and_then (enc u32c paid_call_len) (\<lambda>l2.
       Ok (l1 @ payer_call_bytes @ l2 @ paid_call_bytes)))))))"

definition read_exact :: "nat \<Rightarrow> bytes \<Rightarrow> (bytes \<times> bytes) result" where
  "read_exact n reader = (if length reader < n then Err (Error_Ed EdIO) else Ok (take n reader, drop n reader))"

text \<open>The second test is on the first length again, as in the source.\<close>

definition paid_call_decode :: "u32 codec \<Rightarrow> 'c codec \<Rightarrow> bytes \<Rightarrow> ('c paid_call \<times> bytes) result" where
  "paid_call_decode u32c cc reader =
     and_then (dec u32c reader) (\<lambda>(payer_call_len, reader).
       if max_subcall_len < unat payer_call_len then Err (Error_Ed (UnexpectedByte 32))
       else
         and_then (read_exact (unat payer_call_len) reader) (\<lambda>(payer_call_bytes, reader).
         and_then (dec u32c reader) (\<lambda>(paid_call_len, reader).
           if max_subcall_len < unat payer_call_len then Err (Error_Ed (UnexpectedByte 32))
           else
             and_then (read_exact (unat paid_call_len) reader) (\<lambda>(paid_call_bytes, reader).
             and_then (dec cc payer_call_bytes) (\<lambda>(payer, _).
             and_then (dec cc paid_call_bytes) (\<lambda>(paid, _).
               Ok (PaidCall payer paid, reader)))))))"

definition payable_plugin_call :: "('c \<Rightarrow> (('t, 'z) world, unit) op) \<Rightarrow> 'c payable_call \<Rightarrow> (('t, 'z) world, unit) op" where
  "payable_plugin_call inner call =
     op_bind (on_contexts (context_remove cx_paid_update)) (\<lambda>_. case call of
         Unpaid c \<Rightarrow> inner c
       | Paid calls \<Rightarrow>
           op_bind (on_contexts (context_add cx_paid_update (paid_default\<lparr>pd_running_payer := True\<rparr>))) (\<lambda>_.
           op_bind (inner (pc_payer calls)) (\<lambda>_.
           op_bind (op_read (\<lambda>(t, cx). unwrap (context_resolve cx_paid cx))) (\<lambda>ctx.
           op_bind (on_contexts (context_add cx_paid_update (ctx\<lparr>pd_running_payer := False\<rparr>))) (\<lambda>_.
             inner (pc_paid calls))))))"

section \<open>Fees\<close>

definition min_fee :: amount where
  "min_fee = Amount 10000"

text \<open>The payment is burned: the coin is dropped.\<close>

definition fee_call :: "byte \<Rightarrow> ('c \<Rightarrow> (('t, 'z) world, unit) op) \<Rightarrow> 'c \<Rightarrow> (('t, 'z) world, unit) op" where
  "fee_call index inner call =
     op_bind (on_paid (Error_Coins ''Minimum fee not paid'') (\<lambda>paid.
       if \<not> pd_running_payer paid \<and> \<not> pd_fee_disabled paid
       then op_bind (paid_take index min_fee) (\<lambda>fee_payment. op_ok ()) paid
       else (Ok (), paid))) (\<lambda>_. inner call)"

definition disable_fee :: "'z contexts_scheme \<Rightarrow> 'z contexts_scheme" where
  "disable_fee cx = (case context_resolve cx_paid cx of
      Some paid_ctx \<Rightarrow> cx\<lparr>cx_paid := Some (paid_ctx\<lparr>pd_fee_disabled := True\<rparr>)\<rparr>
    | None \<Rightarrow> cx)"

section \<open>Properties\<close>

text \<open>
  Decoding the encoding of a pair of calls gives the pair back and leaves the rest of the
  input, if the first call has at most 200,000 bytes; a longer first call is refused.  For the
  second call there is no such limit.
\<close>

lemma paid_call_round_trip:
  assumes "terminated_codec u32c (\<lambda>_. True)" and "terminated_codec cc ok" and "ok (pc_payer c)" and "ok (pc_paid c)"
    and "paid_call_encode u32c cc c = Ok bs" and "enc cc (pc_payer c) = Ok payer_bytes"
  shows "paid_call_decode u32c cc (bs @ rest) =
    (if length payer_bytes \<le> max_subcall_len then Ok (c, rest) else Err (Error_Ed (UnexpectedByte 32)))"
proof -
  obtain paid_bytes l1 l2 where e: "enc cc (pc_paid c) = Ok paid_bytes"
      "length payer_bytes < 2 ^ 32" "length paid_bytes < 2 ^ 32"
      "enc u32c (of_nat (length payer_bytes)) = Ok l1" "enc u32c (of_nat (length paid_bytes)) = Ok l2"
      "bs = l1 @ payer_bytes @ l2 @ paid_bytes"
    using assms(5,6) by (auto simp: paid_call_encode_def len_u32_def result_simps split: if_splits)
  have u: "unat (of_nat (length payer_bytes) :: u32) = length payer_bytes"
      "unat (of_nat (length paid_bytes) :: u32) = length paid_bytes"
    using e(2,3) by (simp_all add: unat_of_nat)
  have d1: "dec u32c (l1 @ x) = Ok (of_nat (length payer_bytes), x)" for x
    by (rule terminated_codec.dec_enc [OF assms(1) TrueI e(4)])
  have d2: "dec u32c (l2 @ x) = Ok (of_nat (length paid_bytes), x)" for x
    by (rule terminated_codec.dec_enc [OF assms(1) TrueI e(5)])
  have c1: "dec cc payer_bytes = Ok (pc_payer c, [])" and c2: "dec cc paid_bytes = Ok (pc_paid c, [])"
    using terminated_codec.dec_enc [OF assms(2,3,6), of "[]"] terminated_codec.dec_enc [OF assms(2,4) e(1), of "[]"] by simp_all
  show ?thesis
    by (simp add: paid_call_decode_def e(6) d1 d2 u read_exact_def c1 c2)
qed

lemma paid_call_round_trip_witness:
  "paid_call_decode word_codec (word_codec :: byte codec) ([0, 0, 0, 1, 7, 0, 0, 0, 1, 8] @ [9]) = Ok (PaidCall 7 8, [9])"
proof -
  have t: "terminated_codec (word_codec :: u32 codec) (\<lambda>_. True)" by (rule word_codec_terminated) simp
  have "paid_call_encode word_codec (word_codec :: byte codec) (PaidCall 7 8) = Ok [0, 0, 0, 1, 7, 0, 0, 0, 1, 8]"
  proof -
    have "be_bytes (Suc (Suc (Suc (Suc 0)))) 1 = [0, 0, 0, 1]" by simp
    moreover have "Suc (Suc (Suc (Suc 0))) = 4" by simp
    ultimately have "be_bytes 4 1 = [0, 0, 0, 1]" by (simp only:)
    then have "enc (word_codec :: u32 codec) 1 = Ok [0, 0, 0, 1]" by (simp add: word_codec_def)
    then show ?thesis by (simp add: paid_call_encode_def len_u32_def)
  qed
  from paid_call_round_trip [OF t u8_codec.terminated_codec_axioms _ _ this, of "[7]" "[9]"] show ?thesis
    by (simp add: max_subcall_len_def)
qed

text \<open>
  (C23) A transaction through the payable and the fee plugin: a call without a payer fails.
  For a pair, once the payer call has succeeded and left the amounts \<open>p\<close> in the context, the
  paid call runs only if \<open>p\<close> has the fee, of which exactly the fee has then been removed, or
  if the payer call has disabled the fee; otherwise the transaction fails.
\<close>

theorem paid_call_pays_fee:
  assumes "app (pc_payer c) (t, cx\<lparr>cx_paid := Some (paid_default\<lparr>pd_running_payer := True\<rparr>)\<rparr>) = (Ok (), (t1, cx1))"
    and "cx_paid cx1 = Some p"
  shows "payable_plugin_call (fee_call index app) (Unpaid u) (t, cx)
      = (Err (Error_Coins ''Minimum fee not paid''), (t, cx\<lparr>cx_paid := None\<rparr>))
    \<and> (let p0 = p\<lparr>pd_running_payer := False\<rparr>; run = payable_plugin_call (fee_call index app) (Paid c) (t, cx)
       in if pd_fee_disabled p then run = app (pc_paid c) (t1, cx1\<lparr>cx_paid := Some p0\<rparr>)
          else if paid_nat index p < am_nat min_fee
          then \<exists>st. run = (Err (Error_Coins ''Insufficient funding for paid call''), st)
          else \<exists>p'. run = app (pc_paid c) (t1, cx1\<lparr>cx_paid := Some p'\<rparr>)
            \<and> paid_nat index p' + am_nat min_fee = paid_nat index p
            \<and> (\<forall>j. j \<noteq> index \<longrightarrow> paid_entry j p' = paid_entry j p) \<and> \<not> pd_running_payer p')"
proof -
  let ?p0 = "p\<lparr>pd_running_payer := False\<rparr>"
  have payer: "fee_call index app (pc_payer c) (t, cx\<lparr>cx_paid := Some (paid_default\<lparr>pd_running_payer := True\<rparr>)\<rparr>)
      = (Ok (), (t1, cx1))"
    using assms(1) by (simp add: fee_call_def on_paid_def op_bind_def)
  have run: "payable_plugin_call (fee_call index app) (Paid c) (t, cx) = fee_call index app (pc_paid c) (t1, cx1\<lparr>cx_paid := Some ?p0\<rparr>)"
    using payer assms(2) by (simp add: payable_plugin_call_def op_bind_def)
  have entry0: "paid_entry j ?p0 = paid_entry j p" for j by (simp add: paid_entry_def)
  have "payable_plugin_call (fee_call index app) (Unpaid u) (t, cx)
      = (Err (Error_Coins ''Minimum fee not paid''), (t, cx\<lparr>cx_paid := None\<rparr>))"
    by (simp add: payable_plugin_call_def op_bind_def fee_call_def on_paid_def)
  moreover have "fee_call index app (pc_paid c) (t1, cx1\<lparr>cx_paid := Some ?p0\<rparr>) = app (pc_paid c) (t1, cx1\<lparr>cx_paid := Some ?p0\<rparr>)"
    if "pd_fee_disabled p"
    using that by (simp add: fee_call_def on_paid_def op_bind_def)
  moreover have "\<exists>st. fee_call index app (pc_paid c) (t1, cx1\<lparr>cx_paid := Some ?p0\<rparr>)
      = (Err (Error_Coins ''Insufficient funding for paid call''), st)"
    if "\<not> pd_fee_disabled p" "paid_nat index p < am_nat min_fee"
    using that paid_take_cases [of min_fee index ?p0] by (auto simp: fee_call_def on_paid_def op_bind_def entry0)
  moreover have "\<exists>p'. fee_call index app (pc_paid c) (t1, cx1\<lparr>cx_paid := Some ?p0\<rparr>) = app (pc_paid c) (t1, cx1\<lparr>cx_paid := Some p'\<rparr>)
      \<and> paid_nat index p' + am_nat min_fee = paid_nat index p
      \<and> (\<forall>j. j \<noteq> index \<longrightarrow> paid_entry j p' = paid_entry j p) \<and> \<not> pd_running_payer p'"
    if "\<not> pd_fee_disabled p" "\<not> paid_nat index p < am_nat min_fee"
    using that paid_take_cases [of min_fee index ?p0] by (auto simp: fee_call_def on_paid_def op_bind_def entry0)
  ultimately show ?thesis unfolding run Let_def by simp
qed

theorem paid_call_pays_fee_witness:
  "\<exists>p'. payable_plugin_call (fee_call 5 (\<lambda>a. on_paid Error_Unknown (paid_give 5 a))) (Paid (PaidCall (Amount 10001) (Amount 3)))
      ((), \<lparr>cx_paid = None, cx_signer = None, cx_chain_id = None, cx_events = None, cx_time = None\<rparr>)
    = on_paid Error_Unknown (paid_give 5 (Amount 3))
      ((), \<lparr>cx_paid = Some p', cx_signer = None, cx_chain_id = None, cx_events = None, cx_time = None\<rparr>) \<and> paid_nat 5 p' = 1"
proof -
  let ?app = "\<lambda>a. on_paid Error_Unknown (paid_give 5 a) :: ((unit, unit) world, unit) op"
  let ?cx = "\<lparr>cx_paid = None, cx_signer = None, cx_chain_id = None, cx_events = None, cx_time = None\<rparr> :: contexts"
  let ?q = "paid_default\<lparr>pd_running_payer := True\<rparr>"
  obtain p where p: "paid_give 5 (Amount 10001) ?q = (Ok (), p)" "paid_nat 5 p = 10001" "\<not> pd_fee_disabled p"
    using paid_give_cases [of 5 ?q "Amount 10001"] by (auto simp: paid_entry_def paid_default_def)
  have "?app (pc_payer (PaidCall (Amount 10001) (Amount 3))) ((), ?cx\<lparr>cx_paid := Some ?q\<rparr>) = (Ok (), ((), ?cx\<lparr>cx_paid := Some p\<rparr>))"
    using p(1) by (simp add: on_paid_def)
  from paid_call_pays_fee [where app = ?app and c = "PaidCall (Amount 10001) (Amount 3)" and t = "()" and cx = ?cx
      and ?t1.0 = "()" and ?cx1.0 = "?cx\<lparr>cx_paid := Some p\<rparr>" and p = p and index = 5, OF this] p show ?thesis
    by (auto simp: min_fee_def Let_def)
qed

end
