(* ===== verification/Signer_Plugin.thy ===== *)
theory Signer_Plugin
  imports Payable
begin

text \<open>
  \<^verbatim>\<open>src/plugins/signer.rs\<close> and \<^verbatim>\<open>src/plugins/chain_commitment.rs\<close>: a call is run only if its signature is
  valid and it names the chain it is meant for.

  Hashes, elliptic curve operations, the JSON and base64 encodings and the sign bytes of SDK
  transactions are parameters, collected in the record \<open>crypto\<close>.
\<close>

section \<open>Signed calls\<close>

datatype 'tx sig_type = Native | Adr36 | Sdk 'tx | EthPersonalSign 'tx

record 'tx signer_call =
  sc_signature :: "bytes option"
  sc_pubkey :: "bytes option"
  sc_sigtype :: "'tx sig_type"
  sc_call_bytes :: bytes

text \<open>The message of ADR-36, before it is written as JSON.\<close>

record adr36_msg =
  ad_account_number :: string
  ad_chain_id :: string
  ad_fee_gas :: string
  ad_memo :: string
  ad_type :: string
  ad_data :: string
  ad_signer :: string
  ad_sequence :: string

record ('k, 'g, 'tx) crypto =
  cr_sha256 :: "bytes \<Rightarrow> bytes"
  cr_ripemd160 :: "bytes \<Rightarrow> bytes"
  cr_keccak256 :: "bytes \<Rightarrow> bytes"
  cr_pubkey :: "bytes \<Rightarrow> 'k result"
  cr_uncompressed :: "'k \<Rightarrow> bytes"
  cr_signature :: "bytes \<Rightarrow> 'g result"
  cr_digest :: "bytes \<Rightarrow> bytes result"
  cr_verify :: "bytes \<Rightarrow> 'g \<Rightarrow> 'k \<Rightarrow> unit result"
  cr_base64 :: "bytes \<Rightarrow> string"
  cr_json :: "adr36_msg \<Rightarrow> bytes result"
  cr_address_text :: "address \<Rightarrow> string"
  cr_decimal :: "nat \<Rightarrow> bytes"
  cr_sign_bytes :: "'tx \<Rightarrow> bytes \<Rightarrow> u64 \<Rightarrow> bytes result"

text \<open>\<^verbatim>\<open>copy_from_slice\<close> of the bytes after the first into 64 bytes.\<close>

definition eth_address :: "('k, 'g, 'tx) crypto \<Rightarrow> 'k \<Rightarrow> address result" where
  "eth_address C pubkey = and_then (copy_from_slice 64 (drop 1 (cr_uncompressed C pubkey))) (address_from_pubkey_eth (cr_keccak256 C))"

definition native_address :: "('k, 'g, 'tx) crypto \<Rightarrow> bytes \<Rightarrow> address result" where
  "native_address C pubkey_bytes = address_from_pubkey (cr_sha256 C) (cr_ripemd160 C) pubkey_bytes"

definition signer_call_address :: "('k, 'g, 'tx) crypto \<Rightarrow> 'tx signer_call \<Rightarrow> address result" where
  "signer_call_address C self =
     and_then (ok_or (Error_Signer ''No pubkey specified'') (sc_pubkey self)) (\<lambda>pubkey_bytes.
       case sc_sigtype self of
         EthPersonalSign _ \<Rightarrow> and_then (cr_pubkey C pubkey_bytes) (eth_address C)
       | _ \<Rightarrow> native_address C pubkey_bytes)"

definition adr36_bytes :: "('k, 'g, 'tx) crypto \<Rightarrow> bytes \<Rightarrow> address \<Rightarrow> bytes result" where
  "adr36_bytes C call_bytes addr = cr_json C \<lparr>ad_account_number = ''0'', ad_chain_id = [], ad_fee_gas = ''0'', ad_memo = [],
     ad_type = ''sign/MsgSignData'', ad_data = cr_base64 C call_bytes, ad_signer = cr_address_text C addr, ad_sequence = ''0''\<rparr>"

text \<open>The inner type provides the nonce of an address (\<^verbatim>\<open>GetNonce\<close>).\<close>

definition sdk_sign_bytes :: "('k, 'g, 'tx) crypto \<Rightarrow> ('t \<Rightarrow> address \<Rightarrow> u64 result) \<Rightarrow> 'tx \<Rightarrow> address \<Rightarrow> ('t, 'z) world \<Rightarrow> bytes result" where
  "sdk_sign_bytes C get_nonce tx addr = (\<lambda>(inner, cx).
     and_then (get_nonce inner addr) (\<lambda>n.
     and_then (word_add n 1) (\<lambda>nonce.
     and_then (ok_or (Error_App ''Chain ID not found'') (context_resolve cx_chain_id cx)) (\<lambda>chain_id.
       cr_sign_bytes C tx chain_id nonce))))"

text \<open>The prefix of an Ethereum message: the byte 25, \<open>Ethereum Signed Message:\<close> and a line break.\<close>

definition eth_prefix :: bytes where
  "eth_prefix = 25 # map (\<lambda>c. of_nat (of_char c)) ''Ethereum Signed Message:'' @ [10]"

definition signed_message :: "('k, 'g, 'tx) crypto \<Rightarrow> ('t \<Rightarrow> address \<Rightarrow> u64 result) \<Rightarrow> 'tx signer_call \<Rightarrow> bytes \<Rightarrow> 'k \<Rightarrow> ('t, 'z) world
    \<Rightarrow> (bytes \<times> address) result" where
  "signed_message C get_nonce call pubkey_bytes pubkey w = (case sc_sigtype call of
      Native \<Rightarrow>
        and_then (native_address C pubkey_bytes) (\<lambda>addr. Ok (cr_sha256 C (sc_call_bytes call), addr))
    | Adr36 \<Rightarrow>
        and_then (native_address C pubkey_bytes) (\<lambda>addr.
        and_then (adr36_bytes C (sc_call_bytes call) addr) (\<lambda>bytes. Ok (cr_sha256 C bytes, addr)))
    | Sdk tx \<Rightarrow>
        and_then (native_address C pubkey_bytes) (\<lambda>addr.
        and_then (sdk_sign_bytes C get_nonce tx addr w) (\<lambda>bytes. Ok (cr_sha256 C bytes, addr)))
    | EthPersonalSign tx \<Rightarrow>
        and_then (eth_address C pubkey) (\<lambda>addr.
        and_then (sdk_sign_bytes C get_nonce tx addr w) (\<lambda>sdk_bytes.
        and_then (cr_digest C (cr_keccak256 C (eth_prefix @ cr_decimal C (length sdk_bytes) @ sdk_bytes))) (\<lambda>msg. Ok (msg, addr)))))"

definition signer_verify :: "('k, 'g, 'tx) crypto \<Rightarrow> ('t \<Rightarrow> address \<Rightarrow> u64 result) \<Rightarrow> 'tx signer_call \<Rightarrow> ('t, 'z) world \<Rightarrow> address option result" where
  "signer_verify C get_nonce call w = (case (sc_pubkey call, sc_signature call) of
      (Some pubkey_bytes, Some signature) \<Rightarrow>
        and_then (cr_pubkey C pubkey_bytes) (\<lambda>pubkey.
        and_then (signed_message C get_nonce call pubkey_bytes pubkey w) (\<lambda>(msg, addr).
        and_then (cr_signature C signature) (\<lambda>signature.
        and_then (cr_verify C msg signature pubkey) (\<lambda>_. Ok (Some addr)))))
    | (None, None) \<Rightarrow> Ok None
    | _ \<Rightarrow> Err (Error_Signer ''Malformed transaction''))"

definition sender_event :: "('k, 'g, 'tx) crypto \<Rightarrow> address \<Rightarrow> event" where
  "sender_event C sg = \<lparr>ev_type = ''message'', ev_attributes = [(''sender'', map (\<lambda>c. of_nat (of_char c)) (cr_address_text C sg))]\<rparr>"

definition signer_plugin_call :: "('k, 'g, 'tx) crypto \<Rightarrow> ('t \<Rightarrow> address \<Rightarrow> u64 result) \<Rightarrow> (bytes \<Rightarrow> ('c \<times> bytes) result)
    \<Rightarrow> ('c \<Rightarrow> (('t, 'z) world, unit) op) \<Rightarrow> 'tx signer_call \<Rightarrow> (('t, 'z) world, unit) op" where
  "signer_plugin_call C get_nonce decode inner call =
     op_bind (on_contexts (context_remove cx_signer_update)) (\<lambda>_.
     op_bind (op_read (signer_verify C get_nonce call)) (\<lambda>signer.
     op_bind (case signer of
         None \<Rightarrow> op_ok ()
       | Some sg \<Rightarrow>
           op_bind (op_read (\<lambda>(t, cx). ok_or (Error_Coins ''No Events context available'') (context_resolve cx_events cx))) (\<lambda>events.
             on_contexts (\<lambda>cx. cx\<lparr>cx_events := Some (events @ [sender_event C sg])\<rparr>))) (\<lambda>_.
     op_bind (on_contexts (context_add cx_signer_update (Signer signer))) (\<lambda>_.
     op_bind (op_lift (decode (sc_call_bytes call))) (\<lambda>(inner_call, _). inner inner_call)))))"

text \<open>\<^verbatim>\<open>sdk_to_signercall\<close>; \<open>enc_tx\<close> is the encoding of the converted call.\<close>

definition sdk_to_signercall :: "('tx \<Rightarrow> bytes result) \<Rightarrow> ('tx \<Rightarrow> bytes result) \<Rightarrow> ('tx \<Rightarrow> string option result) \<Rightarrow> 'tx \<Rightarrow> 'tx signer_call result" where
  "sdk_to_signercall signature sender_pubkey sig_type sdk_tx =
     and_then (signature sdk_tx) (\<lambda>sig.
     and_then (sender_pubkey sdk_tx) (\<lambda>pubkey.
     and_then (sig_type sdk_tx) (\<lambda>st.
     and_then (if st = None \<or> st = Some ''sdk'' then Ok (Sdk sdk_tx)
               else if st = Some ''eth'' then Ok (EthPersonalSign sdk_tx)
               else Err (Error_App ''Unknown signature type'')) (\<lambda>sigtype.
       Ok \<lparr>sc_signature = Some sig, sc_pubkey = Some pubkey, sc_sigtype = sigtype, sc_call_bytes = []\<rparr>))))"

section \<open>Calls for a chain\<close>

record 't chain_plugin =
  cc_chain_id :: bytes
  cc_inner :: 't

text \<open>\<open>utf8_ok\<close> tells whether bytes are a string; \<open>text\<close> is the text of the error.\<close>

definition on_chain_inner :: "(('t, 'z) world, 'a) op \<Rightarrow> (('t chain_plugin, 'z) world, 'a) op" where
  "on_chain_inner f = (\<lambda>(p, cx). case f (cc_inner p, cx) of (r, (t, cx')) \<Rightarrow> (r, (p\<lparr>cc_inner := t\<rparr>, cx')))"

definition from_utf8 :: "(bytes \<Rightarrow> bool) \<Rightarrow> bytes \<Rightarrow> bytes option" where
  "from_utf8 utf8_ok bs = (if utf8_ok bs then Some bs else None)"

definition chain_call :: "(bytes \<Rightarrow> bool) \<Rightarrow> (bytes \<Rightarrow> bytes \<Rightarrow> string) \<Rightarrow> (bytes \<Rightarrow> ('c \<times> bytes) result)
    \<Rightarrow> ('c \<Rightarrow> (('t, 'z) world, unit) op) \<Rightarrow> bytes \<Rightarrow> (('t chain_plugin, 'z) world, unit) op" where
  "chain_call utf8_ok text decode inner call =
     op_bind (op_read (\<lambda>(p, cx).
       let n = length (cc_chain_id p)
       in if n = 0 then Err (Error_App ''Chain ID not set'')
          else if length call < n then Err (Error_App ''Invalid chain ID length'')
          else if take n call \<noteq> cc_chain_id p
          then and_then (unwrap (from_utf8 utf8_ok (cc_chain_id p))) (\<lambda>expected.
            Err (Error_App (text expected (case from_utf8 utf8_ok (take n call) of Some got \<Rightarrow> got | None \<Rightarrow> []))))
          else and_then (decode (drop n call)) (\<lambda>(inner_call, _). Ok inner_call))) (\<lambda>inner_call.
     op_bind (op_read (\<lambda>(p, cx). unwrap (from_utf8 utf8_ok (cc_chain_id p)))) (\<lambda>id.
     op_bind (on_contexts (context_add cx_chain_id_update id)) (\<lambda>_.
       on_chain_inner (inner inner_call))))"

definition chain_convert :: "(bytes \<Rightarrow> bool) \<Rightarrow> ('t \<Rightarrow> 'tx \<Rightarrow> 'c result) \<Rightarrow> ('c \<Rightarrow> bytes result) \<Rightarrow> 'tx \<Rightarrow> (('t chain_plugin, 'z) world, bytes) op" where
  "chain_convert utf8_ok convert_inner encode sdk_tx =
     op_bind (op_read (\<lambda>(p, cx). unwrap (from_utf8 utf8_ok (cc_chain_id p)))) (\<lambda>id.
     op_bind (on_contexts (context_add cx_chain_id_update id)) (\<lambda>_.
     op_read (\<lambda>(p, cx).
       and_then (convert_inner (cc_inner p) sdk_tx) (\<lambda>inner_call.
       and_then (encode inner_call) (\<lambda>bs. Ok (cc_chain_id p @ bs))))))"

text \<open>\<^verbatim>\<open>init_chain\<close> takes the id from the context; the id is length-prefixed by one byte.\<close>

definition chain_init :: "(('t, 'z) world, unit) op \<Rightarrow> (('t chain_plugin, 'z) world, unit) op" where
  "chain_init inner_init =
     op_bind (op_read (\<lambda>(p, cx). ok_or (Error_App ''Chain ID context not set'') (context_resolve cx_chain_id cx))) (\<lambda>id.
     op_bind (op_lift (if length id < 256 then Ok () else Err Error_Overflow)) (\<lambda>_.
     op_bind (op_upd (\<lambda>(p, cx). (p\<lparr>cc_chain_id := id\<rparr>, cx))) (\<lambda>_.
       on_chain_inner inner_init)))"

section \<open>Properties\<close>

text \<open>What reaching the inner call with a native signature requires.\<close>

definition natively_signed :: "('k, 'g, 'tx) crypto \<Rightarrow> 'tx signer_call \<Rightarrow> address \<Rightarrow> bool" where
  "natively_signed C call a \<longleftrightarrow> (\<exists>pk sg k g. sc_pubkey call = Some pk \<and> sc_signature call = Some sg \<and> cr_pubkey C pk = Ok k
     \<and> cr_signature C sg = Ok g \<and> cr_verify C (cr_sha256 C (sc_call_bytes call)) g k = Ok () \<and> native_address C pk = Ok a)"

lemma signer_verify_native:
  assumes "sc_sigtype call = Native" and "signer_verify C get_nonce call w = Ok sg"
  shows "case sg of None \<Rightarrow> sc_pubkey call = None \<and> sc_signature call = None | Some a \<Rightarrow> natively_signed C call a"
  using assms by (auto simp: signer_verify_def signed_message_def natively_signed_def result_simps split: option.splits)

text \<open>A call that succeeds has run the inner call, in contexts that say who signed.\<close>

lemma signer_call_Ok:
  assumes "signer_plugin_call C get_nonce decode inner call (t, cx) = (Ok (), st)"
  shows "\<exists>sg cx1 c rest. signer_verify C get_nonce call (t, cx\<lparr>cx_signer := None\<rparr>) = Ok sg \<and> cx_signer cx1 = Some (Signer sg)
    \<and> cx_paid cx1 = cx_paid cx \<and> cx_chain_id cx1 = cx_chain_id cx
    \<and> decode (sc_call_bytes call) = Ok (c, rest) \<and> inner c (t, cx1) = (Ok (), st)"
proof -
  let ?cx0 = "cx\<lparr>cx_signer := None\<rparr>" and ?rest = "\<lambda>cx1. op_bind (op_lift (decode (sc_call_bytes call))) (\<lambda>(c, _). inner c) (t, cx1)"
  obtain sg where v: "signer_verify C get_nonce call (t, ?cx0) = Ok sg"
    using assms by (cases "signer_verify C get_nonce call (t, ?cx0)") (auto simp: signer_plugin_call_def op_bind_def)
  obtain cx1 where cx1: "cx_signer cx1 = Some (Signer sg)" "cx_paid cx1 = cx_paid cx" "cx_chain_id cx1 = cx_chain_id cx" "?rest cx1 = (Ok (), st)"
  proof (cases sg)
    case None
    show ?thesis using assms v None by (intro that [of "?cx0\<lparr>cx_signer := Some (Signer None)\<rparr>"]) (auto simp: signer_plugin_call_def op_bind_def)
  next
    case (Some a)
    obtain ev where ev: "cx_events cx = Some ev" using assms v Some by (cases "cx_events cx") (auto simp: signer_plugin_call_def op_bind_def)
    show ?thesis
      using assms v Some ev
      by (intro that [of "?cx0\<lparr>cx_events := Some (ev @ [sender_event C a]), cx_signer := Some (Signer (Some a))\<rparr>"])
        (auto simp: signer_plugin_call_def op_bind_def)
  qed
  obtain c rest where "decode (sc_call_bytes call) = Ok (c, rest)" "inner c (t, cx1) = (Ok (), st)"
    using cx1(4) by (auto simp: result_simps)
  with v cx1 show ?thesis by blast
qed

text \<open>
  (C22) A call with a native signature that succeeds has run the inner call either without a
  signer, if it carries neither key nor signature, or with the signer whose key verifies the
  signature on exactly the bytes of the call.
\<close>

theorem native_signer_is_authentic:
  assumes "sc_sigtype call = Native" and "signer_plugin_call C get_nonce decode inner call (t, cx) = (Ok (), st)"
  shows "\<exists>sg cx1 c rest. cx_signer cx1 = Some (Signer sg) \<and> decode (sc_call_bytes call) = Ok (c, rest) \<and> inner c (t, cx1) = (Ok (), st)
    \<and> (case sg of None \<Rightarrow> sc_pubkey call = None \<and> sc_signature call = None | Some a \<Rightarrow> natively_signed C call a)"
proof -
  obtain sg cx1 c rest where "signer_verify C get_nonce call (t, cx\<lparr>cx_signer := None\<rparr>) = Ok sg" "cx_signer cx1 = Some (Signer sg)"
      "decode (sc_call_bytes call) = Ok (c, rest)" "inner c (t, cx1) = (Ok (), st)"
    using signer_call_Ok [OF assms(2)] by blast
  with signer_verify_native [OF assms(1)] show ?thesis by blast
qed

text \<open>A toy scheme: the signature of a message is the message with the key in front.\<close>

definition toy_crypto :: "(bytes, bytes, 'tx) crypto" where
  "toy_crypto = \<lparr>cr_sha256 = id, cr_ripemd160 = (\<lambda>bs. take 20 (bs @ replicate 20 0)), cr_keccak256 = id, cr_pubkey = Ok, cr_uncompressed = id,
     cr_signature = Ok, cr_digest = Ok, cr_verify = (\<lambda>m g k. if g = k @ m then Ok () else Err Error_Secp256k1),
     cr_base64 = (\<lambda>_. []), cr_json = (\<lambda>_. Ok []), cr_address_text = (\<lambda>_. []), cr_decimal = (\<lambda>_. []), cr_sign_bytes = (\<lambda>_ _ _. Ok [])\<rparr>"

abbreviation event_contexts :: contexts where
  "event_contexts \<equiv> \<lparr>cx_paid = None, cx_signer = None, cx_chain_id = None, cx_events = Some [], cx_time = None\<rparr>"

theorem native_signer_is_authentic_witness:
  "\<exists>a st. signer_plugin_call (toy_crypto :: (bytes, bytes, unit) crypto) (\<lambda>_ _. Ok 0) (dec word_codec) (\<lambda>b. op_upd (\<lambda>(t, cx). (b, cx)))
      \<lparr>sc_signature = Some [5, 9], sc_pubkey = Some [5], sc_sigtype = Native, sc_call_bytes = [9]\<rparr> (0 :: byte, event_contexts) = (Ok (), st)
    \<and> natively_signed (toy_crypto :: (bytes, bytes, unit) crypto) \<lparr>sc_signature = Some [5, 9], sc_pubkey = Some [5], sc_sigtype = Native, sc_call_bytes = [9]\<rparr> a"
proof -
  let ?call = "\<lparr>sc_signature = Some [5, 9], sc_pubkey = Some [5], sc_sigtype = Native, sc_call_bytes = [9]\<rparr>"
  obtain st where st: "signer_plugin_call (toy_crypto :: (bytes, bytes, unit) crypto) (\<lambda>_ _. Ok 0) (dec word_codec) (\<lambda>b. op_upd (\<lambda>(t, cx). (b, cx))) ?call (0 :: byte, event_contexts) = (Ok (), st)"
    by (simp add: signer_plugin_call_def signer_verify_def signed_message_def toy_crypto_def native_address_def address_from_pubkey_def
        copy_from_slice_def address_length_def op_bind_def)
  have "sc_sigtype ?call = Native" by simp
  note auth = native_signer_is_authentic [OF this st]
  have "\<exists>a. natively_signed (toy_crypto :: (bytes, bytes, unit) crypto) ?call a"
    using auth by (elim exE conjE) (auto split: option.splits)
  with st show ?thesis by blast
qed

text \<open>
  Calls for a chain: a call that does not begin with the id of the chain is refused and
  changes nothing, and the bytes made by \<open>chain_convert\<close> for a transaction run the call that
  the inner type made of it.
\<close>

lemma chain_commitment_round_trip:
  assumes "utf8_ok (cc_chain_id p)" and "cc_chain_id p \<noteq> []" and "length (cc_chain_id p) = n"
    and "convert_inner (cc_inner p) tx = Ok c" and "encode c = Ok bs" and "decode bs = Ok (c, [])"
  shows "(take n call \<noteq> cc_chain_id p \<longrightarrow> (\<exists>e. chain_call utf8_ok text decode inner call (p, cx) = (Err e, (p, cx))))
    \<and> (\<exists>cx'. chain_convert utf8_ok convert_inner encode tx (p, cx) = (Ok (cc_chain_id p @ bs), (p, cx')))
    \<and> chain_call utf8_ok text decode inner (cc_chain_id p @ bs) (p, cx)
      = on_chain_inner (inner c) (p, cx\<lparr>cx_chain_id := Some (cc_chain_id p)\<rparr>)"
  using assms by (auto simp: chain_call_def chain_convert_def op_bind_def from_utf8_def Let_def)

lemma chain_commitment_round_trip_witness:
  "\<exists>e. chain_call (\<lambda>_. True) (\<lambda>_ _. []) (dec word_codec) (\<lambda>b. op_upd (\<lambda>(t, cx). (b, cx))) [8, 9] (\<lparr>cc_chain_id = [7], cc_inner = 0 :: byte\<rparr>, event_contexts)
      = (Err e, (\<lparr>cc_chain_id = [7], cc_inner = 0\<rparr>, event_contexts))"
  using chain_commitment_round_trip [of "\<lambda>_. True" "\<lparr>cc_chain_id = [7], cc_inner = 0 :: byte\<rparr>" 1 "\<lambda>_ _. Ok 5" "()" 5 "enc word_codec" "[5]" "dec word_codec"
      "[8, 9]" "\<lambda>_ _. []" "\<lambda>b. op_upd (\<lambda>(t, cx). (b, cx))" event_contexts] by simp

end
