(* ===== verification/Derive.thy ===== *)
theory Derive
  imports State_Traits
begin

text \<open>
  The derive macros for \<^verbatim>\<open>State\<close> (\<^verbatim>\<open>macros/src/state.rs\<close>) and for \<^verbatim>\<open>Encode\<close> and \<^verbatim>\<open>Decode\<close>
  (\<^verbatim>\<open>macros/src/encoding.rs\<close>): the methods they generate for a struct, as functions of its fields
  and attributes.  A field is given by the implementation for its type, seen as one on the
  struct that changes only this field, and by copying the field from one struct to another.
  A panic of the macro is one while compiling.

  The implementation derived for fields of simple types is simple again.
\<close>

section \<open>Fields\<close>

datatype store_prefix = Relative bytes | Absolute bytes

record ('s, 't) state_field =
  sf_name :: string
  sf_as_type :: bool
  sf_skip :: bool
  sf_transparent :: bool
  sf_prefix :: "bytes option"
  sf_absolute_prefix :: "bytes option"
  sf_state :: "('s, 't) state_ops"
  sf_copy :: "'t \<Rightarrow> 't \<Rightarrow> 't"

definition field_prefix :: "('s, 't) state_field \<Rightarrow> store_prefix option result" where
  "field_prefix f = (case (sf_prefix f, sf_absolute_prefix f) of
      (Some prefix_rel, None) \<Rightarrow> Ok (Some (Relative prefix_rel))
    | (None, Some prefix_abs) \<Rightarrow> Ok (Some (Absolute prefix_abs))
    | (None, None) \<Rightarrow> Ok None
    | _ \<Rightarrow> Panic)"

record ('s, 't) state_input =
  si_version :: byte
  si_as_type :: "('s, 't) state_ops option"
  si_transparent :: bool
  si_allow_prefix_overlap :: bool
  si_fields :: "('s, 't) state_field list"

section \<open>Prefixes\<close>

fun ensure_prefixes :: "bool \<Rightarrow> bytes set \<Rightarrow> byte \<Rightarrow> ('s, 't) state_field list \<Rightarrow> ('s, 't) state_field list result" where
  "ensure_prefixes overlap seen field_count [] = Ok []"
| "ensure_prefixes overlap seen field_count (f # fs) =
     and_then (field_prefix f) (\<lambda>pfx.
       if (case pfx of Some (Absolute _) \<Rightarrow> True | _ \<Rightarrow> False) \<or> sf_skip f
       then and_then (ensure_prefixes overlap seen field_count fs) (\<lambda>fs'. Ok (f # fs'))
       else
         let p = (case sf_prefix f of
                    Some p \<Rightarrow> p
                  | None \<Rightarrow> if sf_transparent f then [] else [field_count])
         in if p \<in> seen \<and> \<not> overlap then Panic
            else and_then (word_add field_count 1) (\<lambda>n.
                 and_then (ensure_prefixes overlap (insert p seen) n fs) (\<lambda>fs'.
                   Ok (f\<lparr>sf_prefix := Some p\<rparr> # fs'))))"

section \<open>The generated methods\<close>

definition transparent_inner :: "('s, 't) state_input \<Rightarrow> ('s, 't) state_field option result" where
  "transparent_inner self =
     (let state_fields = filter (\<lambda>f. \<not> sf_skip f) (si_fields self);
          n_marked_fields = length (filter sf_transparent (si_fields self))
      in if 1 < n_marked_fields then Panic
         else if si_transparent self \<and> n_marked_fields = 0 \<and> 1 < length state_fields then Panic
         else if \<not> si_transparent self \<and> n_marked_fields = 0 then Ok None
         else if n_marked_fields = 1 then Ok (find sf_transparent (si_fields self))
         else if si_transparent self \<and> length state_fields = 1 then Ok (find (\<lambda>f. \<not> sf_skip f) (si_fields self))
         else Panic)"

definition attach_field :: "('s, 't) state_field \<Rightarrow> attacher \<Rightarrow> 't \<Rightarrow> attacher result \<times> 't" where
  "attach_field f a t =
     (if sf_as_type f then (attach_child_as a, t)
      else if sf_skip f then (attach_skipped_child a, t)
      else case field_prefix f of
             Ok (Some (Relative pfx)) \<Rightarrow> attach_child_with_relative_prefix (sf_state f) pfx a t
           | Ok (Some (Absolute pfx)) \<Rightarrow> attach_child_with_absolute_prefix (sf_state f) pfx a t
           | Ok None \<Rightarrow> attach_child (sf_state f) a t
           | _ \<Rightarrow> (Panic, t))"

fun attach_fields :: "('s, 't) state_field list \<Rightarrow> attacher \<Rightarrow> ('t, unit) op" where
  "attach_fields [] a t = (Ok (), t)"
| "attach_fields (f # fs) a t = (case attach_field f a t of
     (Ok a', t') \<Rightarrow> attach_fields fs a' t' | (Err e, t') \<Rightarrow> (Err e, t') | (Panic, t') \<Rightarrow> (Panic, t'))"

definition attach_method :: "('s, 't) state_input \<Rightarrow> ('s, 't) state_field option \<Rightarrow> bytes \<Rightarrow> ('t, unit) op" where
  "attach_method self inner store t = (case inner of
      Some f \<Rightarrow> (case attach_transparent_child (sf_state f) (attacher_new store) t of
          (Ok _, t') \<Rightarrow> (Ok (), t') | (Err e, t') \<Rightarrow> (Err e, t') | (Panic, t') \<Rightarrow> (Panic, t'))
    | None \<Rightarrow> (case si_as_type self of
          Some _ \<Rightarrow> (and_then (attach_child_as (attacher_new store)) (\<lambda>_. Ok ()), t)
        | None \<Rightarrow> attach_fields (si_fields self) (attacher_new store) t))"

fun flush_fields :: "('s, 't) state_field list \<Rightarrow> 't \<Rightarrow> bytes \<Rightarrow> ('s, bytes) op" where
  "flush_fields [] t out = op_ok out"
| "flush_fields (f # fs) t out =
     op_bind (if \<not> sf_as_type f \<and> sf_skip f then flush_skipped_child out else flush_child (sf_state f) t out) (flush_fields fs t)"

definition flush_method :: "bool \<Rightarrow> ('s, 't) state_input \<Rightarrow> ('s, 't) state_field option \<Rightarrow> 't \<Rightarrow> ('s, bytes) op" where
  "flush_method compat_mode self inner t =
     op_bind (flush_version compat_mode (si_version self) []) (\<lambda>out. case inner of
         Some f \<Rightarrow> flush_transparent_child (sf_state f) t out
       | None \<Rightarrow> (case si_as_type self of
             Some T \<Rightarrow> flush_child T t out
           | None \<Rightarrow> flush_fields (si_fields self) t out))"

text \<open>\<open>dflt\<close> has the default value in every field that is not loaded.\<close>

fun load_fields :: "bool \<Rightarrow> (byte \<Rightarrow> byte \<Rightarrow> string) \<Rightarrow> 't \<Rightarrow> ('s, 't) state_field list \<Rightarrow> 's \<Rightarrow> 't \<Rightarrow> (loader, 't) op" where
  "load_fields compat_mode msg dflt [] s t = op_ok t"
| "load_fields compat_mode msg dflt (f # fs) s t =
     op_bind (if \<not> sf_as_type f \<and> sf_skip f then load_skipped_child dflt
              else load_child compat_mode msg (sf_state f) s) (\<lambda>x.
       load_fields compat_mode msg dflt fs s (sf_copy f x t))"

definition load_method :: "bool \<Rightarrow> (byte \<Rightarrow> byte \<Rightarrow> string) \<Rightarrow> 't \<Rightarrow> ('s, 't) state_input \<Rightarrow> ('s, 't) state_field option
    \<Rightarrow> 's \<Rightarrow> bytes \<Rightarrow> bytes \<Rightarrow> ('t \<times> bytes) result" where
  "load_method compat_mode msg dflt self inner s store bytes =
     (case (case inner of
              Some f \<Rightarrow> op_bind (load_transparent_child_inner compat_mode (sf_state f) s) (\<lambda>x. op_ok (sf_copy f x dflt))
            | None \<Rightarrow> (case si_as_type self of
                  Some T \<Rightarrow> load_child compat_mode msg T s
                | None \<Rightarrow> load_fields compat_mode msg dflt (si_fields self) s dflt))
          (loader_new store bytes (si_version self)) of
        (Ok v, l) \<Rightarrow> (case attach_method self inner store v of
            (Ok _, v') \<Rightarrow> Ok (v', ld_bytes l) | (Err e, _) \<Rightarrow> Err e | (Panic, _) \<Rightarrow> Panic)
      | (Err e, _) \<Rightarrow> Err e
      | (Panic, _) \<Rightarrow> Panic)"

definition field_keyop :: "('s, 't) state_input \<Rightarrow> ('s, 't) state_field option \<Rightarrow> string \<Rightarrow> store_prefix option" where
  "field_keyop self inner name =
     (case find (\<lambda>f. sf_name f = name)
         (case inner of Some f \<Rightarrow> [f] | None \<Rightarrow> filter (\<lambda>f. \<not> sf_skip f) (si_fields self)) of
        Some f \<Rightarrow> (case field_prefix f of Ok p \<Rightarrow> p | _ \<Rightarrow> None)
      | None \<Rightarrow> None)"

text \<open>The implementation.  Parsing the input runs \<open>ensure_prefixes\<close>.\<close>

definition derive_state :: "bool \<Rightarrow> (byte \<Rightarrow> byte \<Rightarrow> string) \<Rightarrow> 't \<Rightarrow> ('s, 't) state_input \<Rightarrow> ('s, 't) state_ops result" where
  "derive_state compat_mode msg dflt item =
     and_then (ensure_prefixes (si_allow_prefix_overlap item) {} 0 (si_fields item)) (\<lambda>fields.
       let self = item\<lparr>si_fields := fields\<rparr>
       in and_then (transparent_inner self) (\<lambda>inner. Ok \<lparr>
            st_attach = attach_method self inner,
            st_flush = flush_method compat_mode self inner,
            st_load = load_method compat_mode msg dflt self inner\<rparr>))"

section \<open>Derived encodings\<close>

record 't encoding_field =
  ef_codec :: "'t codec"
  ef_length :: "'t \<Rightarrow> nat result"
  ef_copy :: "'t \<Rightarrow> 't \<Rightarrow> 't"

fun encode_fields :: "'t encoding_field list \<Rightarrow> 't \<Rightarrow> (bytes, unit) op" where
  "encode_fields [] t = op_ok ()"
| "encode_fields (f # fs) t = op_bind (encode_child (ef_codec f) t) (\<lambda>_. encode_fields fs t)"

definition encode_into_method :: "bool \<Rightarrow> byte \<Rightarrow> 't encoding_field list \<Rightarrow> 't \<Rightarrow> bytes result" where
  "encode_into_method compat_mode version fs t =
     (case op_bind (encode_version compat_mode version) (\<lambda>_. encode_fields fs t) [] of
        (Ok _, out) \<Rightarrow> Ok out | (Err e, _) \<Rightarrow> Err e | (Panic, _) \<Rightarrow> Panic)"

definition encoding_length_method :: "'t encoding_field list \<Rightarrow> 't \<Rightarrow> nat result" where
  "encoding_length_method fs t =
     foldl (\<lambda>acc f. and_then acc (\<lambda>n. and_then (ef_length f t) (\<lambda>k. Ok (n + k)))) (Ok 1) fs"

fun decode_fields :: "bool \<Rightarrow> byte codec \<Rightarrow> 't encoding_field list \<Rightarrow> 't \<Rightarrow> (decoder, 't) op" where
  "decode_fields compat_mode u8c [] t = op_ok t"
| "decode_fields compat_mode u8c (f # fs) t =
     op_bind (decode_child compat_mode u8c (ef_codec f)) (\<lambda>x. decode_fields compat_mode u8c fs (ef_copy f x t))"

definition decode_method :: "bool \<Rightarrow> byte codec \<Rightarrow> 't \<Rightarrow> byte \<Rightarrow> 't encoding_field list \<Rightarrow> bytes \<Rightarrow> ('t \<times> bytes) result" where
  "decode_method compat_mode u8c blank version fs input =
     (case decode_fields compat_mode u8c fs blank (decoder_new input version) of
        (Ok v, d) \<Rightarrow> Ok (v, dc_bytes d) | (Err e, _) \<Rightarrow> Err e | (Panic, _) \<Rightarrow> Panic)"

definition derive_codec :: "bool \<Rightarrow> byte codec \<Rightarrow> 't \<Rightarrow> byte \<Rightarrow> 't encoding_field list \<Rightarrow> 't codec" where
  "derive_codec compat_mode u8c blank version fs =
     \<lparr>enc = encode_into_method compat_mode version fs, dec = decode_method compat_mode u8c blank version fs\<rparr>"

section \<open>Simple structs\<close>

text \<open>A field of a simple type, or one that is converted to and from a simple type.  Converted fields
  are not attached.\<close>

definition simple_field :: "('t \<Rightarrow> bool) \<Rightarrow> ('s, 't) state_field \<Rightarrow> bool" where
  "simple_field ok f \<longleftrightarrow> \<not> sf_transparent f
     \<and> (\<forall>t p. \<not> sf_as_type f \<longrightarrow> ok t \<longrightarrow> st_attach (sf_state f) p t = (Ok (), t))
     \<and> (\<forall>t. ok t \<longrightarrow> (\<exists>bs. (\<forall>s. st_flush (sf_state f) t s = (Ok bs, s))
          \<and> (\<forall>s p rest. \<exists>x. st_load (sf_state f) s p (bs @ rest) = Ok (x, rest) \<and> (\<forall>u. sf_copy f x u = sf_copy f t u))))"

text \<open>A field given by how it is read and replaced.\<close>

definition struct_field :: "string \<Rightarrow> ('t \<Rightarrow> 'u) \<Rightarrow> ('u \<Rightarrow> 't \<Rightarrow> 't) \<Rightarrow> 't \<Rightarrow> ('s, 'u) state_ops \<Rightarrow> ('s, 't) state_field" where
  "struct_field name sel upd blank U = \<lparr>sf_name = name, sf_as_type = False, sf_skip = False, sf_transparent = False,
     sf_prefix = None, sf_absolute_prefix = None,
     sf_state = \<lparr>
       st_attach = (\<lambda>store t. case st_attach U store (sel t) of (r, x) \<Rightarrow> (r, upd x t)),
       st_flush = (\<lambda>t. st_flush U (sel t)),
       st_load = (\<lambda>s store bytes. and_then (st_load U s store bytes) (\<lambda>(x, bytes). Ok (upd x blank, bytes)))\<rparr>,
     sf_copy = (\<lambda>from to. upd (sel from) to)\<rparr>"

lemma struct_field_simple:
  assumes "simple_state U okU" and "\<And>t. ok t \<Longrightarrow> okU (sel t)"
    and lens: "\<And>t. upd (sel t) t = t" "\<And>x t. sel (upd x t) = x"
  shows "simple_field ok (struct_field name sel upd blank U)"
proof -
  have "\<exists>bs. (\<forall>s. st_flush U (sel t) s = (Ok bs, s))
      \<and> (\<forall>s p rest. st_load U s p (bs @ rest) = Ok (sel t, rest))" if "ok t" for t
    using simple_state.flush_load [OF assms(1)] assms(2) [OF that] by blast
  then show ?thesis
    using simple_state.attach_id [OF assms(1) assms(2)] lens by (fastforce simp: simple_field_def struct_field_def)
qed

text \<open>A type that is stored as another one: \<open>into\<close> and \<open>back\<close> are the two \<^verbatim>\<open>From\<close> conversions.\<close>

definition converted_state :: "('u \<Rightarrow> 'w) \<Rightarrow> ('w \<Rightarrow> 'u) \<Rightarrow> ('s, 'w) state_ops \<Rightarrow> ('s, 'u) state_ops" where
  "converted_state into back T = \<lparr>
     st_attach = (\<lambda>_. op_ok ()),
     st_flush = (\<lambda>x. st_flush T (into x)),
     st_load = (\<lambda>s store bytes. and_then (st_load T s store bytes) (\<lambda>(x, bytes). Ok (back x, bytes)))\<rparr>"

lemma converted_child:
  "flush_child (converted_state into back T) = flush_child_as into T"
  "load_child m msg (converted_state into back T) s = load_child_as m msg back T s"
proof -
  show "flush_child (converted_state into back T) = flush_child_as into T"
    by (simp add: fun_eq_iff flush_child_def flush_child_as_def converted_state_def)
  show "load_child m msg (converted_state into back T) s = load_child_as m msg back T s"
  proof
    fix l
    show "load_child m msg (converted_state into back T) s l = load_child_as m msg back T s l"
      by (auto simp: load_child_def load_child_as_def converted_state_def op_bind_def Let_def split: result.splits list.splits)
  qed
qed

lemma converted_state_simple:
  assumes "simple_state T okT" and "\<And>x. ok x \<Longrightarrow> okT (into x) \<and> back (into x) = x"
  shows "simple_state (converted_state into back T) ok"
proof
  fix x p assume x: "ok x"
  show "st_attach (converted_state into back T) p x = (Ok (), x)" by (simp add: converted_state_def)
  obtain bs where "\<forall>s. st_flush T (into x) s = (Ok bs, s)" "\<forall>s p rest. st_load T s p (bs @ rest) = Ok (into x, rest)"
    using simple_state.flush_load [OF assms(1)] assms(2) [OF x] by blast
  then show "\<exists>bs. (\<forall>s. st_flush (converted_state into back T) x s = (Ok bs, s))
      \<and> (\<forall>s p rest. st_load (converted_state into back T) s p (bs @ rest) = Ok (x, rest))"
    using assms(2) [OF x] by (intro exI [of _ bs]) (simp add: converted_state_def)
qed

text \<open>Which fields are loaded.  Copying every field gives the whole struct.\<close>

abbreviation sf_loaded :: "('s, 't) state_field \<Rightarrow> bool" where
  "sf_loaded f \<equiv> sf_as_type f \<or> \<not> sf_skip f"

definition copy_fields :: "'t \<Rightarrow> ('s, 't) state_field list \<Rightarrow> 't \<Rightarrow> 't \<Rightarrow> 't" where
  "copy_fields dflt fs t u = foldl (\<lambda>u f. sf_copy f (if sf_loaded f then t else dflt) u) u fs"

lemma copy_fields_simps [simp]:
  "copy_fields dflt [] t u = u"
  "copy_fields dflt (f # fs) t u = copy_fields dflt fs t (sf_copy f (if sf_loaded f then t else dflt) u)"
  by (simp_all add: copy_fields_def)

lemma word_add_small:
  fixes n :: byte
  assumes "unat n + k < 256" and "0 < k"
  shows "word_add n 1 = Ok (n + 1)" and "unat (n + 1) = Suc (unat n)"
proof -
  have "unat n + unat (1 :: byte) < 2 ^ LENGTH(8)" using assms by simp
  then show "unat (n + 1) = Suc (unat n)" by (subst unat_add_lem [THEN iffD1]) simp_all
  then show "word_add n 1 = Ok (n + 1)" using assms by (simp add: word_add_def checked_add_def)
qed

text \<open>\<open>ensure_prefixes\<close> changes prefixes only.\<close>

lemma ensure_prefixes_fields:
  "ensure_prefixes ov seen n fs = Ok fs' \<Longrightarrow>
     length fs' = length fs \<and> map sf_transparent fs' = map sf_transparent fs \<and> (list_all (simple_field ok) fs \<longrightarrow> list_all (simple_field ok) fs')
     \<and> copy_fields dflt fs' t u = copy_fields dflt fs t u"
proof (induction fs arbitrary: seen n fs' u)
  case (Cons f fs)
  then obtain g gs m sn where g: "fs' = g # gs" "g = f \<or> (\<exists>p. g = f\<lparr>sf_prefix := Some p\<rparr>)" "ensure_prefixes ov sn m fs = Ok gs"
    by (auto simp: result_simps Let_def split: if_splits) blast+
  have "simple_field ok g = simple_field ok f" "sf_copy g = sf_copy f" "sf_loaded g = sf_loaded f"
    using g(2) by (auto simp: simple_field_def)
  moreover have "sf_transparent g = sf_transparent f" using g(2) by auto
  ultimately show ?case using Cons.IH [OF g(3)] g(1) by simp
qed simp

lemma attach_fields_id:
  "list_all (simple_field ok) fs \<Longrightarrow> ok t \<Longrightarrow> unat (at_field_count a) + length fs < 256
    \<Longrightarrow> list_all (\<lambda>f. field_prefix f \<noteq> Panic \<and> (\<forall>e. field_prefix f \<noteq> Err e)) fs \<Longrightarrow> attach_fields fs a t = (Ok (), t)"
proof (induction fs arbitrary: a)
  case (Cons f fs)
  have at: "attach_at (sf_state f) q a t = (Ok (a\<lparr>at_field_count := at_field_count a + 1\<rparr>), t)" if "\<not> sf_as_type f" for q
    using that Cons.prems word_add_small [of "at_field_count a" "length (f # fs)"]
    by (simp add: attach_at_def simple_field_def attacher_count_def)
  obtain p where p: "field_prefix f = Ok p" using Cons.prems(4) by (cases "field_prefix f") auto
  have "\<exists>a'. attach_field f a t = (Ok a', t) \<and> unat (at_field_count a') \<le> Suc (unat (at_field_count a))"
    using Cons.prems(1,3) p at word_add_small [of "at_field_count a" "length (f # fs)"]
    by (auto simp: attach_field_def simple_field_def attach_child_as_def attacher_count_def attach_skipped_child_def attach_child_def
        attach_child_with_relative_prefix_def attach_child_with_absolute_prefix_def split: option.splits store_prefix.splits)
  then show ?case using Cons by (auto simp: less_le_trans)
qed simp

lemma ensure_prefixes_defined:
  "ensure_prefixes ov seen n fs = Ok fs' \<Longrightarrow> list_all (\<lambda>f. field_prefix f \<noteq> Panic \<and> (\<forall>e. field_prefix f \<noteq> Err e)) fs'"
proof (induction fs arbitrary: seen n fs')
  case (Cons f fs)
  then show ?case
    by (auto simp: result_simps Let_def split: if_splits option.splits store_prefix.splits) (auto simp: field_prefix_def split: option.splits)
qed simp

lemma ensure_prefixes_skips: "ensure_prefixes ov seen n fs = Ok fs' \<Longrightarrow> list_ex sf_loaded fs' = list_ex sf_loaded fs"
  by (induction fs arbitrary: seen n fs') (auto simp: result_simps Let_def split: if_splits)

text \<open>Flushing the fields and loading them.  The version byte is checked with the first field
  that is loaded, so there has to be one.\<close>

definition field_bytes :: "('s, 't) state_field \<Rightarrow> 't \<Rightarrow> bytes \<Rightarrow> bool" where
  "field_bytes f t bs \<longleftrightarrow> (\<forall>s. st_flush (sf_state f) t s = (Ok bs, s))
     \<and> (\<forall>s p rest. \<exists>x. st_load (sf_state f) s p (bs @ rest) = Ok (x, rest) \<and> (\<forall>u. sf_copy f x u = sf_copy f t u))"

lemma load_child_next:
  assumes "field_bytes f t bs" and "ld_field_count l \<noteq> 0 \<or> m" and "unat (ld_field_count l) + k < 256" and "0 < k"
    and "ld_bytes l = bs @ rest"
  shows "\<exists>x. load_child m msg (sf_state f) s l = (Ok x, l\<lparr>ld_bytes := rest, ld_field_count := ld_field_count l + 1\<rparr>)
    \<and> (\<forall>u. sf_copy f x u = sf_copy f t u)"
proof -
  obtain x where "st_load (sf_state f) s (store_sub (ld_store l) [ld_field_count l]) (bs @ rest) = Ok (x, rest)"
      "\<forall>u. sf_copy f x u = sf_copy f t u"
    using assms(1) unfolding field_bytes_def by blast
  then show ?thesis
    using assms(2,5) word_add_small [OF assms(3,4)] by (auto simp: load_child_def op_bind_def)
qed

lemma load_fields_next:
  assumes "list_all (simple_field ok) fs" and "ok t"
  shows "\<exists>bs. (\<forall>s out. flush_fields fs t out s = (Ok (out @ bs), s))
    \<and> (\<forall>s l u rest. ld_field_count l \<noteq> 0 \<longrightarrow> unat (ld_field_count l) + length fs < 256 \<longrightarrow> ld_bytes l = bs @ rest \<longrightarrow>
         (\<exists>l'. load_fields m msg dflt fs s u l = (Ok (copy_fields dflt fs t u), l') \<and> ld_bytes l' = rest))"
  using assms(1)
proof (induction fs)
  case (Cons f fs)
  then obtain bs where bs: "\<forall>s out. flush_fields fs t out s = (Ok (out @ bs), s)"
      "\<And>s l u rest. ld_field_count l \<noteq> 0 \<Longrightarrow> unat (ld_field_count l) + length fs < 256 \<Longrightarrow> ld_bytes l = bs @ rest \<Longrightarrow>
         \<exists>l'. load_fields m msg dflt fs s u l = (Ok (copy_fields dflt fs t u), l') \<and> ld_bytes l' = rest" by auto
  obtain a where a: "field_bytes f t a" using Cons.prems assms(2) by (auto simp: simple_field_def field_bytes_def)
  show ?case
  proof (cases "sf_loaded f")
    case False
    then show ?thesis using bs by (intro exI [of _ bs]) (simp add: flush_skipped_child_def load_skipped_child_def)
  next
    case True
    then have ld: "(\<not> sf_as_type f \<and> sf_skip f) = False" by blast
    have "\<exists>l'. load_fields m msg dflt (f # fs) s u l = (Ok (copy_fields dflt (f # fs) t u), l') \<and> ld_bytes l' = rest"
      if l: "ld_field_count l \<noteq> 0" "unat (ld_field_count l) + length (f # fs) < 256" "ld_bytes l = (a @ bs) @ rest" for s l u rest
    proof -
      obtain x where x: "load_child m msg (sf_state f) s l
            = (Ok x, l\<lparr>ld_bytes := bs @ rest, ld_field_count := ld_field_count l + 1\<rparr>)" "\<forall>u. sf_copy f x u = sf_copy f t u"
        using load_child_next [OF a, of l m "length (f # fs)" "bs @ rest" msg s] l by auto
      have "unat (ld_field_count l + 1) = Suc (unat (ld_field_count l))"
        using word_add_small [of "ld_field_count l" "length (f # fs)"] l(2) by simp
      then have "ld_field_count l + 1 \<noteq> 0" "unat (ld_field_count l + 1) + length fs < 256" using l(2) by auto
      then show ?thesis using bs(2) [of "l\<lparr>ld_bytes := bs @ rest, ld_field_count := ld_field_count l + 1\<rparr>" rest] x True
        by (simp add: op_bind_def ld)
    qed
    moreover have "flush_fields (f # fs) t out s = (Ok (out @ a @ bs), s)" for s out
      using a bs(1) by (simp add: field_bytes_def flush_child_def op_bind_def ld)
    ultimately show ?thesis by (intro exI [of _ "a @ bs"]) auto
  qed
qed simp

lemma load_fields_first:
  assumes "list_all (simple_field ok) fs" and "ok t" and "length fs < 256" and "list_ex sf_loaded fs"
  shows "\<exists>bs. (\<forall>s out. flush_fields fs t out s = (Ok (out @ bs), s))
    \<and> (\<forall>s l u rest. ld_field_count l = 0 \<longrightarrow> ld_bytes l = (if m then [] else [ld_version l]) @ bs @ rest \<longrightarrow>
         (\<exists>l'. load_fields m msg dflt fs s u l = (Ok (copy_fields dflt fs t u), l') \<and> ld_bytes l' = rest))"
  using assms(1,3,4)
proof (induction fs)
  case (Cons f fs)
  show ?case
  proof (cases "sf_loaded f")
    case False
    then obtain bs where "\<forall>s out. flush_fields fs t out s = (Ok (out @ bs), s)"
        "\<forall>s l u rest. ld_field_count l = 0 \<longrightarrow> ld_bytes l = (if m then [] else [ld_version l]) @ bs @ rest \<longrightarrow>
         (\<exists>l'. load_fields m msg dflt fs s u l = (Ok (copy_fields dflt fs t u), l') \<and> ld_bytes l' = rest)"
      using Cons by auto
    then show ?thesis
      using False by (intro exI [of _ bs]) (simp add: flush_skipped_child_def load_skipped_child_def)
  next
    case True
    then have ld: "(\<not> sf_as_type f \<and> sf_skip f) = False" by blast
    have fs: "list_all (simple_field ok) fs" using Cons.prems(1) by simp
    obtain bs where bs: "\<forall>s out. flush_fields fs t out s = (Ok (out @ bs), s)"
        "\<And>s l u rest. ld_field_count l \<noteq> 0 \<Longrightarrow> unat (ld_field_count l) + length fs < 256 \<Longrightarrow> ld_bytes l = bs @ rest \<Longrightarrow>
         \<exists>l'. load_fields m msg dflt fs s u l = (Ok (copy_fields dflt fs t u), l') \<and> ld_bytes l' = rest"
      using load_fields_next [OF fs assms(2), of m msg dflt] by blast
    obtain a where a: "field_bytes f t a"
      using Cons.prems(1) assms(2) by (auto simp: simple_field_def field_bytes_def)
    have "\<exists>l'. load_fields m msg dflt (f # fs) s u l = (Ok (copy_fields dflt (f # fs) t u), l') \<and> ld_bytes l' = rest"
      if l: "ld_field_count l = 0" "ld_bytes l = (if m then [] else [ld_version l]) @ (a @ bs) @ rest" for s l u rest
    proof -
      obtain x where x: "st_load (sf_state f) s (store_sub (ld_store l) [0]) (a @ bs @ rest) = Ok (x, bs @ rest)"
          "\<forall>u. sf_copy f x u = sf_copy f t u"
        using a unfolding field_bytes_def by blast
      have "load_child m msg (sf_state f) s l = (Ok x, l\<lparr>ld_bytes := bs @ rest, ld_field_count := 1\<rparr>)"
        using x(1) l by (cases m) (auto simp: load_child_def op_bind_def word_add_def checked_add_def)
      then show ?thesis
        using bs(2) [of "l\<lparr>ld_bytes := bs @ rest, ld_field_count := 1\<rparr>" rest] x(2) True Cons.prems(2) by (simp add: op_bind_def ld)
    qed
    moreover have "flush_fields (f # fs) t out s = (Ok (out @ a @ bs), s)" for s out
      using a bs(1) by (simp add: field_bytes_def flush_child_def op_bind_def ld)
    ultimately show ?thesis by (intro exI [of _ "a @ bs"]) auto
  qed
qed simp

lemma no_transparent:
  "list_all (simple_field ok) (si_fields self) \<Longrightarrow> \<not> si_transparent self \<Longrightarrow> transparent_inner self = Ok None"
  by (simp add: transparent_inner_def simple_field_def list_all_iff filter_empty_conv)

lemma derived_is_simple:
  assumes D: "derive_state m msg dflt item = Ok D" and simple: "list_all (simple_field ok) (si_fields item)"
    and item: "\<not> si_transparent item" "si_as_type item = None" "length (si_fields item) < 256"
      "list_ex sf_loaded (si_fields item)"
    and covers: "\<And>t. ok t \<Longrightarrow> copy_fields dflt (si_fields item) t dflt = t"
  shows "simple_state D ok"
proof -
  obtain fs where fs: "ensure_prefixes (si_allow_prefix_overlap item) {} 0 (si_fields item) = Ok fs"
    using D by (auto simp: derive_state_def result_simps)
  let ?self = "item\<lparr>si_fields := fs\<rparr>"
  have f: "length fs = length (si_fields item)" "list_all (simple_field ok) fs"
      "\<And>t u. copy_fields dflt fs t u = copy_fields dflt (si_fields item) t u"
    using ensure_prefixes_fields [OF fs, of ok dflt] simple by auto
  have inner: "transparent_inner ?self = Ok None" by (rule no_transparent) (use f(2) item(1) in simp_all)
  have D': "st_attach D = attach_method ?self None" "st_flush D = flush_method m ?self None"
      "st_load D = load_method m msg dflt ?self None"
    using D fs inner by (auto simp: derive_state_def Let_def)
  have ex: "list_ex sf_loaded fs" using item(4) ensure_prefixes_skips [OF fs] by simp
  have at: "attach_method ?self None p t = (Ok (), t)" if "ok t" for p t
    using attach_fields_id [OF f(2) that, of "attacher_new p"] ensure_prefixes_defined [OF fs] f(1) item
    by (simp add: attach_method_def attacher_new_def)
  show ?thesis
  proof
    fix t p assume t: "ok t"
    then show "st_attach D p t = (Ok (), t)" by (simp add: D' at)
    obtain bs where bs: "\<forall>s out. flush_fields fs t out s = (Ok (out @ bs), s)"
        "\<And>s l u rest. ld_field_count l = 0 \<Longrightarrow> ld_bytes l = (if m then [] else [ld_version l]) @ bs @ rest \<Longrightarrow>
         \<exists>l'. load_fields m msg dflt fs s u l = (Ok (copy_fields dflt fs t u), l') \<and> ld_bytes l' = rest"
      using load_fields_first [OF f(2) t _ ex, of m msg dflt] f(1) item(3) by auto
    let ?bs = "(if m then [] else [si_version item]) @ bs"
    have "st_load D s q (?bs @ rest) = Ok (t, rest)" for s q rest
    proof -
      obtain l' where "load_fields m msg dflt fs s dflt (loader_new q (?bs @ rest) (si_version item)) = (Ok t, l')" "ld_bytes l' = rest"
        using bs(2) [of "loader_new q (?bs @ rest) (si_version item)" rest s dflt] covers [OF t] f(3)
        by (cases m) (auto simp: loader_new_def)
      then show ?thesis using at [OF t, of q] item(2) by (simp add: D' load_method_def)
    qed
    moreover have "st_flush D t s = (Ok ?bs, s)" for s
      using bs(1) item(2) by (simp add: D' flush_method_def flush_version_def op_bind_def)
    ultimately show "\<exists>bs. (\<forall>s. st_flush D t s = (Ok bs, s)) \<and> (\<forall>s p rest. st_load D s p (bs @ rest) = Ok (t, rest))" by blast
  qed
qed

text \<open>A struct that is converted as a whole.\<close>

lemma converted_is_simple:
  assumes D: "derive_state m msg dflt item = Ok D" and T: "si_as_type item = Some T" "simple_state T ok"
    and item: "\<not> si_transparent item" "\<not> list_ex sf_transparent (si_fields item)"
  shows "simple_state D ok"
proof -
  obtain fs where fs: "ensure_prefixes (si_allow_prefix_overlap item) {} 0 (si_fields item) = Ok fs"
    using D by (auto simp: derive_state_def result_simps)
  let ?self = "item\<lparr>si_fields := fs\<rparr>"
  have "map sf_transparent fs = map sf_transparent (si_fields item)" using ensure_prefixes_fields [OF fs] by blast
  then have "\<not> list_ex sf_transparent fs" using item(2) by (metis list_ex_iff list.set_map imageE imageI)
  then have inner: "transparent_inner ?self = Ok None" using item(1) by (simp add: transparent_inner_def list_ex_iff filter_empty_conv)
  have D': "st_attach D = attach_method ?self None" "st_flush D = flush_method m ?self None"
      "st_load D = load_method m msg dflt ?self None"
    using D fs inner by (auto simp: derive_state_def Let_def)
  have at: "attach_method ?self None p t = (Ok (), t)" for p t
    using T(1) by (simp add: attach_method_def attacher_new_def attach_child_as_def attacher_count_def word_add_def checked_add_def)
  show ?thesis
  proof
    fix t p assume t: "ok t"
    show "st_attach D p t = (Ok (), t)" by (simp add: D' at)
    obtain bs where bs: "\<forall>s. st_flush T t s = (Ok bs, s)" "\<forall>s p rest. st_load T s p (bs @ rest) = Ok (t, rest)"
      using simple_state.flush_load [OF T(2) t] by blast
    let ?bs = "(if m then [] else [si_version item]) @ bs"
    have "st_load D s q (?bs @ rest) = Ok (t, rest)" for s q rest
      using bs(2) T(1) at
      by (cases m) (simp_all add: D' load_method_def load_child_def loader_new_def op_bind_def word_add_def checked_add_def)
    moreover have "st_flush D t s = (Ok ?bs, s)" for s
      using bs(1) T(1) by (simp add: D' flush_method_def flush_version_def flush_child_def op_bind_def)
    ultimately show "\<exists>bs. (\<forall>s. st_flush D t s = (Ok bs, s)) \<and> (\<forall>s p rest. st_load D s p (bs @ rest) = Ok (t, rest))" by blast
  qed
qed

section \<open>Terminated structs\<close>

definition terminated_field :: "('t \<Rightarrow> bool) \<Rightarrow> 't encoding_field \<Rightarrow> bool" where
  "terminated_field ok f \<longleftrightarrow> (\<forall>t. ok t \<longrightarrow> (\<exists>bs. enc (ef_codec f) t = Ok bs \<and> ef_length f t = Ok (length bs)
     \<and> (\<forall>rest. \<exists>x. dec (ef_codec f) (bs @ rest) = Ok (x, rest) \<and> (\<forall>u. ef_copy f x u = ef_copy f t u))))"

definition struct_encoding :: "('t \<Rightarrow> 'u) \<Rightarrow> ('u \<Rightarrow> 't \<Rightarrow> 't) \<Rightarrow> 't \<Rightarrow> ('u \<Rightarrow> nat result) \<Rightarrow> 'u codec \<Rightarrow> 't encoding_field" where
  "struct_encoding sel upd blank len c = \<lparr>
     ef_codec = \<lparr>enc = (\<lambda>t. enc c (sel t)), dec = (\<lambda>bytes. and_then (dec c bytes) (\<lambda>(x, rest). Ok (upd x blank, rest)))\<rparr>,
     ef_length = (\<lambda>t. len (sel t)),
     ef_copy = (\<lambda>from to. upd (sel from) to)\<rparr>"

lemma struct_encoding_terminated:
  assumes "terminated_codec c okU" and "\<And>t. ok t \<Longrightarrow> okU (sel t)" and "\<And>x t. sel (upd x t) = x"
    and "\<And>x bs. okU x \<Longrightarrow> enc c x = Ok bs \<Longrightarrow> len x = Ok (length bs)"
  shows "terminated_field ok (struct_encoding sel upd blank len c)"
  using terminated_codec.enc_total [OF assms(1)] terminated_codec.dec_enc [OF assms(1)] assms(2-)
  by (fastforce simp: terminated_field_def struct_encoding_def)

definition copy_encoded :: "'t encoding_field list \<Rightarrow> 't \<Rightarrow> 't \<Rightarrow> 't" where
  "copy_encoded fs t u = foldl (\<lambda>u f. ef_copy f t u) u fs"

lemma copy_encoded_simps [simp]: "copy_encoded [] t u = u" "copy_encoded (f # fs) t u = copy_encoded fs t (ef_copy f t u)"
  by (simp_all add: copy_encoded_def)

lemma encode_fields_law:
  assumes "list_all (terminated_field ok) fs" and "ok t"
  shows "\<exists>bs. (\<forall>out. encode_fields fs t out = (Ok (), out @ bs))
    \<and> (\<forall>n. foldl (\<lambda>acc f. and_then acc (\<lambda>n. and_then (ef_length f t) (\<lambda>k. Ok (n + k)))) (Ok n) fs = Ok (n + length bs))
    \<and> (\<forall>d u rest. (dc_field_count d \<noteq> 0 \<or> m) \<longrightarrow> unat (dc_field_count d) + length fs < 256 \<longrightarrow> dc_bytes d = bs @ rest \<longrightarrow>
         (\<exists>d'. decode_fields m u8c fs u d = (Ok (copy_encoded fs t u), d') \<and> dc_bytes d' = rest))"
  using assms(1)
proof (induction fs)
  case (Cons f fs)
  then obtain bs where bs: "\<forall>out. encode_fields fs t out = (Ok (), out @ bs)"
      "\<And>n. foldl (\<lambda>acc f. and_then acc (\<lambda>n. and_then (ef_length f t) (\<lambda>k. Ok (n + k)))) (Ok n) fs = Ok (n + length bs)"
      "\<And>d u rest. (dc_field_count d \<noteq> 0 \<or> m) \<Longrightarrow> unat (dc_field_count d) + length fs < 256 \<Longrightarrow> dc_bytes d = bs @ rest \<Longrightarrow>
         \<exists>d'. decode_fields m u8c fs u d = (Ok (copy_encoded fs t u), d') \<and> dc_bytes d' = rest" by auto
  obtain a where a: "enc (ef_codec f) t = Ok a" "ef_length f t = Ok (length a)"
      "\<forall>rest. \<exists>x. dec (ef_codec f) (a @ rest) = Ok (x, rest) \<and> (\<forall>u. ef_copy f x u = ef_copy f t u)"
    using Cons.prems assms(2) by (auto simp: terminated_field_def)
  have "\<exists>d'. decode_fields m u8c (f # fs) u d = (Ok (copy_encoded (f # fs) t u), d') \<and> dc_bytes d' = rest"
    if d: "dc_field_count d \<noteq> 0 \<or> m" "unat (dc_field_count d) + length (f # fs) < 256" "dc_bytes d = (a @ bs) @ rest" for d u rest
  proof -
    obtain x where x: "dec (ef_codec f) (a @ bs @ rest) = Ok (x, bs @ rest)" "\<forall>u. ef_copy f x u = ef_copy f t u" using a(3) by blast
    have w: "word_add (dc_field_count d) 1 = Ok (dc_field_count d + 1)" "unat (dc_field_count d + 1) = Suc (unat (dc_field_count d))"
      using word_add_small [of "dc_field_count d" "length (f # fs)"] d(2) by simp_all
    let ?d = "d\<lparr>dc_bytes := bs @ rest, dc_field_count := dc_field_count d + 1\<rparr>"
    have "decode_child m u8c (ef_codec f) d = (Ok x, ?d)" using x(1) d(1,3) w(1) by (auto simp: decode_child_def op_bind_def)
    moreover have "dc_field_count d + 1 \<noteq> 0" using w(2) by auto
    then obtain d' where "decode_fields m u8c fs (ef_copy f x u) ?d = (Ok (copy_encoded fs t (ef_copy f x u)), d')" "dc_bytes d' = rest"
      using bs(3) [of ?d rest "ef_copy f x u"] w(2) d(2) by auto
    ultimately show ?thesis using x(2) by (simp add: op_bind_def)
  qed
  moreover have "encode_fields (f # fs) t out = (Ok (), out @ a @ bs)" for out
    using a(1) bs(1) by (simp add: encode_child_def op_bind_def)
  moreover have "foldl (\<lambda>acc f. and_then acc (\<lambda>n. and_then (ef_length f t) (\<lambda>k. Ok (n + k)))) (Ok n) (f # fs) = Ok (n + length (a @ bs))" for n
    using bs(2) [of "n + length a"] a(2) by simp
  ultimately show ?case by (intro exI [of _ "a @ bs"]) auto
qed simp

lemma derived_is_terminated:
  assumes "list_all (terminated_field ok) fs" and "fs \<noteq> []" and "length fs < 256"
    and u8: "\<And>b rest. dec u8c (b # rest) = Ok (b, rest)" and covers: "\<And>t. ok t \<Longrightarrow> copy_encoded fs t blank = t"
  shows "terminated_codec (derive_codec m u8c blank version fs) ok"
    and "ok t \<Longrightarrow> \<exists>bs. enc (derive_codec m u8c blank version fs) t = Ok bs
      \<and> encoding_length_method fs t = Ok (if m then Suc (length bs) else length bs)"
proof -
  obtain f gs where fs: "fs = f # gs" using assms(2) by (cases fs) auto
  have law: "\<exists>bs. enc (derive_codec m u8c blank version fs) t = Ok bs
      \<and> encoding_length_method fs t = Ok (if m then Suc (length bs) else length bs)
      \<and> (\<forall>rest. dec (derive_codec m u8c blank version fs) (bs @ rest) = Ok (t, rest))" if t: "ok t" for t
  proof -
    obtain bs where bs: "\<forall>out. encode_fields gs t out = (Ok (), out @ bs)"
        "\<And>n. foldl (\<lambda>acc f. and_then acc (\<lambda>n. and_then (ef_length f t) (\<lambda>k. Ok (n + k)))) (Ok n) gs = Ok (n + length bs)"
        "\<And>d u rest. (dc_field_count d \<noteq> 0 \<or> m) \<Longrightarrow> unat (dc_field_count d) + length gs < 256 \<Longrightarrow> dc_bytes d = bs @ rest \<Longrightarrow>
          \<exists>d'. decode_fields m u8c gs u d = (Ok (copy_encoded gs t u), d') \<and> dc_bytes d' = rest"
      using encode_fields_law [of ok gs t m u8c] assms(1) t fs by auto
    obtain a where a: "enc (ef_codec f) t = Ok a" "ef_length f t = Ok (length a)"
        "\<forall>rest. \<exists>x. dec (ef_codec f) (a @ rest) = Ok (x, rest) \<and> (\<forall>u. ef_copy f x u = ef_copy f t u)"
      using assms(1) t fs by (auto simp: terminated_field_def)
    let ?bs = "(if m then [] else [version]) @ a @ bs"
    have "dec (derive_codec m u8c blank version fs) (?bs @ rest) = Ok (t, rest)" for rest
    proof -
      obtain x where x: "dec (ef_codec f) (a @ bs @ rest) = Ok (x, bs @ rest)" "\<forall>u. ef_copy f x u = ef_copy f t u" using a(3) by blast
      let ?d = "\<lparr>dc_field_count = 1, dc_version = version, dc_bytes = bs @ rest\<rparr>"
      obtain d' where "decode_fields m u8c gs (ef_copy f t blank) ?d = (Ok (copy_encoded gs t (ef_copy f t blank)), d')" "dc_bytes d' = rest"
        using bs(3) [of ?d rest "ef_copy f t blank"] assms(3) fs by auto
      moreover have "decode_child m u8c (ef_codec f) (decoder_new (?bs @ rest) version) = (Ok x, ?d)"
        using x(1) u8 by (cases m) (auto simp: decode_child_def decoder_new_def op_bind_def word_add_def checked_add_def)
      ultimately show ?thesis using covers [OF t] x(2) fs by (simp add: derive_codec_def decode_method_def op_bind_def)
    qed
    moreover have "enc (derive_codec m u8c blank version fs) t = Ok ?bs"
      using a(1) bs(1) fs by (cases m) (simp_all add: derive_codec_def encode_into_method_def encode_version_def encode_child_def op_bind_def)
    moreover have "encoding_length_method fs t = Ok (if m then Suc (length ?bs) else length ?bs)"
      using bs(2) [of "Suc (length a)"] a(2) fs by (simp add: encoding_length_method_def)
    ultimately show ?thesis by blast
  qed
  then show "terminated_codec (derive_codec m u8c blank version fs) ok" by unfold_locales fastforce+
  show "\<exists>bs. enc (derive_codec m u8c blank version fs) t = Ok bs
      \<and> encoding_length_method fs t = Ok (if m then Suc (length bs) else length bs)" if "ok t"
    using law [OF that] by blast
qed

section \<open>Prefixes of fields\<close>

text \<open>The prefixes of the fields that are attached below the prefix of the struct.\<close>

definition relative_prefixes :: "('s, 't) state_field list \<Rightarrow> bytes list" where
  "relative_prefixes fs = List.map_filter (\<lambda>f. if sf_skip f then None else case field_prefix f of Ok (Some (Relative p)) \<Rightarrow> Some p | _ \<Rightarrow> None) fs"

lemma ensure_prefixes_distinct:
  "ensure_prefixes False seen n fs = Ok fs' \<Longrightarrow> distinct (relative_prefixes fs') \<and> set (relative_prefixes fs') \<inter> seen = {}"
proof (induction fs arbitrary: seen n fs')
  case Nil
  then show ?case by (simp add: relative_prefixes_def)
next
  case (Cons f fs)
  then obtain pfx where pfx: "field_prefix f = Ok pfx" by (auto simp: result_simps)
  show ?case
  proof (cases "(case pfx of Some (Absolute _) \<Rightarrow> True | _ \<Rightarrow> False) \<or> sf_skip f")
    case True
    then obtain gs where gs: "fs' = f # gs" "ensure_prefixes False seen n fs = Ok gs" using Cons.prems pfx by (auto simp: result_simps)
    moreover have "relative_prefixes (f # gs) = relative_prefixes gs"
      using True pfx by (auto simp: relative_prefixes_def split: option.splits store_prefix.splits)
    ultimately show ?thesis using Cons.IH by simp
  next
    case False
    then obtain p gs m where p: "p \<notin> seen" "fs' = f\<lparr>sf_prefix := Some p\<rparr> # gs" "ensure_prefixes False (insert p seen) m fs = Ok gs"
      using Cons.prems pfx by (auto simp: result_simps Let_def split: if_splits)
    have "sf_absolute_prefix f = None" using False pfx by (auto simp: field_prefix_def split: option.splits)
    then have "relative_prefixes fs' = p # relative_prefixes gs"
      using False p(2) by (simp add: relative_prefixes_def field_prefix_def)
    then show ?thesis using Cons.IH [OF p(3)] p(1) by auto
  qed
qed

section \<open>Properties\<close>


text \<open>A struct of a byte, a byte that is stored increased by one, and a byte that is not stored; and
  one that is stored as its third component only.\<close>

abbreviation example_fields :: "(unit, byte \<times> byte \<times> byte) state_field list" where
  "example_fields \<equiv> [struct_field ''a'' fst (\<lambda>x (_, b, c). (x, b, c)) (0, 0, 0) (leaf_state word_codec),
     (struct_field ''b'' (fst \<circ> snd) (\<lambda>x (a, _, c). (a, x, c)) (0, 0, 0) (converted_state (\<lambda>x. x + 1) (\<lambda>x. x - 1) (leaf_state word_codec)))\<lparr>sf_as_type := True\<rparr>,
     (struct_field ''c'' (snd \<circ> snd) (\<lambda>x (a, b, _). (a, b, x)) (0, 0, 0) (leaf_state word_codec))\<lparr>sf_skip := True\<rparr>]"

abbreviation example_input :: "(unit, byte \<times> byte \<times> byte) state_input" where
  "example_input \<equiv> \<lparr>si_version = 3, si_as_type = None, si_transparent = False, si_allow_prefix_overlap = False, si_fields = example_fields\<rparr>"

abbreviation example_as :: "(unit, byte \<times> byte \<times> byte) state_ops" where
  "example_as \<equiv> converted_state (snd \<circ> snd) (\<lambda>x. (0, 0, x)) (leaf_state word_codec)"

lemma simple_field_flags: "simple_field ok f \<Longrightarrow> simple_field ok (f\<lparr>sf_as_type := True\<rparr>) \<and> simple_field ok (f\<lparr>sf_skip := True\<rparr>)"
  by (simp add: simple_field_def)


text \<open>
  The derived encoding decodes to the struct, and \<open>encoding_length_method\<close> is the number of
  bytes written; in compatibility mode, where no version byte is written, it is one too large.
\<close>

lemma derived_encoding_round_trips:
  assumes "list_all (terminated_field ok) fs" and "fs \<noteq> []" and "length fs < 256" and "\<And>b rest. dec u8c (b # rest) = Ok (b, rest)"
    and "\<And>t. ok t \<Longrightarrow> copy_encoded fs t blank = t" and "ok t"
  shows "\<exists>bs. encode_into_method m version fs t = Ok bs \<and> decode_method m u8c blank version fs (bs @ rest) = Ok (t, rest)
    \<and> encoding_length_method fs t = Ok (if m then Suc (length bs) else length bs)"
  using derived_is_terminated(2) [OF assms(1-5) assms(6), where m = m and version = version]
    terminated_codec.dec_enc [OF derived_is_terminated(1) [OF assms(1-5), where m = m and version = version] assms(6)]
  by (auto simp: derive_codec_def)

lemma derived_encoding_round_trips_witness:
  "\<exists>bs. encode_into_method True 0 [struct_encoding id (\<lambda>x _. x) 0 (\<lambda>_. Ok 1) (word_codec :: byte codec)] 7 = Ok bs
    \<and> encoding_length_method [struct_encoding id (\<lambda>x _. x) 0 (\<lambda>_. Ok 1) (word_codec :: byte codec)] 7 = Ok (Suc (length bs))"
proof -
  have "terminated_field (\<lambda>_. True) (struct_encoding id (\<lambda>x _. x) 0 (\<lambda>_. Ok 1) (word_codec :: byte codec))"
    by (rule struct_encoding_terminated [OF u8_codec.terminated_codec_axioms]) auto
  then show ?thesis
    using derived_encoding_round_trips [where fs = "[struct_encoding id (\<lambda>x _. x) 0 (\<lambda>_. Ok 1) (word_codec :: byte codec)]"
        and ok = "\<lambda>_. True" and blank = 0 and u8c = word_codec and m = True and version = 0 and t = 7 and rest = "[]"]
    by (auto simp: struct_encoding_def)
qed

text \<open>
  The check for overlapping prefixes makes the relative prefixes of the fields different
  from each other.  It does not make them free of overlap: one may be the beginning of another.
\<close>

lemma field_prefixes_distinct_not_disjoint:
  "(ensure_prefixes False {} 0 fs = Ok fs' \<longrightarrow> distinct (relative_prefixes fs'))
   \<and> (\<exists>gs gs' :: (unit, unit) state_field list. ensure_prefixes False {} 0 gs = Ok gs' \<and> relative_prefixes gs' = [[1], [1, 2]])"
proof -
  let ?f = "\<lambda>p. (struct_field ''x'' id (\<lambda>x _. x) () phantom_state)\<lparr>sf_prefix := Some p\<rparr> :: (unit, unit) state_field"
  have "ensure_prefixes False {} 0 [?f [1], ?f [1, 2]] = Ok [?f [1], ?f [1, 2]]"
    by (simp add: struct_field_def field_prefix_def word_add_def checked_add_def)
  moreover have "relative_prefixes [?f [1], ?f [1, 2]] = [[1], [1, 2]]"
    by (simp add: relative_prefixes_def struct_field_def field_prefix_def)
  ultimately show ?thesis using ensure_prefixes_distinct [of "{}" 0 fs fs'] by blast
qed

lemma field_prefixes_distinct_not_disjoint_witness:
  "ensure_prefixes False {} 0 ([] :: (unit, unit) state_field list) = Ok [] \<and> distinct (relative_prefixes ([] :: (unit, unit) state_field list))"
  using field_prefixes_distinct_not_disjoint [of "[] :: (unit, unit) state_field list" "[]"] by simp

end
