(* ===== verification/Map_Entries.thy ===== *)
theory Map_Entries
  imports Map_Coll
begin

text \<open>
  How the modules above the collections use entries of a map: get or create the value of a
  key and change it in place.  The locale \<open>map_entries\<close> extends the contract of the map by the
  laws of these uses.  They hold for maps in which no key has been removed since the last
  flush (\<open>no_removed\<close>), because an entry that was removed in memory panics when it is used.
\<close>

text \<open>Running a method of the value through a mutable reference.\<close>

definition child_run :: "('s, 'k, 'v) map_types \<Rightarrow> ('v, 'a) op \<Rightarrow> ('k, 'v) child_mut \<Rightarrow> (('k, 'v) omap, 'a) op" where
  "child_run D f child m = (case child_deref m child of
      Ok v \<Rightarrow> (case f v of (r, v') \<Rightarrow>
        (case child_modify D (\<lambda>_. v') child m of
           (Ok _, m') \<Rightarrow> (r, m') | (Err e, m') \<Rightarrow> (Err e, m') | (Panic, m') \<Rightarrow> (Panic, m')))
    | Err e \<Rightarrow> (Err e, m)
    | Panic \<Rightarrow> (Panic, m))"

definition no_removed :: "('k, 'v) omap \<Rightarrow> bool" where
  "no_removed m \<longleftrightarrow> (\<forall>kb k. map_of (mp_children m) kb \<noteq> Some (k, None))"

text \<open>A reference \<open>c\<close> to the value \<open>v\<close> of the key \<open>k\<close>: reading gives \<open>v\<close>, and writing changes
  this key only.\<close>

definition refers :: "('s, 'k, 'v) map_types \<Rightarrow> (('k, 'v) omap \<Rightarrow> 's \<Rightarrow> 'k \<Rightarrow> 'v option) \<Rightarrow> (('k, 'v) omap \<Rightarrow> 's \<Rightarrow> bool)
    \<Rightarrow> ('k \<Rightarrow> bool) \<Rightarrow> ('v \<Rightarrow> bool) \<Rightarrow> ('k, 'v) omap \<Rightarrow> 's \<Rightarrow> 'k \<Rightarrow> 'v \<Rightarrow> ('k, 'v) child_mut \<Rightarrow> bool" where
  "refers D look mwf okk okv m s k v c \<longleftrightarrow> child_deref m c = Ok v
     \<and> (\<forall>v'. okv v' \<longrightarrow> (\<exists>c' m'. child_modify D (\<lambda>_. v') c m = (Ok c', m') \<and> mwf m' s \<and> mp_store m' = mp_store m
          \<and> (\<forall>k'. okk k' \<longrightarrow> look m' s k' = (if k' = k then Some v' else look m s k'))))"

definition or_else :: "'v \<Rightarrow> 'v option \<Rightarrow> 'v" where
  "or_else d x = (case x of None \<Rightarrow> d | Some v \<Rightarrow> v)"

lemma or_else_simps [simp]: "or_else d None = d" "or_else d (Some v) = v"
  by (simp_all add: or_else_def)

text \<open>Looking up and inserting, the part of the contract that removals play no role in.\<close>

locale map_access =
  fixes D :: "('s, 'k, 'v) map_types" and look :: "('k, 'v) omap \<Rightarrow> 's \<Rightarrow> 'k \<Rightarrow> 'v option"
    and wf :: "('k, 'v) omap \<Rightarrow> 's \<Rightarrow> bool" and okk :: "'k \<Rightarrow> bool" and okv :: "'v \<Rightarrow> bool"
  assumes access_get: "wf m s \<Longrightarrow> okk k \<Longrightarrow> \<exists>r. map_get D m s k = Ok r \<and> map_option ref_deref r = look m s k"
    and access_contains: "wf m s \<Longrightarrow> okk k \<Longrightarrow> map_contains_key D m s k = Ok (look m s k \<noteq> None)"
    and access_ok: "wf m s \<Longrightarrow> okk k \<Longrightarrow> look m s k = Some v \<Longrightarrow> okv v"
    and access_insert: "wf m s \<Longrightarrow> okk k \<Longrightarrow> okv v \<Longrightarrow> \<exists>m'. map_insert D k v m = (Ok (), m') \<and> wf m' s
      \<and> mp_store m' = mp_store m \<and> (\<forall>k'. okk k' \<longrightarrow> look m' s k' = (if k' = k then Some v else look m s k'))"

sublocale map_contract \<subseteq> access: map_access D look wf okk okv
  by unfold_locales (rule get_law contains_law look_ok insert_law; assumption)+

context map_contract
begin

lemmas access_contract = access.map_access_axioms

end

locale map_entries = map_access D look wf okk okv
  for D :: "('s, 'k, 'v) map_types" and look :: "('k, 'v) omap \<Rightarrow> 's \<Rightarrow> 'k \<Rightarrow> 'v option"
    and wf :: "('k, 'v) omap \<Rightarrow> 's \<Rightarrow> bool" and okk :: "'k \<Rightarrow> bool" and okv :: "'v \<Rightarrow> bool" +
  fixes dflt :: 'v
  assumes default_ok: "okv dflt"
    and get_mut_entry: "wf m s \<Longrightarrow> okk k \<Longrightarrow> \<exists>c. map_get_mut D m s k = Ok c
      \<and> (case look m s k of None \<Rightarrow> c = None | Some v \<Rightarrow> \<exists>x. c = Some x \<and> refers D look wf okk okv m s k v x)"
    and or_default_entry: "wf m s \<Longrightarrow> okk k \<Longrightarrow> \<exists>e c. entry D m s k = Ok e \<and> or_default D dflt e m = (Ok c, m)
      \<and> refers D look wf okk okv m s k (or_else dflt (look m s k)) c"
    and or_insert_entry: "wf m s \<Longrightarrow> okk k \<Longrightarrow> \<exists>e c m'. entry D m s k = Ok e \<and> or_insert_default D dflt e m = (Ok c, m')
      \<and> wf m' s \<and> mp_store m' = mp_store m
      \<and> (\<forall>k'. okk k' \<longrightarrow> look m' s k' = (if k' = k then Some (or_else dflt (look m s k)) else look m s k'))
      \<and> refers D look wf okk okv m' s k (or_else dflt (look m s k)) c"
    and get_or_default_entry: "wf m s \<Longrightarrow> okk k \<Longrightarrow> \<exists>r. map_get_or_default D dflt m s k = Ok r
      \<and> ref_deref r = or_else dflt (look m s k)"
begin

text \<open>Running a method through a reference: the result is the method's, and the value is
  changed to what the method leaves behind.\<close>

lemma child_run_law:
  assumes "refers D look wf okk okv m s k v c" and "f v = (r, v')" and "okv v'"
  shows "\<exists>m'. child_run D f c m = (r, m') \<and> wf m' s \<and> mp_store m' = mp_store m
    \<and> (\<forall>k'. okk k' \<longrightarrow> look m' s k' = (if k' = k then Some v' else look m s k'))"
proof -
  obtain c' m' where m': "child_modify D (\<lambda>_. v') c m = (Ok c', m')" "wf m' s" "mp_store m' = mp_store m"
      "\<forall>k'. okk k' \<longrightarrow> look m' s k' = (if k' = k then Some v' else look m s k')"
    using assms(1,3) unfolding refers_def by blast
  have "child_run D f c m = (r, m')" using assms(1,2) m'(1) by (simp add: child_run_def refers_def)
  with m' show ?thesis by blast
qed

end

context simple_map
begin

abbreviation live :: "('k, 'v) omap \<Rightarrow> 's \<Rightarrow> bool" where
  "live m s \<equiv> wf m s \<and> no_removed m"

lemma no_removed_set: "no_removed m \<Longrightarrow> no_removed (m\<lparr>mp_children := bt_insert b (k, Some v) (mp_children m)\<rparr>)"
  by (auto simp: no_removed_def)

lemma live_set_child:
  assumes "live m s" and "okk k" and "okv v"
  shows "live (m\<lparr>mp_children := bt_insert (kb k) (k, Some v) (mp_children m)\<rparr>) s"
  using wf_set_child(1) [of m s k "Some v"] assms by (simp add: no_removed_set)

lemma insert_twice:
  "children_wf D okk okv cs \<Longrightarrow> bt_insert b x (bt_insert b y cs) = bt_insert b x cs"
  by (intro bt_eqI) (auto simp: children_wf_def)

text \<open>A reference to a value in memory, and one to a value that is not.\<close>

lemma refers_modified:
  assumes "live m s" and "okk k" and "map_of (mp_children m) (kb k) = Some (k, Some v)"
  shows "refers D look live okk okv m s k v (Modified (kb k))"
  using assms live_set_child [OF assms(1,2)] wf_set_child [of m s k "Some _"]
  by (auto simp: refers_def child_modify_def op_bind_def)

lemma refers_unmodified:
  assumes "live m s" and "okk k"
  shows "refers D look live okk okv m s k v (Unmodified k v)"
proof -
  have cwf: "children_wf D okk okv (mp_children m)" using assms(1) by (simp add: map_wf_def)
  have "child_modify D (\<lambda>_. v') (Unmodified k v) m
      = (Ok (Modified (kb k)), m\<lparr>mp_children := bt_insert (kb k) (k, Some v') (mp_children m)\<rparr>)" for v'
    by (simp add: child_modify_def op_bind_def map_key_new_kb [OF assms(2)] children_insert_eq [OF cwf assms(2)] insert_twice [OF cwf])
  then show ?thesis
    using live_set_child [OF assms] wf_set_child [of m s k "Some _"] assms by (auto simp: refers_def)
qed

lemma child_in_memory:
  assumes "live m s" and "okk k" and "map_of (mp_children m) (kb k) = Some e"
  shows "\<exists>v. e = (k, Some v) \<and> look m s k = Some v"
proof -
  obtain k' vo where e: "e = (k', vo)" by force
  have "okk k'" "enc (mt_key D) k' = Ok (kb k)" using assms e by (auto simp: map_wf_def children_wf_def)
  then have "k' = k" using kb_inj [of k' k] enc_kb [of k'] assms(2) by simp
  moreover obtain v where "vo = Some v" using assms(1,3) e unfolding no_removed_def by (cases vo) auto
  ultimately show ?thesis using assms(3) e by (simp add: look_children)
qed

lemma entry_cases:
  assumes "live m s" and "okk k"
  shows "(\<exists>v. look m s k = Some v \<and> (entry D m s k = Ok (Occupied (Modified (kb k)))
        \<and> map_of (mp_children m) (kb k) = Some (k, Some v) \<or> entry D m s k = Ok (Occupied (Unmodified k v))))
    \<or> look m s k = None \<and> entry D m s k = Ok (Vacant k)"
proof (cases "map_of (mp_children m) (kb k)")
  case None
  then show ?thesis
    using get_from_store_look [of m s k] assms
    by (auto simp: entry_def map_key_new_kb look_children split: option.splits)
next
  case (Some e)
  then show ?thesis
    using child_in_memory [OF assms Some] by (auto simp: entry_def map_key_new_kb [OF assms(2)])
qed

lemma live_access: "map_access D look live okk okv"
proof
  fix m s k v
  assume l: "live m s" and k: "okk k"
  show "\<exists>r. map_get D m s k = Ok r \<and> map_option ref_deref r = look m s k" using map_get_look l k by blast
  show "map_contains_key D m s k = Ok (look m s k \<noteq> None)" using map_contains_look l k by blast
  show "okv v" if "look m s k = Some v" using look_ok l k that by blast
  show "\<exists>m'. map_insert D k v m = (Ok (), m') \<and> live m' s \<and> mp_store m' = mp_store m
      \<and> (\<forall>k'. okk k' \<longrightarrow> look m' s k' = (if k' = k then Some v else look m s k'))" if "okv v"
    using map_insert_look [of m s k v] live_set_child [OF l k that] wf_set_child(2) [of m s k "Some v"] l k that by simp
qed

lemma live_get_mut:
  assumes "live m s" and "okk k"
  shows "\<exists>c. map_get_mut D m s k = Ok c
    \<and> (case look m s k of None \<Rightarrow> c = None | Some v \<Rightarrow> \<exists>x. c = Some x \<and> refers D look live okk okv m s k v x)"
  using entry_cases [OF assms] refers_modified [OF assms] refers_unmodified [OF assms]
  by (auto simp: map_get_mut_def)

lemma live_or_default:
  assumes "live m s" and "okk k" and "okv d"
  shows "\<exists>e c. entry D m s k = Ok e \<and> or_default D d e m = (Ok c, m)
    \<and> refers D look live okk okv m s k (or_else d (look m s k)) c"
  using entry_cases [OF assms(1,2)] refers_modified [OF assms(1,2)] refers_unmodified [OF assms(1,2)]
    val.attach_same [OF assms(3)] enc_kb [OF assms(2)]
  by (auto simp: or_default_def)

text \<open>\<open>or_insert_default\<close> puts the value it refers to into memory.\<close>

lemma live_deref_mut:
  assumes "live m s" and "okk k" and "okv v"
  shows "\<exists>c' m'. child_deref_mut D (Unmodified k v) m = (Ok c', m') \<and> live m' s \<and> mp_store m' = mp_store m
    \<and> (\<forall>k'. okk k' \<longrightarrow> look m' s k' = (if k' = k then Some v else look m s k'))
    \<and> refers D look live okk okv m' s k v c'"
proof -
  let ?m = "m\<lparr>mp_children := bt_insert (kb k) (k, Some v) (mp_children m)\<rparr>"
  have cwf: "children_wf D okk okv (mp_children m)" using assms(1) by (simp add: map_wf_def)
  have "child_deref_mut D (Unmodified k v) m = (Ok (Modified (kb k)), ?m)"
    by (simp add: map_key_new_kb [OF assms(2)] children_insert_eq [OF cwf assms(2)])
  moreover have l: "live ?m s" by (rule live_set_child [OF assms])
  moreover have "refers D look live okk okv ?m s k v (Modified (kb k))"
    by (rule refers_modified [OF l assms(2)]) simp
  moreover have "\<forall>k'. okk k' \<longrightarrow> look ?m s k' = (if k' = k then Some v else look m s k')"
    using wf_set_child(2) [of m s k "Some v"] assms by simp
  ultimately show ?thesis by (intro exI conjI) (assumption | simp)+
qed

lemma live_or_insert_default:
  assumes "live m s" and "okk k" and "okv d"
  shows "\<exists>e c m'. entry D m s k = Ok e \<and> or_insert_default D d e m = (Ok c, m') \<and> live m' s \<and> mp_store m' = mp_store m
    \<and> (\<forall>k'. okk k' \<longrightarrow> look m' s k' = (if k' = k then Some (or_else d (look m s k)) else look m s k'))
    \<and> refers D look live okk okv m' s k (or_else d (look m s k)) c"
proof -
  consider v where "look m s k = Some v" "entry D m s k = Ok (Occupied (Modified (kb k)))"
      "map_of (mp_children m) (kb k) = Some (k, Some v)"
    | v where "look m s k = Some v" "entry D m s k = Ok (Occupied (Unmodified k v))"
    | "look m s k = None" "entry D m s k = Ok (Vacant k)"
    using entry_cases [OF assms(1,2)] by metis
  then show ?thesis
  proof cases
    case (1 v)
    then show ?thesis
      using refers_modified [OF assms(1,2) 1(3)] assms(1)
      by (intro exI [of _ "Occupied (Modified (kb k))"] exI [of _ "Modified (kb k)"] exI [of _ m])
        (auto simp: or_insert_default_def or_insert_def op_bind_def)
  next
    case (2 v)
    have "okv v" using look_ok [of m s k v] assms(1,2) 2(1) by blast
    from live_deref_mut [OF assms(1,2) this] 2 show ?thesis
      by (auto simp: or_insert_default_def or_insert_def simp del: child_deref_mut.simps)
  next
    case 3
    from live_deref_mut [OF assms] 3 val.attach_same [OF assms(3)] enc_kb [OF assms(2)] show ?thesis
      by (auto simp: or_insert_default_def or_insert_def op_bind_def simp del: child_deref_mut.simps)
  qed
qed

lemma live_get_or_default:
  assumes "live m s" and "okk k" and "okv d"
  shows "\<exists>r. map_get_or_default D d m s k = Ok r \<and> ref_deref r = or_else d (look m s k)"
proof -
  obtain r where r: "map_get D m s k = Ok r" "map_option ref_deref r = look m s k"
    using map_get_look [of m s k] assms(1,2) by blast
  show ?thesis
  proof (cases r)
    case None
    then show ?thesis
      using r val.attach_same [OF assms(3)] enc_kb [OF assms(2)] by (auto simp: map_get_or_default_def)
  next
    case (Some v)
    then show ?thesis using r enc_kb [OF assms(2)] by (auto simp: map_get_or_default_def dest: sym)
  qed
qed

lemma simple_map_entries: "okv d \<Longrightarrow> map_entries D look live okk okv d"
proof (intro map_entries.intro map_entries_axioms.intro)
  show "map_access D look live okk okv" by (rule live_access)
qed (rule live_get_mut live_or_default live_or_insert_default live_get_or_default | assumption)+

end

text \<open>The laws on the in-memory store, with unsigned integer keys.\<close>

interpretation uint_map_entries: map_entries "uint_map (Suc n) fuel" "map_look (uint_map (Suc n) fuel) mapstore_ents"
  "\<lambda>m s. map_wf (uint_map (Suc n) fuel) mapstore_ents mapstore_invar (\<lambda>k. k < 256 ^ Suc n) (\<lambda>_. True) m s \<and> no_removed m"
  "\<lambda>k. k < 256 ^ Suc n" "\<lambda>_. True" 0 for n fuel
  by (rule uint_map.simple_map_entries) simp

end
