(* ===== verification/Coin_State.thy ===== *)
theory Coin_State
  imports Payable Derive Map_Entries
begin

text \<open>
  The derived implementations of \<^verbatim>\<open>State\<close> and \<^verbatim>\<open>Encode\<close> for the types of \<^verbatim>\<open>src/coins\<close> that are
  keys and values of maps, and the maps from addresses over the in-memory store, which satisfy
  the contracts \<open>map_entries\<close> and \<open>map_access\<close>.
\<close>

section \<open>Derived implementations\<close>

text \<open>A struct without attributes.\<close>

definition plain_input :: "('s, 't) state_field list \<Rightarrow> ('s, 't) state_input" where
  "plain_input fs = \<lparr>si_version = 0, si_as_type = None, si_transparent = False, si_allow_prefix_overlap = False, si_fields = fs\<rparr>"

text \<open>\<open>msg\<close> is the text of the error for an unexpected version.\<close>

definition derived_ops :: "(byte \<Rightarrow> byte \<Rightarrow> string) \<Rightarrow> 't \<Rightarrow> ('s, 't) state_input \<Rightarrow> ('s, 't) state_ops" where
  "derived_ops msg dflt item = (case derive_state False msg dflt item of Ok D \<Rightarrow> D)"

definition amount_state :: "(byte \<Rightarrow> byte \<Rightarrow> string) \<Rightarrow> ('s, amount) state_ops" where
  "amount_state msg = derived_ops msg (Amount 0) (plain_input [struct_field ''value'' am_value (\<lambda>x _. Amount x) (Amount 0) (leaf_state word_codec)])"

definition coin_state :: "(byte \<Rightarrow> byte \<Rightarrow> string) \<Rightarrow> ('s, coin) state_ops" where
  "coin_state msg = derived_ops msg coin_new (plain_input
     [struct_field ''amount'' coin_amount (\<lambda>x _. Coin x) coin_new (amount_state msg),
      struct_field ''symbol'' (\<lambda>_. ()) (\<lambda>_ c. c) coin_new phantom_state])"

text \<open>The library's encodings of the unit type and of an array of bytes.\<close>

definition unit_codec :: "unit codec" where
  "unit_codec = \<lparr>enc = (\<lambda>_. Ok []), dec = (\<lambda>bytes. Ok ((), bytes))\<rparr>"

definition array_codec :: "nat \<Rightarrow> 'a codec \<Rightarrow> 'a list codec" where
  "array_codec n c = \<lparr>enc = enc_all c, dec = decode_n c n\<rparr>"

definition address_codec :: "address codec" where
  "address_codec = derive_codec False word_codec address_null 0
     [struct_encoding address_bytes (\<lambda>x _. Address x) address_null (\<lambda>bs. Ok (length bs)) (array_codec address_length word_codec)]"

section \<open>They are simple\<close>

interpretation u64_codec: terminated_codec "word_codec :: u64 codec" "\<lambda>_. True"
  by (rule word_codec_terminated) simp

lemma one_field_simple:
  assumes "simple_field ok f" and "sf_prefix f = None" and "sf_absolute_prefix f = None" and "\<not> sf_skip f"
    and "\<And>t. ok t \<Longrightarrow> sf_copy f t dflt = t"
  shows "simple_state (derived_ops msg dflt (plain_input [f])) ok"
proof -
  have p: "field_prefix f = Ok None" using assms(2,3) by (simp add: field_prefix_def)
  have "\<not> sf_transparent f" using assms(1) by (simp add: simple_field_def)
  then obtain D where D: "derive_state False msg dflt (plain_input [f]) = Ok D"
    using p assms(4) by (simp add: derive_state_def plain_input_def word_add_def checked_add_def transparent_inner_def Let_def)
  have "simple_state D ok"
    by (rule derived_is_simple [OF D]) (use assms in \<open>simp_all add: plain_input_def\<close>)
  then show ?thesis by (simp add: derived_ops_def D)
qed

lemma two_fields_simple:
  assumes "simple_field ok f" and "simple_field ok g" and "list_all (\<lambda>f. sf_prefix f = None \<and> sf_absolute_prefix f = None \<and> \<not> sf_skip f) [f, g]"
    and "\<And>t. ok t \<Longrightarrow> sf_copy g t (sf_copy f t dflt) = t"
  shows "simple_state (derived_ops msg dflt (plain_input [f, g])) ok"
proof -
  have p: "field_prefix f = Ok None" "field_prefix g = Ok None" using assms(3) by (simp_all add: field_prefix_def)
  have "\<not> sf_transparent f" "\<not> sf_transparent g" using assms(1,2) by (simp_all add: simple_field_def)
  then obtain D where D: "derive_state False msg dflt (plain_input [f, g]) = Ok D"
    using p assms(3) by (simp add: derive_state_def plain_input_def word_add_def checked_add_def transparent_inner_def Let_def)
  have "simple_state D ok"
    by (rule derived_is_simple [OF D]) (use assms in \<open>simp_all add: plain_input_def\<close>)
  then show ?thesis by (simp add: derived_ops_def D)
qed

interpretation amount_state: simple_state "amount_state msg :: ('s, amount) state_ops" "\<lambda>_. True" for msg
  unfolding amount_state_def
proof (rule one_field_simple)
  show "simple_field (\<lambda>_. True) (struct_field ''value'' am_value (\<lambda>x _. Amount x) (Amount 0) (leaf_state word_codec) :: ('s, amount) state_field)"
    by (rule struct_field_simple [OF leaf_state_simple [OF u64_codec.terminated_codec_axioms]]) simp_all
qed (simp_all add: struct_field_def)

interpretation coin_state: simple_state "coin_state msg :: ('s, coin) state_ops" "\<lambda>_. True" for msg
  unfolding coin_state_def
proof (rule two_fields_simple)
  show "simple_field (\<lambda>_. True) (struct_field ''amount'' coin_amount (\<lambda>x _. Coin x) coin_new (amount_state msg) :: ('s, coin) state_field)"
    by (rule struct_field_simple [OF amount_state.simple_state_axioms]) simp_all
  show "simple_field (\<lambda>_. True) (struct_field ''symbol'' (\<lambda>_. ()) (\<lambda>_ c. c) coin_new phantom_state :: ('s, coin) state_field)"
    by (rule struct_field_simple [OF phantom_state_simple]) simp_all
qed (simp_all add: struct_field_def)

interpretation unit_codec: terminated_codec unit_codec "\<lambda>_. True"
  by unfold_locales (simp_all add: unit_codec_def)

lemma enc_all_u8: "enc_all (word_codec :: byte codec) xs = Ok xs"
  by (induction xs) simp_all

interpretation bytes_codec: terminated_codec "array_codec n (word_codec :: byte codec)" "\<lambda>bs. length bs = n" for n
proof
  fix bs :: "byte list" and out rest
  have e: "enc_all (word_codec :: byte codec) xs = Ok xs" for xs by (rule enc_all_u8)
  show "\<exists>out. enc (array_codec n word_codec) bs = Ok out" using e by (simp add: array_codec_def)
  assume "length bs = n" "enc (array_codec n word_codec) bs = Ok out"
  then show "dec (array_codec n word_codec) (out @ rest) = Ok (bs, rest)"
    using enc_all_decode_n [OF u8_codec.terminated_codec_axioms, of bs out rest] e by (auto simp: array_codec_def list_all_iff)
qed

interpretation address_codec: terminated_codec address_codec address_ok
  unfolding address_codec_def
proof (rule derived_is_terminated(1))
  show "list_all (terminated_field address_ok) [struct_encoding address_bytes (\<lambda>x _. Address x) address_null (\<lambda>bs. Ok (length bs))
      (array_codec address_length word_codec)]"
    using struct_encoding_terminated [OF bytes_codec.terminated_codec_axioms [of address_length], of address_ok address_bytes "\<lambda>x _. Address x"
        "\<lambda>bs. Ok (length bs)" address_null]
    by (auto simp: address_ok_def array_codec_def enc_all_u8)
qed (simp_all add: struct_encoding_def)

lemma address_codec_enc: "enc address_codec a = Ok (0 # address_bytes a)"
  by (simp add: address_codec_def derive_codec_def encode_into_method_def encode_version_def encode_child_def struct_encoding_def
      array_codec_def enc_all_u8 op_bind_def)

section \<open>Maps from addresses\<close>

definition address_map :: "(mapstore, 'v) state_ops \<Rightarrow> nat \<Rightarrow> (mapstore, address, 'v) map_types" where
  "address_map V fuel = \<lparr>mt_backing = mapstore_backing, mt_key = address_codec, mt_value = V, mt_fuel = fuel\<rparr>"

lemma address_map_simple: "stored_state V okv \<Longrightarrow> simple_map (address_map V fuel) mapstore_ents mapstore_invar address_ok okv"
proof (intro simple_map.intro)
  show "lawful_backing (mt_backing (address_map V fuel)) mapstore_ents mapstore_invar (\<lambda>_. True)"
    by (simp add: address_map_def mapstore.lawful_backing_axioms)
  show "terminated_codec (mt_key (address_map V fuel)) address_ok"
    by (simp add: address_map_def address_codec.terminated_codec_axioms)
  show "stored_state V okv \<Longrightarrow> stored_state (mt_value (address_map V fuel)) okv" by (simp add: address_map_def)
qed

end
