(* ===== verification/Nonce_Plugin.thy ===== *)
theory Nonce_Plugin
  imports Coin_State
begin

text \<open>
  \<^verbatim>\<open>src/plugins/nonce.rs\<close>: every signed call carries a nonce that has to be larger than the last one of
  its signer, so that no call can be replayed.

  The stored nonces are a map from addresses, used through the contract \<open>map_entries\<close>.
\<close>

section \<open>The plugin\<close>

record 't nonce_plugin =
  np_map :: "(address, u64) omap"
  np_inner :: 't

datatype 'c nonce_call = NonceCall (nc_nonce: "u64 option") (nc_inner_call: 'c)

definition nonce_increase_limit :: u64 where
  "nonce_increase_limit = 1000"

definition nonce_of :: "('s, address, u64) map_types \<Rightarrow> 't nonce_plugin \<Rightarrow> 's \<Rightarrow> address \<Rightarrow> u64 result" where
  "nonce_of D self s addr = and_then (map_get_or_default D 0 (np_map self) s addr) (\<lambda>r. Ok (ref_deref r))"

text \<open>Operations on the map and on the inner value, in the world of the plugin.\<close>

definition on_nonces :: "((address, u64) omap, 'a) op \<Rightarrow> (('t nonce_plugin, 'z) world, 'a) op" where
  "on_nonces f = (\<lambda>(p, cx). case f (np_map p) of (r, m) \<Rightarrow> (r, (p\<lparr>np_map := m\<rparr>, cx)))"

definition on_nonce_inner :: "(('t, 'z) world, 'a) op \<Rightarrow> (('t nonce_plugin, 'z) world, 'a) op" where
  "on_nonce_inner f = (\<lambda>(p, cx). case f (np_inner p, cx) of (r, (t, cx')) \<Rightarrow> (r, (p\<lparr>np_inner := t\<rparr>, cx')))"

text \<open>The texts of the two errors are functions of the numbers in them; computing the numbers can
  overflow.\<close>

record nonce_texts =
  nt_range :: "u64 \<Rightarrow> u64 \<Rightarrow> u64 \<Rightarrow> string"
  nt_large :: "u64 \<Rightarrow> string"

definition nonce_plugin_call :: "nonce_texts \<Rightarrow> ('s, address, u64) map_types \<Rightarrow> 's \<Rightarrow> ('c \<Rightarrow> (('t, 'z) world, unit) op)
    \<Rightarrow> 'c nonce_call \<Rightarrow> (('t nonce_plugin, 'z) world, unit) op" where
  "nonce_plugin_call T D s inner call =
     op_bind (op_read (\<lambda>(p, cx). ok_or (Error_Nonce ''Nonce could not resolve the Signer context'') (context_resolve cx_signer cx))) (\<lambda>signer.
     case (signer_signer signer, nc_nonce call) of
       (Some pub_key, Some nonce) \<Rightarrow>
         op_bind (op_read (\<lambda>(p, cx). entry D (np_map p) s pub_key)) (\<lambda>e.
         op_bind (on_nonces (or_default D 0 e)) (\<lambda>child.
         op_bind (op_read (\<lambda>(p, cx). child_deref (np_map p) child)) (\<lambda>expected_nonce.
           if nonce \<le> expected_nonce
           then op_bind (op_lift (word_add expected_nonce 1)) (\<lambda>lo.
                op_bind (op_lift (word_add expected_nonce nonce_increase_limit)) (\<lambda>hi.
                  op_err (Error_Nonce (nt_range T lo hi nonce))))
           else op_bind (op_lift (word_sub nonce expected_nonce)) (\<lambda>d.
                if nonce_increase_limit < d then op_err (Error_Nonce (nt_large T d))
                else op_bind (on_nonces (child_modify D (\<lambda>_. nonce) child)) (\<lambda>_. on_nonce_inner (inner (nc_inner_call call)))))))
     | (None, None) \<Rightarrow> on_nonce_inner (inner (nc_inner_call call))
     | (Some _, None) \<Rightarrow> op_err (Error_Nonce ''Signed calls must include a nonce'')
     | (None, Some _) \<Rightarrow> op_err (Error_Nonce ''Unsigned calls must not include a nonce''))"

text \<open>\<^verbatim>\<open>ConvertSdkTx\<close> gives a transaction of the SDK the next nonce of its sender.\<close>

definition nonce_convert :: "('s, address, u64) map_types \<Rightarrow> 's \<Rightarrow> ('tx \<Rightarrow> address result) \<Rightarrow> ('tx \<Rightarrow> 'c result) \<Rightarrow> 't nonce_plugin \<Rightarrow> 'tx \<Rightarrow> 'c nonce_call result" where
  "nonce_convert D s sender_address convert_inner self sdk_tx =
     and_then (sender_address sdk_tx) (\<lambda>addr.
     and_then (nonce_of D self s addr) (\<lambda>n.
     and_then (word_add n 1) (\<lambda>nonce.
     and_then (convert_inner sdk_tx) (\<lambda>inner_call. Ok (NonceCall (Some nonce) inner_call)))))"

section \<open>Laws\<close>

definition stored_nonce :: "((address, u64) omap \<Rightarrow> 's \<Rightarrow> address \<Rightarrow> u64 option) \<Rightarrow> 't nonce_plugin \<Rightarrow> 's \<Rightarrow> address \<Rightarrow> nat" where
  "stored_nonce look p s a = unat (or_else 0 (look (np_map p) s a))"

definition signed_by :: "'z contexts_scheme \<Rightarrow> address option \<Rightarrow> bool" where
  "signed_by cx a \<longleftrightarrow> cx_signer cx = Some (Signer a)"

text \<open>Sequences of calls: any signer, any call, and any change of the contexts in between.\<close>

inductive nonce_reach :: "nonce_texts \<Rightarrow> ('s, address, u64) map_types \<Rightarrow> 's \<Rightarrow> ('c \<Rightarrow> (('t, unit) world, unit) op) \<Rightarrow> (address \<Rightarrow> bool)
    \<Rightarrow> 't nonce_plugin \<Rightarrow> 't nonce_plugin \<Rightarrow> bool" for T D s inner okk p0 where
  start: "nonce_reach T D s inner okk p0 p0"
| call: "nonce_reach T D s inner okk p0 p \<Longrightarrow> signed_by cx sg \<Longrightarrow> pred_option okk sg
    \<Longrightarrow> nonce_plugin_call T D s inner c (p, cx) = (r, (p', cx')) \<Longrightarrow> nonce_reach T D s inner okk p0 p'"

locale nonce_map = map_entries D look wf okk "\<lambda>_. True" 0
  for D :: "('s, address, u64) map_types" and look :: "(address, u64) omap \<Rightarrow> 's \<Rightarrow> address \<Rightarrow> u64 option"
    and wf :: "(address, u64) omap \<Rightarrow> 's \<Rightarrow> bool" and okk :: "address \<Rightarrow> bool"
begin

abbreviation last_nonce :: "'t nonce_plugin \<Rightarrow> 's \<Rightarrow> address \<Rightarrow> nat" where
  "last_nonce \<equiv> stored_nonce look"

lemma nonce_of_law: "wf (np_map p) s \<Longrightarrow> okk a \<Longrightarrow> nonce_of D p s a = Ok (of_nat (last_nonce p s a))"
  using get_or_default_entry [of "np_map p" s a] by (auto simp: nonce_of_def stored_nonce_def)

text \<open>The result of a signed call with a nonce.\<close>

lemma nonce_plugin_call_law:
  assumes "wf (np_map p) s" and "okk a" and "signed_by cx (Some a)" and "nc_nonce c = Some n"
  shows "let run = nonce_plugin_call T D s inner c (p, cx); e = last_nonce p s a
    in if unat n \<le> e then run = (if e + 1000 < 2 ^ 64 then Err (Error_Nonce (nt_range T (of_nat (e + 1)) (of_nat (e + 1000)) n)) else Panic, (p, cx))
       else if e + 1000 < unat n then run = (Err (Error_Nonce (nt_large T (of_nat (unat n - e)))), (p, cx))
       else \<exists>m'. run = on_nonce_inner (inner (nc_inner_call c)) (p\<lparr>np_map := m'\<rparr>, cx) \<and> wf m' s
         \<and> (\<forall>x. okk x \<longrightarrow> or_else 0 (look m' s x) = (if x = a then n else or_else 0 (look (np_map p) s x)))"
proof -
  let ?v = "or_else 0 (look (np_map p) s a)"
  obtain en ch where e: "entry D (np_map p) s a = Ok en" "or_default D 0 en (np_map p) = (Ok ch, np_map p)"
      "refers D look wf okk (\<lambda>_. True) (np_map p) s a ?v ch"
    using or_default_entry [OF assms(1,2)] by blast
  have d: "child_deref (np_map p) ch = Ok ?v" using e(3) by (simp add: refers_def)
  obtain c' m' where m': "child_modify D (\<lambda>_. n) ch (np_map p) = (Ok c', m')" "wf m' s"
      "\<forall>x. okk x \<longrightarrow> look m' s x = (if x = a then Some n else look (np_map p) s x)"
    using e(3) unfolding refers_def by blast
  have le: "n \<le> ?v \<longleftrightarrow> unat n \<le> last_nonce p s a" by (simp add: stored_nonce_def word_le_nat_alt)
  have p: "p\<lparr>np_map := np_map p\<rparr> = p" by simp
  have v: "of_nat (last_nonce p s a) = ?v" by (simp add: stored_nonce_def)
  have d64: "2 ^ 64 = (18446744073709551616 :: nat)" by simp
  consider "unat n \<le> last_nonce p s a" | "last_nonce p s a < unat n" by linarith
  then show ?thesis
  proof cases
    case 1
    then show ?thesis
      using assms(3,4) e(1,2) d le v p
      by (auto simp: nonce_plugin_call_def signed_by_def op_bind_def on_nonces_def nonce_increase_limit_def word_add_def checked_add_def
          stored_nonce_def Let_def add.commute [of 1])
  next
    case 2
    have sub: "word_sub n ?v = Ok (n - ?v)" using 2 le by (simp add: word_sub_eq_Ok not_le less_imp_le)
    have un: "unat (n - ?v) = unat n - last_nonce p s a" using 2 le by (simp add: unat_sub stored_nonce_def not_le less_imp_le)
    have lim: "nonce_increase_limit < n - ?v \<longleftrightarrow> last_nonce p s a + 1000 < unat n"
      using un by (auto simp: word_less_nat_alt nonce_increase_limit_def)
    have nv: "n - ?v = of_nat (unat n - last_nonce p s a)" by (simp flip: un)
    show ?thesis
      using assms(3,4) e(1,2) d le sub lim nv m' 2 p
      by (auto simp: nonce_plugin_call_def signed_by_def op_bind_def on_nonces_def Let_def)
  qed
qed

lemma on_inner_map: "on_nonce_inner f (p, cx) = (r, (p', cx')) \<Longrightarrow> np_map p' = np_map p"
  by (auto simp: on_nonce_inner_def split: prod.splits)

text \<open>A call keeps the map well-formed and makes no nonce smaller.\<close>

lemma nonce_plugin_call_mono:
  assumes "wf (np_map p) s" and "signed_by cx sg" and "pred_option okk sg" and run: "nonce_plugin_call T D s inner c (p, cx) = (r, (p', cx'))"
  shows "wf (np_map p') s \<and> (\<forall>x. okk x \<longrightarrow> last_nonce p s x \<le> last_nonce p' s x)"
proof (cases sg)
  case None
  then have "nc_nonce c = None \<and> on_nonce_inner (inner (nc_inner_call c)) (p, cx) = (r, (p', cx')) \<or> p' = p"
    using assms(2) run by (cases "nc_nonce c") (auto simp: nonce_plugin_call_def signed_by_def op_bind_def)
  then have "np_map p' = np_map p" using on_inner_map by blast
  then show ?thesis using assms(1) by (simp add: stored_nonce_def)
next
  case (Some a)
  show ?thesis
  proof (cases "nc_nonce c")
    case None
    then have "p' = p" using assms(2) run Some by (simp add: nonce_plugin_call_def signed_by_def op_bind_def)
    then show ?thesis using assms(1) by simp
  next
    case n: (Some n)
    have a: "okk a" "signed_by cx (Some a)" using assms(2,3) Some by simp_all
    note law = nonce_plugin_call_law [OF assms(1) a n, of T inner]
    show ?thesis
    proof (cases "last_nonce p s a < unat n \<and> unat n \<le> last_nonce p s a + 1000")
      case False
      then have "p' = p" using law run by (auto simp: Let_def not_less not_le split: if_splits)
      then show ?thesis using assms(1) by simp
    next
      case True
      then obtain m' where m': "nonce_plugin_call T D s inner c (p, cx) = on_nonce_inner (inner (nc_inner_call c)) (p\<lparr>np_map := m'\<rparr>, cx)"
          "wf m' s" "\<forall>x. okk x \<longrightarrow> or_else 0 (look m' s x) = (if x = a then n else or_else 0 (look (np_map p) s x))"
        using law by (auto simp: Let_def)
      have "np_map p' = m'" using on_inner_map [of "inner (nc_inner_call c)" "p\<lparr>np_map := m'\<rparr>" cx r p' cx'] m'(1) run by simp
      then show ?thesis using m'(2,3) True by (auto simp: stored_nonce_def)
    qed
  qed
qed

lemma nonce_reach_mono:
  assumes "nonce_reach T D s inner okk p0 p" and "wf (np_map p0) s"
  shows "wf (np_map p) s \<and> (\<forall>x. okk x \<longrightarrow> last_nonce p0 s x \<le> last_nonce p s x)"
  using assms
proof (induction rule: nonce_reach.induct)
  case (call p cx sg c r p' cx')
  then show ?case using nonce_plugin_call_mono [of p s cx sg T inner c r p' cx'] by (auto intro: order_trans)
qed simp

end

section \<open>Nonces over the in-memory store\<close>

abbreviation nonce_types :: "nat \<Rightarrow> (mapstore, address, u64) map_types" where
  "nonce_types fuel \<equiv> address_map (leaf_state word_codec) fuel"

interpretation mem_nonces: nonce_map "nonce_types fuel" "map_look (nonce_types fuel) mapstore_ents"
  "\<lambda>m s. map_wf (nonce_types fuel) mapstore_ents mapstore_invar address_ok (\<lambda>_. True) m s \<and> no_removed m" address_ok for fuel
  unfolding nonce_map_def
  by (rule simple_map.simple_map_entries [OF address_map_simple [OF simple_state.stored_contract [OF leaf_state_simple [OF u64_codec.terminated_codec_axioms]]]]) simp

lemma mem_nonces_new:
  "map_wf (nonce_types fuel) mapstore_ents mapstore_invar address_ok (\<lambda>_. True) map_new mapstore_new \<and> no_removed map_new"
  by (simp add: no_removed_def map_wf_def map_new_def mapstore_new_def buf_invar_def children_wf_def store_wf_def buf_ents_def sub_ents_def)

section \<open>Properties\<close>

text \<open>
  (C20) A signed call with a nonce is passed on if and only if its nonce is larger than the stored
  nonce of the signer by at most 1000; then the nonce is stored, whether or not the inner
  call succeeds.  Otherwise nothing changes: the call is refused, or, where computing the
  bounds for the error message overflows, panics.
\<close>

theorem nonce_accepted_in_window:
  assumes "nonce_map D look mwf okk" and "mwf (np_map p) s" and "okk a" and "signed_by cx (Some a)" and "nc_nonce c = Some n"
  shows "let run = nonce_plugin_call T D s inner c (p, cx); e = stored_nonce look p s a
    in if unat n \<le> e then run = (if e + 1000 < 2 ^ 64 then Err (Error_Nonce (nt_range T (of_nat (e + 1)) (of_nat (e + 1000)) n)) else Panic, (p, cx))
       else if e + 1000 < unat n then run = (Err (Error_Nonce (nt_large T (of_nat (unat n - e)))), (p, cx))
       else \<exists>m'. run = on_nonce_inner (inner (nc_inner_call c)) (p\<lparr>np_map := m'\<rparr>, cx) \<and> mwf m' s
         \<and> (\<forall>x. okk x \<longrightarrow> or_else 0 (look m' s x) = (if x = a then n else or_else 0 (look (np_map p) s x)))"
  by (rule nonce_map.nonce_plugin_call_law [OF assms])

abbreviation nonce_contexts :: "address \<Rightarrow> contexts" where
  "nonce_contexts sg \<equiv> \<lparr>cx_paid = None, cx_signer = Some (Signer (Some sg)), cx_chain_id = None, cx_events = None, cx_time = None\<rparr>"

theorem nonce_accepted_in_window_witness:
  "nonce_plugin_call \<lparr>nt_range = \<lambda>_ _ _. [], nt_large = \<lambda>_. []\<rparr> (nonce_types 5) mapstore_new (\<lambda>_. op_ok ()) (NonceCall (Some 2000) ())
      (\<lparr>np_map = map_new, np_inner = ()\<rparr>, nonce_contexts address_null)
    = (Err (Error_Nonce []), (\<lparr>np_map = map_new, np_inner = ()\<rparr>, nonce_contexts address_null))"
proof -
  let ?p = "\<lparr>np_map = map_new, np_inner = ()\<rparr>"
  have a: "address_ok address_null" "signed_by (nonce_contexts address_null) (Some address_null)"
    by (simp_all add: address_ok_def address_null_def signed_by_def)
  have w: "map_wf (nonce_types 5) mapstore_ents mapstore_invar address_ok (\<lambda>_. True) (np_map ?p) mapstore_new \<and> no_removed (np_map ?p)"
    using mem_nonces_new by simp
  have z: "stored_nonce (map_look (nonce_types 5) mapstore_ents) ?p mapstore_new address_null = 0"
    by (simp add: stored_nonce_def map_look_def byte_look_def map_new_def store_look_def mapstore_new_def buf_ents_def sub_ents_def)
  from nonce_accepted_in_window [OF mem_nonces.nonce_map_axioms w a, of "NonceCall (Some 2000) ()" 2000 "\<lparr>nt_range = \<lambda>_ _ _. [], nt_large = \<lambda>_. []\<rparr>" "\<lambda>_. op_ok ()"]
  show ?thesis using z by (simp add: Let_def)
qed

text \<open>
  (C21) No replay: once a call of the signer \<open>a\<close> with the nonce \<open>n\<close> has been passed on, then after
  any further calls by anybody, a call of \<open>a\<close> with a nonce up to \<open>n\<close> does not reach the inner
  app and changes nothing.
\<close>

theorem nonce_prevents_replay:
  assumes "nonce_map D look mwf okk" and "mwf (np_map p) s" and "okk a" and "signed_by cx (Some a)" and "nc_nonce c = Some n"
    and "stored_nonce look p s a < unat n" and "unat n \<le> stored_nonce look p s a + 1000"
    and "nonce_plugin_call T D s inner c (p, cx) = (r, (p1, cx1))" and "nonce_reach T D s inner okk p1 p2"
    and "signed_by cx2 (Some a)" and "nc_nonce c2 = Some n2" and "n2 \<le> n"
  shows "\<exists>e. nonce_plugin_call T D s inner c2 (p2, cx2) = (e, (p2, cx2)) \<and> e \<noteq> Ok ()"
proof -
  obtain m' where m': "nonce_plugin_call T D s inner c (p, cx) = on_nonce_inner (inner (nc_inner_call c)) (p\<lparr>np_map := m'\<rparr>, cx)"
      "mwf m' s" "\<forall>x. okk x \<longrightarrow> or_else 0 (look m' s x) = (if x = a then n else or_else 0 (look (np_map p) s x))"
    using nonce_map.nonce_plugin_call_law [OF assms(1-5), of T inner] assms(6,7) by (auto simp: Let_def)
  have "np_map p1 = m'"
    using nonce_map.on_inner_map [OF assms(1), of "inner (nc_inner_call c)" "p\<lparr>np_map := m'\<rparr>" cx r p1 cx1] m'(1) assms(8) by simp
  then have p1: "mwf (np_map p1) s" "stored_nonce look p1 s a = unat n" using m'(2,3) assms(3) by (simp_all add: stored_nonce_def)
  have p2: "mwf (np_map p2) s" "unat n \<le> stored_nonce look p2 s a"
    using nonce_map.nonce_reach_mono [OF assms(1,9) p1(1)] p1(2) assms(3) by auto
  have "unat n2 \<le> stored_nonce look p2 s a" using p2(2) assms(12) by (simp add: word_le_nat_alt)
  then show ?thesis using nonce_map.nonce_plugin_call_law [OF assms(1) p2(1) assms(3,10,11), of T inner] by (auto simp: Let_def)
qed

theorem nonce_prevents_replay_witness:
  "\<exists>p1 cx1. nonce_plugin_call \<lparr>nt_range = \<lambda>_ _ _. [], nt_large = \<lambda>_. []\<rparr> (nonce_types 5) mapstore_new (\<lambda>_. op_ok ()) (NonceCall (Some 7) ())
      (\<lparr>np_map = map_new, np_inner = ()\<rparr>, nonce_contexts address_null) = (Ok (), (p1, cx1))
    \<and> (\<exists>e. nonce_plugin_call \<lparr>nt_range = \<lambda>_ _ _. [], nt_large = \<lambda>_. []\<rparr> (nonce_types 5) mapstore_new (\<lambda>_. op_ok ()) (NonceCall (Some 7) ())
      (p1, nonce_contexts address_null) = (e, (p1, nonce_contexts address_null)) \<and> e \<noteq> Ok ())"
proof -
  let ?p = "\<lparr>np_map = map_new, np_inner = ()\<rparr>" and ?T = "\<lparr>nt_range = \<lambda>_ _ _. [], nt_large = \<lambda>_. []\<rparr>"
  let ?inner = "\<lambda>_. op_ok () :: ((unit, unit) world, unit) op" and ?cx = "nonce_contexts address_null" and ?c = "NonceCall (Some 7) ()"
  have a: "address_ok address_null" "signed_by ?cx (Some address_null)"
    by (simp_all add: address_ok_def address_null_def signed_by_def)
  have w: "map_wf (nonce_types 5) mapstore_ents mapstore_invar address_ok (\<lambda>_. True) (np_map ?p) mapstore_new \<and> no_removed (np_map ?p)"
    using mem_nonces_new by simp
  have z: "stored_nonce (map_look (nonce_types 5) mapstore_ents) ?p mapstore_new address_null = 0"
    by (simp add: stored_nonce_def map_look_def byte_look_def map_new_def store_look_def mapstore_new_def buf_ents_def sub_ents_def)
  obtain m' where "nonce_plugin_call ?T (nonce_types 5) mapstore_new ?inner ?c (?p, ?cx) = on_nonce_inner (?inner ()) (?p\<lparr>np_map := m'\<rparr>, ?cx)"
    using mem_nonces.nonce_plugin_call_law [where p = ?p and s = mapstore_new and a = address_null and cx = ?cx and c = ?c and n = 7 and T = ?T and inner = ?inner and fuel = 5,
        OF w a] z by (auto simp: Let_def)
  then obtain p1 cx1 where r: "nonce_plugin_call ?T (nonce_types 5) mapstore_new ?inner ?c (?p, ?cx) = (Ok (), (p1, cx1))"
    by (simp add: on_nonce_inner_def)
  have "\<exists>e. nonce_plugin_call ?T (nonce_types 5) mapstore_new ?inner ?c (p1, ?cx) = (e, (p1, ?cx)) \<and> e \<noteq> Ok ()"
    by (rule nonce_prevents_replay [OF mem_nonces.nonce_map_axioms w a _ _ _ r nonce_reach.start a(2), where n = 7 and ?n2.0 = 7]) (simp_all add: z)
  with r show ?thesis by blast
qed

end
