(* ===== verification/Sdk_Compat.thy ===== *)
theory Sdk_Compat
  imports Signer_Plugin Nonce_Plugin
begin

text \<open>
  \<^verbatim>\<open>src/plugins/sdk_compat.rs\<close>: transactions of the Cosmos SDK, in their Amino and Protobuf forms,
  and the plugin that turns them into native calls; with the \<^verbatim>\<open>ConvertSdkTx\<close> of the signer and the
  payable plugin.

  JSON, Protobuf, base64 and decimal numerals are libraries: the record \<open>sdk_lib\<close>.  A JSON value
  is of the type \<open>'j\<close>, a Protobuf transaction of the type \<open>'p\<close>.
\<close>

section \<open>Transactions\<close>

record sdk_coin =
  dc_amount :: string
  dc_denom :: string

record sdk_fee =
  sf_amount :: "sdk_coin list"
  sf_gas :: string

record 'j sdk_msg =
  sm_type :: string
  sm_value :: 'j

record sdk_signature =
  sg_key_type :: string
  sg_key_value :: string
  sg_signature :: string
  sg_type :: "string option"

record 'j amino_tx =
  ax_msg :: "'j sdk_msg list"
  ax_fee :: sdk_fee
  ax_memo :: string
  ax_signatures :: "sdk_signature list"

record 'j sign_doc =
  sd_account_number :: string
  sd_chain_id :: bytes
  sd_fee :: sdk_fee
  sd_memo :: string
  sd_msgs :: "'j sdk_msg list"
  sd_sequence :: string

datatype ('j, 'p) sdk_tx = Amino "'j amino_tx" | Protobuf 'p

text \<open>Of a Protobuf transaction: its signer infos (each with an optional key, which may be a
  single key), its signatures, and the bytes of its body and of its auth info.\<close>

record ('j, 'p) sdk_lib =
  sl_json_tx :: "'j amino_tx \<Rightarrow> bytes option"
  sl_json_parse :: "bytes \<Rightarrow> 'j amino_tx option"
  sl_json_doc :: "'j sign_doc \<Rightarrow> bytes result"
  sl_base64 :: "string \<Rightarrow> bytes result"
  sl_decimal :: "u64 \<Rightarrow> string"
  sl_proto_encode :: "'p \<Rightarrow> bytes"
  sl_proto_decode :: "bytes \<Rightarrow> 'p option"
  sl_signer_keys :: "'p \<Rightarrow> bytes option option list"
  sl_signatures :: "'p \<Rightarrow> bytes list"
  sl_body_bytes :: "'p \<Rightarrow> bytes result"
  sl_auth_info_bytes :: "'p \<Rightarrow> bytes result"
  sl_sign_doc :: "bytes \<Rightarrow> bytes \<Rightarrow> bytes \<Rightarrow> u64 \<Rightarrow> bytes result"

definition max_call_size :: nat where
  "max_call_size = 65535"

definition native_call_flag :: byte where
  "native_call_flag = 255"

definition first_of :: "'a list \<Rightarrow> 'a option" where
  "first_of xs = (case xs of [] \<Rightarrow> None | x # _ \<Rightarrow> Some x)"

lemma first_of_simps [simp]: "first_of [] = None" "first_of (x # xs) = Some x"
  by (simp_all add: first_of_def)

fun tx_bytes :: "('j, 'p) sdk_lib \<Rightarrow> ('j, 'p) sdk_tx \<Rightarrow> bytes result" where
  "tx_bytes L (Amino tx) = ok_or (Error_Ed (UnexpectedByte 0)) (sl_json_tx L tx)"
| "tx_bytes L (Protobuf tx) = Ok (sl_proto_encode L tx)"

definition tx_encoding_length :: "('j, 'p) sdk_lib \<Rightarrow> ('j, 'p) sdk_tx \<Rightarrow> nat result" where
  "tx_encoding_length L tx = and_then (tx_bytes L tx) (\<lambda>bs. Ok (length bs))"

definition tx_encode :: "('j, 'p) sdk_lib \<Rightarrow> ('j, 'p) sdk_tx \<Rightarrow> bytes result" where
  "tx_encode L tx = and_then (tx_bytes L tx) (\<lambda>bs.
     if max_call_size < length bs then Err (Error_Ed (UnexpectedByte 0)) else Ok bs)"

text \<open>The byte 123 is the opening brace.\<close>

definition tx_decode :: "('j, 'p) sdk_lib \<Rightarrow> bytes \<Rightarrow> ('j, 'p) sdk_tx result" where
  "tx_decode L bs = (case bs of
      [] \<Rightarrow> Err (Error_Ed (UnexpectedByte 0))
    | b # _ \<Rightarrow>
        if max_call_size < length bs then Err (Error_Ed (UnexpectedByte 0))
        else if b = 123 then and_then (ok_or (Error_Ed (UnexpectedByte 123)) (sl_json_parse L bs)) (\<lambda>tx. Ok (Amino tx))
        else and_then (ok_or (Error_Ed EdIO) (sl_proto_decode L bs)) (\<lambda>tx. Ok (Protobuf tx)))"

fun tx_sign_bytes :: "('j, 'p) sdk_lib \<Rightarrow> ('j, 'p) sdk_tx \<Rightarrow> bytes \<Rightarrow> u64 \<Rightarrow> bytes result" where
  "tx_sign_bytes L (Amino tx) chain_id nonce = sl_json_doc L \<lparr>sd_account_number = ''0'', sd_chain_id = chain_id, sd_fee = ax_fee tx,
     sd_memo = ax_memo tx, sd_msgs = ax_msg tx, sd_sequence = sl_decimal L nonce\<rparr>"
| "tx_sign_bytes L (Protobuf tx) chain_id nonce =
     and_then (sl_body_bytes L tx) (\<lambda>body_bytes.
     and_then (sl_auth_info_bytes L tx) (\<lambda>auth_info_bytes.
       sl_sign_doc L body_bytes auth_info_bytes chain_id 0))"

text \<open>\<^verbatim>\<open>copy_from_slice\<close> into an array of 33 bytes, or of 64.\<close>

fun tx_sender_pubkey :: "('j, 'p) sdk_lib \<Rightarrow> ('j, 'p) sdk_tx \<Rightarrow> bytes result" where
  "tx_sender_pubkey L (Amino tx) =
     and_then (ok_or (Error_App ''No signatures provided'') (first_of (ax_signatures tx))) (\<lambda>sg.
     and_then (sl_base64 L (sg_key_value sg)) (copy_from_slice 33))"
| "tx_sender_pubkey L (Protobuf tx) =
     and_then (ok_or (Error_App ''No auth info provided'') (first_of (sl_signer_keys L tx))) (\<lambda>public_key.
     and_then (ok_or (Error_App ''No public key provided'') public_key) (\<lambda>key.
     and_then (ok_or (Error_App ''Invalid public key'') key) (copy_from_slice 33)))"

fun tx_signature :: "('j, 'p) sdk_lib \<Rightarrow> ('j, 'p) sdk_tx \<Rightarrow> bytes result" where
  "tx_signature L (Amino tx) =
     and_then (ok_or (Error_App ''No signatures provided'') (first_of (ax_signatures tx))) (\<lambda>sg.
     and_then (sl_base64 L (sg_signature sg)) (copy_from_slice 64))"
| "tx_signature L (Protobuf tx) =
     and_then (ok_or (Error_App ''No signatures provided'') (first_of (sl_signatures L tx))) (copy_from_slice 64)"

fun tx_sig_type :: "('j, 'p) sdk_tx \<Rightarrow> string option result" where
  "tx_sig_type (Amino tx) =
     and_then (ok_or (Error_App ''No signatures provided'') (first_of (ax_signatures tx))) (\<lambda>sg. Ok (sg_type sg))"
| "tx_sig_type (Protobuf tx) = Ok None"

abbreviation tx_signercall :: "('j, 'p) sdk_lib \<Rightarrow> ('j, 'p) sdk_tx \<Rightarrow> ('j, 'p) sdk_tx signer_call result" where
  "tx_signercall L \<equiv> sdk_to_signercall (tx_signature L) (tx_sender_pubkey L) tx_sig_type"

definition tx_sender_address :: "('j, 'p) sdk_lib \<Rightarrow> ('k, 'g, ('j, 'p) sdk_tx) crypto \<Rightarrow> ('j, 'p) sdk_tx \<Rightarrow> address result" where
  "tx_sender_address L C tx = and_then (tx_signercall L tx) (signer_call_address C)"

section \<open>The plugin\<close>

datatype ('c, 'tx) sdk_call = NativeCall 'c | SdkCall 'tx

fun sdk_call_encoding_length :: "('j, 'p) sdk_lib \<Rightarrow> ('c \<Rightarrow> nat result) \<Rightarrow> ('c, ('j, 'p) sdk_tx) sdk_call \<Rightarrow> nat result" where
  "sdk_call_encoding_length L len (NativeCall native) = and_then (len native) (\<lambda>n. Ok (n + 1))"
| "sdk_call_encoding_length L len (SdkCall tx) = tx_encoding_length L tx"

fun sdk_call_encode :: "('j, 'p) sdk_lib \<Rightarrow> 'c codec \<Rightarrow> ('c, ('j, 'p) sdk_tx) sdk_call \<Rightarrow> bytes result" where
  "sdk_call_encode L cc (NativeCall native) = and_then (enc cc native) (\<lambda>bs. Ok (native_call_flag # bs))"
| "sdk_call_encode L cc (SdkCall tx) = tx_encode L tx"

definition sdk_call_decode :: "('j, 'p) sdk_lib \<Rightarrow> 'c codec \<Rightarrow> bytes \<Rightarrow> ('c, ('j, 'p) sdk_tx) sdk_call result" where
  "sdk_call_decode L cc bs = (if max_call_size < length bs then Err (Error_Ed (UnexpectedByte 0))
     else case bs of
       [] \<Rightarrow> Err (Error_Ed EdIO)
     | b # rest \<Rightarrow>
         if b = native_call_flag then and_then (dec cc rest) (\<lambda>(native, _). Ok (NativeCall native))
         else and_then (tx_decode L bs) (\<lambda>tx. Ok (SdkCall tx)))"

definition sdk_plugin_call :: "('tx \<Rightarrow> (('t, 'z) world, 'c) op) \<Rightarrow> ('c \<Rightarrow> (('t, 'z) world, unit) op) \<Rightarrow> ('c, 'tx) sdk_call \<Rightarrow> (('t, 'z) world, unit) op" where
  "sdk_plugin_call convert inner call = op_bind (case call of NativeCall c \<Rightarrow> op_ok c | SdkCall tx \<Rightarrow> convert tx) inner"

text \<open>\<^verbatim>\<open>ConvertSdkTx\<close> of the signer plugin and of the payable plugin; of the nonce and the chain
  plugin see \<open>nonce_convert\<close> and \<open>chain_convert\<close>.\<close>

definition signer_convert :: "('j, 'p) sdk_lib \<Rightarrow> ('c \<Rightarrow> bytes result) \<Rightarrow> (('j, 'p) sdk_tx \<Rightarrow> (('t, 'z) world, 'c) op) \<Rightarrow> ('j, 'p) sdk_tx
    \<Rightarrow> (('t, 'z) world, ('j, 'p) sdk_tx signer_call) op" where
  "signer_convert L encode convert_inner sdk_tx =
     op_bind (op_lift (tx_signercall L sdk_tx)) (\<lambda>signer_call.
     op_bind (convert_inner sdk_tx) (\<lambda>inner_call.
     op_lift (and_then (encode inner_call) (\<lambda>bs. Ok (signer_call\<lparr>sc_call_bytes := bs\<rparr>)))))"

definition payable_convert :: "('tx \<Rightarrow> 'c paid_call result) \<Rightarrow> 'tx \<Rightarrow> 'c payable_call result" where
  "payable_convert convert_inner sdk_tx = and_then (convert_inner sdk_tx) (\<lambda>paid_call. Ok (Paid paid_call))"

section \<open>Laws\<close>

text \<open>What a Protobuf transaction signs does not depend on the nonce.\<close>

lemma protobuf_sign_bytes: "tx_sign_bytes L (Protobuf tx) chain_id n = tx_sign_bytes L (Protobuf tx) chain_id m"
  by simp

text \<open>A transaction becomes a call with a signature on the transaction.\<close>

lemma tx_signercall_Ok:
  assumes "tx_signercall L tx = Ok sc"
  shows "sc_signature sc \<noteq> None \<and> sc_pubkey sc \<noteq> None \<and> (sc_sigtype sc = Sdk tx \<or> sc_sigtype sc = EthPersonalSign tx)"
  using assms by (auto simp: sdk_to_signercall_def result_simps split: if_splits)

text \<open>Verifying a call with a signature on a transaction depends on the contexts and the inner
  value only through the bytes to be signed.\<close>

lemma and_then_cong: "r = r' \<Longrightarrow> (\<And>x. r' = Ok x \<Longrightarrow> f x = g x) \<Longrightarrow> and_then r f = and_then r' g"
  by (cases r') simp_all

lemma verify_sdk_cong:
  assumes "sc_sigtype sc = Sdk tx \<or> sc_sigtype sc = EthPersonalSign tx"
    and "\<And>a. signer_call_address C sc = Ok a \<Longrightarrow> sdk_sign_bytes C gn tx a w = sdk_sign_bytes C gn' tx a w'"
  shows "signer_verify C gn sc w = signer_verify C gn' sc w'"
  using assms
  by (auto simp: signer_verify_def signed_message_def signer_call_address_def intro!: and_then_cong split: option.splits)

lemma verify_sdk_Ok:
  assumes "sc_sigtype sc = Sdk tx \<or> sc_sigtype sc = EthPersonalSign tx" and "signer_verify C gn sc w = Ok (Some a)"
  shows "\<exists>bs. sdk_sign_bytes C gn tx a w = Ok bs"
  using assms by (auto simp: signer_verify_def signed_message_def result_simps split: option.splits)

text \<open>The call bytes play no role in it.\<close>

lemma verify_sdk_bytes:
  assumes "sc_sigtype sc = Sdk tx \<or> sc_sigtype sc = EthPersonalSign tx"
  shows "signer_verify C gn (sc\<lparr>sc_call_bytes := bs\<rparr>) w = signer_verify C gn sc w"
  using assms by (auto simp: signer_verify_def signed_message_def split: option.splits)

text \<open>The signer of a verified call is the address that the call claims, which has 20 bytes.\<close>

lemma address_from_pubkey_ok: "address_from_pubkey h r pk = Ok a \<Longrightarrow> address_ok a"
  by (auto simp: address_from_pubkey_def copy_from_slice_def address_ok_def result_simps split: if_splits)

lemma eth_address_ok: "eth_address C k = Ok a \<Longrightarrow> address_ok a"
  by (auto simp: eth_address_def address_from_pubkey_eth_def copy_from_slice_def address_ok_def result_simps split: if_splits)

lemma signer_verify_address:
  assumes "signer_verify C gn sc w = Ok (Some a)"
  shows "signer_call_address C sc = Ok a \<and> address_ok a"
  using assms
  by (auto simp: signer_verify_def signed_message_def signer_call_address_def native_address_def result_simps
      address_from_pubkey_ok eth_address_ok split: option.splits sig_type.splits)

section \<open>Properties\<close>

text \<open>
  Calls survive their encoding: a native call of at most 65,534 bytes, and a transaction
  whose JSON or Protobuf form is read back by the library, decode to themselves, if the
  encoded transaction begins as its format demands.
\<close>

lemma sdk_call_round_trip:
  assumes "case call of NativeCall c \<Rightarrow> dec cc (tl bs) = Ok (c, [])
      | SdkCall (Amino tx) \<Rightarrow> hd bs = 123 \<and> sl_json_parse L bs = Some tx
      | SdkCall (Protobuf tx) \<Rightarrow> hd bs \<notin> {123, native_call_flag} \<and> sl_proto_decode L bs = Some tx"
    and "sdk_call_encode L cc call = Ok bs" and "bs \<noteq> []"
  shows "sdk_call_decode L cc bs = (if length bs \<le> max_call_size then Ok call else Err (Error_Ed (UnexpectedByte 0)))
    \<and> (\<forall>tx. call = SdkCall tx \<longrightarrow> length bs \<le> max_call_size)"
  using assms
  by (cases bs) (auto simp: sdk_call_decode_def tx_decode_def tx_encode_def native_call_flag_def result_simps not_less
      split: sdk_call.splits sdk_tx.splits if_splits)

text \<open>A toy library: a Protobuf transaction is its one signer's key and a list of bytes, which is
  also its signature.\<close>

definition toy_sdk :: "(unit, bytes \<times> bytes) sdk_lib" where
  "toy_sdk = \<lparr>sl_json_tx = (\<lambda>_. None), sl_json_parse = (\<lambda>_. None), sl_json_doc = (\<lambda>_. Err Error_Unknown), sl_base64 = (\<lambda>_. Err Error_Unknown),
     sl_decimal = (\<lambda>_. []), sl_proto_encode = (\<lambda>(k, m). 10 # k @ m), sl_proto_decode = (\<lambda>bs. Some (take 33 (tl bs), drop 34 bs)),
     sl_signer_keys = (\<lambda>(k, m). [Some (Some k)]), sl_signatures = (\<lambda>(k, m). [m]), sl_body_bytes = (\<lambda>(k, m). Ok m),
     sl_auth_info_bytes = (\<lambda>(k, m). Ok []), sl_sign_doc = (\<lambda>body auth chain_id acct. Ok (drop 33 body))\<rparr>"

lemma sdk_call_round_trip_witness:
  "sdk_call_decode toy_sdk word_codec [native_call_flag, 7] = Ok (NativeCall (7 :: byte))"
  using sdk_call_round_trip [where call = "NativeCall (7 :: byte)" and cc = word_codec and bs = "[native_call_flag, 7]" and L = toy_sdk]
  by (simp add: max_call_size_def)

text \<open>The Amino form signs its nonce, if JSON and numerals are unambiguous.\<close>

lemma amino_sign_bytes_nonce:
  assumes "\<And>d d'. sl_json_doc L d = sl_json_doc L d' \<Longrightarrow> d = d'" and "inj (sl_decimal L)"
    and "tx_sign_bytes L (Amino tx) chain_id n = tx_sign_bytes L (Amino tx) chain_id m"
  shows "n = m"
  using assms(1) [OF assms(3) [unfolded tx_sign_bytes.simps]] assms(2) by (auto dest: injD)

text \<open>A key of another length than 33 bytes makes the conversion panic.\<close>

lemma malformed_key_panics:
  assumes "ax_signatures tx = sg # sgs" and "sl_base64 L (sg_signature sg) = Ok g" and "length g = 64"
    and "sl_base64 L (sg_key_value sg) = Ok k" and "length k \<noteq> 33"
  shows "signer_convert L encode convert_inner (Amino tx) w = (Panic, w)"
  using assms by (simp add: signer_convert_def sdk_to_signercall_def copy_from_slice_def)

end
