(* ===== verification/Accounts.thy ===== *)
theory Accounts
  imports Coin_State
begin

text \<open>
  \<^verbatim>\<open>src/coins/accounts.rs\<close>: balances of one symbol, transfers between them, and moving coins to
  and from the paid context.

  Each method is shown to do to the balances what it should on every path, and transactions
  through the payable and the fee plugin (\<open>Payable\<close>) to conserve the supply up to the fee.
\<close>

section \<open>The module\<close>

record accounts =
  ac_transfers_allowed :: bool
  ac_transfer_exceptions :: "(address, unit) omap"
  ac_accounts :: "(address, coin) omap"

text \<open>The types of the two maps; both live in the same store \<open>'s\<close>, which the calls only read.\<close>

record 's accounts_types =
  at_exceptions :: "('s, address, unit) map_types"
  at_accounts :: "('s, address, coin) map_types"

type_synonym 'z acc_world = "(accounts, 'z) world"

definition on_accounts :: "((address, coin) omap, 'a) op \<Rightarrow> ('z acc_world, 'a) op" where
  "on_accounts f = (\<lambda>(t, cx). case f (ac_accounts t) of (r, m) \<Rightarrow> (r, (t\<lparr>ac_accounts := m\<rparr>, cx)))"

definition accounts_signer :: "('z acc_world, address) op" where
  "accounts_signer = op_read (\<lambda>(t, cx).
     and_then (ok_or (Error_Signer ''No Signer context available'') (context_resolve cx_signer cx)) (\<lambda>sg.
       ok_or (Error_Coins ''Unauthorized account action'') (signer_signer sg)))"

definition take_own_coins :: "'s accounts_types \<Rightarrow> 's \<Rightarrow> amount \<Rightarrow> ('z acc_world, coin) op" where
  "take_own_coins A s a =
     op_bind accounts_signer (\<lambda>sg.
     op_bind (op_read (\<lambda>(t, cx). map_get_mut (at_accounts A) (ac_accounts t) s sg)) (\<lambda>c.
     op_bind (op_lift (ok_or (Error_Coins ''Insufficient funds'') c)) (\<lambda>child.
       on_accounts (child_run (at_accounts A) (coin_take a) child))))"

text \<open>\<^verbatim>\<open>entry(address)?.or_insert_default()?\<close>, then a method of the coin.\<close>

definition on_account :: "'s accounts_types \<Rightarrow> 's \<Rightarrow> address \<Rightarrow> (coin, 'a) op \<Rightarrow> ('z acc_world, 'a) op" where
  "on_account A s addr f =
     op_bind (op_read (\<lambda>(t, cx). entry (at_accounts A) (ac_accounts t) s addr)) (\<lambda>e.
     op_bind (on_accounts (or_insert_default (at_accounts A) coin_new e)) (\<lambda>child.
       on_accounts (child_run (at_accounts A) f child)))"

definition give_own_coins :: "'s accounts_types \<Rightarrow> 's \<Rightarrow> coin \<Rightarrow> ('z acc_world, unit) op" where
  "give_own_coins A s coins = op_bind accounts_signer (\<lambda>sg. on_account A s sg (coin_give coins))"

definition accounts_transfer :: "'s accounts_types \<Rightarrow> 's \<Rightarrow> address \<Rightarrow> amount \<Rightarrow> ('z acc_world, unit) op" where
  "accounts_transfer A s dest a =
     op_bind accounts_signer (\<lambda>sg.
     op_bind (op_read (\<lambda>(t, cx). if ac_transfers_allowed t then Ok True
         else map_contains_key (at_exceptions A) (ac_transfer_exceptions t) s sg)) (\<lambda>allowed.
       if \<not> allowed then op_err (Error_Coins ''Transfers are currently disabled'')
       else
         op_bind (take_own_coins A s a) (\<lambda>taken_coins.
           on_account A s dest (coin_give taken_coins))))"

definition accounts_take_as_funding :: "'s accounts_types \<Rightarrow> byte \<Rightarrow> 's \<Rightarrow> amount \<Rightarrow> ('z acc_world, unit) op" where
  "accounts_take_as_funding A index s a =
     op_bind (take_own_coins A s a) (\<lambda>taken_coins.
       on_paid (Error_Coins ''No Paid context found'') (paid_give index (coin_amount taken_coins)))"

definition accounts_give_from_funding :: "'s accounts_types \<Rightarrow> byte \<Rightarrow> 's \<Rightarrow> amount \<Rightarrow> ('z acc_world, unit) op" where
  "accounts_give_from_funding A index s a =
     op_bind (on_paid (Error_Coins ''No Paid context found'') (paid_take index a)) (give_own_coins A s)"

definition accounts_give_from_funding_all :: "'s accounts_types \<Rightarrow> byte \<Rightarrow> 's \<Rightarrow> ('z acc_world, unit) op" where
  "accounts_give_from_funding_all A index s =
     op_bind (on_paid (Error_Coins ''No Paid context found'')
       (op_bind (op_read (paid_balance index)) (paid_take index))) (give_own_coins A s)"

definition accounts_balance :: "'s accounts_types \<Rightarrow> accounts \<Rightarrow> 's \<Rightarrow> address \<Rightarrow> amount result" where
  "accounts_balance A t s addr = and_then (map_get (at_accounts A) (ac_accounts t) s addr) (\<lambda>r. case r of
      Some c \<Rightarrow> Ok (coin_amount (ref_deref c))
    | None \<Rightarrow> Ok (Amount 0))"

definition accounts_exists :: "'s accounts_types \<Rightarrow> accounts \<Rightarrow> 's \<Rightarrow> address \<Rightarrow> bool result" where
  "accounts_exists A t s addr = and_then (map_get (at_accounts A) (ac_accounts t) s addr) (\<lambda>r. Ok (r \<noteq> None))"

definition allow_transfers :: "bool \<Rightarrow> accounts \<Rightarrow> accounts" where
  "allow_transfers enabled t = t\<lparr>ac_transfers_allowed := enabled\<rparr>"

definition add_transfer_exception :: "'s accounts_types \<Rightarrow> address \<Rightarrow> (accounts, unit) op" where
  "add_transfer_exception A addr t = (case map_insert (at_exceptions A) addr () (ac_transfer_exceptions t) of
     (r, m) \<Rightarrow> (r, t\<lparr>ac_transfer_exceptions := m\<rparr>))"

definition accounts_deposit :: "'s accounts_types \<Rightarrow> 's \<Rightarrow> address \<Rightarrow> coin \<Rightarrow> ('z acc_world, unit) op" where
  "accounts_deposit A s addr coins = on_account A s addr (coin_give coins)"

definition accounts_withdraw :: "'s accounts_types \<Rightarrow> 's \<Rightarrow> address \<Rightarrow> amount \<Rightarrow> ('z acc_world, coin) op" where
  "accounts_withdraw A s addr a = on_account A s addr (coin_take a)"

text \<open>The methods marked as calls, as the macro dispatches them.\<close>

datatype accounts_call = Transfer address amount | TakeAsFunding amount | GiveFromFunding amount | GiveFromFundingAll

fun accounts_run :: "'s accounts_types \<Rightarrow> byte \<Rightarrow> 's \<Rightarrow> accounts_call \<Rightarrow> ('z acc_world, unit) op" where
  "accounts_run A index s (Transfer dest a) = accounts_transfer A s dest a"
| "accounts_run A index s (TakeAsFunding a) = accounts_take_as_funding A index s a"
| "accounts_run A index s (GiveFromFunding a) = accounts_give_from_funding A index s a"
| "accounts_run A index s GiveFromFundingAll = accounts_give_from_funding_all A index s"

section \<open>Balances\<close>

definition coin_of :: "coin option \<Rightarrow> nat" where
  "coin_of c = (case c of None \<Rightarrow> 0 | Some c \<Rightarrow> coin_nat c)"

lemma coin_of_simps [simp]: "coin_of None = 0" "coin_of (Some c) = coin_nat c"
  by (simp_all add: coin_of_def)

lemma coin_of_or_else [simp]: "coin_nat (or_else coin_new c) = coin_of c"
  by (cases c) (simp_all add: coin_new_def)

text \<open>What the map of accounts holds, what the balances add up to, and that both maps are
  well-formed.\<close>

definition acc_bal :: "((address, coin) omap \<Rightarrow> 's \<Rightarrow> address \<Rightarrow> coin option) \<Rightarrow> accounts \<Rightarrow> 's \<Rightarrow> address \<Rightarrow> nat" where
  "acc_bal look t s x = coin_of (look (ac_accounts t) s x)"

definition acc_supply :: "((address, coin) omap \<Rightarrow> 's \<Rightarrow> address \<Rightarrow> coin option) \<Rightarrow> (address \<Rightarrow> bool)
    \<Rightarrow> accounts \<Rightarrow> 's \<Rightarrow> nat" where
  "acc_supply look okk t s = (\<Sum>x\<in>{x. okk x}. acc_bal look t s x)"

definition acc_inv :: "((address, coin) omap \<Rightarrow> 's \<Rightarrow> bool) \<Rightarrow> ((address, unit) omap \<Rightarrow> 's \<Rightarrow> bool) \<Rightarrow> accounts \<Rightarrow> 's \<Rightarrow> bool" where
  "acc_inv mwf ewf t s \<longleftrightarrow> mwf (ac_accounts t) s \<and> ewf (ac_transfer_exceptions t) s"

text \<open>The addresses in a call are addresses.\<close>

fun call_ok :: "(address \<Rightarrow> bool) \<Rightarrow> accounts_call \<Rightarrow> bool" where
  "call_ok okk (Transfer dest a) = okk dest"
| "call_ok okk _ = True"

text \<open>The signer of a call.\<close>

definition signed :: "'z contexts_scheme \<Rightarrow> address \<Rightarrow> bool" where
  "signed cx sg \<longleftrightarrow> cx_signer cx = Some (Signer (Some sg))"

lemma signer_law: "signed cx sg \<Longrightarrow> accounts_signer (t, cx) = (Ok sg, (t, cx))"
  by (simp add: accounts_signer_def signed_def)

text \<open>A transaction is a pair of calls through the payable and the fee plugin.  What a failed
  transaction has changed is kept (\<open>Abci_Node\<close>).\<close>

definition accounts_tx :: "'s accounts_types \<Rightarrow> byte \<Rightarrow> 's \<Rightarrow> accounts_call payable_call \<Rightarrow> ('z acc_world, unit) op" where
  "accounts_tx A index s = payable_plugin_call (fee_call index (accounts_run A index s))"

fun tx_ok :: "(address \<Rightarrow> bool) \<Rightarrow> accounts_call payable_call \<Rightarrow> bool" where
  "tx_ok okk (Unpaid c) = call_ok okk c"
| "tx_ok okk (Paid pc) = (call_ok okk (pc_payer pc) \<and> call_ok okk (pc_paid pc))"

inductive acc_reach :: "'s accounts_types \<Rightarrow> byte \<Rightarrow> 's \<Rightarrow> (address \<Rightarrow> bool) \<Rightarrow> accounts \<Rightarrow> accounts \<Rightarrow> bool"
  for A index s okk t0 where
  start: "acc_reach A index s okk t0 t0"
| tx: "acc_reach A index s okk t0 t \<Longrightarrow> signed cx sg \<Longrightarrow> okk sg \<Longrightarrow> tx_ok okk call
    \<Longrightarrow> accounts_tx A index s call (t, cx :: contexts) = (r, (t', cx')) \<Longrightarrow> acc_reach A index s okk t0 t'"

locale accounts_maps =
  acc: map_entries "at_accounts A" look wf okk "\<lambda>_. True" coin_new +
  exc: map_access "at_exceptions A" elook ewf okk "\<lambda>_. True"
  for A :: "'s accounts_types" and look :: "(address, coin) omap \<Rightarrow> 's \<Rightarrow> address \<Rightarrow> coin option"
    and wf :: "(address, coin) omap \<Rightarrow> 's \<Rightarrow> bool" and okk :: "address \<Rightarrow> bool"
    and elook :: "(address, unit) omap \<Rightarrow> 's \<Rightarrow> address \<Rightarrow> unit option" and ewf :: "(address, unit) omap \<Rightarrow> 's \<Rightarrow> bool" +
  assumes finite_keys: "finite {a. okk a}"
begin

abbreviation inv :: "accounts \<Rightarrow> 's \<Rightarrow> bool" where
  "inv \<equiv> acc_inv wf ewf"

abbreviation bal :: "accounts \<Rightarrow> 's \<Rightarrow> address \<Rightarrow> nat" where
  "bal \<equiv> acc_bal look"

abbreviation total_supply :: "accounts \<Rightarrow> 's \<Rightarrow> nat" where
  "total_supply \<equiv> acc_supply look okk"

text \<open>The result of changing one balance, with the rest of the module as it was.\<close>

definition changes :: "accounts \<Rightarrow> 's \<Rightarrow> address \<Rightarrow> nat \<Rightarrow> accounts \<Rightarrow> bool" where
  "changes t s x n t' \<longleftrightarrow> inv t' s \<and> ac_transfers_allowed t' = ac_transfers_allowed t
     \<and> ac_transfer_exceptions t' = ac_transfer_exceptions t
     \<and> (\<forall>y. okk y \<longrightarrow> bal t' s y = (if y = x then n else bal t s y))"

lemma on_account_law:
  assumes "inv t s" and "okk x" and f: "\<And>c. coin_nat c = bal t s x \<Longrightarrow> f c = (r c, g c)"
  shows "\<exists>t' c. on_account A s x f (t, cx) = (r c, (t', cx)) \<and> coin_nat c = bal t s x \<and> changes t s x (coin_nat (g c)) t'"
proof -
  let ?m = "ac_accounts t" and ?c = "or_else coin_new (look (ac_accounts t) s x)"
  have w: "wf ?m s" using assms(1) by (simp add: acc_inv_def)
  obtain e ch m1 where e: "entry (at_accounts A) ?m s x = Ok e" "or_insert_default (at_accounts A) coin_new e ?m = (Ok ch, m1)"
      "\<forall>k'. okk k' \<longrightarrow> look m1 s k' = (if k' = x then Some ?c else look ?m s k')"
      "refers (at_accounts A) look wf okk (\<lambda>_. True) m1 s x ?c ch"
    using acc.or_insert_entry [OF w assms(2)] by blast
  have c: "coin_nat ?c = bal t s x" by (simp add: acc_bal_def)
  obtain m2 where m2: "child_run (at_accounts A) f ch m1 = (r ?c, m2)" "wf m2 s"
      "\<forall>k'. okk k' \<longrightarrow> look m2 s k' = (if k' = x then Some (g ?c) else look m1 s k')"
    using acc.child_run_law [where f = f, OF e(4) f [OF c] TrueI] by blast
  have "changes t s x (coin_nat (g ?c)) (t\<lparr>ac_accounts := m2\<rparr>)"
    using m2 e(3) assms(1) by (auto simp: changes_def acc_inv_def acc_bal_def)
  moreover have "on_account A s x f (t, cx) = (r ?c, (t\<lparr>ac_accounts := m2\<rparr>, cx))"
    using e(1,2) m2(1) by (simp add: on_account_def on_accounts_def op_bind_def)
  ultimately show ?thesis using c by blast
qed

lemma give_account:
  assumes "inv t s" and "okk x"
  shows "\<exists>t'. on_account A s x (coin_give v) (t, cx)
      = (if bal t s x + coin_nat v < 2 ^ 64 then Ok () else Err Error_Unknown, (t', cx))
    \<and> changes t s x (if bal t s x + coin_nat v < 2 ^ 64 then bal t s x + coin_nat v else bal t s x) t'"
proof -
  let ?r = "if bal t s x + coin_nat v < 2 ^ 64 then Ok () else Err Error_Unknown"
  have "coin_give v c = (?r, snd (coin_give v c))" if "coin_nat c = bal t s x" for c
    using coin_give_cases [of c v] that by auto
  from on_account_law [where f = "coin_give v" and r = "\<lambda>_. ?r" and g = "\<lambda>c. snd (coin_give v c)", OF assms this]
  obtain t' c where "on_account A s x (coin_give v) (t, cx) = (?r, (t', cx))" "coin_nat c = bal t s x"
      "changes t s x (coin_nat (snd (coin_give v c))) t'" by blast
  moreover have "coin_nat (snd (coin_give v c)) = (if bal t s x + coin_nat v < 2 ^ 64 then bal t s x + coin_nat v else bal t s x)"
    using calculation(2) coin_give_cases [of c v] by auto
  ultimately show ?thesis by auto
qed

lemma take_account:
  assumes "inv t s" and "okk x"
  shows "\<exists>t'. on_account A s x (coin_take a) (t, cx)
      = (if am_nat a \<le> bal t s x then Ok (Coin a) else Err (Error_Coins ''Insufficient funds''), (t', cx))
    \<and> changes t s x (if am_nat a \<le> bal t s x then bal t s x - am_nat a else bal t s x) t'"
proof -
  let ?r = "if am_nat a \<le> bal t s x then Ok (Coin a) else Err (Error_Coins ''Insufficient funds'')"
  have "coin_take a c = (?r, snd (coin_take a c))" if "coin_nat c = bal t s x" for c
    using coin_take_cases [of a c] that by auto
  from on_account_law [where f = "coin_take a" and r = "\<lambda>_. ?r" and g = "\<lambda>c. snd (coin_take a c)", OF assms this]
  obtain t' c where "on_account A s x (coin_take a) (t, cx) = (?r, (t', cx))" "coin_nat c = bal t s x"
      "changes t s x (coin_nat (snd (coin_take a c))) t'" by blast
  moreover have "coin_nat (snd (coin_take a c)) = (if am_nat a \<le> bal t s x then bal t s x - am_nat a else bal t s x)"
    using calculation(2) coin_take_cases [of a c] by auto
  ultimately show ?thesis by auto
qed

lemma changes_refl: "inv t s \<Longrightarrow> changes t s x (bal t s x) t"
  by (simp add: changes_def)

lemma take_own_law:
  assumes "inv t s" and "signed cx sg" and "okk sg"
  shows "\<exists>t'. take_own_coins A s a (t, cx)
      = (if am_nat a \<le> bal t s sg \<and> look (ac_accounts t) s sg \<noteq> None then Ok (Coin a) else Err (Error_Coins ''Insufficient funds''), (t', cx))
    \<and> changes t s sg (if am_nat a \<le> bal t s sg then bal t s sg - am_nat a else bal t s sg) t'"
proof -
  let ?m = "ac_accounts t"
  have w: "wf ?m s" using assms(1) by (simp add: acc_inv_def)
  obtain c where c: "map_get_mut (at_accounts A) ?m s sg = Ok c"
      "case look ?m s sg of None \<Rightarrow> c = None | Some v \<Rightarrow> \<exists>x. c = Some x \<and> refers (at_accounts A) look wf okk (\<lambda>_. True) ?m s sg v x"
    using acc.get_mut_entry [OF w assms(3)] by blast
  show ?thesis
  proof (cases "look ?m s sg")
    case None
    then have "c = None" "bal t s sg = 0" using c(2) by (simp_all add: acc_bal_def)
    then show ?thesis
      using c(1) None changes_refl [OF assms(1), of sg] by (auto simp: take_own_coins_def signer_law [OF assms(2)] op_bind_def)
  next
    case (Some v)
    then obtain x where x: "c = Some x" "refers (at_accounts A) look wf okk (\<lambda>_. True) ?m s sg v x" using c(2) by auto
    have v: "bal t s sg = coin_nat v" using Some by (simp add: acc_bal_def)
    obtain r v' where run: "coin_take a v = (r, v')" by force
    obtain m2 where m2: "child_run (at_accounts A) (coin_take a) x ?m = (r, m2)" "wf m2 s"
        "\<forall>k'. okk k' \<longrightarrow> look m2 s k' = (if k' = sg then Some v' else look ?m s k')"
      using acc.child_run_law [where f = "coin_take a", OF x(2) run TrueI] by blast
    have "changes t s sg (coin_nat v') (t\<lparr>ac_accounts := m2\<rparr>)"
      using m2 assms(1) by (auto simp: changes_def acc_inv_def acc_bal_def)
    moreover have "take_own_coins A s a (t, cx) = (r, (t\<lparr>ac_accounts := m2\<rparr>, cx))"
      using c(1) x(1) m2(1) by (simp add: take_own_coins_def signer_law [OF assms(2)] op_bind_def on_accounts_def)
    moreover have "r = (if am_nat a \<le> bal t s sg then Ok (Coin a) else Err (Error_Coins ''Insufficient funds''))"
        "coin_nat v' = (if am_nat a \<le> bal t s sg then bal t s sg - am_nat a else bal t s sg)"
      using coin_take_cases [of a v] run by (auto simp: v)
    ultimately show ?thesis using Some by auto
  qed
qed

text \<open>Changing one balance and the supply.\<close>

lemma changes_supply:
  assumes "changes t s x n t'" and "okk x"
  shows "total_supply t' s + bal t s x = total_supply t s + n"
proof -
  have x: "x \<in> {x. okk x}" using assms(2) by simp
  have "total_supply t' s = bal t' s x + (\<Sum>y\<in>{x. okk x} - {x}. bal t' s y)"
    unfolding acc_supply_def using sum.remove [OF finite_keys x] by blast
  also have "(\<Sum>y\<in>{x. okk x} - {x}. bal t' s y) = (\<Sum>y\<in>{x. okk x} - {x}. bal t s y)"
    using assms(1) by (intro sum.cong) (auto simp: changes_def)
  finally have "total_supply t' s = n + (\<Sum>y\<in>{x. okk x} - {x}. bal t s y)" using assms by (simp add: changes_def)
  moreover have "total_supply t s = bal t s x + (\<Sum>y\<in>{x. okk x} - {x}. bal t s y)"
    unfolding acc_supply_def using sum.remove [OF finite_keys x] by blast
  ultimately show ?thesis by simp
qed

lemma bal_le_supply: "okk x \<Longrightarrow> bal t s x \<le> total_supply t s"
  unfolding acc_supply_def using finite_keys by (intro member_le_sum) auto

lemma transfer_law:
  assumes "inv t s" and "signed cx sg" and "okk sg" and "okk dest"
  shows "let run = accounts_transfer A s dest a (t, cx)
    in if \<not> ac_transfers_allowed t \<and> elook (ac_transfer_exceptions t) s sg = None
       then run = (Err (Error_Coins ''Transfers are currently disabled''), (t, cx))
       else if bal t s sg < am_nat a \<or> look (ac_accounts t) s sg = None
       then \<exists>t'. run = (Err (Error_Coins ''Insufficient funds''), (t', cx)) \<and> inv t' s
         \<and> (\<forall>x. okk x \<longrightarrow> bal t' s x = bal t s x)
       else if sg \<noteq> dest \<and> 2 ^ 64 \<le> bal t s dest + am_nat a
       then \<exists>t'. run = (Err Error_Unknown, (t', cx)) \<and> inv t' s
         \<and> (\<forall>x. okk x \<longrightarrow> bal t' s x = (if x = sg then bal t s sg - am_nat a else bal t s x))
       else \<exists>t'. run = (Ok (), (t', cx)) \<and> inv t' s
         \<and> (\<forall>x. okk x \<longrightarrow> bal t' s x = (if sg = dest then bal t s x else if x = sg then bal t s sg - am_nat a
              else if x = dest then bal t s dest + am_nat a else bal t s x))"
proof -
  let ?allowed = "ac_transfers_allowed t \<or> elook (ac_transfer_exceptions t) s sg \<noteq> None"
  let ?rest = "op_bind (take_own_coins A s a) (\<lambda>c. on_account A s dest (coin_give c))"
  have "ewf (ac_transfer_exceptions t) s" using assms(1) by (simp add: acc_inv_def)
  then have run: "accounts_transfer A s dest a (t, cx) = (if ?allowed then ?rest (t, cx)
      else (Err (Error_Coins ''Transfers are currently disabled''), (t, cx)))"
    using exc.access_contains [OF _ assms(3)]
    by (auto simp: accounts_transfer_def signer_law [OF assms(2)] op_bind_def)
  obtain t1 where t1: "take_own_coins A s a (t, cx) = (if am_nat a \<le> bal t s sg \<and> look (ac_accounts t) s sg \<noteq> None then Ok (Coin a)
        else Err (Error_Coins ''Insufficient funds''), (t1, cx))"
      "changes t s sg (if am_nat a \<le> bal t s sg then bal t s sg - am_nat a else bal t s sg) t1"
    using take_own_law [OF assms(1-3)] by blast
  have b1: "bal t1 s x = (if x = sg then if am_nat a \<le> bal t s sg then bal t s sg - am_nat a else bal t s sg
      else bal t s x)" if "okk x" for x
    using t1(2) that by (auto simp: changes_def)
  have i1: "inv t1 s" using t1(2) by (simp add: changes_def)
  have none: "bal t s sg = 0" if "look (ac_accounts t) s sg = None" using that by (simp add: acc_bal_def)
  obtain t2 where t2: "on_account A s dest (coin_give (Coin a)) (t1, cx)
        = (if bal t1 s dest + am_nat a < 2 ^ 64 then Ok () else Err Error_Unknown, (t2, cx))"
      "changes t1 s dest (if bal t1 s dest + am_nat a < 2 ^ 64 then bal t1 s dest + am_nat a else bal t1 s dest) t2"
    using give_account [OF i1 assms(4), of "Coin a" cx] unfolding coin.sel by blast
  have i2: "inv t2 s" using t2(2) by (simp add: changes_def)
  have b2: "bal t2 s x = (if x = dest then if bal t1 s dest + am_nat a < 2 ^ 64 then bal t1 s dest + am_nat a else bal t1 s dest
      else bal t1 s x)" if "okk x" for x
    using t2(2) that by (simp add: changes_def)
  show ?thesis
  proof (cases "am_nat a \<le> bal t s sg \<and> look (ac_accounts t) s sg \<noteq> None")
    case False
    then have "?rest (t, cx) = (Err (Error_Coins ''Insufficient funds''), (t1, cx))" using t1(1) by (auto simp: op_bind_def)
    moreover have "bal t1 s x = bal t s x" if "okk x" for x using b1 [OF that] False none by auto
    ultimately show ?thesis using run i1 False by (auto simp: Let_def not_le)
  next
    case True
    then have rest: "?rest (t, cx) = on_account A s dest (coin_give (Coin a)) (t1, cx)" using t1(1) by (simp add: op_bind_def)
    have own: "bal t s sg < 2 ^ 64"
      using True unsigned_less [where 'b = 64 and 'a = nat] by (fastforce simp: acc_bal_def)
    have b1d: "bal t1 s dest = (if dest = sg then bal t s sg - am_nat a else bal t s dest)"
      using b1 [OF assms(4)] True by simp
    show ?thesis
      using run rest t2(1) True own b1d i2 b2 b1 by (auto simp: Let_def not_le not_less)
  qed
qed

text \<open>What a call moves between the balances and the paid context: together they never grow,
  and nothing is lost unless an amount overflows.\<close>

definition moves :: "byte \<Rightarrow> 's \<Rightarrow> accounts \<Rightarrow> paid \<Rightarrow> unit result \<Rightarrow> accounts \<Rightarrow> paid \<Rightarrow> bool" where
  "moves index s t p r t' p' \<longleftrightarrow> r \<noteq> Panic \<and> inv t' s
     \<and> pd_running_payer p' = pd_running_payer p \<and> pd_fee_disabled p' = pd_fee_disabled p
     \<and> total_supply t' s + paid_nat index p' \<le> total_supply t s + paid_nat index p
     \<and> (r = Ok () \<or> total_supply t s + paid_nat index p < 2 ^ 64
          \<longrightarrow> total_supply t' s + paid_nat index p' = total_supply t s + paid_nat index p)"

lemma take_own_supply:
  assumes "inv t s" and "signed cx sg" and "okk sg"
  shows "\<exists>t'. inv t' s \<and> (take_own_coins A s a (t, cx) = (Ok (Coin a), (t', cx)) \<and> total_supply t' s + am_nat a = total_supply t s
    \<or> take_own_coins A s a (t, cx) = (Err (Error_Coins ''Insufficient funds''), (t', cx)) \<and> total_supply t' s = total_supply t s)"
proof -
  obtain t' where t': "take_own_coins A s a (t, cx) = (if am_nat a \<le> bal t s sg \<and> look (ac_accounts t) s sg \<noteq> None then Ok (Coin a)
        else Err (Error_Coins ''Insufficient funds''), (t', cx))"
      "changes t s sg (if am_nat a \<le> bal t s sg then bal t s sg - am_nat a else bal t s sg) t'"
    using take_own_law [OF assms] by blast
  have "bal t s sg = 0" if "look (ac_accounts t) s sg = None" using that by (simp add: acc_bal_def)
  then show ?thesis
    using t' changes_supply [OF t'(2) assms(3)] bal_le_supply [OF assms(3), of t s]
    by (intro exI [of _ t']) (auto simp: changes_def split: if_splits)
qed

lemma give_supply:
  assumes "inv t s" and "okk x"
  shows "\<exists>t'. inv t' s \<and> (on_account A s x (coin_give v) (t, cx) = (Ok (), (t', cx)) \<and> total_supply t' s = total_supply t s + coin_nat v
    \<or> on_account A s x (coin_give v) (t, cx) = (Err Error_Unknown, (t', cx)) \<and> total_supply t' s = total_supply t s
        \<and> 2 ^ 64 \<le> total_supply t s + coin_nat v)"
proof -
  obtain t' where t': "on_account A s x (coin_give v) (t, cx)
        = (if bal t s x + coin_nat v < 2 ^ 64 then Ok () else Err Error_Unknown, (t', cx))"
      "changes t s x (if bal t s x + coin_nat v < 2 ^ 64 then bal t s x + coin_nat v else bal t s x) t'"
    using give_account [OF assms] by blast
  then show ?thesis
    using changes_supply [OF t'(2) assms(2)] bal_le_supply [OF assms(2), of t s]
    by (intro exI [of _ t']) (auto simp: changes_def split: if_splits)
qed

lemma transfer_moves:
  assumes "inv t s" and "signed cx sg" and "okk sg" and "okk dest"
  shows "\<exists>r t'. accounts_transfer A s dest a (t, cx) = (r, (t', cx)) \<and> moves index s t p r t' p"
proof -
  have e: "ewf (ac_transfer_exceptions t) s" using assms(1) by (simp add: acc_inv_def)
  obtain t1 where t1: "inv t1 s" "take_own_coins A s a (t, cx) = (Ok (Coin a), (t1, cx)) \<and> total_supply t1 s + am_nat a = total_supply t s
      \<or> take_own_coins A s a (t, cx) = (Err (Error_Coins ''Insufficient funds''), (t1, cx)) \<and> total_supply t1 s = total_supply t s"
    using take_own_supply [OF assms(1-3)] by blast
  obtain t2 where t2: "inv t2 s" "on_account A s dest (coin_give (Coin a)) (t1, cx) = (Ok (), (t2, cx))
        \<and> total_supply t2 s = total_supply t1 s + am_nat a
      \<or> on_account A s dest (coin_give (Coin a)) (t1, cx) = (Err Error_Unknown, (t2, cx)) \<and> total_supply t2 s = total_supply t1 s
        \<and> 2 ^ 64 \<le> total_supply t1 s + am_nat a"
    using give_supply [OF t1(1) assms(4), of "Coin a" cx] unfolding coin.sel by blast
  show ?thesis
    using t1 t2 assms(1) exc.access_contains [OF e assms(3)]
    by (auto simp: accounts_transfer_def signer_law [OF assms(2)] op_bind_def moves_def)
qed

lemma take_as_funding_moves:
  assumes "inv t s" and "signed cx sg" and "okk sg" and "cx_paid cx = Some p"
  shows "\<exists>r t' p'. accounts_take_as_funding A index s a (t, cx) = (r, (t', cx\<lparr>cx_paid := Some p'\<rparr>)) \<and> moves index s t p r t' p'"
proof -
  have cx: "cx\<lparr>cx_paid := Some p\<rparr> = cx" using assms(4) by simp
  obtain t1 where t1: "inv t1 s" "take_own_coins A s a (t, cx) = (Ok (Coin a), (t1, cx)) \<and> total_supply t1 s + am_nat a = total_supply t s
      \<or> take_own_coins A s a (t, cx) = (Err (Error_Coins ''Insufficient funds''), (t1, cx)) \<and> total_supply t1 s = total_supply t s"
    using take_own_supply [OF assms(1-3)] by blast
  then consider "take_own_coins A s a (t, cx) = (Ok (Coin a), (t1, cx))" "total_supply t1 s + am_nat a = total_supply t s"
    | "take_own_coins A s a (t, cx) = (Err (Error_Coins ''Insufficient funds''), (t1, cx))" "total_supply t1 s = total_supply t s"
    by blast
  then show ?thesis
  proof cases
    case 1
    obtain r p' where g: "paid_give index a p = (r, p')" by force
    have "accounts_take_as_funding A index s a (t, cx) = (r, (t1, cx\<lparr>cx_paid := Some p'\<rparr>))"
      using 1(1) g assms(4) by (simp add: accounts_take_as_funding_def op_bind_def on_paid_def)
    moreover have "moves index s t p r t1 p'"
      using paid_give_cases [of index p a] g t1(1) 1(2) by (auto simp: moves_def same_paid_def split: if_splits)
    ultimately show ?thesis by blast
  next
    case 2
    then have "accounts_take_as_funding A index s a (t, cx) = (Err (Error_Coins ''Insufficient funds''), (t1, cx\<lparr>cx_paid := Some p\<rparr>))"
      unfolding cx by (simp add: accounts_take_as_funding_def op_bind_def)
    moreover have "moves index s t p (Err (Error_Coins ''Insufficient funds'')) t1 p" using 2(2) t1(1) by (simp add: moves_def)
    ultimately show ?thesis by blast
  qed
qed

lemma give_from_funding_moves:
  assumes "inv t s" and "signed cx sg" and "okk sg" and "cx_paid cx = Some p"
  shows "\<exists>r t' p'. accounts_give_from_funding A index s a (t, cx) = (r, (t', cx\<lparr>cx_paid := Some p'\<rparr>)) \<and> moves index s t p r t' p'"
proof (cases "am_nat a \<le> paid_nat index p")
  case True
  then obtain p' where p': "paid_take index a p = (Ok (Coin a), p')" "paid_nat index p' + am_nat a = paid_nat index p"
      "pd_running_payer p' = pd_running_payer p" "pd_fee_disabled p' = pd_fee_disabled p"
    using paid_take_cases [of a index p] by auto
  let ?cx = "cx\<lparr>cx_paid := Some p'\<rparr>"
  have sg: "signed ?cx sg" using assms(2) by (simp add: signed_def)
  obtain t1 where t1: "inv t1 s" "on_account A s sg (coin_give (Coin a)) (t, ?cx) = (Ok (), (t1, ?cx))
        \<and> total_supply t1 s = total_supply t s + am_nat a
      \<or> on_account A s sg (coin_give (Coin a)) (t, ?cx) = (Err Error_Unknown, (t1, ?cx)) \<and> total_supply t1 s = total_supply t s
        \<and> 2 ^ 64 \<le> total_supply t s + am_nat a"
    using give_supply [OF assms(1,3), of "Coin a" ?cx] unfolding coin.sel by blast
  have "accounts_give_from_funding A index s a (t, cx) = on_account A s sg (coin_give (Coin a)) (t, ?cx)"
    using p'(1) assms(4) by (simp add: accounts_give_from_funding_def op_bind_def on_paid_def give_own_coins_def signer_law [OF sg])
  then have "\<exists>r. accounts_give_from_funding A index s a (t, cx) = (r, (t1, ?cx)) \<and> moves index s t p r t1 p'"
    using t1 p'(2-) by (auto simp: moves_def)
  then show ?thesis by blast
next
  case False
  then obtain p' where p': "paid_take index a p = (Err (Error_Coins ''Insufficient funding for paid call''), p')" "same_paid p' p"
    using paid_take_cases [of a index p] by auto
  then have "accounts_give_from_funding A index s a (t, cx)
      = (Err (Error_Coins ''Insufficient funding for paid call''), (t, cx\<lparr>cx_paid := Some p'\<rparr>))"
    using assms(4) by (simp add: accounts_give_from_funding_def op_bind_def on_paid_def)
  moreover have "moves index s t p (Err (Error_Coins ''Insufficient funding for paid call'')) t p'"
    using p'(2) assms(1) by (simp add: moves_def same_paid_def)
  ultimately show ?thesis by blast
qed

lemma give_all_is_give:
  "cx_paid cx = Some p \<Longrightarrow> accounts_give_from_funding_all A index s (t, cx) = accounts_give_from_funding A index s (paid_entry index p) (t, cx)"
  by (simp add: accounts_give_from_funding_all_def accounts_give_from_funding_def on_paid_def op_bind_def paid_balance_def paid_entry_def)

lemma run_moves:
  assumes "inv t s" and "signed cx sg" and "okk sg" and "cx_paid cx = Some p" and "call_ok okk c"
  shows "\<exists>r t' p'. accounts_run A index s c (t, cx) = (r, (t', cx\<lparr>cx_paid := Some p'\<rparr>)) \<and> moves index s t p r t' p'"
proof (cases c)
  case (Transfer dest a)
  have "cx\<lparr>cx_paid := Some p\<rparr> = cx" using assms(4) by simp
  then show ?thesis using transfer_moves [OF assms(1-3), of dest a index p] assms(5) Transfer by (metis accounts_run.simps(1) call_ok.simps(1))
next
  case (TakeAsFunding a)
  then show ?thesis using take_as_funding_moves [OF assms(1-4)] by simp
next
  case (GiveFromFunding a)
  then show ?thesis using give_from_funding_moves [OF assms(1-4)] by simp
next
  case GiveFromFundingAll
  then show ?thesis using give_from_funding_moves [OF assms(1-4)] give_all_is_give [OF assms(4)] by simp
qed

text \<open>A transaction: a pair of calls through the payable and the fee plugin.\<close>

lemma tx_law:
  assumes "inv t s" and "signed cx sg" and "okk sg" and "tx_ok okk call"
  shows "\<exists>r t' cx'. accounts_tx A index s call (t, cx) = (r, (t', cx')) \<and> r \<noteq> Panic \<and> inv t' s
    \<and> total_supply t' s \<le> total_supply t s
    \<and> (r = Ok () \<longrightarrow> (\<exists>p'. cx_paid cx' = Some p' \<and> total_supply t' s + am_nat min_fee + paid_nat index p' = total_supply t s))"
proof (cases call)
  case (Unpaid c)
  then show ?thesis using assms(1) by (simp add: accounts_tx_def payable_plugin_call_def op_bind_def fee_call_def on_paid_def)
next
  case (Paid pc)
  let ?p0 = "paid_default\<lparr>pd_running_payer := True\<rparr>" and ?app = "fee_call index (accounts_run A index s)"
  let ?cx0 = "cx\<lparr>cx_paid := Some ?p0\<rparr>"
  have ok: "call_ok okk (pc_payer pc)" "call_ok okk (pc_paid pc)" using assms(4) Paid by simp_all
  have z: "paid_nat index ?p0 = 0" by (simp add: paid_entry_def paid_default_def)
  have s0: "signed ?cx0 sg" using assms(2) by (simp add: signed_def)
  obtain r1 t1 p1 where 1: "accounts_run A index s (pc_payer pc) (t, ?cx0) = (r1, (t1, ?cx0\<lparr>cx_paid := Some p1\<rparr>))"
      and m1: "moves index s t ?p0 r1 t1 p1"
    using run_moves [OF assms(1) s0 assms(3) _ ok(1), of ?p0 index] by auto
  have payer: "?app (pc_payer pc) (t, ?cx0) = (r1, (t1, cx\<lparr>cx_paid := Some p1\<rparr>))"
    using 1 by (simp add: fee_call_def on_paid_def op_bind_def)
  let ?q = "p1\<lparr>pd_running_payer := False\<rparr>"
  have q: "paid_entry j ?q = paid_entry j p1" "\<not> pd_fee_disabled ?q" for j
    using m1 by (simp_all add: paid_entry_def moves_def paid_default_def)
  show ?thesis
  proof (cases r1)
    case (Ok u)
    have run: "accounts_tx A index s call (t, cx) = ?app (pc_paid pc) (t1, cx\<lparr>cx_paid := Some ?q\<rparr>)"
      using payer Ok Paid by (simp add: accounts_tx_def payable_plugin_call_def op_bind_def)
    have t1: "inv t1 s" "total_supply t1 s + paid_nat index p1 = total_supply t s" using m1 Ok z by (auto simp: moves_def)
    show ?thesis
    proof (cases "am_nat min_fee \<le> paid_nat index ?q")
      case True
      then obtain q' where q': "paid_take index min_fee ?q = (Ok (Coin min_fee), q')" "paid_nat index q' + am_nat min_fee = paid_nat index ?q"
        using paid_take_cases [of min_fee index ?q] by auto
      have s1: "signed (cx\<lparr>cx_paid := Some q'\<rparr>) sg" using assms(2) by (simp add: signed_def)
      obtain r2 t2 p2 where 2: "accounts_run A index s (pc_paid pc) (t1, cx\<lparr>cx_paid := Some q'\<rparr>) = (r2, (t2, cx\<lparr>cx_paid := Some p2\<rparr>))"
          and m2: "moves index s t1 q' r2 t2 p2"
        using run_moves [OF t1(1) s1 assms(3) _ ok(2), of q' index] by auto
      have "accounts_tx A index s call (t, cx) = (r2, (t2, cx\<lparr>cx_paid := Some p2\<rparr>))"
        using run q(2) q'(1) 2 by (simp add: fee_call_def on_paid_def op_bind_def)
      moreover have "total_supply t2 s + paid_nat index p2 \<le> total_supply t1 s + paid_nat index q'"
        using m2 by (simp add: moves_def)
      ultimately show ?thesis using m2 t1 q'(2) q(1) by (auto simp: moves_def)
    next
      case False
      then obtain q' where "paid_take index min_fee ?q = (Err (Error_Coins ''Insufficient funding for paid call''), q')"
        using paid_take_cases [of min_fee index ?q] by auto
      then show ?thesis using run q(2) t1 by (simp add: fee_call_def on_paid_def op_bind_def)
    qed
  next
    case (Err e)
    then show ?thesis using payer Paid m1 z by (auto simp: accounts_tx_def payable_plugin_call_def op_bind_def moves_def)
  next
    case Panic
    then show ?thesis using m1 by (simp add: moves_def)
  qed
qed

text \<open>Sequences of transactions.\<close>

lemma reach_law:
  assumes "acc_reach A index s okk t0 t" and "inv t0 s"
  shows "inv t s \<and> total_supply t s \<le> total_supply t0 s"
  using assms
proof (induction rule: acc_reach.induct)
  case (tx t cx sg call r t' cx')
  then show ?case using tx_law [of t s cx sg call index] by fastforce
qed simp

end

section \<open>Accounts over the in-memory store\<close>

definition mem_accounts :: "(byte \<Rightarrow> byte \<Rightarrow> string) \<Rightarrow> nat \<Rightarrow> mapstore accounts_types" where
  "mem_accounts msg fuel = \<lparr>at_exceptions = address_map (leaf_state unit_codec) fuel, at_accounts = address_map (coin_state msg) fuel\<rparr>"

abbreviation mem_look :: "(byte \<Rightarrow> byte \<Rightarrow> string) \<Rightarrow> nat \<Rightarrow> (address, coin) omap \<Rightarrow> mapstore \<Rightarrow> address \<Rightarrow> coin option" where
  "mem_look msg fuel \<equiv> map_look (address_map (coin_state msg) fuel) mapstore_ents"

abbreviation mem_exceptions :: "nat \<Rightarrow> (address, unit) omap \<Rightarrow> mapstore \<Rightarrow> address \<Rightarrow> unit option" where
  "mem_exceptions fuel \<equiv> map_look (address_map (leaf_state unit_codec) fuel) mapstore_ents"

definition mem_live :: "(mapstore, address, 'v) map_types \<Rightarrow> (address, 'v) omap \<Rightarrow> mapstore \<Rightarrow> bool" where
  "mem_live D m s \<longleftrightarrow> map_wf D mapstore_ents mapstore_invar address_ok (\<lambda>_. True) m s \<and> no_removed m"

interpretation mem_accounts: accounts_maps "mem_accounts msg fuel" "mem_look msg fuel" "mem_live (address_map (coin_state msg) fuel)" address_ok
  "mem_exceptions fuel" "mem_live (address_map (leaf_state unit_codec) fuel)" for msg fuel
proof (intro accounts_maps.intro accounts_maps_axioms.intro)
  show "map_entries (at_accounts (mem_accounts msg fuel)) (mem_look msg fuel) (mem_live (address_map (coin_state msg) fuel)) address_ok (\<lambda>_. True) coin_new"
    using simple_map.simple_map_entries [OF address_map_simple [OF coin_state.stored.stored_state_axioms], where d = coin_new]
    by (simp add: mem_accounts_def mem_live_def [abs_def])
  show "map_access (at_exceptions (mem_accounts msg fuel)) (mem_exceptions fuel) (mem_live (address_map (leaf_state unit_codec) fuel)) address_ok (\<lambda>_. True)"
    using simple_map.live_access [OF address_map_simple [OF simple_state.stored_contract [OF leaf_state_simple [OF unit_codec.terminated_codec_axioms]]]]
    by (simp add: mem_accounts_def mem_live_def [abs_def])
  show "finite {a. address_ok a}" by (rule finite_addresses)
qed

lemma mem_live_new: "mem_live D map_new mapstore_new"
  by (simp add: mem_live_def no_removed_def map_wf_def map_new_def mapstore_new_def buf_invar_def children_wf_def store_wf_def
      buf_ents_def sub_ents_def)

text \<open>Accounts in which one address has an amount.\<close>

lemma mem_one_account:
  assumes "address_ok x"
  shows "\<exists>t. acc_inv (mem_live (address_map (coin_state msg) fuel)) (mem_live (address_map (leaf_state unit_codec) fuel)) t mapstore_new
    \<and> ac_transfers_allowed t \<and> (\<forall>y. address_ok y \<longrightarrow> mem_look msg fuel (ac_accounts t) mapstore_new y = (if y = x then Some (Coin a) else None))"
proof -
  obtain m where m: "mem_live (address_map (coin_state msg) fuel) m mapstore_new"
      "\<forall>y. address_ok y \<longrightarrow> mem_look msg fuel m mapstore_new y = (if y = x then Some (Coin a) else mem_look msg fuel map_new mapstore_new y)"
    using mem_accounts.acc.access_insert [OF mem_live_new assms TrueI, of msg fuel "Coin a"] by blast
  have "mem_look msg fuel map_new mapstore_new y = None" for y
    by (simp add: map_look_def byte_look_def map_new_def store_look_def mapstore_new_def buf_ents_def sub_ents_def)
  then show ?thesis
    using m mem_live_new by (intro exI [of _ "\<lparr>ac_transfers_allowed = True, ac_transfer_exceptions = map_new, ac_accounts = m\<rparr>"])
      (simp add: acc_inv_def)
qed

section \<open>Properties\<close>

text \<open>
  (C17) A transfer, on every path.  It is refused if transfers are disabled and the signer is not
  an exception, and if the signer's balance is too small; then no balance has changed.
  Otherwise the amount moves from the signer to the destination (a transfer to oneself changes
  nothing), unless the destination's balance would overflow: then the transfer fails after the
  signer's balance was reduced, and the amount is lost.
\<close>

theorem transfer_moves_amount:
  assumes "accounts_maps A look mwf okk elook ewf" and "acc_inv mwf ewf t s" and "signed cx sg" and "okk sg" and "okk dest"
  shows "let bal = acc_bal look; run = accounts_transfer A s dest a (t, cx)
    in if \<not> ac_transfers_allowed t \<and> elook (ac_transfer_exceptions t) s sg = None
       then run = (Err (Error_Coins ''Transfers are currently disabled''), (t, cx))
       else if bal t s sg < am_nat a \<or> look (ac_accounts t) s sg = None
       then \<exists>t'. run = (Err (Error_Coins ''Insufficient funds''), (t', cx)) \<and> acc_inv mwf ewf t' s
         \<and> (\<forall>x. okk x \<longrightarrow> bal t' s x = bal t s x)
       else if sg \<noteq> dest \<and> 2 ^ 64 \<le> bal t s dest + am_nat a
       then \<exists>t'. run = (Err Error_Unknown, (t', cx)) \<and> acc_inv mwf ewf t' s
         \<and> (\<forall>x. okk x \<longrightarrow> bal t' s x = (if x = sg then bal t s sg - am_nat a else bal t s x))
       else \<exists>t'. run = (Ok (), (t', cx)) \<and> acc_inv mwf ewf t' s
         \<and> (\<forall>x. okk x \<longrightarrow> bal t' s x = (if sg = dest then bal t s x else if x = sg then bal t s sg - am_nat a
              else if x = dest then bal t s dest + am_nat a else bal t s x))"
  using accounts_maps.transfer_law [OF assms, of a] by (simp only: Let_def)

abbreviation test_contexts :: "address \<Rightarrow> contexts" where
  "test_contexts sg \<equiv> \<lparr>cx_paid = None, cx_signer = Some (Signer (Some sg)), cx_chain_id = None, cx_events = None, cx_time = None\<rparr>"

theorem transfer_moves_amount_witness:
  "\<exists>t t'. accounts_transfer (mem_accounts (\<lambda>_ _. []) 5) mapstore_new (Address (replicate 20 2)) (Amount 3) (t, test_contexts address_null)
      = (Ok (), (t', test_contexts address_null))
    \<and> acc_bal (mem_look (\<lambda>_ _. []) 5) t mapstore_new address_null = 5
    \<and> acc_bal (mem_look (\<lambda>_ _. []) 5) t' mapstore_new address_null = 2
    \<and> acc_bal (mem_look (\<lambda>_ _. []) 5) t' mapstore_new (Address (replicate 20 2)) = 3"
proof -
  let ?d = "Address (replicate 20 2)" and ?look = "mem_look (\<lambda>_ _. []) 5" and ?cx = "test_contexts address_null"
  have ok: "address_ok address_null" "address_ok ?d" by (simp_all add: address_ok_def address_null_def address_length_def)
  have ne: "address_null \<noteq> ?d" by (simp add: address_null_def address_length_def eval_nat_numeral)
  obtain t where t: "acc_inv (mem_live (address_map (coin_state (\<lambda>_ _. [])) 5)) (mem_live (address_map (leaf_state unit_codec) 5)) t mapstore_new"
      "ac_transfers_allowed t" "\<forall>y. address_ok y \<longrightarrow> ?look (ac_accounts t) mapstore_new y = (if y = address_null then Some (Coin (Amount 5)) else None)"
    using mem_one_account [OF ok(1), where a = "Amount 5" and msg = "\<lambda>_ _. []" and fuel = 5] by blast
  have b: "acc_bal ?look t mapstore_new address_null = 5" "acc_bal ?look t mapstore_new ?d = 0"
    using t(3) ok ne by (simp_all add: acc_bal_def)
  have "signed ?cx address_null" by (simp add: signed_def)
  from transfer_moves_amount [OF mem_accounts.accounts_maps_axioms t(1) this ok, of "Amount 3"] t(2,3) ok b ne
  obtain t' where "accounts_transfer (mem_accounts (\<lambda>_ _. []) 5) mapstore_new ?d (Amount 3) (t, ?cx) = (Ok (), (t', ?cx))"
      "\<forall>x. address_ok x \<longrightarrow> acc_bal ?look t' mapstore_new x = (if x = address_null then 5 - 3
              else if x = ?d then 0 + 3 else acc_bal ?look t mapstore_new x)"
    by (auto simp: Let_def)
  moreover from this(2) have "acc_bal ?look t' mapstore_new address_null = 2" "acc_bal ?look t' mapstore_new ?d = 3"
    using ok ne by simp_all
  ultimately show ?thesis using b(1) by blast
qed

text \<open>
  (C18) A transaction on accounts never panics and never increases the supply, whatever its
  calls and whether or not it fails; if it succeeds, the supply is reduced by exactly the fee
  and by what the calls left in the paid context.
\<close>

theorem transaction_supply:
  assumes "accounts_maps A look mwf okk elook ewf" and "acc_inv mwf ewf t s" and "signed cx sg" and "okk sg" and "tx_ok okk call"
  shows "\<exists>r t' cx'. accounts_tx A index s call (t, cx) = (r, (t', cx')) \<and> r \<noteq> Panic \<and> acc_inv mwf ewf t' s
    \<and> acc_supply look okk t' s \<le> acc_supply look okk t s
    \<and> (r = Ok () \<longrightarrow> (\<exists>p'. cx_paid cx' = Some p'
         \<and> acc_supply look okk t' s + am_nat min_fee + paid_nat index p' = acc_supply look okk t s))"
  by (rule accounts_maps.tx_law [OF assms])

theorem transaction_supply_witness:
  "\<exists>t r t' cx'. accounts_tx (mem_accounts (\<lambda>_ _. []) 5) 7 mapstore_new (Paid (PaidCall (TakeAsFunding (Amount 20000)) GiveFromFundingAll))
      (t, test_contexts address_null) = (r, (t', cx')) \<and> r \<noteq> Panic
    \<and> acc_supply (mem_look (\<lambda>_ _. []) 5) address_ok t' mapstore_new \<le> acc_supply (mem_look (\<lambda>_ _. []) 5) address_ok t mapstore_new"
proof -
  have ok: "address_ok address_null" by (simp add: address_ok_def address_null_def)
  obtain t where t: "acc_inv (mem_live (address_map (coin_state (\<lambda>_ _. [])) 5)) (mem_live (address_map (leaf_state unit_codec) 5)) t mapstore_new"
    using mem_one_account [OF ok, where a = "Amount 50000" and msg = "\<lambda>_ _. []" and fuel = 5] by blast
  have "signed (test_contexts address_null) address_null" by (simp add: signed_def)
  from transaction_supply [OF mem_accounts.accounts_maps_axioms t this ok,
      where call = "Paid (PaidCall (TakeAsFunding (Amount 20000)) GiveFromFundingAll)" and index = 7]
  show ?thesis by auto
qed

text \<open>
  (C19) After any sequence of transactions by any signers, failed ones included, the invariant
  holds and the supply is at most what it was; so if it was less than \<open>2 ^ 64\<close> in the beginning,
  no balance overflows: an enabled transfer of at most the signer's balance succeeds.
\<close>

theorem reachable_supply:
  assumes "accounts_maps A look mwf okk elook ewf" and "acc_inv mwf ewf t0 s" and "acc_reach A index s okk t0 t"
  shows "acc_inv mwf ewf t s \<and> acc_supply look okk t s \<le> acc_supply look okk t0 s
    \<and> (acc_supply look okk t0 s < 2 ^ 64 \<longrightarrow> signed cx sg \<longrightarrow> okk sg \<longrightarrow> okk dest \<longrightarrow> ac_transfers_allowed t
        \<longrightarrow> look (ac_accounts t) s sg \<noteq> None \<longrightarrow> am_nat a \<le> acc_bal look t s sg
        \<longrightarrow> (\<exists>t'. accounts_transfer A s dest a (t, cx) = (Ok (), (t', cx))))"
proof -
  note r = accounts_maps.reach_law [OF assms(1,3,2)]
  have "\<exists>t'. accounts_transfer A s dest a (t, cx) = (Ok (), (t', cx))"
    if h: "acc_supply look okk t0 s < 2 ^ 64" "signed cx sg" "okk sg" "okk dest" "ac_transfers_allowed t"
      "look (ac_accounts t) s sg \<noteq> None" "am_nat a \<le> acc_bal look t s sg"
  proof -
    have "acc_bal look t s sg + acc_bal look t s dest \<le> acc_supply look okk t s" if "sg \<noteq> dest"
    proof -
      have "(\<Sum>x\<in>{sg, dest}. acc_bal look t s x) \<le> (\<Sum>x\<in>{x. okk x}. acc_bal look t s x)"
        by (rule sum_mono2) (use accounts_maps.finite_keys [OF assms(1)] h(3,4) in auto)
      with that show ?thesis by (simp add: acc_supply_def)
    qed
    then have "\<not> (sg \<noteq> dest \<and> 2 ^ 64 \<le> acc_bal look t s dest + am_nat a)" using r h(1,7) by auto
    moreover have "\<not> acc_bal look t s sg < am_nat a" using h(7) by simp
    ultimately show ?thesis
      using accounts_maps.transfer_law [OF assms(1) conjunct1 [OF r] h(2-4), of a] h(5,6) unfolding Let_def by (simp only: simp_thms if_False) blast
  qed
  with r show ?thesis by blast
qed

theorem reachable_supply_witness:
  "\<exists>t t' t1. acc_supply (mem_look (\<lambda>_ _. []) 5) address_ok t mapstore_new = 50000
    \<and> acc_reach (mem_accounts (\<lambda>_ _. []) 5) 7 mapstore_new address_ok t t'
    \<and> acc_supply (mem_look (\<lambda>_ _. []) 5) address_ok t' mapstore_new \<le> 50000
    \<and> accounts_transfer (mem_accounts (\<lambda>_ _. []) 5) mapstore_new (Address (replicate 20 2)) (Amount 50000) (t, test_contexts address_null)
      = (Ok (), (t1, test_contexts address_null))"
proof -
  let ?look = "mem_look (\<lambda>_ _. []) 5" and ?A = "mem_accounts (\<lambda>_ _. []) 5" and ?d = "Address (replicate 20 2)"
  have ok: "address_ok address_null" "address_ok ?d" by (simp_all add: address_ok_def address_null_def address_length_def)
  obtain t where t: "acc_inv (mem_live (address_map (coin_state (\<lambda>_ _. [])) 5)) (mem_live (address_map (leaf_state unit_codec) 5)) t mapstore_new"
      "ac_transfers_allowed t" "\<forall>y. address_ok y \<longrightarrow> ?look (ac_accounts t) mapstore_new y = (if y = address_null then Some (Coin (Amount 50000)) else None)"
    using mem_one_account [OF ok(1), where a = "Amount 50000" and msg = "\<lambda>_ _. []" and fuel = 5] by blast
  have b: "acc_bal ?look t mapstore_new y = (if y = address_null then 50000 else 0)" if "address_ok y" for y
    using t(3) that by (simp add: acc_bal_def)
  have "acc_supply ?look address_ok t mapstore_new = (\<Sum>y\<in>{y. address_ok y}. if y = address_null then 50000 else 0)"
    unfolding acc_supply_def by (intro sum.cong) (auto simp: b)
  also have "\<dots> = 50000" using ok(1) mem_accounts.finite_keys by simp
  finally have sup: "acc_supply ?look address_ok t mapstore_new = 50000" .
  obtain r t' cx' where "accounts_tx ?A 7 mapstore_new (Paid (PaidCall (TakeAsFunding (Amount 20000)) GiveFromFundingAll))
      (t, test_contexts address_null) = (r, (t', cx'))" by (metis prod.exhaust)
  then have reach: "acc_reach ?A 7 mapstore_new address_ok t t'"
    by (rule acc_reach.tx [where sg = address_null, OF acc_reach.start, rotated 3]) (simp_all add: signed_def ok)
  have "acc_supply ?look address_ok t' mapstore_new \<le> 50000"
    using reachable_supply [OF mem_accounts.accounts_maps_axioms t(1) reach] sup by auto
  moreover have "signed (test_contexts address_null) address_null" by (simp add: signed_def)
  then obtain t1 where "accounts_transfer ?A mapstore_new ?d (Amount 50000) (t, test_contexts address_null) = (Ok (), (t1, test_contexts address_null))"
    using reachable_supply [OF mem_accounts.accounts_maps_axioms t(1) acc_reach.start [of ?A 7 mapstore_new address_ok t],
        of "test_contexts address_null" address_null ?d "Amount 50000"] sup ok t(2,3) b [OF ok(1)] by auto
  ultimately show ?thesis using sup reach by blast
qed

end
