(* ===== verification/Plugin_Stack.thy ===== *)
theory Plugin_Stack
  imports Sdk_Compat Accounts
begin

text \<open>
  \<^verbatim>\<open>DefaultPlugins\<close> of \<^verbatim>\<open>src/plugins/mod.rs\<close>: the plugins around an app, from the outside
  \<^verbatim>\<open>SdkCompatPlugin\<close>, \<^verbatim>\<open>SignerPlugin\<close>, \<^verbatim>\<open>ChainCommitmentPlugin\<close>, \<^verbatim>\<open>NoncePlugin\<close>, \<^verbatim>\<open>PayablePlugin\<close>,
  \<^verbatim>\<open>FeePlugin\<close>.  (\<^verbatim>\<open>QueryPlugin\<close> passes calls on unchanged.)

  With \<open>Accounts\<close> as the app, no balance goes down except by a call that its owner has signed for
  this chain with a fresh nonce.  For the Protobuf form of SDK transactions, however, the nonce
  gives no protection: an accepted transaction is accepted again.
\<close>

section \<open>The stack\<close>

record ('k, 'g, 'j, 'p, 's, 'c) plugin_env =
  pe_crypto :: "('k, 'g, ('j, 'p) sdk_tx) crypto"
  pe_sdk :: "('j, 'p) sdk_lib"
  pe_utf8 :: "bytes \<Rightarrow> bool"
  pe_text :: "bytes \<Rightarrow> bytes \<Rightarrow> string"
  pe_nonce_texts :: nonce_texts
  pe_nonces :: "('s, address, u64) map_types"
  pe_bytes :: "bytes codec"
  pe_calls :: "'c payable_call nonce_call codec"
  pe_index :: byte

type_synonym 't stacked = "'t nonce_plugin chain_plugin"

definition stack_nonce :: "('k, 'g, 'j, 'p, 's, 'c) plugin_env \<Rightarrow> 's \<Rightarrow> 't stacked \<Rightarrow> address \<Rightarrow> u64 result" where
  "stack_nonce E s p = nonce_of (pe_nonces E) (cc_inner p) s"

text \<open>The calls of the fee and the payable plugin, of the nonce plugin, the chain plugin and the
  signer plugin.\<close>

definition stack_paid :: "('k, 'g, 'j, 'p, 's, 'c) plugin_env \<Rightarrow> ('c \<Rightarrow> (('t, 'z) world, unit) op) \<Rightarrow> 'c payable_call \<Rightarrow> (('t, 'z) world, unit) op" where
  "stack_paid E app = payable_plugin_call (fee_call (pe_index E) app)"

definition stack_nonced :: "('k, 'g, 'j, 'p, 's, 'c) plugin_env \<Rightarrow> 's \<Rightarrow> ('c \<Rightarrow> (('t, 'z) world, unit) op) \<Rightarrow> 'c payable_call nonce_call
    \<Rightarrow> (('t nonce_plugin, 'z) world, unit) op" where
  "stack_nonced E s app = nonce_plugin_call (pe_nonce_texts E) (pe_nonces E) s (stack_paid E app)"

definition stack_native :: "('k, 'g, 'j, 'p, 's, 'c) plugin_env \<Rightarrow> 's \<Rightarrow> ('c \<Rightarrow> (('t, 'z) world, unit) op) \<Rightarrow> ('j, 'p) sdk_tx signer_call
    \<Rightarrow> (('t stacked, 'z) world, unit) op" where
  "stack_native E s app = signer_plugin_call (pe_crypto E) (stack_nonce E s) (dec (pe_bytes E))
     (chain_call (pe_utf8 E) (pe_text E) (dec (pe_calls E)) (stack_nonced E s app))"

definition stack_convert :: "('k, 'g, 'j, 'p, 's, 'c) plugin_env \<Rightarrow> 's \<Rightarrow> ('t \<Rightarrow> ('j, 'p) sdk_tx \<Rightarrow> 'c paid_call result) \<Rightarrow> ('j, 'p) sdk_tx
    \<Rightarrow> (('t stacked, 'z) world, ('j, 'p) sdk_tx signer_call) op" where
  "stack_convert E s convert_app = signer_convert (pe_sdk E) (enc (pe_bytes E))
     (chain_convert (pe_utf8 E)
       (\<lambda>p. nonce_convert (pe_nonces E) s (tx_sender_address (pe_sdk E) (pe_crypto E)) (payable_convert (convert_app (np_inner p))) p)
       (enc (pe_calls E)))"

definition stack_call :: "('k, 'g, 'j, 'p, 's, 'c) plugin_env \<Rightarrow> 's \<Rightarrow> ('t \<Rightarrow> ('j, 'p) sdk_tx \<Rightarrow> 'c paid_call result) \<Rightarrow> ('c \<Rightarrow> (('t, 'z) world, unit) op)
    \<Rightarrow> (('j, 'p) sdk_tx signer_call, ('j, 'p) sdk_tx) sdk_call \<Rightarrow> (('t stacked, 'z) world, unit) op" where
  "stack_call E s convert_app app = sdk_plugin_call (stack_convert E s convert_app) (stack_native E s app)"

section \<open>Only the signer's balance goes down\<close>

text \<open>An operation on an app with balances that leaves the signer as it is and lowers no balance
  but the signer's.\<close>

definition debits_signer :: "('t \<Rightarrow> bool) \<Rightarrow> (address \<Rightarrow> bool) \<Rightarrow> ('t \<Rightarrow> address \<Rightarrow> nat) \<Rightarrow> (('t, 'z) world, 'a) op \<Rightarrow> bool" where
  "debits_signer I okk bal f \<longleftrightarrow> (\<forall>t cx r t' cx'. I t \<longrightarrow> (\<forall>x. signed cx x \<longrightarrow> okk x) \<longrightarrow> f (t, cx) = (r, (t', cx'))
     \<longrightarrow> I t' \<and> cx_signer cx' = cx_signer cx \<and> (\<forall>x. okk x \<longrightarrow> \<not> signed cx x \<longrightarrow> bal t x \<le> bal t' x))"

lemma debits_signerI:
  assumes "\<And>t cx r t' cx'. I t \<Longrightarrow> \<forall>x. signed cx x \<longrightarrow> okk x \<Longrightarrow> f (t, cx) = (r, (t', cx'))
    \<Longrightarrow> I t' \<and> cx_signer cx' = cx_signer cx \<and> (\<forall>x. okk x \<longrightarrow> \<not> signed cx x \<longrightarrow> bal t x \<le> bal t' x)"
  shows "debits_signer I okk bal f"
  unfolding debits_signer_def by (intro allI impI) (rule assms)

lemma debits_signerD:
  assumes "debits_signer I okk bal f" and "I t" and "\<forall>x. signed cx x \<longrightarrow> okk x" and "f (t, cx) = (r, (t', cx'))"
  shows "I t' \<and> cx_signer cx' = cx_signer cx \<and> (\<forall>x. okk x \<longrightarrow> \<not> signed cx x \<longrightarrow> bal t x \<le> bal t' x)"
  by (rule assms(1) [unfolded debits_signer_def, rule_format, OF assms(2) assms(3) [rule_format] assms(4)])

lemma signed_cong: "cx_signer cx' = cx_signer cx \<Longrightarrow> signed cx' = signed cx"
  by (simp add: signed_def fun_eq_iff)

lemma debits_bind [intro]:
  assumes f: "debits_signer I okk bal f" and g: "\<And>x. debits_signer I okk bal (g x)"
  shows "debits_signer I okk bal (op_bind f g)"
proof (rule debits_signerI)
  fix t cx r t' cx' assume i: "I t" and s: "\<forall>x. signed cx x \<longrightarrow> okk x" and run: "op_bind f g (t, cx) = (r, (t', cx'))"
  obtain r1 t1 cx1 where 1: "f (t, cx) = (r1, (t1, cx1))" by (metis prod.exhaust)
  note d1 = debits_signerD [OF f i s 1]
  show "I t' \<and> cx_signer cx' = cx_signer cx \<and> (\<forall>x. okk x \<longrightarrow> \<not> signed cx x \<longrightarrow> bal t x \<le> bal t' x)"
  proof (cases r1)
    case (Ok x)
    then have 2: "g x (t1, cx1) = (r, (t', cx'))" using run 1 by (simp add: op_bind_def)
    have s1: "signed cx1 = signed cx" using d1 by (intro signed_cong) simp
    then show ?thesis using debits_signerD [OF g _ _ 2] d1 s by (auto intro: order_trans)
  qed (use run 1 d1 in \<open>auto simp: op_bind_def\<close>)
qed

text \<open>Operations that only read, and operations on the contexts that keep the signer.\<close>

lemma debits_simps [simp, intro]:
  "debits_signer I okk bal (op_ok a)" "debits_signer I okk bal (op_err e)" "debits_signer I okk bal (op_read h)" "debits_signer I okk bal (op_lift r)"
  by (auto intro!: debits_signerI simp: op_read_def)

lemma debits_on_contexts [intro]:
  assumes "\<And>cx. cx_signer (h cx) = cx_signer cx"
  shows "debits_signer I okk bal (on_contexts h)"
  using assms by (auto intro!: debits_signerI simp: on_contexts_def)

lemma debits_on_paid [simp, intro]: "debits_signer I okk bal (on_paid e h)"
  by (auto intro!: debits_signerI simp: on_paid_def split: option.splits prod.splits)

lemma debits_fee: "debits_signer I okk bal (app c) \<Longrightarrow> debits_signer I okk bal (fee_call index app c)"
  unfolding fee_call_def by (intro debits_bind debits_on_paid)

lemma debits_payable: "(\<And>c. ok c \<Longrightarrow> debits_signer I okk bal (inner c)) \<Longrightarrow> (case call of Unpaid c \<Rightarrow> ok c | Paid pc \<Rightarrow> ok (pc_payer pc) \<and> ok (pc_paid pc))
    \<Longrightarrow> debits_signer I okk bal (payable_plugin_call inner call)"
  unfolding payable_plugin_call_def
  by (cases call) (auto intro!: debits_bind debits_on_contexts simp: context_remove_def context_add_def)


lemma unsigned_law:
  assumes "\<nexists>sg. signed cx sg"
  shows "\<exists>e. accounts_signer (t, cx) = (Err e, (t, cx))"
proof (cases "cx_signer cx")
  case None
  then show ?thesis by (simp add: accounts_signer_def)
next
  case (Some g)
  with assms have "signer_signer g = None" by (cases g) (auto simp: signed_def)
  with Some show ?thesis by (simp add: accounts_signer_def)
qed

context accounts_maps
begin

abbreviation debits :: "'s \<Rightarrow> ((accounts, 'z) world, 'a) op \<Rightarrow> bool" where
  "debits s \<equiv> debits_signer (\<lambda>t. inv t s) okk (\<lambda>t. bal t s)"

lemma debits_give:
  assumes "okk x"
  shows "debits s (on_account A s x (coin_give v))"
proof (rule debits_signerI)
  fix t cx r t' cx' assume i: "inv t s" and run: "on_account A s x (coin_give v) (t, cx) = (r, (t', cx'))"
  then have "cx' = cx" "changes t s x (if bal t s x + coin_nat v < 2 ^ 64 then bal t s x + coin_nat v else bal t s x) t'"
    using give_account [OF i assms, of v cx] by auto
  then show "inv t' s \<and> cx_signer cx' = cx_signer cx \<and> (\<forall>y. okk y \<longrightarrow> \<not> signed cx y \<longrightarrow> bal t s y \<le> bal t' s y)"
    by (auto simp: changes_def)
qed

lemma debits_take_own: "debits s (take_own_coins A s a)"
proof (rule debits_signerI)
  fix t cx r t' cx' assume i: "inv t s" and ok: "\<forall>x. signed cx x \<longrightarrow> okk x" and run: "take_own_coins A s a (t, cx) = (r, (t', cx'))"
  show "inv t' s \<and> cx_signer cx' = cx_signer cx \<and> (\<forall>y. okk y \<longrightarrow> \<not> signed cx y \<longrightarrow> bal t s y \<le> bal t' s y)"
  proof (cases "\<exists>sg. signed cx sg")
    case True
    then obtain sg where sg: "signed cx sg" "okk sg" using ok by blast
    then show ?thesis using take_own_law [OF i sg, of a] run by (auto simp: changes_def)
  next
    case False
    then show ?thesis using unsigned_law [OF False, of t] run i by (auto simp: take_own_coins_def op_bind_def)
  qed
qed

lemma debits_give_own: "debits s (give_own_coins A s v)"
proof (rule debits_signerI)
  fix t cx r t' cx' assume i: "inv t s" and ok: "\<forall>x. signed cx x \<longrightarrow> okk x" and run: "give_own_coins A s v (t, cx) = (r, (t', cx'))"
  show "inv t' s \<and> cx_signer cx' = cx_signer cx \<and> (\<forall>y. okk y \<longrightarrow> \<not> signed cx y \<longrightarrow> bal t s y \<le> bal t' s y)"
  proof (cases "\<exists>sg. signed cx sg")
    case True
    then obtain sg where sg: "signed cx sg" "okk sg" using ok by blast
    then have "on_account A s sg (coin_give v) (t, cx) = (r, (t', cx'))"
      using run by (simp add: give_own_coins_def signer_law op_bind_def)
    from debits_signerD [OF debits_give [OF sg(2)] i ok this] show ?thesis .
  next
    case False
    then show ?thesis using unsigned_law [OF False, of t] run i by (auto simp: give_own_coins_def op_bind_def)
  qed
qed

lemma debits_run: "call_ok okk c \<Longrightarrow> debits s (accounts_run A index s c)"
  by (cases c) (auto simp: accounts_transfer_def accounts_signer_def accounts_take_as_funding_def accounts_give_from_funding_def
      accounts_give_from_funding_all_def intro!: debits_bind debits_take_own debits_give debits_give_own)

lemma debits_stack_paid: "tx_ok okk call \<Longrightarrow> debits s (stack_paid E (accounts_run A index s) call)"
  unfolding stack_paid_def
  by (rule debits_payable [where ok = "call_ok okk"]) (auto intro: debits_fee debits_run split: payable_call.splits)

end


section \<open>What a call has passed\<close>

lemma on_chain_inner_iff: "on_chain_inner f (p, cx) = (r, (p', cx')) \<longleftrightarrow> f (cc_inner p, cx) = (r, (cc_inner p', cx')) \<and> cc_chain_id p' = cc_chain_id p"
  by (cases p, cases p') (auto simp: on_chain_inner_def split: prod.splits)

lemma on_nonce_inner_iff: "on_nonce_inner f (p, cx) = (r, (p', cx')) \<longleftrightarrow> f (np_inner p, cx) = (r, (np_inner p', cx')) \<and> np_map p' = np_map p"
  by (cases p, cases p') (auto simp: on_nonce_inner_def split: prod.splits)

lemma chain_call_cases:
  assumes "chain_call utf8_ok text decode inner call (p, cx) = (r, (p', cx'))"
  shows "p' = p \<or> (\<exists>c rest cx1. cc_chain_id p \<noteq> [] \<and> take (length (cc_chain_id p)) call = cc_chain_id p
    \<and> decode (drop (length (cc_chain_id p)) call) = Ok (c, rest) \<and> cx_signer cx1 = cx_signer cx
    \<and> inner c (cc_inner p, cx1) = (r, (cc_inner p', cx')))"
proof (cases "cc_chain_id p = [] \<or> length call < length (cc_chain_id p) \<or> take (length (cc_chain_id p)) call \<noteq> cc_chain_id p")
  case True
  then show ?thesis using assms by (auto simp: chain_call_def op_bind_def Let_def split: result.splits if_splits)
next
  case False
  show ?thesis
  proof (cases "decode (drop (length (cc_chain_id p)) call)")
    case (Ok cr)
    show ?thesis
    proof (cases "utf8_ok (cc_chain_id p)")
      case True
      then have "on_chain_inner (inner (fst cr)) (p, cx\<lparr>cx_chain_id := Some (cc_chain_id p)\<rparr>) = (r, (p', cx'))"
        using assms False Ok by (simp add: chain_call_def op_bind_def Let_def from_utf8_def split: prod.splits)
      then show ?thesis
        using False Ok by (intro disjI2 exI [of _ "fst cr"] exI [of _ "snd cr"] exI [of _ "cx\<lparr>cx_chain_id := Some (cc_chain_id p)\<rparr>"])
          (simp add: on_chain_inner_iff)
    qed (use assms False Ok in \<open>simp add: chain_call_def op_bind_def Let_def from_utf8_def split: prod.splits\<close>)
  qed (use assms False in \<open>simp_all add: chain_call_def op_bind_def Let_def\<close>)
qed

lemma signer_call_cases:
  assumes "signer_plugin_call C gn decode inner call (t, cx) = (r, (t', cx'))"
  shows "t' = t \<or> (\<exists>sg cx1 c rest. signer_verify C gn call (t, cx\<lparr>cx_signer := None\<rparr>) = Ok sg \<and> cx_signer cx1 = Some (Signer sg)
    \<and> decode (sc_call_bytes call) = Ok (c, rest) \<and> inner c (t, cx1) = (r, (t', cx')))"
proof (cases "signer_verify C gn call (t, cx\<lparr>cx_signer := None\<rparr>)")
  case v: (Ok sg)
  let ?rest = "\<lambda>cx1. op_bind (op_lift (decode (sc_call_bytes call))) (\<lambda>(c, _). inner c) (t, cx1)"
  consider (stop) "t' = t" | (go) cx1 where "cx_signer cx1 = Some (Signer sg)" "?rest cx1 = (r, (t', cx'))"
  proof (cases sg)
    case None
    show ?thesis using assms v None by (intro that(2) [of "cx\<lparr>cx_signer := Some (Signer None)\<rparr>"]) (simp_all add: signer_plugin_call_def op_bind_def)
  next
    case (Some a)
    show ?thesis
    proof (cases "cx_events cx")
      case None
      then show ?thesis using assms v Some by (intro that(1)) (simp add: signer_plugin_call_def op_bind_def)
    next
      case ev: (Some ev)
      show ?thesis
        using assms v Some ev
        by (intro that(2) [of "cx\<lparr>cx_events := Some (ev @ [sender_event C a]), cx_signer := Some (Signer (Some a))\<rparr>"])
          (simp_all add: signer_plugin_call_def op_bind_def)
    qed
  qed
  then show ?thesis
  proof cases
    case go
    then show ?thesis using v by (cases "decode (sc_call_bytes call)") (auto split: prod.splits)
  qed simp
qed (use assms in \<open>simp_all add: signer_plugin_call_def op_bind_def\<close>)


text \<open>The nonce plugin: a call that reaches the app with a signer has a fresh nonce, which is
  stored.\<close>

lemma nonce_call_cases:
  assumes "nonce_map D look mwf okk" and "mwf (np_map p) s" and "signed_by cx sg" and "pred_option okk sg"
    and "nonce_plugin_call T D s inner c (p, cx) = (r, (p', cx'))"
  shows "p' = p \<or> inner (nc_inner_call c) (np_inner p, cx) = (r, (np_inner p', cx'))
    \<and> (\<forall>a. sg = Some a \<longrightarrow> (\<exists>n. nc_nonce c = Some n \<and> stored_nonce look p s a < unat n \<and> unat n \<le> stored_nonce look p s a + 1000
        \<and> stored_nonce look p' s a = unat n))"
proof (cases sg)
  case None
  then show ?thesis
    using assms(3,5) by (cases "nc_nonce c") (auto simp: nonce_plugin_call_def signed_by_def op_bind_def on_nonce_inner_iff)
next
  case (Some a)
  show ?thesis
  proof (cases "nc_nonce c")
    case None
    then show ?thesis using assms(3,5) Some by (simp add: nonce_plugin_call_def signed_by_def op_bind_def)
  next
    case n: (Some n)
    have a: "okk a" "signed_by cx (Some a)" using assms(3,4) Some by simp_all
    note law = nonce_map.nonce_plugin_call_law [OF assms(1,2) a n, of T inner]
    show ?thesis
    proof (cases "stored_nonce look p s a < unat n \<and> unat n \<le> stored_nonce look p s a + 1000")
      case False
      then show ?thesis using law assms(5) by (auto simp: Let_def not_less not_le split: if_splits)
    next
      case True
      then obtain m' where m': "on_nonce_inner (inner (nc_inner_call c)) (p\<lparr>np_map := m'\<rparr>, cx) = (r, (p', cx'))"
          "\<forall>x. okk x \<longrightarrow> or_else 0 (look m' s x) = (if x = a then n else or_else 0 (look (np_map p) s x))"
        using law assms(5) by (auto simp: Let_def)
      then have "inner (nc_inner_call c) (np_inner p, cx) = (r, (np_inner p', cx'))" "np_map p' = m'"
        by (simp_all add: on_nonce_inner_iff)
      then show ?thesis using True n m'(2) a(1) Some by (simp add: stored_nonce_def)
    qed
  qed
qed

lemma sdk_sign_bytes_Ok:
  "sdk_sign_bytes C gn tx a (t, cx) = Ok bs \<Longrightarrow> \<exists>n id. cx_chain_id cx = Some id \<and> cr_sign_bytes C tx id n = Ok bs"
  by (auto simp: sdk_sign_bytes_def result_simps)

lemma chain_convert_cases:
  assumes "chain_convert utf8_ok ci encode tx (p, cx) = (r, (p', cx'))"
  shows "p' = p \<and> (\<forall>bs. r = Ok bs \<longrightarrow> cx' = cx\<lparr>cx_chain_id := Some (cc_chain_id p)\<rparr>
    \<and> (\<exists>c b. ci (cc_inner p) tx = Ok c \<and> encode c = Ok b \<and> bs = cc_chain_id p @ b))"
  using assms by (cases "utf8_ok (cc_chain_id p)") (auto simp: chain_convert_def from_utf8_def op_bind_def result_simps context_add_def)

text \<open>A transaction is signed for a chain and a nonce by the address of its key; a native call is
  signed on its bytes, or on their ADR-36 form.\<close>

definition key_signs :: "('k, 'g, 'tx) crypto \<Rightarrow> bytes \<Rightarrow> bytes \<Rightarrow> bytes \<Rightarrow> address \<Rightarrow> bool" where
  "key_signs C pubkey signature msg a \<longleftrightarrow> native_address C pubkey = Ok a
    \<and> (\<exists>k g. cr_pubkey C pubkey = Ok k \<and> cr_signature C signature = Ok g \<and> cr_verify C (cr_sha256 C msg) g k = Ok ())"

definition eth_key_signs :: "('k, 'g, 'tx) crypto \<Rightarrow> bytes \<Rightarrow> bytes \<Rightarrow> bytes \<Rightarrow> address \<Rightarrow> bool" where
  "eth_key_signs C pubkey signature msg a \<longleftrightarrow>
    (\<exists>k g d. cr_pubkey C pubkey = Ok k \<and> eth_address C k = Ok a \<and> cr_signature C signature = Ok g
      \<and> cr_digest C (cr_keccak256 C (eth_prefix @ cr_decimal C (length msg) @ msg)) = Ok d \<and> cr_verify C d g k = Ok ())"

definition native_authorized :: "('k, 'g, 'tx) crypto \<Rightarrow> 'tx signer_call \<Rightarrow> address \<Rightarrow> bool" where
  "native_authorized C sc a \<longleftrightarrow> (\<exists>pubkey signature msg. sc_pubkey sc = Some pubkey \<and> sc_signature sc = Some signature
    \<and> (sc_sigtype sc = Native \<and> msg = sc_call_bytes sc \<or> sc_sigtype sc = Adr36 \<and> adr36_bytes C (sc_call_bytes sc) a = Ok msg)
    \<and> key_signs C pubkey signature msg a)"

definition sdk_authorized :: "('j, 'p) sdk_lib \<Rightarrow> ('k, 'g, ('j, 'p) sdk_tx) crypto \<Rightarrow> ('j, 'p) sdk_tx \<Rightarrow> bytes \<Rightarrow> u64 \<Rightarrow> address \<Rightarrow> bool" where
  "sdk_authorized L C tx chain_id nonce a \<longleftrightarrow> (\<exists>pubkey signature msg. tx_sender_pubkey L tx = Ok pubkey \<and> tx_signature L tx = Ok signature
    \<and> cr_sign_bytes C tx chain_id nonce = Ok msg
    \<and> (if tx_sig_type tx = Ok (Some ''eth'') then eth_key_signs C pubkey signature msg a else key_signs C pubkey signature msg a))"

lemma verify_native_authorized:
  assumes "signer_verify C gn sc w = Ok (Some a)" and "sc_sigtype sc = Native \<or> sc_sigtype sc = Adr36"
  shows "native_authorized C sc a"
  using assms
  by (auto simp: signer_verify_def signed_message_def native_authorized_def key_signs_def result_simps split: option.splits)

lemma verify_sdk_authorized:
  assumes sc: "tx_signercall L tx = Ok sc" and ver: "signer_verify C gn (sc\<lparr>sc_call_bytes := bs\<rparr>) (t, cx) = Ok (Some a)"
    and id: "cx_chain_id cx = Some chain_id" and n: "gn t a = Ok n"
  shows "word_add n 1 = Ok (n + 1) \<and> sdk_authorized L C tx chain_id (n + 1) a"
proof -
  have sdk: "sc_sigtype sc = Sdk tx \<or> sc_sigtype sc = EthPersonalSign tx" using tx_signercall_Ok [OF sc] by simp
  have v: "signer_verify C gn sc (t, cx) = Ok (Some a)" using ver verify_sdk_bytes [OF sdk] by metis
  obtain msg where m: "sdk_sign_bytes C gn tx a (t, cx) = Ok msg" using verify_sdk_Ok [OF sdk v] by blast
  have add: "word_add n 1 = Ok (n + 1)" and msg: "cr_sign_bytes C tx chain_id (n + 1) = Ok msg"
    using m n id by (auto simp: sdk_sign_bytes_def word_add_def checked_add_def result_simps split: if_splits option.splits)
  show ?thesis
    using v sc m msg add
    by (auto simp: signer_verify_def signed_message_def sdk_to_signercall_def sdk_authorized_def key_signs_def eth_key_signs_def result_simps
        split: if_splits)
qed

text \<open>A conversion changes nothing but the contexts; the call has the key and the signature of the
  transaction, and its bytes are the id of the chain and what the app makes of the transaction,
  with the sender's next nonce.\<close>

lemma stack_convert_cases:
  assumes "stack_convert E s conv tx (p, cx) = (r, (p', cx'))"
  shows "p' = p \<and> (\<forall>sc. r = Ok sc \<longrightarrow> cx' = cx\<lparr>cx_chain_id := Some (cc_chain_id p)\<rparr>
    \<and> (\<exists>sc0 a n pc b b'. tx_signercall (pe_sdk E) tx = Ok sc0 \<and> signer_call_address (pe_crypto E) sc0 = Ok a
      \<and> stack_nonce E s p a = Ok n \<and> conv (np_inner (cc_inner p)) tx = Ok pc
      \<and> enc (pe_calls E) (NonceCall (Some (n + 1)) (Paid pc)) = Ok b \<and> enc (pe_bytes E) (cc_chain_id p @ b) = Ok b'
      \<and> sc = sc0\<lparr>sc_call_bytes := b'\<rparr>))"
proof (cases "tx_signercall (pe_sdk E) tx")
  case (Ok sc0)
  let ?ci = "\<lambda>p. nonce_convert (pe_nonces E) s (tx_sender_address (pe_sdk E) (pe_crypto E)) (payable_convert (conv (np_inner p))) p"
  obtain r1 p1 cx1 where 1: "chain_convert (pe_utf8 E) ?ci (enc (pe_calls E)) tx (p, cx) = (r1, (p1, cx1))" by (rule prod_cases3)
  note c = chain_convert_cases [OF 1]
  have st: "stack_convert E s conv tx (p, cx) = (and_then r1 (\<lambda>c. and_then (enc (pe_bytes E) c) (\<lambda>bs. Ok (sc0\<lparr>sc_call_bytes := bs\<rparr>))), (p1, cx1))"
    using Ok 1 by (cases r1) (simp_all add: stack_convert_def signer_convert_def op_bind_def)
  have "cx' = cx\<lparr>cx_chain_id := Some (cc_chain_id p)\<rparr> \<and> (\<exists>a n pc b b'. signer_call_address (pe_crypto E) sc0 = Ok a
      \<and> stack_nonce E s p a = Ok n \<and> conv (np_inner (cc_inner p)) tx = Ok pc
      \<and> enc (pe_calls E) (NonceCall (Some (n + 1)) (Paid pc)) = Ok b \<and> enc (pe_bytes E) (cc_chain_id p @ b) = Ok b'
      \<and> sc = sc0\<lparr>sc_call_bytes := b'\<rparr>)" if sc: "r = Ok sc" for sc
  proof -
    have "and_then r1 (\<lambda>c. and_then (enc (pe_bytes E) c) (\<lambda>bs. Ok (sc0\<lparr>sc_call_bytes := bs\<rparr>))) = Ok sc" using st assms sc by simp
    then obtain bs b' where r: "r1 = Ok bs" "enc (pe_bytes E) bs = Ok b'" "sc = sc0\<lparr>sc_call_bytes := b'\<rparr>" by (auto simp: result_simps)
    obtain nc b where b: "?ci (cc_inner p) tx = Ok nc" "enc (pe_calls E) nc = Ok b" "bs = cc_chain_id p @ b" using c r(1) by blast
    obtain a n pc where n: "signer_call_address (pe_crypto E) sc0 = Ok a" "stack_nonce E s p a = Ok n" "word_add n 1 = Ok (n + 1)"
        "conv (np_inner (cc_inner p)) tx = Ok pc" "nc = NonceCall (Some (n + 1)) (Paid pc)"
      using b(1) Ok
      by (auto simp: nonce_convert_def tx_sender_address_def payable_convert_def stack_nonce_def word_add_def checked_add_def result_simps split: if_splits option.splits)
    then show ?thesis using st assms r b c by auto
  qed
  then show ?thesis using Ok c st assms by simp
qed (use assms in \<open>auto simp: stack_convert_def signer_convert_def\<close>)


text \<open>A call through the signer, the chain and the nonce plugin.\<close>

lemma stack_native_cases:
  assumes n: "nonce_map (pe_nonces E) look mwf address_ok" and w: "mwf (np_map (cc_inner p)) s"
    and run: "stack_native E s app sc (p, cx) = (r, (p', cx'))"
  shows "np_inner (cc_inner p') = np_inner (cc_inner p) \<or> (\<exists>sg cx1 bs rest c rest'. signer_verify (pe_crypto E) (stack_nonce E s) sc (p, cx\<lparr>cx_signer := None\<rparr>) = Ok sg
    \<and> pred_option address_ok sg \<and> signed_by cx1 sg
    \<and> dec (pe_bytes E) (sc_call_bytes sc) = Ok (bs, rest) \<and> cc_chain_id p \<noteq> [] \<and> take (length (cc_chain_id p)) bs = cc_chain_id p
    \<and> dec (pe_calls E) (drop (length (cc_chain_id p)) bs) = Ok (c, rest')
    \<and> stack_paid E app (nc_inner_call c) (np_inner (cc_inner p), cx1) = (r, (np_inner (cc_inner p'), cx'))
    \<and> (\<forall>a. sg = Some a \<longrightarrow> (\<exists>n. nc_nonce c = Some n \<and> stored_nonce look (cc_inner p) s a < unat n
        \<and> unat n \<le> stored_nonce look (cc_inner p) s a + 1000 \<and> stored_nonce look (cc_inner p') s a = unat n)))"
proof (cases "np_inner (cc_inner p') = np_inner (cc_inner p)")
  case False
  obtain sg cx1 bs rest where 1: "signer_verify (pe_crypto E) (stack_nonce E s) sc (p, cx\<lparr>cx_signer := None\<rparr>) = Ok sg"
      "cx_signer cx1 = Some (Signer sg)" "dec (pe_bytes E) (sc_call_bytes sc) = Ok (bs, rest)"
      "chain_call (pe_utf8 E) (pe_text E) (dec (pe_calls E)) (stack_nonced E s app) bs (p, cx1) = (r, (p', cx'))"
    using signer_call_cases [OF run [unfolded stack_native_def]] False by metis
  obtain c rest' cx2 where 2: "cc_chain_id p \<noteq> []" "take (length (cc_chain_id p)) bs = cc_chain_id p"
      "dec (pe_calls E) (drop (length (cc_chain_id p)) bs) = Ok (c, rest')" "cx_signer cx2 = cx_signer cx1"
      "stack_nonced E s app c (cc_inner p, cx2) = (r, (cc_inner p', cx'))"
    using chain_call_cases [OF 1(4)] False by metis
  have sg: "signed_by cx2 sg" "pred_option address_ok sg"
    using 1(1,2) 2(4) signer_verify_address [of "pe_crypto E" "stack_nonce E s" sc "(p, cx\<lparr>cx_signer := None\<rparr>)"]
    by (cases sg; simp add: signed_by_def)+
  have "stack_paid E app (nc_inner_call c) (np_inner (cc_inner p), cx2) = (r, (np_inner (cc_inner p'), cx'))
    \<and> (\<forall>a. sg = Some a \<longrightarrow> (\<exists>n. nc_nonce c = Some n \<and> stored_nonce look (cc_inner p) s a < unat n
        \<and> unat n \<le> stored_nonce look (cc_inner p) s a + 1000 \<and> stored_nonce look (cc_inner p') s a = unat n))"
    using nonce_call_cases [OF n w sg 2(5) [unfolded stack_nonced_def]] False by metis
  with 1 2 sg show ?thesis by blast
qed simp


text \<open>A call through all plugins is a native call, given or converted.\<close>

lemma stack_call_cases:
  assumes "stack_call E s conv app call (p, cx) = (r, (p', cx'))"
  shows "p' = p \<or> (case call of
      NativeCall sc \<Rightarrow> stack_native E s app sc (p, cx) = (r, (p', cx'))
    | SdkCall tx \<Rightarrow> \<exists>sc. stack_convert E s conv tx (p, cx) = (Ok sc, (p, cx\<lparr>cx_chain_id := Some (cc_chain_id p)\<rparr>))
        \<and> stack_native E s app sc (p, cx\<lparr>cx_chain_id := Some (cc_chain_id p)\<rparr>) = (r, (p', cx')))"
proof (cases call)
  case (NativeCall sc)
  then show ?thesis using assms by (auto simp: stack_call_def sdk_plugin_call_def)
next
  case (SdkCall tx)
  obtain r1 p1 cx1 where 1: "stack_convert E s conv tx (p, cx) = (r1, (p1, cx1))" by (rule prod_cases3)
  note c = stack_convert_cases [OF 1]
  have run: "op_bind (stack_convert E s conv tx) (stack_native E s app) (p, cx) = (r, (p', cx'))"
    using assms SdkCall by (simp add: stack_call_def sdk_plugin_call_def)
  show ?thesis
  proof (cases r1)
    case (Ok sc)
    then have "stack_native E s app sc (p, cx1) = (r, (p', cx'))" "cx1 = cx\<lparr>cx_chain_id := Some (cc_chain_id p)\<rparr>"
      using run 1 c by (simp_all add: op_bind_def)
    with 1 c Ok SdkCall show ?thesis by simp
  qed (use run 1 c in \<open>simp_all add: op_bind_def\<close>)
qed

text \<open>A native call that lowers a balance is verified for the address, and carries a fresh nonce.\<close>

lemma native_debit:
  assumes "accounts_maps A look mwf address_ok elook ewf" and "nonce_map (pe_nonces E) nlook nwf address_ok"
    and "\<forall>bs c rest. dec (pe_calls E) bs = Ok (c, rest) \<longrightarrow> tx_ok address_ok (nc_inner_call c)"
    and "acc_inv mwf ewf (np_inner (cc_inner p)) s" and "nwf (np_map (cc_inner p)) s"
    and run: "stack_native E s (accounts_run A (pe_index E) s) sc (p, cx :: 'z contexts_scheme) = (r, (p', cx'))"
    and "address_ok x" and less: "acc_bal look (np_inner (cc_inner p')) s x < acc_bal look (np_inner (cc_inner p)) s x"
  shows "signer_verify (pe_crypto E) (stack_nonce E s) sc (p, cx\<lparr>cx_signer := None\<rparr>) = Ok (Some x) \<and> cc_chain_id p \<noteq> []
    \<and> (\<exists>bs rest c rest' n. dec (pe_bytes E) (sc_call_bytes sc) = Ok (cc_chain_id p @ bs, rest) \<and> dec (pe_calls E) bs = Ok (c, rest')
      \<and> nc_nonce c = Some n \<and> stored_nonce nlook (cc_inner p) s x < unat n \<and> unat n \<le> stored_nonce nlook (cc_inner p) s x + 1000
      \<and> stored_nonce nlook (cc_inner p') s x = unat n)"
proof -
  let ?t = "np_inner (cc_inner p)" and ?t' = "np_inner (cc_inner p')"
  have ne: "?t' \<noteq> ?t" using less by auto
  obtain sg cx2 bs rest c rest' where 2: "signer_verify (pe_crypto E) (stack_nonce E s) sc (p, cx\<lparr>cx_signer := None\<rparr>) = Ok sg"
      "pred_option address_ok sg" "signed_by cx2 sg" "dec (pe_bytes E) (sc_call_bytes sc) = Ok (bs, rest)" "cc_chain_id p \<noteq> []"
      "take (length (cc_chain_id p)) bs = cc_chain_id p" "dec (pe_calls E) (drop (length (cc_chain_id p)) bs) = Ok (c, rest')"
      "stack_paid E (accounts_run A (pe_index E) s) (nc_inner_call c) (?t, cx2) = (r, (?t', cx'))"
      "\<forall>a. sg = Some a \<longrightarrow> (\<exists>n. nc_nonce c = Some n \<and> stored_nonce nlook (cc_inner p) s a < unat n
        \<and> unat n \<le> stored_nonce nlook (cc_inner p) s a + 1000 \<and> stored_nonce nlook (cc_inner p') s a = unat n)"
    using stack_native_cases [OF assms(2,5) run] ne by metis
  have ok: "\<forall>a. signed cx2 a \<longrightarrow> address_ok a" using 2(2,3) by (auto simp: signed_def signed_by_def)
  have "signed cx2 x"
    using debits_signerD [OF accounts_maps.debits_stack_paid [OF assms(1) assms(3) [rule_format, OF 2(7)]] assms(4) ok 2(8)] assms(7) less
    by (meson leD)
  then have sg: "sg = Some x" using 2(3) by (simp add: signed_def signed_by_def)
  have bs: "bs = cc_chain_id p @ drop (length (cc_chain_id p)) bs" using 2(6) append_take_drop_id by metis
  have "dec (pe_bytes E) (sc_call_bytes sc) = Ok (cc_chain_id p @ drop (length (cc_chain_id p)) bs, rest)" using 2(4) bs by metis
  with 2(1,5,7,9) sg show ?thesis by blast
qed

text \<open>A Protobuf transaction with a signature that has once been verified.\<close>

lemma protobuf_tx_runs:
  assumes "nonce_map (pe_nonces E) nlook nwf address_ok" and "cr_sign_bytes (pe_crypto E) = tx_sign_bytes (pe_sdk E)"
    and bytes: "\<And>bs. \<exists>b. enc (pe_bytes E) bs = Ok b \<and> dec (pe_bytes E) b = Ok (bs, [])"
    and calls: "enc (pe_calls E) (NonceCall (Some (of_nat (stored_nonce nlook (cc_inner p) s a + 1))) (Paid pc)) = Ok b1"
      "dec (pe_calls E) b1 = Ok (NonceCall (Some (of_nat (stored_nonce nlook (cc_inner p) s a + 1))) (Paid pc), [])"
    and sc: "tx_signercall (pe_sdk E) (Protobuf tx) = Ok sc"
    and ver: "signer_verify (pe_crypto E) gn0 sc (p0, cx0) = Ok (Some a)" and "cx_chain_id cx0 = Some (cc_chain_id p)"
    and "cc_chain_id p \<noteq> []" and "pe_utf8 E (cc_chain_id p)" and w: "nwf (np_map (cc_inner p)) s"
    and lim: "stored_nonce nlook (cc_inner p) s a + 1 < 2 ^ 64" and "cx_events cx = Some ev"
    and conv: "convert_app (np_inner (cc_inner p)) (Protobuf tx) = Ok pc"
  shows "\<exists>m' cx1. signed_by cx1 (Some a)
    \<and> stack_call E s convert_app app (SdkCall (Protobuf tx)) (p, cx)
      = on_chain_inner (on_nonce_inner (stack_paid E app (Paid pc))) (p\<lparr>cc_inner := (cc_inner p)\<lparr>np_map := m'\<rparr>\<rparr>, cx1)"
proof -
  let ?tx = "Protobuf tx" and ?id = "cc_chain_id p" and ?C = "pe_crypto E" and ?n = "stored_nonce nlook (cc_inner p) s a"
  let ?cx1 = "cx\<lparr>cx_chain_id := Some ?id\<rparr>"
  let ?nc = "NonceCall (Some (of_nat (?n + 1))) (Paid pc)"
  have ad: "signer_call_address ?C sc = Ok a" "address_ok a" using signer_verify_address [OF ver] by simp_all
  have ty: "sc_sigtype sc = Sdk ?tx \<or> sc_sigtype sc = EthPersonalSign ?tx" using tx_signercall_Ok [OF sc] by simp
  have non: "nonce_of (pe_nonces E) (cc_inner p) s a = Ok (of_nat ?n)"
    by (rule nonce_map.nonce_of_law [OF assms(1) w ad(2)])
  have add: "word_add (of_nat ?n) 1 = Ok (of_nat (?n + 1) :: u64)"
    using lim by (simp add: word_add_def checked_add_def unat_of_nat)
  note b1 = calls
  obtain b2 where b2: "enc (pe_bytes E) (?id @ b1) = Ok b2" "dec (pe_bytes E) b2 = Ok (?id @ b1, [])" using bytes by blast
  let ?sc = "sc\<lparr>sc_call_bytes := b2\<rparr>"
  have cv: "stack_convert E s convert_app ?tx (p, cx) = (Ok ?sc, (p, ?cx1))"
    using sc ad(1) non add conv b1(1) b2(1) assms(10)
    by (simp add: stack_convert_def signer_convert_def chain_convert_def nonce_convert_def payable_convert_def tx_sender_address_def
        from_utf8_def op_bind_def)
  have v: "signer_verify ?C (stack_nonce E s) ?sc (p, ?cx1\<lparr>cx_signer := None\<rparr>) = Ok (Some a)"
  proof -
    obtain bs where bs: "sdk_sign_bytes ?C gn0 ?tx a (p0, cx0) = Ok bs" using verify_sdk_Ok [OF ty ver] by blast
    then obtain n where "sdk_sign_bytes ?C gn0 ?tx a (p0, cx0) = tx_sign_bytes (pe_sdk E) ?tx ?id n"
      using sdk_sign_bytes_Ok [OF bs] assms(2,8) by auto
    moreover have "sdk_sign_bytes ?C (stack_nonce E s) ?tx a (p, ?cx1\<lparr>cx_signer := None\<rparr>) = tx_sign_bytes (pe_sdk E) ?tx ?id (of_nat (?n + 1))"
      using non add assms(2) by (simp add: sdk_sign_bytes_def stack_nonce_def del: tx_sign_bytes.simps)
    ultimately have "signer_verify ?C gn0 sc (p0, cx0) = signer_verify ?C (stack_nonce E s) sc (p, ?cx1\<lparr>cx_signer := None\<rparr>)"
      using ad(1) protobuf_sign_bytes [of "pe_sdk E" tx ?id n "of_nat (?n + 1)"] by (intro verify_sdk_cong [OF ty]) auto
    then show ?thesis using ver verify_sdk_bytes [OF ty] by metis
  qed
  let ?cx2 = "cx\<lparr>cx_events := Some (ev @ [sender_event ?C a]), cx_signer := Some (Signer (Some a)), cx_chain_id := Some ?id\<rparr>"
  have nat: "stack_native E s app ?sc (p, ?cx1) = on_chain_inner (stack_nonced E s app ?nc) (p, ?cx2)"
    using v assms(9,10,13) b2(2) b1(2)
    by (simp add: stack_native_def signer_plugin_call_def chain_call_def op_bind_def Let_def from_utf8_def)
  have "unat (of_nat (?n + 1) :: u64) = ?n + 1" using lim by (subst unat_of_nat) simp
  then obtain m' where m': "stack_nonced E s app ?nc (cc_inner p, ?cx2) = on_nonce_inner (stack_paid E app (Paid pc)) ((cc_inner p)\<lparr>np_map := m'\<rparr>, ?cx2)"
    using nonce_map.nonce_plugin_call_law [OF assms(1) w ad(2), where cx = ?cx2 and c = ?nc and n = "of_nat (?n + 1)" and T = "pe_nonce_texts E" and inner = "stack_paid E app"]
    by (auto simp: stack_nonced_def signed_by_def Let_def)
  have "stack_call E s convert_app app (SdkCall ?tx) (p, cx)
      = on_chain_inner (on_nonce_inner (stack_paid E app (Paid pc))) (p\<lparr>cc_inner := (cc_inner p)\<lparr>np_map := m'\<rparr>\<rparr>, ?cx2)"
    using cv nat m' by (simp add: stack_call_def sdk_plugin_call_def op_bind_def on_chain_inner_def)
  moreover have "signed_by ?cx2 (Some a)" by (simp add: signed_by_def)
  ultimately show ?thesis by blast
qed

text \<open>A transaction that takes funds, pays the fee and gives the rest back.\<close>

context accounts_maps
begin

lemma funded_tx_law:
  assumes "inv t s" and "signed cx sg" and "okk sg" and "am_nat min_fee \<le> am_nat a" and "am_nat a \<le> bal t s sg"
  shows "\<exists>t' cx'. accounts_tx A index s (Paid (PaidCall (TakeAsFunding a) GiveFromFundingAll)) (t, cx) = (Ok (), (t', cx'))
    \<and> inv t' s \<and> bal t' s sg + am_nat min_fee = bal t s sg"
proof -
  let ?p0 = "paid_default\<lparr>pd_running_payer := True\<rparr>"
  let ?cx0 = "cx\<lparr>cx_paid := Some ?p0\<rparr>"
  have z: "paid_nat index ?p0 = 0" by (simp add: paid_entry_def paid_default_def)
  have s0: "signed (cx\<lparr>cx_paid := q\<rparr>) sg" for q using assms(2) by (simp add: signed_def)
  have some: "look (ac_accounts t) s sg \<noteq> None" using assms(4,5) by (cases "look (ac_accounts t) s sg") (auto simp: acc_bal_def min_fee_def)
  obtain t1 where t1: "take_own_coins A s a (t, ?cx0) = (Ok (Coin a), (t1, ?cx0))" "changes t s sg (bal t s sg - am_nat a) t1"
    using take_own_law [OF assms(1) s0 assms(3), of a "Some ?p0"] assms(5) some by auto
  have "am_nat a < 2 ^ 64" using unsigned_less [of "am_value a"] by (simp add: unsigned_less)
  then obtain p1 where p1: "paid_give index a ?p0 = (Ok (), p1)" "paid_nat index p1 = am_nat a" "\<not> pd_fee_disabled p1"
    using paid_give_cases [of index ?p0 a] z by (auto simp: paid_default_def)
  let ?q = "p1\<lparr>pd_running_payer := False\<rparr>"
  have "paid_nat index ?q = am_nat a" using p1(2) by (simp add: paid_entry_def)
  then obtain p2 where p2: "paid_take index min_fee ?q = (Ok (Coin min_fee), p2)" "paid_nat index p2 + am_nat min_fee = am_nat a"
    using paid_take_cases [of min_fee index ?q] assms(4) by auto
  obtain p3 where p3: "paid_take index (paid_entry index p2) p2 = (Ok (Coin (paid_entry index p2)), p3)"
    using paid_take_cases [of "paid_entry index p2" index p2] by auto
  have i1: "inv t1 s" and b1: "bal t1 s sg = bal t s sg - am_nat a" using t1(2) assms(3) by (simp_all add: changes_def)
  have "bal t s sg < 2 ^ 64" using unsigned_less [where 'b = 64 and 'a = nat] by (cases "look (ac_accounts t) s sg") (auto simp: acc_bal_def)
  then have l: "bal t1 s sg + paid_nat index p2 < 2 ^ 64" using b1 p2(2) assms(5) by linarith
  obtain t2 where t2: "on_account A s sg (coin_give (Coin (paid_entry index p2))) (t1, cx\<lparr>cx_paid := Some p3\<rparr>) = (Ok (), (t2, cx\<lparr>cx_paid := Some p3\<rparr>))"
      "changes t1 s sg (bal t1 s sg + paid_nat index p2) t2"
    using give_account [OF i1 assms(3), of "Coin (paid_entry index p2)" "cx\<lparr>cx_paid := Some p3\<rparr>"] l by auto
  have give: "accounts_give_from_funding A index s (paid_entry index p2) (t1, cx\<lparr>cx_paid := Some p2\<rparr>) = (Ok (), (t2, cx\<lparr>cx_paid := Some p3\<rparr>))"
    using t2(1) p3 by (simp add: accounts_give_from_funding_def give_own_coins_def op_bind_def on_paid_def signer_law [OF s0])
  have "accounts_tx A index s (Paid (PaidCall (TakeAsFunding a) GiveFromFundingAll)) (t, cx) = (Ok (), (t2, cx\<lparr>cx_paid := Some p3\<rparr>))"
    using t1(1) p1 p2(1) give give_all_is_give [of "cx\<lparr>cx_paid := Some p2\<rparr>" p2 index s t1]
    by (simp add: accounts_tx_def payable_plugin_call_def fee_call_def accounts_take_as_funding_def op_bind_def on_paid_def)
  moreover have "bal t2 s sg + am_nat min_fee = bal t s sg" "inv t2 s"
    using t2(2) b1 p2(2) assms(3,5) by (simp_all add: changes_def)
  ultimately show ?thesis by blast
qed

end

section \<open>Properties\<close>

text \<open>
  (C1) Nobody's coins are spent without a fresh signature.  If a call through all plugins,
  successful or not, leaves an address with a smaller balance, then the address has signed it.
  A native call is verified for the address: if it is of one of the types that can be
  submitted, native or ADR-36, its own key has that address and its own signature verifies on
  its own bytes; those begin with the id of the chain and contain a nonce that is larger than the
  stored nonce of the address by at most 1000.  An SDK transaction has a key of that address and
  a signature that verifies on what the transaction signs for this chain and the next nonce of the
  address, and the bytes that run are the id of the chain and the encoding of what the app
  makes of this transaction, with that nonce.  In both cases the nonce of the call that ran is the
  stored nonce afterwards.
\<close>

theorem spending_is_authorized:
  assumes "accounts_maps A look mwf address_ok elook ewf" and "nonce_map (pe_nonces E) nlook nwf address_ok"
    and "\<forall>bs c rest. dec (pe_calls E) bs = Ok (c, rest) \<longrightarrow> tx_ok address_ok (nc_inner_call c)"
    and "acc_inv mwf ewf (np_inner (cc_inner p)) s" and "nwf (np_map (cc_inner p)) s"
    and "stack_call E s conv (accounts_run A (pe_index E) s) call (p, cx :: 'z contexts_scheme) = (r, (p', cx'))"
    and "address_ok x" and "acc_bal look (np_inner (cc_inner p')) s x < acc_bal look (np_inner (cc_inner p)) s x"
  shows "cc_chain_id p \<noteq> [] \<and> (\<exists>b bs rest c rest' n.
      dec (pe_bytes E) b = Ok (cc_chain_id p @ bs, rest) \<and> dec (pe_calls E) bs = Ok (c, rest') \<and> nc_nonce c = Some n
    \<and> stored_nonce nlook (cc_inner p) s x < unat n \<and> unat n \<le> stored_nonce nlook (cc_inner p) s x + 1000
    \<and> stored_nonce nlook (cc_inner p') s x = unat n
    \<and> (case call of
        NativeCall sc \<Rightarrow> b = sc_call_bytes sc
          \<and> signer_verify (pe_crypto E) (stack_nonce E s) sc (p, cx\<lparr>cx_signer := None\<rparr>) = Ok (Some x)
          \<and> (sc_sigtype sc = Native \<or> sc_sigtype sc = Adr36 \<longrightarrow> native_authorized (pe_crypto E) sc x)
      | SdkCall tx \<Rightarrow> sdk_authorized (pe_sdk E) (pe_crypto E) tx (cc_chain_id p) (of_nat (stored_nonce nlook (cc_inner p) s x + 1)) x
          \<and> (\<exists>pc e. conv (np_inner (cc_inner p)) tx = Ok pc
            \<and> enc (pe_calls E) (NonceCall (Some (of_nat (stored_nonce nlook (cc_inner p) s x + 1))) (Paid pc)) = Ok e
            \<and> enc (pe_bytes E) (cc_chain_id p @ e) = Ok b)))"
proof -
  note debit = native_debit [OF assms(1-5) _ assms(7,8)]
  show ?thesis
  proof (cases call)
    case (NativeCall sc)
    then have "stack_native E s (accounts_run A (pe_index E) s) sc (p, cx) = (r, (p', cx'))"
      using stack_call_cases [OF assms(6)] assms(8) by auto
    note d = debit [OF this]
    have "sc_sigtype sc = Native \<or> sc_sigtype sc = Adr36 \<longrightarrow> native_authorized (pe_crypto E) sc x"
      using verify_native_authorized [OF d [THEN conjunct1]] by blast
    with d show ?thesis unfolding NativeCall sdk_call.case by blast
  next
    case (SdkCall tx)
    let ?id = "cc_chain_id p"
    obtain sc where sc: "stack_convert E s conv tx (p, cx) = (Ok sc, (p, cx\<lparr>cx_chain_id := Some ?id\<rparr>))"
        "stack_native E s (accounts_run A (pe_index E) s) sc (p, cx\<lparr>cx_chain_id := Some ?id\<rparr>) = (r, (p', cx'))"
      using stack_call_cases [OF assms(6)] assms(8) SdkCall by auto
    note d = debit [OF sc(2)]
    obtain sc0 a n pc e b where c: "tx_signercall (pe_sdk E) tx = Ok sc0" "signer_call_address (pe_crypto E) sc0 = Ok a"
        "stack_nonce E s p a = Ok n" "conv (np_inner (cc_inner p)) tx = Ok pc" "enc (pe_calls E) (NonceCall (Some (n + 1)) (Paid pc)) = Ok e"
        "enc (pe_bytes E) (?id @ e) = Ok b" "sc = sc0\<lparr>sc_call_bytes := b\<rparr>"
      using stack_convert_cases [OF sc(1)] by blast
    have ver: "signer_verify (pe_crypto E) (stack_nonce E s) (sc0\<lparr>sc_call_bytes := b\<rparr>) (p, cx\<lparr>cx_chain_id := Some ?id, cx_signer := None\<rparr>) = Ok (Some x)"
      using d c(7) by simp
    have "sc_pubkey sc0 = sc_pubkey sc" "sc_sigtype sc0 = sc_sigtype sc" using c(7) by simp_all
    then have "signer_call_address (pe_crypto E) sc0 = Ok x"
      using signer_verify_address [OF ver] c(7) by (simp add: signer_call_address_def)
    then have a: "a = x" using c(2) by simp
    have n: "n = of_nat (stored_nonce nlook (cc_inner p) s x)"
      using c(3) a nonce_map.nonce_of_law [OF assms(2,5,7)] by (simp add: stack_nonce_def)
    have auth: "sdk_authorized (pe_sdk E) (pe_crypto E) tx ?id (n + 1) x"
      using verify_sdk_authorized [OF c(1) ver _ c(3) [unfolded a]] by simp
    have n1: "n + 1 = of_nat (stored_nonce nlook (cc_inner p) s x + 1)" using n by simp
    have "sc_call_bytes sc = b" using c(7) by simp
    with d auth c(4-6) show ?thesis unfolding n1 SdkCall sdk_call.case by blast
  qed
qed


text \<open>A toy stack: every call is the same pair of calls on accounts.\<close>

definition toy_call :: "accounts_call payable_call nonce_call" where
  "toy_call = NonceCall (Some 1) (Paid (PaidCall (TakeAsFunding (Amount 20000)) GiveFromFundingAll))"

definition toy_env :: "(bytes, bytes, unit, bytes \<times> bytes, mapstore, accounts_call) plugin_env" where
  "toy_env = \<lparr>pe_crypto = toy_crypto\<lparr>cr_sign_bytes := tx_sign_bytes toy_sdk\<rparr>, pe_sdk = toy_sdk, pe_utf8 = (\<lambda>_. True), pe_text = (\<lambda>_ _. []),
     pe_nonce_texts = \<lparr>nt_range = \<lambda>_ _ _. [], nt_large = \<lambda>_. []\<rparr>, pe_nonces = nonce_types 5,
     pe_bytes = \<lparr>enc = Ok, dec = (\<lambda>bs. Ok (bs, []))\<rparr>, pe_calls = \<lparr>enc = (\<lambda>_. Ok []), dec = (\<lambda>_. Ok (toy_call, []))\<rparr>, pe_index = 7\<rparr>"

abbreviation toy_stacked :: "accounts \<Rightarrow> accounts stacked" where
  "toy_stacked t \<equiv> \<lparr>cc_chain_id = [1], cc_inner = \<lparr>np_map = map_new, np_inner = t\<rparr>\<rparr>"

lemma toy_tx:
  fixes k m :: bytes
  defines "k \<equiv> replicate 33 1" and "m \<equiv> replicate 64 1"
  shows "tx_signercall (pe_sdk toy_env) (Protobuf (k, m))
      = Ok \<lparr>sc_signature = Some m, sc_pubkey = Some k, sc_sigtype = Sdk (Protobuf (k, m)), sc_call_bytes = []\<rparr>"
    and "signer_verify (pe_crypto toy_env) (\<lambda>_ _. Ok 41) \<lparr>sc_signature = Some m, sc_pubkey = Some k, sc_sigtype = Sdk (Protobuf (k, m)), sc_call_bytes = []\<rparr>
      ((), event_contexts\<lparr>cx_chain_id := Some [1]\<rparr>) = Ok (Some (Address (replicate 20 1)))"
  by (simp_all add: k_def m_def toy_env_def toy_sdk_def sdk_to_signercall_def copy_from_slice_def signer_verify_def signed_message_def toy_crypto_def
      native_address_def address_from_pubkey_def address_length_def sdk_sign_bytes_def word_add_def checked_add_def flip: replicate_add)

lemma toy_nonces:
  "nonce_map (pe_nonces toy_env) (map_look (nonce_types 5) mapstore_ents)
    (\<lambda>m s. map_wf (nonce_types 5) mapstore_ents mapstore_invar address_ok (\<lambda>_. True) m s \<and> no_removed m) address_ok"
  "stored_nonce (map_look (nonce_types 5) mapstore_ents) \<lparr>np_map = map_new, np_inner = t\<rparr> mapstore_new a = 0"
  using mem_nonces.nonce_map_axioms
  by (simp_all add: toy_env_def stored_nonce_def map_look_def byte_look_def map_new_def store_look_def mapstore_new_def buf_ents_def sub_ents_def)

abbreviation toy_convert :: "accounts \<Rightarrow> (unit, bytes \<times> bytes) sdk_tx \<Rightarrow> accounts_call paid_call result" where
  "toy_convert \<equiv> \<lambda>_ _. Ok (PaidCall (TakeAsFunding (Amount 20000)) GiveFromFundingAll)"

lemma toy_tx_runs:
  "\<exists>m' cx1. signed_by cx1 (Some (Address (replicate 20 1)))
    \<and> stack_call toy_env mapstore_new toy_convert app (SdkCall (Protobuf (replicate 33 1, replicate 64 1))) (toy_stacked t, event_contexts)
      = on_chain_inner (on_nonce_inner (stack_paid toy_env app (Paid (PaidCall (TakeAsFunding (Amount 20000)) GiveFromFundingAll))))
        (\<lparr>cc_chain_id = [1], cc_inner = \<lparr>np_map = m', np_inner = t\<rparr>\<rparr>, cx1)"
  using protobuf_tx_runs [OF toy_nonces(1) _ _ _ _ toy_tx, where p = "toy_stacked t" and s = mapstore_new and cx = event_contexts and ev = "[]"
      and ?b1.0 = "[]" and pc = "PaidCall (TakeAsFunding (Amount 20000)) GiveFromFundingAll" and convert_app = toy_convert and app = app]
    toy_nonces(2) [of t "Address (replicate 20 1)"] mem_nonces_new [of 5]
  by (simp add: toy_env_def toy_call_def)

theorem spending_is_authorized_witness:
  "\<exists>t p' cx'. acc_bal (mem_look (\<lambda>_ _. []) 5) t mapstore_new (Address (replicate 20 1)) = 50000
    \<and> stack_call toy_env mapstore_new toy_convert (accounts_run (mem_accounts (\<lambda>_ _. []) 5) (pe_index toy_env) mapstore_new)
        (SdkCall (Protobuf (replicate 33 1, replicate 64 1))) (toy_stacked t, event_contexts) = (Ok (), (p', cx'))
    \<and> acc_bal (mem_look (\<lambda>_ _. []) 5) (np_inner (cc_inner p')) mapstore_new (Address (replicate 20 1)) = 40000
    \<and> sdk_authorized toy_sdk (pe_crypto toy_env) (Protobuf (replicate 33 1, replicate 64 1)) [1] 1 (Address (replicate 20 1))"
proof -
  let ?a = "Address (replicate 20 1)" and ?look = "mem_look (\<lambda>_ _. []) 5" and ?A = "mem_accounts (\<lambda>_ _. []) 5"
  let ?app = "accounts_run ?A (pe_index toy_env) mapstore_new"
  have ok: "address_ok ?a" by (simp add: address_ok_def address_length_def)
  obtain t where t: "acc_inv (mem_live (address_map (coin_state (\<lambda>_ _. [])) 5)) (mem_live (address_map (leaf_state unit_codec) 5)) t mapstore_new"
      "\<forall>y. address_ok y \<longrightarrow> ?look (ac_accounts t) mapstore_new y = (if y = ?a then Some (Coin (Amount 50000)) else None)"
    using mem_one_account [OF ok, where a = "Amount 50000" and msg = "\<lambda>_ _. []" and fuel = 5] by blast
  have b: "acc_bal ?look t mapstore_new ?a = 50000" using t(2) ok by (simp add: acc_bal_def)
  obtain m' cx1 where 1: "signed cx1 ?a"
      "stack_call toy_env mapstore_new toy_convert ?app (SdkCall (Protobuf (replicate 33 1, replicate 64 1))) (toy_stacked t, event_contexts)
      = on_chain_inner (on_nonce_inner (stack_paid toy_env ?app (Paid (PaidCall (TakeAsFunding (Amount 20000)) GiveFromFundingAll))))
        (\<lparr>cc_chain_id = [1], cc_inner = \<lparr>np_map = m', np_inner = t\<rparr>\<rparr>, cx1)"
    using toy_tx_runs [of ?app t] by (auto simp: signed_def signed_by_def)
  obtain t' cx' where 2: "stack_paid toy_env ?app (Paid (PaidCall (TakeAsFunding (Amount 20000)) GiveFromFundingAll)) (t, cx1) = (Ok (), (t', cx'))"
      "acc_bal ?look t' mapstore_new ?a = 40000"
    using mem_accounts.funded_tx_law [OF t(1) 1(1) ok, of "Amount 20000" "pe_index toy_env"] b
    by (auto simp: min_fee_def accounts_tx_def stack_paid_def)
  let ?p' = "\<lparr>cc_chain_id = [1], cc_inner = \<lparr>np_map = m', np_inner = t'\<rparr>\<rparr>"
  have run: "stack_call toy_env mapstore_new toy_convert ?app (SdkCall (Protobuf (replicate 33 1, replicate 64 1))) (toy_stacked t, event_contexts)
      = (Ok (), (?p', cx'))"
    using 1(2) 2(1) by (simp add: on_chain_inner_def on_nonce_inner_def)
  have calls: "\<forall>bs c rest. dec (pe_calls toy_env) bs = Ok (c, rest) \<longrightarrow> tx_ok address_ok (nc_inner_call c)"
    by (auto simp: toy_env_def toy_call_def)
  have less: "acc_bal ?look (np_inner (cc_inner ?p')) mapstore_new ?a < acc_bal ?look (np_inner (cc_inner (toy_stacked t))) mapstore_new ?a"
    using b 2(2) by simp
  have w: "map_wf (nonce_types 5) mapstore_ents mapstore_invar address_ok (\<lambda>_. True) (np_map (cc_inner (toy_stacked t))) mapstore_new
      \<and> no_removed (np_map (cc_inner (toy_stacked t)))" using mem_nonces_new by simp
  have "sdk_authorized (pe_sdk toy_env) (pe_crypto toy_env) (Protobuf (replicate 33 1, replicate 64 1)) [1] 1 ?a"
    using spending_is_authorized [OF mem_accounts.accounts_maps_axioms toy_nonces(1) calls _ w run ok less] t(1) toy_nonces(2) [of t ?a] by auto
  with run b 2(2) show ?thesis by (auto simp: toy_env_def)
qed

text \<open>
  (C2) Protobuf transactions can be replayed.  If the signature of such a transaction has ever
  been verified for a chain, in whatever state, then in every state of that chain in which the
  sender's nonce is not exhausted and the app can convert the transaction, running the
  transaction passes all plugins and runs the calls in it, signed by the sender: also in
  states in which it has been run before.
\<close>

theorem protobuf_tx_replays:
  assumes "nonce_map (pe_nonces E) nlook nwf address_ok" and "cr_sign_bytes (pe_crypto E) = tx_sign_bytes (pe_sdk E)"
    and bytes: "\<And>bs. \<exists>b. enc (pe_bytes E) bs = Ok b \<and> dec (pe_bytes E) b = Ok (bs, [])"
    and calls: "enc (pe_calls E) (NonceCall (Some (of_nat (stored_nonce nlook (cc_inner p) s a + 1))) (Paid pc)) = Ok b1"
      "dec (pe_calls E) b1 = Ok (NonceCall (Some (of_nat (stored_nonce nlook (cc_inner p) s a + 1))) (Paid pc), [])"
    and sc: "tx_signercall (pe_sdk E) (Protobuf tx) = Ok sc"
    and ver: "signer_verify (pe_crypto E) gn0 sc (p0, cx0) = Ok (Some a)" and "cx_chain_id cx0 = Some (cc_chain_id p)"
    and "cc_chain_id p \<noteq> []" and "pe_utf8 E (cc_chain_id p)" and w: "nwf (np_map (cc_inner p)) s"
    and lim: "stored_nonce nlook (cc_inner p) s a + 1 < 2 ^ 64" and "cx_events cx = Some ev"
    and conv: "convert_app (np_inner (cc_inner p)) (Protobuf tx) = Ok pc"
  shows "\<exists>m' cx1. signed_by cx1 (Some a)
    \<and> stack_call E s convert_app app (SdkCall (Protobuf tx)) (p, cx)
      = on_chain_inner (on_nonce_inner (stack_paid E app (Paid pc))) (p\<lparr>cc_inner := (cc_inner p)\<lparr>np_map := m'\<rparr>\<rparr>, cx1)"
  using assms by (rule protobuf_tx_runs)

theorem protobuf_tx_replays_witness:
  "\<exists>m' cx1. signed_by cx1 (Some (Address (replicate 20 1)))
    \<and> stack_call toy_env mapstore_new (\<lambda>_ _. Ok (PaidCall (TakeAsFunding (Amount 20000)) GiveFromFundingAll)) (\<lambda>_. op_ok ())
        (SdkCall (Protobuf (replicate 33 1, replicate 64 1)))
        (toy_stacked \<lparr>ac_transfers_allowed = True, ac_transfer_exceptions = map_new, ac_accounts = map_new\<rparr>, event_contexts)
      = on_chain_inner (on_nonce_inner (stack_paid toy_env (\<lambda>_. op_ok ()) (Paid (PaidCall (TakeAsFunding (Amount 20000)) GiveFromFundingAll))))
        (\<lparr>cc_chain_id = [1], cc_inner = \<lparr>np_map = m', np_inner = \<lparr>ac_transfers_allowed = True, ac_transfer_exceptions = map_new, ac_accounts = map_new\<rparr>\<rparr>\<rparr>, cx1)"
proof -
  let ?t = "\<lparr>ac_transfers_allowed = True, ac_transfer_exceptions = map_new, ac_accounts = map_new\<rparr>"
  show ?thesis
    using protobuf_tx_replays [OF toy_nonces(1) _ _ _ _ toy_tx, where p = "toy_stacked ?t" and s = mapstore_new and cx = event_contexts and ev = "[]"
        and ?b1.0 = "[]" and pc = "PaidCall (TakeAsFunding (Amount 20000)) GiveFromFundingAll" and convert_app = toy_convert and app = "\<lambda>_. op_ok ()"]
      toy_nonces(2) [of ?t "Address (replicate 20 1)"] mem_nonces_new [of 5]
    by (simp add: toy_env_def toy_call_def)
qed

end
