(* ===== verification/Entry_Map.thy ===== *)
theory Entry_Map
  imports Map_Iter
begin

text \<open>
  \<^verbatim>\<open>src/collections/entry_map.rs\<close>, a set of entries kept in a map from a part of the entry to
  the rest of it, and the trait \<^verbatim>\<open>Next\<close> of \<^verbatim>\<open>src/collections/mod.rs\<close>: the successor of a key.

  The methods of the entry map are shown to be those of a set of entries with distinct keys,
  and \<^verbatim>\<open>next\<close> on tuples and arrays to be the successor in the lexicographic order whenever it is
  the successor on the components.
\<close>

section \<open>Successors\<close>

definition next_bool :: "bool \<Rightarrow> bool option" where
  "next_bool self = (case self of False \<Rightarrow> Some True | True \<Rightarrow> None)"

definition next_unsigned :: "'a::len word \<Rightarrow> 'a word option" where
  "next_unsigned self = checked_add self 1"

text \<open>\<^verbatim>\<open>checked_add\<close> on a signed integer of \<open>n\<close> bits.\<close>

definition next_signed :: "nat \<Rightarrow> int \<Rightarrow> int option" where
  "next_signed n self = (if self + 1 < 2 ^ (n - 1) then Some (self + 1) else None)"

definition next_tuple1 :: "('a \<Rightarrow> 'a option) \<Rightarrow> 'a \<Rightarrow> 'a option" where
  "next_tuple1 na self = (case na self of Some v \<Rightarrow> Some v | None \<Rightarrow> None)"

fun next_tuple2 :: "('a \<Rightarrow> 'a option) \<Rightarrow> ('b \<Rightarrow> 'b option) \<Rightarrow> 'b \<Rightarrow> 'a \<times> 'b \<Rightarrow> ('a \<times> 'b) option" where
  "next_tuple2 na nb db (a, b) = (case nb b of
      Some v \<Rightarrow> Some (a, v)
    | None \<Rightarrow> (case na a of Some v \<Rightarrow> Some (v, db) | None \<Rightarrow> None))"

fun next_tuple3 :: "('a \<Rightarrow> 'a option) \<Rightarrow> ('b \<Rightarrow> 'b option) \<Rightarrow> 'b \<Rightarrow> ('c \<Rightarrow> 'c option) \<Rightarrow> 'c
    \<Rightarrow> 'a \<times> 'b \<times> 'c \<Rightarrow> ('a \<times> 'b \<times> 'c) option" where
  "next_tuple3 na nb db nc dc (a, b, c) = (case nc c of
      Some v \<Rightarrow> Some (a, b, v)
    | None \<Rightarrow> (case nb b of
        Some v \<Rightarrow> Some (a, v, dc)
      | None \<Rightarrow> (case na a of Some v \<Rightarrow> Some (v, db, dc) | None \<Rightarrow> None)))"

text \<open>The loop over an array, from its last element to its first.\<close>

fun next_array_loop :: "('a \<Rightarrow> 'a option) \<Rightarrow> 'a \<Rightarrow> 'a list \<Rightarrow> 'a list option" where
  "next_array_loop n d [] = None"
| "next_array_loop n d (v # vs) = (case n v of
      Some new_value \<Rightarrow> Some (new_value # vs)
    | None \<Rightarrow> map_option (Cons d) (next_array_loop n d vs))"

definition next_array :: "('a \<Rightarrow> 'a option) \<Rightarrow> 'a \<Rightarrow> 'a list \<Rightarrow> 'a list option" where
  "next_array n d self = map_option rev (next_array_loop n d (rev self))"

text \<open>What \<^verbatim>\<open>Next\<close> promises: the least value above, or none if there is no value above; the
  default value is the least of all.\<close>

locale next_law =
  fixes lt :: "'a \<Rightarrow> 'a \<Rightarrow> bool" and ok :: "'a \<Rightarrow> bool" and nxt :: "'a \<Rightarrow> 'a option" and dflt :: 'a
  assumes next_Some: "ok x \<Longrightarrow> nxt x = Some y \<Longrightarrow> ok y \<and> lt x y \<and> (\<forall>z. ok z \<longrightarrow> lt x z \<longrightarrow> z = y \<or> lt y z)"
    and next_None: "ok x \<Longrightarrow> nxt x = None \<Longrightarrow> ok z \<Longrightarrow> \<not> lt x z"
    and default_least: "ok dflt" "ok z \<Longrightarrow> z = dflt \<or> lt dflt z"

definition pair_lt :: "('a \<Rightarrow> 'a \<Rightarrow> bool) \<Rightarrow> ('b \<Rightarrow> 'b \<Rightarrow> bool) \<Rightarrow> 'a \<times> 'b \<Rightarrow> 'a \<times> 'b \<Rightarrow> bool" where
  "pair_lt la lb x y \<longleftrightarrow> la (fst x) (fst y) \<or> fst x = fst y \<and> lb (snd x) (snd y)"

fun array_lt :: "('a \<Rightarrow> 'a \<Rightarrow> bool) \<Rightarrow> 'a list \<Rightarrow> 'a list \<Rightarrow> bool" where
  "array_lt lt (x # xs) (y # ys) \<longleftrightarrow> lt x y \<or> x = y \<and> array_lt lt xs ys"
| "array_lt lt _ _ \<longleftrightarrow> False"

interpretation next_bool: next_law "(<)" "\<lambda>_. True" next_bool False
  by unfold_locales (auto simp: next_bool_def split: bool.splits)

lemma next_unsigned_law: "next_law (<) (\<lambda>_. True) (next_unsigned :: 'a::len word \<Rightarrow> 'a word option) 0"
proof
  fix x y z :: "'a word"
  have u: "unat w < 2 ^ LENGTH('a)" for w :: "'a word" by (rule unsigned_less)
  show "True \<and> x < y \<and> (\<forall>z. True \<longrightarrow> x < z \<longrightarrow> z = y \<or> y < z)" if "next_unsigned x = Some y"
  proof -
    have y: "unat y = unat x + 1" using checked_add_unat [of x 1 y] that by (simp add: next_unsigned_def)
    have "z = y \<or> y < z" if "x < z" for z
    proof -
      have "unat z = unat y \<or> unat y < unat z" using that y by (auto simp: word_less_nat_alt)
      then show ?thesis by (metis unsigned_word_eqI word_less_nat_alt)
    qed
    with y show ?thesis by (simp add: word_less_nat_alt)
  qed
  show "\<not> x < z" if "next_unsigned x = None"
  proof -
    have "2 ^ LENGTH('a) \<le> unat x + 1"
      using that by (simp add: next_unsigned_def checked_add_def split: if_splits)
    with u [of z] have "\<not> unat x < unat z" by linarith
    then show ?thesis by (simp add: word_less_nat_alt)
  qed
  show "z = 0 \<or> 0 < z" using word_neq_0_conv by auto
qed simp

interpretation next_u8: next_law "(<)" "\<lambda>_. True" "next_unsigned :: byte \<Rightarrow> byte option" 0
  by (rule next_unsigned_law)

interpretation next_u64: next_law "(<)" "\<lambda>_. True" "next_unsigned :: u64 \<Rightarrow> u64 option" 0
  by (rule next_unsigned_law)

text \<open>Tuples and arrays inherit the law.\<close>

lemma next_tuple2_law:
  assumes "next_law la oka na da" and "next_law lb okb nb db"
  shows "next_law (pair_lt la lb) (\<lambda>x. oka (fst x) \<and> okb (snd x)) (next_tuple2 na nb db) (da, db)"
proof
  fix x y z :: "'a \<times> 'b"
  show "\<not> pair_lt la lb x z"
    if "oka (fst x) \<and> okb (snd x)" "next_tuple2 na nb db x = None" "oka (fst z) \<and> okb (snd z)"
    using that next_law.next_None [OF assms(1)] next_law.next_None [OF assms(2)]
    by (cases x; cases z) (auto simp: pair_lt_def split: option.splits)
  show "z = (da, db) \<or> pair_lt la lb (da, db) z" if "oka (fst z) \<and> okb (snd z)"
    using that next_law.default_least [OF assms(1)] next_law.default_least [OF assms(2)]
    by (cases z) (auto simp: pair_lt_def)
  show "oka (fst (da, db)) \<and> okb (snd (da, db))"
    using next_law.default_least(1) [OF assms(1)] next_law.default_least(1) [OF assms(2)] by simp
  assume x: "oka (fst x) \<and> okb (snd x)" and y: "next_tuple2 na nb db x = Some y"
  obtain a b where ab: "x = (a, b)" by force
  show "(oka (fst y) \<and> okb (snd y)) \<and> pair_lt la lb x y
    \<and> (\<forall>z. oka (fst z) \<and> okb (snd z) \<longrightarrow> pair_lt la lb x z \<longrightarrow> z = y \<or> pair_lt la lb y z)"
  proof (cases "nb b")
    case (Some v)
    then show ?thesis using x y ab next_law.next_Some [OF assms(2), of b v] by (auto simp: pair_lt_def)
  next
    case None
    then obtain v where v: "na a = Some v" "y = (v, db)" using y ab by (auto split: option.splits)
    then show ?thesis
      using x ab next_law.next_Some [OF assms(1), of a v] next_law.next_None [OF assms(2) _ None]
        next_law.default_least [OF assms(2)]
      by (auto simp: pair_lt_def)
  qed
qed

text \<open>A triple is a pair whose second component is a pair, and an array of one more element a
  pair of its first element and the rest.\<close>

lemma next_tuple3_pairs: "next_tuple3 na nb db nc dc = next_tuple2 na (next_tuple2 nb nc dc) (db, dc)"
proof
  fix x show "next_tuple3 na nb db nc dc x = next_tuple2 na (next_tuple2 nb nc dc) (db, dc) x"
    by (cases x) (simp split: option.splits)
qed

lemma next_array_loop_append:
  "next_array_loop n d (vs @ [x]) = (case next_array_loop n d vs of
     Some ws \<Rightarrow> Some (ws @ [x]) | None \<Rightarrow> map_option (\<lambda>y. replicate (length vs) d @ [y]) (n x))"
  by (induction vs) (auto split: option.splits simp: option.map_comp comp_def)

lemma next_array_Cons:
  "next_array n d (x # xs) = map_option (\<lambda>(y, ys). y # ys) (next_tuple2 n (next_array n d) (replicate (length xs) d) (x, xs))"
  by (auto simp: next_array_def next_array_loop_append split: option.splits)

lemma next_array_law:
  assumes "next_law lt ok n d"
  shows "next_law (array_lt lt) (\<lambda>xs. length xs = k \<and> list_all ok xs) (next_array n d) (replicate k d)"
proof (induction k)
  case 0
  show ?case by unfold_locales (auto simp: next_array_def)
next
  case (Suc k)
  let ?P = "\<lambda>x. ok (fst x) \<and> length (snd x) = k \<and> list_all ok (snd x)"
  let ?n = "next_tuple2 n (next_array n d) (replicate k d)"
  note pl = next_tuple2_law [OF assms Suc]
  have lt: "array_lt lt (x # xs) (y # ys) \<longleftrightarrow> pair_lt lt (array_lt lt) (x, xs) (y, ys)" for x xs y ys
    by (simp add: pair_lt_def)
  show ?case
  proof
    fix xs ys assume xs: "length xs = Suc k \<and> list_all ok xs" and nx: "next_array n d xs = Some ys"
    obtain x xs' where x: "xs = x # xs'" using xs by (cases xs) auto
    then obtain y ys' where y: "?n (x, xs') = Some (y, ys')" "ys = y # ys'" using nx xs by (auto simp: next_array_Cons)
    have "?P (x, xs')" using xs x by simp
    from next_law.next_Some [OF pl this y(1)]
    have p: "?P (y, ys')" "pair_lt lt (array_lt lt) (x, xs') (y, ys')"
      and least: "\<And>z. ?P z \<Longrightarrow> pair_lt lt (array_lt lt) (x, xs') z \<Longrightarrow> z = (y, ys') \<or> pair_lt lt (array_lt lt) (y, ys') z"
      by blast+
    have "zs = ys \<or> array_lt lt ys zs" if "length zs = Suc k \<and> list_all ok zs" "array_lt lt xs zs" for zs
    proof -
      note a = that
      obtain z zs' where z: "zs = z # zs'" using a(1) by (cases zs) auto
      have "?P (z, zs')" using a(1) z by simp
      from least [OF this a(2) [unfolded x z lt]] show ?thesis unfolding y(2) z lt by blast
    qed
    moreover have "length ys = Suc k \<and> list_all ok ys" using p(1) y(2) by simp
    moreover have "array_lt lt xs ys" using p(2) unfolding x y(2) lt .
    ultimately show "(length ys = Suc k \<and> list_all ok ys) \<and> array_lt lt xs ys
      \<and> (\<forall>z. length z = Suc k \<and> list_all ok z \<longrightarrow> array_lt lt xs z \<longrightarrow> z = ys \<or> array_lt lt ys z)"
      by blast
  next
    fix xs zs assume a: "length xs = Suc k \<and> list_all ok xs" "next_array n d xs = None" "length zs = Suc k \<and> list_all ok zs"
    obtain x xs' z zs' where c: "xs = x # xs'" "zs = z # zs'" using a by (metis length_Suc_conv)
    have "?P (x, xs')" "?n (x, xs') = None" "?P (z, zs')" using a c by (auto simp: next_array_Cons)
    from next_law.next_None [OF pl this] show "\<not> array_lt lt xs zs" unfolding c lt .
  next
    show "length (replicate (Suc k) d) = Suc k \<and> list_all ok (replicate (Suc k) d)"
      using next_law.default_least(1) [OF assms] by (simp add: list_all_iff)
    fix zs assume a: "length zs = Suc k \<and> list_all ok zs"
    obtain z zs' where c: "zs = z # zs'" using a by (cases zs) auto
    have "?P (z, zs')" using a c by simp
    from next_law.default_least(2) [OF pl this] show "zs = replicate (Suc k) d \<or> array_lt lt (replicate (Suc k) d) zs"
      unfolding c replicate_Suc lt by auto
  qed
qed

section \<open>The entry map\<close>

text \<open>The trait \<^verbatim>\<open>Entry\<close>, and the collection, which is its map.\<close>

record ('e, 'k, 'v) entry_ops =
  into_entry :: "'e \<Rightarrow> 'k \<times> 'v"
  from_entry :: "'k \<times> 'v \<Rightarrow> 'e"

type_synonym ('k, 'v) entry_map = "('k, 'v) omap"

definition entry_map_new :: "('k, 'v) entry_map" where
  "entry_map_new = map_new"

definition entry_map_with_store :: "('s, 'k, 'v) map_types \<Rightarrow> bytes \<Rightarrow> ('k, 'v) entry_map result" where
  "entry_map_with_store D store = map_with_store D store"

definition entry_map_attach :: "('s, 'k, 'v) map_types \<Rightarrow> bytes \<Rightarrow> (('k, 'v) entry_map, unit) op" where
  "entry_map_attach D store = map_attach D store"

definition entry_map_flush :: "('s, 'k, 'v) map_types \<Rightarrow> ('k, 'v) entry_map \<Rightarrow> ('s, unit) op" where
  "entry_map_flush D em = map_flush D em"

definition entry_map_load :: "('s, 'k, 'v) map_types \<Rightarrow> bytes \<Rightarrow> ('k, 'v) entry_map result" where
  "entry_map_load D store = (case map_attach D store entry_map_new of
     (Ok _, m) \<Rightarrow> Ok m | (Err e, _) \<Rightarrow> Err e | (Panic, _) \<Rightarrow> Panic)"

definition entry_map_insert :: "('s, 'k, 'v) map_types \<Rightarrow> ('e, 'k, 'v) entry_ops \<Rightarrow> 'e \<Rightarrow> (('k, 'v) entry_map, unit) op" where
  "entry_map_insert D E e = (case into_entry E e of (key, val) \<Rightarrow> map_insert D key val)"

definition entry_map_delete ::
  "('s, 'k, 'v) map_types \<Rightarrow> ('e, 'k, 'v) entry_ops \<Rightarrow> 's \<Rightarrow> 'e \<Rightarrow> (('k, 'v) entry_map, unit) op" where
  "entry_map_delete D E s e = (case into_entry E e of (key, _) \<Rightarrow> op_bind (map_remove D s key) (\<lambda>_. op_ok ()))"

definition entry_map_contains ::
  "('s, 'k, 'v) map_types \<Rightarrow> ('e, 'k, 'v) entry_ops \<Rightarrow> ('k, 'v) entry_map \<Rightarrow> 's \<Rightarrow> 'e \<Rightarrow> bool result" where
  "entry_map_contains D E em s e = (case into_entry E e of (key, val) \<Rightarrow>
     and_then (map_contains_key D em s key) (\<lambda>present.
       if present
       then and_then (map_get D em s key) (\<lambda>r. case r of
              Some map_value \<Rightarrow> Ok (ref_deref map_value = val)
            | None \<Rightarrow> Ok False)
       else Ok False))"

definition entry_map_contains_entry_key ::
  "('s, 'k, 'v) map_types \<Rightarrow> ('e, 'k, 'v) entry_ops \<Rightarrow> ('k, 'v) entry_map \<Rightarrow> 's \<Rightarrow> 'e \<Rightarrow> bool result" where
  "entry_map_contains_entry_key D E em s e = (case into_entry E e of (key, _) \<Rightarrow> map_contains_key D em s key)"

definition entry_map_iter :: "('s, 'k, 'v) map_types \<Rightarrow> bytes codec \<Rightarrow> ('k, 'v) entry_map \<Rightarrow> ('k, 'v) map_iter result" where
  "entry_map_iter D vc em = map_iter_all D vc em"

definition entry_map_range ::
  "('s, 'k, 'v) map_types \<Rightarrow> bytes codec \<Rightarrow> ('k, 'v) entry_map \<Rightarrow> 'k bound \<times> 'k bound \<Rightarrow> ('k, 'v) map_iter result" where
  "entry_map_range D vc em bounds = map_range D vc em bounds"

definition entry_map_next ::
  "('s, 'k, 'v) map_types \<Rightarrow> ('e, 'k, 'v) entry_ops \<Rightarrow> ('k, 'v) entry_map \<Rightarrow> 's \<Rightarrow> ('k, 'v) map_iter
    \<Rightarrow> 'e read_only result option \<times> ('k, 'v) map_iter" where
  "entry_map_next D E em s it = (case map_iter_step D em s True it of
      (None, it') \<Rightarrow> (None, it')
    | (Some (Ok (key, val)), it') \<Rightarrow> (Some (Ok (ReadOnly (from_entry E (ref_deref key, ref_deref val)))), it')
    | (Some (Err e), it') \<Rightarrow> (Some (Err e), it')
    | (Some Panic, it') \<Rightarrow> (Some Panic, it'))"

text \<open>The set of entries a map holds.\<close>

definition entry_set :: "('e, 'k, 'v) entry_ops \<Rightarrow> ('k \<Rightarrow> bool) \<Rightarrow> ('k \<Rightarrow> 'v option) \<Rightarrow> 'e set" where
  "entry_set E okk look = {e. okk (fst (into_entry E e)) \<and> look (fst (into_entry E e)) = Some (snd (into_entry E e))}"

text \<open>Conversion to a pair and back, as \<^verbatim>\<open>derive(Entry)\<close> generates it.\<close>

definition entry_law :: "('e, 'k, 'v) entry_ops \<Rightarrow> bool" where
  "entry_law E \<longleftrightarrow> (\<forall>e. from_entry E (into_entry E e) = e) \<and> (\<forall>kv. into_entry E (from_entry E kv) = kv)"

context map_contract
begin

lemma contains_entry_set:
  assumes "wf m s" and "okk (fst (into_entry E e))"
  shows "entry_map_contains D E m s e = Ok (e \<in> entry_set E okk (look m s))"
proof -
  obtain k v where kv: "into_entry E e = (k, v)" by force
  obtain r where "map_get D m s k = Ok r" "map_option ref_deref r = look m s k"
    using get_law [OF assms(1), of k] assms(2) kv by auto
  with contains_law [OF assms(1), of k] assms(2) kv show ?thesis
    by (auto simp: entry_map_contains_def entry_set_def split: option.splits)
qed

lemma insert_entry_set:
  assumes "wf m s" and "okk (fst (into_entry E e))" and "okv (snd (into_entry E e))" and "entry_law E"
  shows "\<exists>m'. entry_map_insert D E e m = (Ok (), m') \<and> wf m' s
    \<and> entry_set E okk (look m' s) = insert e {x \<in> entry_set E okk (look m s). fst (into_entry E x) \<noteq> fst (into_entry E e)}"
proof -
  obtain k v where kv: "into_entry E e = (k, v)" by force
  obtain m' where m': "map_insert D k v m = (Ok (), m')" "wf m' s"
      "\<forall>k'. okk k' \<longrightarrow> look m' s k' = (if k' = k then Some v else look m s k')"
    using insert_law [OF assms(1), of k v] assms(2,3) kv by auto
  have "into_entry E x = (k, v) \<longleftrightarrow> x = e" for x
    using kv assms(4) unfolding entry_law_def by metis
  then have eq: "fst (into_entry E x) = k \<and> v = snd (into_entry E x) \<longleftrightarrow> x = e" for x by (metis prod.collapse fst_conv snd_conv)
  have "entry_set E okk (look m' s) = insert e {x \<in> entry_set E okk (look m s). fst (into_entry E x) \<noteq> k}"
  proof (intro set_eqI)
    fix x show "x \<in> entry_set E okk (look m' s) \<longleftrightarrow> x \<in> insert e {x \<in> entry_set E okk (look m s). fst (into_entry E x) \<noteq> k}"
      using m'(3) assms(2) kv eq [of x] by (cases "fst (into_entry E x) = k") (auto simp: entry_set_def)
  qed
  with m' kv show ?thesis by (simp add: entry_map_insert_def)
qed

lemma delete_entry_set:
  assumes "wf m s" and "okk (fst (into_entry E e))"
  shows "\<exists>m'. entry_map_delete D E s e m = (Ok (), m') \<and> wf m' s
    \<and> entry_set E okk (look m' s) = {x \<in> entry_set E okk (look m s). fst (into_entry E x) \<noteq> fst (into_entry E e)}"
proof -
  obtain k v where kv: "into_entry E e = (k, v)" by force
  obtain m' where m': "map_remove D s k m = (Ok (map_option ReadOnly (look m s k)), m')" "wf m' s"
      "\<forall>k'. okk k' \<longrightarrow> look m' s k' = (if k' = k then None else look m s k')"
    using remove_law [OF assms(1), of k] assms(2) kv by auto
  have "entry_set E okk (look m' s) = {x \<in> entry_set E okk (look m s). fst (into_entry E x) \<noteq> k}"
    using m'(3) by (auto simp: entry_set_def split: if_splits)
  with m' kv show ?thesis by (simp add: entry_map_delete_def op_bind_def)
qed

end

text \<open>Collecting the entry iterator is collecting the map's and converting each pair.\<close>

lemma collect_entry_map:
  "collect (map_iter_step D em s True) fuel it = Some (Ok xs) \<Longrightarrow>
   collect (entry_map_next D E em s) fuel it = Some (Ok (map (\<lambda>x. ReadOnly (from_entry E (ref_pair x))) xs))"
proof (induction fuel arbitrary: it xs)
  case (Suc fuel)
  obtain r it' where step: "map_iter_step D em s True it = (r, it')" by force
  show ?case
  proof (cases r)
    case None
    with Suc.prems step show ?thesis by (simp add: entry_map_next_def)
  next
    case (Some x)
    with Suc.prems step obtain p where p: "x = Ok p" by (cases x) auto
    obtain a b where ab: "p = (a, b)" by force
    from Suc.prems step Some p obtain ys where ys: "collect (map_iter_step D em s True) fuel it' = Some (Ok ys)" "xs = p # ys"
      by (auto simp: result_simps)
    have "ref_pair p = (ref_deref a, ref_deref b)" by (simp add: ab)
    with Suc.IH [OF ys(1)] step Some p ys ab show ?thesis by (simp add: entry_map_next_def)
  qed
qed simp

section \<open>Properties\<close>

text \<open>
  \<^verbatim>\<open>Next\<close> gives the successor: if it does on the components of a pair, a triple or the
  elements of an array, with the default value as the least one, then also on the whole, in
  lexicographic order; and it does on booleans and on unsigned integers of every width.
\<close>

lemma next_is_successor:
  assumes "next_law la oka na da" and "next_law lb okb nb db" and "next_law lc okc nc dc"
  shows "next_law (pair_lt la lb) (\<lambda>x. oka (fst x) \<and> okb (snd x)) (next_tuple2 na nb db) (da, db)
    \<and> next_law (pair_lt la (pair_lt lb lc)) (\<lambda>x. oka (fst x) \<and> okb (fst (snd x)) \<and> okc (snd (snd x)))
        (next_tuple3 na nb db nc dc) (da, db, dc)
    \<and> next_law (array_lt la) (\<lambda>xs. length xs = k \<and> list_all oka xs) (next_array na da) (replicate k da)
    \<and> next_law (<) (\<lambda>_. True) next_bool False
    \<and> next_law (<) (\<lambda>_. True) (next_unsigned :: 'w::len word \<Rightarrow> 'w word option) 0"
  using next_tuple2_law [OF assms(1,2)] next_tuple2_law [OF assms(1) next_tuple2_law [OF assms(2,3)]]
    next_array_law [OF assms(1), of k] next_bool.next_law_axioms next_unsigned_law
  by (simp add: next_tuple3_pairs)

lemma next_is_successor_witness:
  "next_law (array_lt (<)) (\<lambda>xs. length xs = 3 \<and> list_all (\<lambda>_. True) xs) (next_array (next_unsigned :: byte \<Rightarrow> byte option) 0) (replicate 3 0)
    \<and> next_array (next_unsigned :: byte \<Rightarrow> byte option) 0 [2, 3, 255] = Some [2, 4, 0]"
proof
  show "next_law (array_lt (<)) (\<lambda>xs. length xs = 3 \<and> list_all (\<lambda>_. True) xs)
      (next_array (next_unsigned :: byte \<Rightarrow> byte option) 0) (replicate 3 0)"
    using next_is_successor [OF next_u8.next_law_axioms next_bool.next_law_axioms next_bool.next_law_axioms, of 3] by blast
qed (simp add: next_array_def next_unsigned_def checked_add_def)

text \<open>
  (C40) An entry map is a set of entries with distinct keys: inserting adds the entry and
  drops the one with the same key, deleting drops the entry with that key, and \<^verbatim>\<open>contains\<close> is
  membership.
\<close>

theorem entry_map_is_a_set:
  assumes "simple_map D ents invar okk okv" and "map_wf D ents invar okk okv m s" and "entry_law E"
    and "okk (fst (into_entry E e))" and "okv (snd (into_entry E e))"
  shows "let entries = (\<lambda>m. entry_set E okk (map_look D ents m s)); key = (\<lambda>x. fst (into_entry E x))
   in entry_map_contains D E m s e = Ok (e \<in> entries m)
    \<and> (\<exists>m'. entry_map_insert D E e m = (Ok (), m') \<and> map_wf D ents invar okk okv m' s
         \<and> entries m' = insert e {x \<in> entries m. key x \<noteq> key e})
    \<and> (\<exists>m'. entry_map_delete D E s e m = (Ok (), m') \<and> map_wf D ents invar okk okv m' s
         \<and> entries m' = {x \<in> entries m. key x \<noteq> key e})"
proof -
  note c = simple_map.simple_map_contract [OF assms(1)]
  from map_contract.contains_entry_set [OF c assms(2,4)] map_contract.insert_entry_set [OF c assms(2,4,5,3)]
    map_contract.delete_entry_set [OF c assms(2,4)]
  show ?thesis unfolding Let_def by blast
qed

theorem entry_map_is_a_set_witness:
  "\<exists>m'. entry_map_insert (uint_map 1 5) \<lparr>into_entry = id, from_entry = id\<rparr> (7, 9) map_new = (Ok (), m')
    \<and> entry_set \<lparr>into_entry = id, from_entry = id\<rparr> (\<lambda>k. k < 256 ^ Suc 0) (map_look (uint_map 1 5) mapstore_ents m' mapstore_new) = {(7, 9)}"
proof -
  have "entry_set \<lparr>into_entry = id, from_entry = id\<rparr> (\<lambda>k. k < 256 ^ Suc 0)
      (map_look (uint_map (Suc 0) 5) mapstore_ents map_new mapstore_new) = {}"
    by (simp add: entry_set_def map_look_def byte_look_def map_new_def store_look_def sub_ents_def buf_ents_def mapstore_new_def)
  then show ?thesis
    using entry_map_is_a_set [OF uint_map.simple_map_axioms uint_map_new_wf, of "\<lparr>into_entry = id, from_entry = id\<rparr>" "(7, 9)" 0 5]
    by (auto simp: entry_law_def Let_def)
qed

text \<open>
  Iterating over an entry map whose stored keys have one length and are not all 255 ends
  and yields each of its entries once, in the order of their encoded keys.
\<close>

lemma entry_map_iterates:
  assumes "keyed_map D ents invar okk okv" and "map_wf D ents invar okk okv m s" and "entry_law E"
    and "plain_keys n (sub_ents (mp_store m) (ents s))" and "n \<noteq> 0"
    and "length (mp_children m) + length (sub_ents (mp_store m) (ents s)) < fuel"
  shows "\<exists>it xs. entry_map_iter D vc m = Ok it \<and> collect (entry_map_next D E m s) fuel it = Some (Ok xs)
    \<and> sorted_wrt (<) (map (\<lambda>x. key_bytes (mt_key D) (fst (into_entry E (into_inner x)))) xs)
    \<and> into_inner ` set xs = entry_set E okk (map_look D ents m s)"
proof -
  obtain it xs where it: "map_iter_all D vc m = Ok it" "collect (map_iter_step D m s True) fuel it = Some (Ok xs)"
      "sorted_wrt (<) (map (\<lambda>x. key_bytes (mt_key D) (ref_deref (fst x))) xs)"
      "\<forall>k v. (k, v) \<in> set (map ref_pair xs) \<longleftrightarrow> okk k \<and> map_look D ents m s k = Some v"
    using keyed_map.map_iteration [OF assms(1,2,4-6)] by blast
  let ?ys = "map (\<lambda>x. ReadOnly (from_entry E (ref_pair x))) xs"
  have "fst (into_entry E (from_entry E (ref_pair x))) = ref_deref (fst x)" for x
    using assms(3) by (simp add: entry_law_def)
  then have "sorted_wrt (<) (map (\<lambda>x. key_bytes (mt_key D) (fst (into_entry E (into_inner x)))) ?ys)"
    using it(3) by (simp add: comp_def)
  moreover have "into_inner ` set ?ys = from_entry E ` set (map ref_pair xs)"
    by (simp only: set_map image_image read_only.sel)
  moreover have "from_entry E ` set (map ref_pair xs) = entry_set E okk (map_look D ents m s)"
  proof (intro set_eqI iffI)
    fix e assume "e \<in> from_entry E ` set (map ref_pair xs)"
    then obtain k v where "e = from_entry E (k, v)" "(k, v) \<in> set (map ref_pair xs)" by auto
    then show "e \<in> entry_set E okk (map_look D ents m s)" using it(4) assms(3) by (simp add: entry_set_def entry_law_def)
  next
    fix e assume "e \<in> entry_set E okk (map_look D ents m s)"
    then have "into_entry E e \<in> set (map ref_pair xs)"
      using it(4) unfolding entry_set_def by (metis (mono_tags, lifting) mem_Collect_eq prod.collapse)
    moreover have "e = from_entry E (into_entry E e)" using assms(3) by (simp add: entry_law_def)
    ultimately show "e \<in> from_entry E ` set (map ref_pair xs)" by blast
  qed
  moreover have "entry_map_iter D vc m = Ok it" using it(1) by (simp add: entry_map_iter_def)
  ultimately show ?thesis using collect_entry_map [OF it(2), of E]
    by (intro exI [of _ it] exI [of _ ?ys] conjI) (simp_all only:)
qed

lemma entry_map_iterates_witness:
  "\<exists>it xs. entry_map_iter (uint_map 1 5) \<lparr>enc = Ok, dec = (\<lambda>b. Ok (b, []))\<rparr> map_new = Ok it
    \<and> collect (entry_map_next (uint_map 1 5) \<lparr>into_entry = id, from_entry = id\<rparr> map_new mapstore_new) 5 it = Some (Ok xs)"
proof -
  have es: "sub_ents (mp_store (map_new :: (nat, byte) omap)) (mapstore_ents mapstore_new) = []"
    by (simp add: sub_ents_def buf_ents_def mapstore_new_def)
  show ?thesis
    using entry_map_iterates [OF uint_map.keyed_map_axioms [of 0 5] uint_map_new_wf, of "\<lparr>into_entry = id, from_entry = id\<rparr>" 1 5 "\<lparr>enc = Ok, dec = (\<lambda>b. Ok (b, []))\<rparr>"]
    by (simp add: es entry_law_def plain_keys_def) (auto simp: map_new_def)
qed

end
