(* ===== verification/Map_Iterable.thy ===== *)
theory Map_Iterable
  imports Entry_Map Map_Entries
begin

text \<open>
  Loops over all entries of a map, as the modules above the collections run them: collecting the
  entries, and removing a list of keys.  The locale \<open>iterable_map\<close> extends the contract of a map
  by the law of the first; it holds for maps whose encoded keys have one length and are not
  all 255, with fuel for every key there can be.
\<close>

text \<open>\<^verbatim>\<open>for entry in map.iter()?\<close> with \<^verbatim>\<open>let (k, v) = entry?\<close>.\<close>

definition map_to_list :: "('s, 'k, 'v) map_types \<Rightarrow> bytes codec \<Rightarrow> ('k, 'v) omap \<Rightarrow> 's \<Rightarrow> ('k \<times> 'v) list result" where
  "map_to_list D vc m s = and_then (map_iter_all D vc m) (\<lambda>it.
     case collect (map_iter_step D m s True) (mt_fuel D) it of
       None \<Rightarrow> Panic
     | Some r \<Rightarrow> and_then r (\<lambda>xs. Ok (map ref_pair xs)))"

text \<open>\<^verbatim>\<open>for entry in iterator { ... }\<close> with a body that may fail; running out of fuel is \<open>Panic\<close>.\<close>

fun for_each :: "('i \<Rightarrow> 'a result option \<times> 'i) \<Rightarrow> ('a \<Rightarrow> 'b \<Rightarrow> 'b result) \<Rightarrow> nat \<Rightarrow> 'i \<Rightarrow> 'b \<Rightarrow> 'b result" where
  "for_each next body 0 it acc = Panic"
| "for_each next body (Suc fuel) it acc = (case next it of
      (None, _) \<Rightarrow> Ok acc
    | (Some r, it') \<Rightarrow> and_then r (\<lambda>x. and_then (body x acc) (for_each next body fuel it')))"

fun fold_result :: "('a \<Rightarrow> 'b \<Rightarrow> 'b result) \<Rightarrow> 'a list \<Rightarrow> 'b \<Rightarrow> 'b result" where
  "fold_result body [] acc = Ok acc"
| "fold_result body (x # xs) acc = and_then (body x acc) (fold_result body xs)"

lemma for_each_collect: "collect next fuel it = Some (Ok xs) \<Longrightarrow> for_each next body fuel it acc = fold_result body xs acc"
proof (induction fuel arbitrary: it xs acc)
  case (Suc fuel)
  obtain x0 it' where n: "next it = (x0, it')" by force
  show ?case
  proof (cases x0)
    case None
    then show ?thesis using Suc.prems n by auto
  next
    case (Some r)
    then obtain x ys where x: "r = Ok x" "collect next fuel it' = Some (Ok ys)" "xs = x # ys"
      using Suc.prems n by (auto split: result.splits simp: result_simps)
    then show ?thesis using Suc.IH [OF x(2)] n Some by (cases "body x acc") auto
  qed
qed simp

text \<open>\<^verbatim>\<open>for key in keys { map.remove(key)?; }\<close>\<close>

fun remove_keys :: "('s, 'k, 'v) map_types \<Rightarrow> 's \<Rightarrow> 'k list \<Rightarrow> (('k, 'v) omap, unit) op" where
  "remove_keys D s [] = op_ok ()"
| "remove_keys D s (key # ks) = op_bind (map_remove D s key) (\<lambda>_. remove_keys D s ks)"

locale iterable_map = map_contract D look wf okk okv
  for D :: "('s, 'k, 'v) map_types" and look :: "('k, 'v) omap \<Rightarrow> 's \<Rightarrow> 'k \<Rightarrow> 'v option"
    and wf :: "('k, 'v) omap \<Rightarrow> 's \<Rightarrow> bool" and okk :: "'k \<Rightarrow> bool" and okv :: "'v \<Rightarrow> bool" +
  fixes vc :: "bytes codec"
  assumes to_list_law: "wf m s \<Longrightarrow> \<exists>xs. map_to_list D vc m s = Ok xs \<and> distinct (map fst xs)
      \<and> (\<forall>k v. (k, v) \<in> set xs \<longleftrightarrow> okk k \<and> look m s k = Some v)"
begin

text \<open>The steps of the iterator behind the list.\<close>

lemma collect_law:
  assumes "wf m s"
  shows "\<exists>it xs. map_iter_all D vc m = Ok it \<and> collect (map_iter_step D m s True) (mt_fuel D) it = Some (Ok xs)
    \<and> distinct (map fst (map ref_pair xs)) \<and> (\<forall>k v. (k, v) \<in> set (map ref_pair xs) \<longleftrightarrow> okk k \<and> look m s k = Some v)"
proof -
  obtain ys where ys: "map_to_list D vc m s = Ok ys" "distinct (map fst ys)" "\<forall>k v. (k, v) \<in> set ys \<longleftrightarrow> okk k \<and> look m s k = Some v"
    using to_list_law [OF assms] by blast
  from ys(1) obtain it xs where it: "map_iter_all D vc m = Ok it" "collect (map_iter_step D m s True) (mt_fuel D) it = Some (Ok xs)"
      and y: "ys = map ref_pair xs"
    unfolding map_to_list_def by (auto simp: result_simps split: option.splits)
  show ?thesis using ys(2,3) unfolding y by (intro exI [of _ it] exI [of _ xs] conjI it)
qed

lemma entry_collect_law:
  assumes "wf m s" and "entry_law E"
  shows "\<exists>it es. entry_map_iter D vc m = Ok it \<and> collect (entry_map_next D E m s) (mt_fuel D) it = Some (Ok es)
    \<and> distinct (map (fst \<circ> into_entry E) (map into_inner es))
    \<and> (\<forall>k v. (k, v) \<in> into_entry E ` set (map into_inner es) \<longleftrightarrow> okk k \<and> look m s k = Some v)"
proof -
  obtain it xs where it: "map_iter_all D vc m = Ok it" "collect (map_iter_step D m s True) (mt_fuel D) it = Some (Ok xs)"
      and xs: "distinct (map fst (map ref_pair xs))" "\<forall>k v. (k, v) \<in> set (map ref_pair xs) \<longleftrightarrow> okk k \<and> look m s k = Some v"
    using collect_law [OF assms(1)] by blast
  let ?es = "map (\<lambda>x. ReadOnly (from_entry E (ref_pair x))) xs"
  have inv: "into_entry E (from_entry E kv) = kv" for kv using assms(2) by (cases kv) (simp add: entry_law_def)
  have m: "map (into_entry E) (map into_inner ?es) = map ref_pair xs" by (simp add: inv comp_def)
  have "map (fst \<circ> into_entry E) (map into_inner ?es) = map fst (map ref_pair xs)" by (simp add: inv comp_def)
  moreover have "into_entry E ` set (map into_inner ?es) = set (map ref_pair xs)" using arg_cong [OF m, of set] by (simp only: set_map)
  moreover have "entry_map_iter D vc m = Ok it" using it(1) by (simp add: entry_map_iter_def)
  ultimately show ?thesis using collect_entry_map [OF it(2), of E] xs
    by (intro exI [of _ it] exI [of _ ?es] conjI) (simp_all only: simp_thms)
qed

lemma remove_keys_law:
  assumes "wf m s" and "list_all okk ks"
  shows "\<exists>m'. remove_keys D s ks m = (Ok (), m') \<and> wf m' s \<and> mp_store m' = mp_store m
    \<and> (\<forall>k. okk k \<longrightarrow> look m' s k = (if k \<in> set ks then None else look m s k))"
  using assms
proof (induction ks arbitrary: m)
  case (Cons key ks)
  obtain m1 where m1: "map_remove D s key m = (Ok (map_option ReadOnly (look m s key)), m1)" "wf m1 s" "mp_store m1 = mp_store m"
      "\<forall>k. okk k \<longrightarrow> look m1 s k = (if k = key then None else look m s k)"
    using remove_law [OF Cons.prems(1), of key] Cons.prems(2) by auto
  obtain m2 where "remove_keys D s ks m1 = (Ok (), m2)" "wf m2 s" "mp_store m2 = mp_store m1"
      "\<forall>k. okk k \<longrightarrow> look m2 s k = (if k \<in> set ks then None else look m1 s k)"
    using Cons.IH [OF m1(2)] Cons.prems(2) by auto
  with m1 show ?case by (intro exI [of _ m2]) (simp add: op_bind_def)
qed simp

end

text \<open>Iteration goes through the keys in the order of their encodings.\<close>

locale sorted_map = iterable_map D look wf okk okv vc
  for D :: "('s, 'k, 'v) map_types" and look :: "('k, 'v) omap \<Rightarrow> 's \<Rightarrow> 'k \<Rightarrow> 'v option"
    and wf :: "('k, 'v) omap \<Rightarrow> 's \<Rightarrow> bool" and okk :: "'k \<Rightarrow> bool" and okv :: "'v \<Rightarrow> bool" and vc :: "bytes codec" +
  assumes sorted_law: "wf m s \<Longrightarrow> map_to_list D vc m s = Ok xs \<Longrightarrow> sorted_wrt (<) (map (key_bytes (mt_key D)) (map fst xs))"

context simple_map
begin

text \<open>There are no more entries in memory, or in the store, than there are keys.\<close>

lemma wf_lengths:
  assumes "wf m s" and "finite {k. okk k}"
  shows "length (mp_children m) \<le> card {k. okk k} \<and> length (sub_ents (mp_store m) (ents s)) \<le> Suc (card {k. okk k})"
proof
  let ?K = "{k. okk k}" and ?es = "sub_ents (mp_store m) (ents s)"
  have c: "bt_wf (mp_children m)" "\<forall>b k vo. map_of (mp_children m) b = Some (k, vo) \<longrightarrow> okk k \<and> enc (mt_key D) k = Ok b"
    using assms(1) by (auto simp: map_wf_def children_wf_def)
  have "fst ` set (mp_children m) \<subseteq> kb ` ?K"
  proof
    fix b assume "b \<in> fst ` set (mp_children m)"
    then obtain k vo where "(b, k, vo) \<in> set (mp_children m)" by force
    then have "map_of (mp_children m) b = Some (k, vo)" using bt_wf_distinct [OF c(1)] by simp
    then have "okk k" "enc (mt_key D) k = Ok b" using c(2) by auto
    then show "b \<in> kb ` ?K" using enc_kb [of k] by auto
  qed
  then have "card (fst ` set (mp_children m)) \<le> card ?K"
    by (meson assms(2) card_image_le card_mono finite_imageI le_trans)
  then show "length (mp_children m) \<le> card ?K"
    using bt_wf_distinct [OF c(1)] by (metis distinct_card length_map set_map)
  have e: "bt_wf ?es"
    using backing.reads_lawful assms(1) by (auto simp: map_wf_def lawful_reader_def forward_reader_def intro: sub_ents_wf)
  have "fst ` set ?es \<subseteq> insert [] (kb ` ?K)"
  proof
    fix b assume "b \<in> fst ` set ?es"
    then obtain bs where "(b, bs) \<in> set ?es" by force
    then have "b = [] \<or> (\<exists>k. okk k \<and> enc (mt_key D) k = Ok b)"
      using assms(1) unfolding map_wf_def store_wf_def by blast
    then show "b \<in> insert [] (kb ` ?K)" using enc_kb by fastforce
  qed
  then have "card (fst ` set ?es) \<le> card (insert [] (kb ` ?K))" by (rule card_mono [rotated]) (simp add: assms(2))
  also have "\<dots> \<le> Suc (card ?K)" using card_image_le [OF assms(2), of kb] assms(2) by (simp add: card_insert_if)
  finally show "length ?es \<le> Suc (card ?K)" using bt_wf_distinct [OF e] by (metis distinct_card length_map set_map)
qed

lemma simple_collect:
  assumes "finite {k. okk k}" and "n \<noteq> 0" and keys: "\<And>k. okk k \<Longrightarrow> length (kb k) = n \<and> kb k \<noteq> replicate n 255"
    and fuel: "2 * card {k. okk k} + 1 < mt_fuel D" and w: "wf m s"
  shows "\<exists>it xs. map_iter_all D vc m = Ok it \<and> collect (map_iter_step D m s True) (mt_fuel D) it = Some (Ok xs)
    \<and> sorted_wrt (<) (map (\<lambda>x. kb (ref_deref (fst x))) xs) \<and> (\<forall>k v. (k, v) \<in> set (map ref_pair xs) \<longleftrightarrow> okk k \<and> look m s k = Some v)"
proof -
  have "keyed_map D ents invar okk okv"
    by (intro keyed_map.intro keyed_map_axioms.intro simple_map_axioms) (use keys assms(2) in \<open>fastforce simp: key_bytes_def\<close>)
  note iteration = keyed_map.map_iteration [OF this]
  have "plain_keys n (sub_ents (mp_store m) (ents s))"
    unfolding plain_keys_def
  proof
    fix e assume e: "e \<in> set (sub_ents (mp_store m) (ents s))"
    obtain b bs where b: "e = (b, bs)" by force
    have "b = [] \<or> (\<exists>k. okk k \<and> enc (mt_key D) k = Ok b)"
      using w e unfolding map_wf_def store_wf_def b by blast
    then have "b = [] \<or> (\<exists>k. okk k \<and> b = kb k)" using enc_kb by auto
    then show "fst e = [] \<or> length (fst e) = n \<and> fst e \<noteq> replicate n 255" using keys b by auto
  qed
  moreover have "length (mp_children m) + length (sub_ents (mp_store m) (ents s)) < mt_fuel D"
    using wf_lengths [OF w assms(1)] fuel by linarith
  ultimately show ?thesis using iteration [OF w _ assms(2)] by blast
qed

lemma simple_sorted:
  assumes "finite {k. okk k}" and "n \<noteq> 0" and keys: "\<And>k. okk k \<Longrightarrow> length (kb k) = n \<and> kb k \<noteq> replicate n 255"
    and fuel: "2 * card {k. okk k} + 1 < mt_fuel D"
  shows "sorted_map D look wf okk okv vc"
proof (intro sorted_map.intro sorted_map_axioms.intro iterable_map.intro iterable_map_axioms.intro simple_map_contract)
  fix m s assume w: "wf m s"
  obtain it xs where it: "map_iter_all D vc m = Ok it" "collect (map_iter_step D m s True) (mt_fuel D) it = Some (Ok xs)"
      "sorted_wrt (<) (map (\<lambda>x. kb (ref_deref (fst x))) xs)"
      "\<forall>k v. (k, v) \<in> set (map ref_pair xs) \<longleftrightarrow> okk k \<and> look m s k = Some v"
    using simple_collect [OF assms w] by blast
  have d: "distinct (map (\<lambda>x. kb (ref_deref (fst x))) xs)" using it(3) by (rule strict_sorted_iff [THEN iffD1, THEN conjunct2])
  have k: "map kb (map fst (map ref_pair xs)) = map (\<lambda>x. kb (ref_deref (fst x))) xs" by simp
  have "distinct (map kb (map fst (map ref_pair xs)))" unfolding k by (rule d)
  then have "distinct (map fst (map ref_pair xs))" unfolding distinct_map [of kb] by (rule conjunct1)
  with it show "\<exists>xs. map_to_list D vc m s = Ok xs \<and> distinct (map fst xs) \<and> (\<forall>k v. (k, v) \<in> set xs \<longleftrightarrow> okk k \<and> look m s k = Some v)"
    by (intro exI [of _ "map ref_pair xs"]) (simp add: map_to_list_def)
  show "sorted_wrt (<) (map kb (map fst ys))" if "map_to_list D vc m s = Ok ys" for ys
  proof -
    have "ys = map ref_pair xs" using that it(1,2) by (simp add: map_to_list_def)
    then show ?thesis using it(3) unfolding k [symmetric] by (simp only:)
  qed
qed

lemmas simple_iterable = sorted_map.axioms(1) [OF simple_sorted]

end

end
