(* ===== verification/Validator_Set.thy ===== *)
theory Validator_Set
  imports Payable Map_Iterable Coin_State "HOL-Library.AList" "HOL-Library.Multiset"
begin

text \<open>
  The types of \<^verbatim>\<open>src/plugins/abci.rs\<close> for validators, and the context \<^verbatim>\<open>Validators\<close> through which
  an app reads and changes the validator set.

  The current set and the operators are maps in cells that the plugin shares with the context
  (\<^verbatim>\<open>Rc<RefCell<Option<_>>>\<close>); \<open>cx_cells\<close> holds their contents while a call runs.  The updates of
  a call are a \<^verbatim>\<open>HashMap\<close>, an association list with distinct keys here; what depends on the
  order of its iteration takes the order as a parameter.
\<close>

section \<open>Validators and updates\<close>

datatype key_sum = Ed25519 bytes | Secp256k1 bytes

record public_key =
  pk_sum :: "key_sum option"

record validator_update =
  vu_pub_key :: "public_key option"
  vu_power :: int

record validator_entry =
  ve_pubkey :: bytes
  ve_power :: u64

text \<open>The implementation of \<^verbatim>\<open>Entry\<close> that is derived for it.\<close>

definition validator_entry_ops :: "(validator_entry, bytes, u64) entry_ops" where
  "validator_entry_ops = \<lparr>into_entry = (\<lambda>e. (ve_pubkey e, ve_power e)),
     from_entry = (\<lambda>(pubkey, vp). \<lparr>ve_pubkey = pubkey, ve_power = vp\<rparr>)\<rparr>"

record validator =
  va_pubkey :: bytes
  va_power :: u64

definition pubkey_length :: nat where
  "pubkey_length = 32"

definition validator_from_update :: "validator_update \<Rightarrow> validator result" where
  "validator_from_update update =
     and_then (unwrap (vu_pub_key update)) (\<lambda>key.
     and_then (unwrap (pk_sum key)) (\<lambda>sum.
       let pubkey_bytes = (case sum of Ed25519 bytes \<Rightarrow> bytes | Secp256k1 bytes \<Rightarrow> bytes) in
       if length pubkey_bytes \<noteq> pubkey_length then Panic
       else if vu_power update < 0 then Panic
       else Ok \<lparr>va_pubkey = pubkey_bytes, va_power = word_of_int (vu_power update)\<rparr>))"

section \<open>The shared cells\<close>

type_synonym update_map = "(bytes \<times> validator_update) list"

record validator_cells =
  vc_current_vp :: "(bytes, u64) entry_map option"
  vc_cons_key :: "(bytes, bytes) omap option"

record abci_contexts = contexts +
  cx_logs :: "string list option"
  cx_validators :: "update_map option"
  cx_cells :: validator_cells

text \<open>The types of the maps, and the order in which a \<^verbatim>\<open>HashMap\<close> of updates is iterated.\<close>

record 's abci_types =
  at_updates :: "('s, bytes, validator_update) map_types"
  at_current :: "('s, bytes, u64) map_types"
  at_operators :: "('s, bytes, bytes) map_types"
  at_bytes :: "bytes codec"
  at_order :: "update_map \<Rightarrow> update_map"

text \<open>The context: its updates, and the cells it refers to.\<close>

type_synonym validators = "update_map \<times> validator_cells"

definition validators_new :: update_map where
  "validators_new = []"

definition on_validators :: "error \<Rightarrow> (validators, 'a) op \<Rightarrow> ('t \<times> 'z abci_contexts_scheme, 'a) op" where
  "on_validators missing f = (\<lambda>(t, cx). case context_resolve cx_validators cx of
      None \<Rightarrow> (Err missing, (t, cx))
    | Some ups \<Rightarrow> (case f (ups, cx_cells cx) of (r, (ups', cells)) \<Rightarrow>
        (r, (t, cx\<lparr>cx_validators := Some ups', cx_cells := cells\<rparr>))))"

section \<open>Methods of the context\<close>

text \<open>\<open>sint\<close> is the cast of the power to a signed integer.\<close>

definition update_of :: "bytes \<Rightarrow> u64 \<Rightarrow> validator_update" where
  "update_of pub_key vp = \<lparr>vu_pub_key = Some \<lparr>pk_sum = Some (Ed25519 pub_key)\<rparr>, vu_power = sint vp\<rparr>"

definition set_voting_power :: "'s abci_types \<Rightarrow> bytes \<Rightarrow> u64 \<Rightarrow> (validators, unit) op" where
  "set_voting_power A pub_key vp = (\<lambda>(ups, cells). case vc_current_vp cells of
      None \<Rightarrow> (Panic, (ups, cells))
    | Some em \<Rightarrow> (case entry_map_insert (at_current A) validator_entry_ops \<lparr>ve_pubkey = pub_key, ve_power = vp\<rparr> em of
          (Ok _, em') \<Rightarrow> (Ok (), (AList.update pub_key (update_of pub_key vp) ups, cells\<lparr>vc_current_vp := Some em'\<rparr>))
        | (_, em') \<Rightarrow> (Panic, (ups, cells\<lparr>vc_current_vp := Some em'\<rparr>))))"

definition set_operator :: "'s abci_types \<Rightarrow> bytes \<Rightarrow> bytes \<Rightarrow> (validators, unit) op" where
  "set_operator A pub_key op_addr = (\<lambda>(ups, cells). case vc_cons_key cells of
      None \<Rightarrow> (Panic, (ups, cells))
    | Some m \<Rightarrow> (case map_insert (at_operators A) op_addr pub_key m of
        (r, m') \<Rightarrow> (r, (ups, cells\<lparr>vc_cons_key := Some m'\<rparr>))))"

definition consensus_key :: "'s abci_types \<Rightarrow> 's \<Rightarrow> bytes \<Rightarrow> (validators, bytes option) op" where
  "consensus_key A s op_addr = op_read (\<lambda>(ups, cells).
     and_then (unwrap (vc_cons_key cells)) (\<lambda>m.
     and_then (map_get (at_operators A) m s op_addr) (\<lambda>r. Ok (map_option ref_deref r))))"

definition current_set :: "(validators, (bytes, u64) entry_map option) op" where
  "current_set = op_read (\<lambda>(ups, cells). Ok (vc_current_vp cells))"

text \<open>The entries of the current set, as the loops over \<^verbatim>\<open>iter()\<close> get them.\<close>

definition validators_entries :: "'s abci_types \<Rightarrow> 's \<Rightarrow> (validators, validator_entry list) op" where
  "validators_entries A s = op_read (\<lambda>(ups, cells).
     and_then (ok_or (Error_App ''Validator set not available'') (vc_current_vp cells)) (\<lambda>em.
     and_then (entry_map_iter (at_current A) (at_bytes A) em) (\<lambda>it.
     case collect (entry_map_next (at_current A) validator_entry_ops em s) (mt_fuel (at_current A)) it of
       None \<Rightarrow> Panic
     | Some r \<Rightarrow> and_then r (\<lambda>xs. Ok (map into_inner xs)))))"

definition total_voting_power :: "'s abci_types \<Rightarrow> 's \<Rightarrow> (validators, u64) op" where
  "total_voting_power A s = op_read (\<lambda>(ups, cells).
     and_then (ok_or (Error_App ''Validator set not available'') (vc_current_vp cells)) (\<lambda>em.
     and_then (entry_map_iter (at_current A) (at_bytes A) em) (\<lambda>it.
     for_each (entry_map_next (at_current A) validator_entry_ops em s)
       (\<lambda>v sum. word_add sum (ve_power (into_inner v))) (mt_fuel (at_current A)) it 0)))"

section \<open>The contract of the validator set\<close>

text \<open>Keys of validators: the iteration of a map does not reach a key of 255s only, which is not
  the encoding of a public key.\<close>

definition pubkey_ok :: "bytes \<Rightarrow> bool" where
  "pubkey_ok k \<longleftrightarrow> length k = pubkey_length \<and> k \<noteq> replicate pubkey_length 255"

locale validator_maps =
  updates: iterable_map "at_updates A" ulook uwf pubkey_ok uok "at_bytes A" +
  current: iterable_map "at_current A" clook cwf pubkey_ok "\<lambda>_. True" "at_bytes A" +
  operators: map_access "at_operators A" olook owf opok pubkey_ok
  for A :: "'s abci_types" and ulook uwf uok clook cwf olook owf opok +
  assumes order_law: "mset (at_order A ups) = mset ups"
    and update_of_ok: "pubkey_ok k \<Longrightarrow> uok (update_of k vp)"

text \<open>The set the cells hold, and what is well-formed.\<close>

definition vp_of :: "((bytes, u64) entry_map \<Rightarrow> 's \<Rightarrow> bytes \<Rightarrow> u64 option) \<Rightarrow> validator_cells \<Rightarrow> 's \<Rightarrow> bytes \<Rightarrow> u64 option" where
  "vp_of clook cells s k = (case vc_current_vp cells of Some em \<Rightarrow> clook em s k | None \<Rightarrow> None)"

definition op_of :: "((bytes, bytes) omap \<Rightarrow> 's \<Rightarrow> bytes \<Rightarrow> bytes option) \<Rightarrow> validator_cells \<Rightarrow> 's \<Rightarrow> bytes \<Rightarrow> bytes option" where
  "op_of olook cells s k = (case vc_cons_key cells of Some m \<Rightarrow> olook m s k | None \<Rightarrow> None)"

definition cells_ok :: "((bytes, u64) entry_map \<Rightarrow> 's \<Rightarrow> bool) \<Rightarrow> ((bytes, bytes) omap \<Rightarrow> 's \<Rightarrow> bool) \<Rightarrow> validator_cells \<Rightarrow> 's \<Rightarrow> bool" where
  "cells_ok cwf owf cells s \<longleftrightarrow> (\<exists>em. vc_current_vp cells = Some em \<and> cwf em s) \<and> (\<exists>m. vc_cons_key cells = Some m \<and> owf m s)"

definition updates_ok :: "(validator_update \<Rightarrow> bool) \<Rightarrow> update_map \<Rightarrow> bool" where
  "updates_ok uok ups \<longleftrightarrow> distinct (map fst ups) \<and> (\<forall>k u. map_of ups k = Some u \<longrightarrow> pubkey_ok k \<and> uok u)"

lemma entry_ops_law [simp]: "entry_law validator_entry_ops"
  by (auto simp: entry_law_def validator_entry_ops_def)

lemma entry_ops_into [simp]: "into_entry validator_entry_ops e = (ve_pubkey e, ve_power e)"
  by (simp add: validator_entry_ops_def)

text \<open>The powers of a list of entries.\<close>

definition powers :: "validator_entry list \<Rightarrow> nat" where
  "powers vs = sum_list (map (unat \<circ> ve_power) vs)"

lemma fold_powers:
  "fold_result (\<lambda>v acc. word_add acc (ve_power (into_inner v))) vs acc
     = (if unat acc + powers (map into_inner vs) < 2 ^ 64 then Ok (acc + of_nat (powers (map into_inner vs))) else Panic)"
proof (induction vs arbitrary: acc)
  case Nil
  have "unat acc < 2 ^ 64" using unsigned_less [of acc] by simp
  then show ?case by (simp add: powers_def)
next
  case (Cons v vs)
  let ?p = "ve_power (into_inner v)"
  show ?case
  proof (cases "unat acc + unat ?p < 2 ^ 64")
    case True
    then have "word_add acc ?p = Ok (acc + ?p)" "unat (acc + ?p) = unat acc + unat ?p"
      by (simp_all add: word_add_def checked_add_def unat_word_ariths)
    then show ?thesis using Cons.IH [of "acc + ?p"] by (simp add: powers_def add.assoc)
  next
    case False
    then have "word_add acc ?p = Panic" by (simp add: word_add_def checked_add_def)
    then show ?thesis using False by (simp add: powers_def)
  qed
qed

context validator_maps
begin

abbreviation vp :: "validator_cells \<Rightarrow> 's \<Rightarrow> bytes \<Rightarrow> u64 option" where "vp \<equiv> vp_of clook"
abbreviation opr :: "validator_cells \<Rightarrow> 's \<Rightarrow> bytes \<Rightarrow> bytes option" where "opr \<equiv> op_of olook"
abbreviation ok :: "validator_cells \<Rightarrow> 's \<Rightarrow> bool" where "ok \<equiv> cells_ok cwf owf"

lemma set_voting_power_law:
  assumes "ok cells s" and "pubkey_ok k"
  shows "\<exists>cells'. set_voting_power A k v (ups, cells) = (Ok (), (AList.update k (update_of k v) ups, cells')) \<and> ok cells' s
    \<and> vc_cons_key cells' = vc_cons_key cells \<and> (\<forall>k'. pubkey_ok k' \<longrightarrow> vp cells' s k' = (if k' = k then Some v else vp cells s k'))"
proof -
  obtain em where em: "vc_current_vp cells = Some em" "cwf em s" using assms(1) by (auto simp: cells_ok_def)
  obtain em' where "map_insert (at_current A) k v em = (Ok (), em')" "cwf em' s"
      "\<forall>k'. pubkey_ok k' \<longrightarrow> clook em' s k' = (if k' = k then Some v else clook em s k')"
    using current.insert_law [OF em(2) assms(2), of v] by auto
  with em assms(1) show ?thesis
    by (intro exI [of _ "cells\<lparr>vc_current_vp := Some em'\<rparr>"]) (simp add: set_voting_power_def entry_map_insert_def cells_ok_def vp_of_def)
qed

lemma set_operator_law:
  assumes "ok cells s" and "opok a" and "pubkey_ok k"
  shows "\<exists>cells'. set_operator A k a (ups, cells) = (Ok (), (ups, cells')) \<and> ok cells' s
    \<and> vc_current_vp cells' = vc_current_vp cells \<and> (\<forall>a'. opok a' \<longrightarrow> opr cells' s a' = (if a' = a then Some k else opr cells s a'))"
proof -
  obtain m where m: "vc_cons_key cells = Some m" "owf m s" using assms(1) by (auto simp: cells_ok_def)
  obtain m' where "map_insert (at_operators A) a k m = (Ok (), m')" "owf m' s"
      "\<forall>a'. opok a' \<longrightarrow> olook m' s a' = (if a' = a then Some k else olook m s a')"
    using operators.access_insert [OF m(2) assms(2,3)] by auto
  with m assms(1) show ?thesis
    by (intro exI [of _ "cells\<lparr>vc_cons_key := Some m'\<rparr>"]) (simp add: set_operator_def cells_ok_def op_of_def)
qed

lemma consensus_key_law:
  assumes "ok cells s" and "opok a"
  shows "consensus_key A s a (ups, cells) = (Ok (opr cells s a), (ups, cells))"
proof -
  obtain m where m: "vc_cons_key cells = Some m" "owf m s" using assms(1) by (auto simp: cells_ok_def)
  then show ?thesis
    using operators.access_get [OF m(2) assms(2)] by (auto simp: consensus_key_def op_read_def op_of_def unwrap_def)
qed

text \<open>The entries are the current set, each validator once; their powers are added up, or the
  sum overflows.\<close>

lemma entries_law:
  assumes "ok cells s"
  shows "\<exists>vs. validators_entries A s (ups, cells) = (Ok vs, (ups, cells)) \<and> distinct (map ve_pubkey vs)
    \<and> (\<forall>k v. \<lparr>ve_pubkey = k, ve_power = v\<rparr> \<in> set vs \<longleftrightarrow> pubkey_ok k \<and> vp cells s k = Some v)
    \<and> total_voting_power A s (ups, cells) = (if powers vs < 2 ^ 64 then Ok (of_nat (powers vs)) else Panic, (ups, cells))"
proof -
  obtain em where em: "vc_current_vp cells = Some em" "cwf em s" using assms by (auto simp: cells_ok_def)
  obtain it es where it: "entry_map_iter (at_current A) (at_bytes A) em = Ok it"
      "collect (entry_map_next (at_current A) validator_entry_ops em s) (mt_fuel (at_current A)) it = Some (Ok es)"
      and d: "distinct (map (fst \<circ> into_entry validator_entry_ops) (map into_inner es))"
      and es: "\<forall>k v. (k, v) \<in> into_entry validator_entry_ops ` set (map into_inner es) \<longleftrightarrow> pubkey_ok k \<and> clook em s k = Some v"
    using current.entry_collect_law [OF em(2) entry_ops_law] by blast
  let ?vs = "map into_inner es"
  have "(k, v) \<in> into_entry validator_entry_ops ` set ?vs \<longleftrightarrow> \<lparr>ve_pubkey = k, ve_power = v\<rparr> \<in> set ?vs" for k v
  proof
    assume "(k, v) \<in> into_entry validator_entry_ops ` set ?vs"
    then obtain e where e: "e \<in> set ?vs" "ve_pubkey e = k" "ve_power e = v" by auto
    have "e = \<lparr>ve_pubkey = k, ve_power = v\<rparr>" using e(2,3) by simp
    with e(1) show "\<lparr>ve_pubkey = k, ve_power = v\<rparr> \<in> set ?vs" by simp
  next
    assume "\<lparr>ve_pubkey = k, ve_power = v\<rparr> \<in> set ?vs"
    then show "(k, v) \<in> into_entry validator_entry_ops ` set ?vs" by (rule rev_image_eqI) simp
  qed
  then have "\<forall>k v. \<lparr>ve_pubkey = k, ve_power = v\<rparr> \<in> set ?vs \<longleftrightarrow> pubkey_ok k \<and> vp cells s k = Some v"
    using es em(1) by (simp add: vp_of_def)
  moreover have "validators_entries A s (ups, cells) = (Ok ?vs, (ups, cells))"
    using em(1) it by (simp add: validators_entries_def op_read_def ok_or_def)
  moreover have "total_voting_power A s (ups, cells) = (if powers ?vs < 2 ^ 64 then Ok (of_nat (powers ?vs)) else Panic, (ups, cells))"
    using em(1) it fold_powers [of es 0] by (simp add: total_voting_power_def op_read_def ok_or_def for_each_collect)
  moreover have "distinct (map ve_pubkey ?vs)" using d by (simp add: comp_def)
  ultimately show ?thesis by (intro exI [of _ ?vs] conjI)
qed

end

section \<open>In-memory maps\<close>

text \<open>\<^verbatim>\<open>Adapter\<close> of \<^verbatim>\<open>src/abci/prost.rs\<close>, for the encoding and the decoding of a message by
  \<^verbatim>\<open>prost\<close>; decoding reads to the end.\<close>

record 'm prost =
  pr_encode :: "'m \<Rightarrow> bytes"
  pr_decode :: "bytes \<Rightarrow> 'm option"

definition adapter_codec :: "'m prost \<Rightarrow> 'm codec" where
  "adapter_codec P = \<lparr>enc = (\<lambda>m. Ok (pr_encode P m)),
     dec = (\<lambda>bytes. and_then (ok_or (Error_Ed EdIO) (pr_decode P bytes)) (\<lambda>m. Ok (m, [])))\<rparr>"

definition adapter_state :: "'m prost \<Rightarrow> ('s, 'm) state_ops" where
  "adapter_state P = \<lparr>
     st_attach = (\<lambda>_. op_ok ()),
     st_flush = (\<lambda>m. op_lift (enc (adapter_codec P) m)),
     st_load = (\<lambda>_ _ bytes. dec (adapter_codec P) bytes)\<rparr>"

lemma adapter_stored:
  assumes "\<And>m. ok m \<Longrightarrow> pr_decode P (pr_encode P m) = Some m"
  shows "stored_state (adapter_state P) ok"
  by unfold_locales (auto simp: adapter_state_def adapter_codec_def assms ok_or_def)

definition array_map :: "nat \<Rightarrow> (mapstore, 'v) state_ops \<Rightarrow> nat \<Rightarrow> (mapstore, bytes, 'v) map_types" where
  "array_map n V fuel = \<lparr>mt_backing = mapstore_backing, mt_key = array_codec n word_codec, mt_value = V, mt_fuel = fuel\<rparr>"

lemma array_map_key [simp]: "key_bytes (mt_key (array_map n V fuel)) k = k" "mt_fuel (array_map n V fuel) = fuel"
  by (simp_all add: array_map_def key_bytes_def array_codec_def enc_all_u8)

lemma array_map_simple:
  assumes "stored_state V okv" and "\<And>k. okk k \<Longrightarrow> length k = n"
  shows "simple_map (array_map n V fuel) mapstore_ents mapstore_invar okk okv"
proof (intro simple_map.intro)
  show "lawful_backing (mt_backing (array_map n V fuel)) mapstore_ents mapstore_invar (\<lambda>_. True)"
    by (simp add: array_map_def mapstore.lawful_backing_axioms)
  show "terminated_codec (mt_key (array_map n V fuel)) okk"
    by unfold_locales (auto simp: array_map_def assms(2) bytes_codec.enc_total intro: bytes_codec.dec_enc)
  show "stored_state (mt_value (array_map n V fuel)) okv" using assms(1) by (simp add: array_map_def)
qed

lemma card_pubkeys: "finite {k. pubkey_ok k}" "card {k. pubkey_ok k} \<le> 256 ^ 32"
proof -
  let ?K = "{k :: bytes. set k \<subseteq> UNIV \<and> length k = pubkey_length}"
  have f: "finite ?K" by (rule finite_lists_length_eq) simp
  have sub: "{k. pubkey_ok k} \<subseteq> ?K" by (auto simp: pubkey_ok_def)
  show "finite {k. pubkey_ok k}" by (rule finite_subset [OF sub f])
  have "card ?K = card (UNIV :: byte set) ^ pubkey_length" by (rule card_lists_length_eq) simp
  then show "card {k. pubkey_ok k} \<le> 256 ^ 32" using card_mono [OF f sub] by (simp add: pubkey_length_def card_word)
qed

definition mem_abci :: "validator_update prost \<Rightarrow> mapstore abci_types" where
  "mem_abci P = (let fuel = 2 * 256 ^ 32 + 2 in
     \<lparr>at_updates = array_map 32 (adapter_state P) fuel, at_current = array_map 32 (leaf_state word_codec) fuel,
      at_operators = array_map 20 (leaf_state (array_codec 32 word_codec)) fuel,
      at_bytes = \<lparr>enc = Ok, dec = (\<lambda>b. Ok (b, []))\<rparr>, at_order = id\<rparr>)"

abbreviation mem_wf :: "(mapstore, bytes, 'v) map_types \<Rightarrow> (bytes \<Rightarrow> bool) \<Rightarrow> ('v \<Rightarrow> bool) \<Rightarrow> (bytes, 'v) omap \<Rightarrow> mapstore \<Rightarrow> bool" where
  "mem_wf D \<equiv> map_wf D mapstore_ents mapstore_invar"

lemma pubkey_map_iterable:
  assumes "stored_state V okv" and "2 * 256 ^ 32 + 1 < fuel"
  shows "iterable_map (array_map 32 V fuel) (map_look (array_map 32 V fuel) mapstore_ents)
    (mem_wf (array_map 32 V fuel) pubkey_ok okv) pubkey_ok okv vc"
proof (rule simple_map.simple_iterable)
  show "simple_map (array_map 32 V fuel) mapstore_ents mapstore_invar pubkey_ok okv"
    by (rule array_map_simple [OF assms(1)]) (simp_all add: pubkey_ok_def pubkey_length_def)
  show "finite {k. pubkey_ok k}" by (rule card_pubkeys)
  show "2 * card {k. pubkey_ok k} + 1 < mt_fuel (array_map 32 V fuel)" using card_pubkeys(2) assms(2) by simp
  show "length (key_bytes (mt_key (array_map 32 V fuel)) k) = 32 \<and> key_bytes (mt_key (array_map 32 V fuel)) k \<noteq> replicate 32 255"
    if "pubkey_ok k" for k using that by (simp add: pubkey_ok_def pubkey_length_def)
qed simp

lemma mem_validator_maps:
  assumes "\<And>m. uok m \<Longrightarrow> pr_decode P (pr_encode P m) = Some m" and "\<And>k v. pubkey_ok k \<Longrightarrow> uok (update_of k v)"
  shows "validator_maps (mem_abci P) (map_look (at_updates (mem_abci P)) mapstore_ents) (mem_wf (at_updates (mem_abci P)) pubkey_ok uok) uok
    (map_look (at_current (mem_abci P)) mapstore_ents) (mem_wf (at_current (mem_abci P)) pubkey_ok (\<lambda>_. True))
    (map_look (at_operators (mem_abci P)) mapstore_ents) (mem_wf (at_operators (mem_abci P)) (\<lambda>a. length a = 20) pubkey_ok) (\<lambda>a. length a = 20)"
proof (intro validator_maps.intro validator_maps_axioms.intro)
  have s: "stored_state (leaf_state (array_codec 32 word_codec)) pubkey_ok"
  proof (rule simple_state.stored_contract, rule leaf_state_simple)
    show "terminated_codec (array_codec 32 (word_codec :: byte codec)) pubkey_ok"
      by unfold_locales (auto simp: pubkey_ok_def pubkey_length_def bytes_codec.enc_total intro: bytes_codec.dec_enc)
  qed
  show "iterable_map (at_updates (mem_abci P)) (map_look (at_updates (mem_abci P)) mapstore_ents)
      (mem_wf (at_updates (mem_abci P)) pubkey_ok uok) pubkey_ok uok (at_bytes (mem_abci P))"
    using pubkey_map_iterable [OF adapter_stored [OF assms(1)]] by (simp add: mem_abci_def)
  show "iterable_map (at_current (mem_abci P)) (map_look (at_current (mem_abci P)) mapstore_ents)
      (mem_wf (at_current (mem_abci P)) pubkey_ok (\<lambda>_. True)) pubkey_ok (\<lambda>_. True) (at_bytes (mem_abci P))"
    using pubkey_map_iterable [OF simple_state.stored_contract [OF leaf_state_simple [OF u64_codec.terminated_codec_axioms]]]
    by (simp add: mem_abci_def)
  show "map_access (at_operators (mem_abci P)) (map_look (at_operators (mem_abci P)) mapstore_ents)
      (mem_wf (at_operators (mem_abci P)) (\<lambda>a. length a = 20) pubkey_ok) (\<lambda>a. length a = 20) pubkey_ok"
    using map_contract.access_contract [OF simple_map.simple_map_contract [OF array_map_simple [OF s]]] by (simp add: mem_abci_def)
  show "uok (update_of k v)" if "pubkey_ok k" for k v by (rule assms(2) [OF that])
qed (simp add: mem_abci_def)

text \<open>An encoding of the updates that an app can make: the key and then the power.\<close>

definition key_power_prost :: "validator_update prost" where
  "key_power_prost = \<lparr>
     pr_encode = (\<lambda>u. (case map_option pk_sum (vu_pub_key u) of Some (Some (Ed25519 k)) \<Rightarrow> k | _ \<Rightarrow> [])
        @ be_bytes 8 (unat (word_of_int (vu_power u) :: u64))),
     pr_decode = (\<lambda>bs. Some (update_of (take 32 bs) (of_nat (of_be_bytes (drop 32 bs)))))\<rparr>"

definition made_update :: "validator_update \<Rightarrow> bool" where
  "made_update u \<longleftrightarrow> (\<exists>k v. pubkey_ok k \<and> u = update_of k v)"

abbreviation mem_types :: "mapstore abci_types" where "mem_types \<equiv> mem_abci key_power_prost"

interpretation mem_validators: validator_maps mem_types
    "map_look (at_updates mem_types) mapstore_ents" "mem_wf (at_updates mem_types) pubkey_ok made_update" made_update
    "map_look (at_current mem_types) mapstore_ents" "mem_wf (at_current mem_types) pubkey_ok (\<lambda>_. True)"
    "map_look (at_operators mem_types) mapstore_ents" "mem_wf (at_operators mem_types) (\<lambda>a. length a = 20) pubkey_ok" "\<lambda>a. length a = 20"
proof (rule mem_validator_maps)
  fix u assume "made_update u"
  then obtain k v where u: "u = update_of k v" "length k = 32" by (auto simp: made_update_def pubkey_ok_def pubkey_length_def)
  have "unat v < 256 ^ 8" using unsigned_less [of v] by simp
  then have "of_be_bytes (be_bytes 8 (unat v)) = unat v" by (rule of_be_bytes_be_bytes)
  then show "pr_decode key_power_prost (pr_encode key_power_prost u) = Some u"
    using u by (simp add: key_power_prost_def update_of_def)
qed (auto simp: made_update_def)

text \<open>Empty maps, and a key.\<close>

lemma mem_new_wf: "map_wf D mapstore_ents mapstore_invar okk okv map_new mapstore_new"
  by (simp add: map_wf_def map_new_def mapstore_new_def buf_invar_def children_wf_def store_wf_def buf_ents_def sub_ents_def)

lemma mem_new_look: "map_look D mapstore_ents map_new mapstore_new k = None"
  by (simp add: map_look_def byte_look_def map_new_def store_look_def sub_ents_def buf_ents_def mapstore_new_def)

lemma sample_key_ok: "pubkey_ok (replicate 32 1)"
proof -
  have "(replicate 32 (1 :: byte)) ! 0 \<noteq> replicate 32 255 ! 0" by simp
  then have "replicate 32 (1 :: byte) \<noteq> replicate 32 255" by metis
  then show ?thesis by (simp add: pubkey_ok_def pubkey_length_def)
qed

end
