(* ===== verification/Merk_Store.thy ===== *)
theory Merk_Store
  imports Buf_Store Codec
begin

text \<open>
  \<^verbatim>\<open>src/merk\<close>: the store of committed state (\<^verbatim>\<open>store.rs\<close>), its snapshots (\<^verbatim>\<open>snapshot.rs\<close>,
  \<^verbatim>\<open>memsnapshot.rs\<close>), and the stores that record and check proofs (\<^verbatim>\<open>proofbuilder.rs\<close>,
  \<^verbatim>\<open>proofstore.rs\<close>).

  The Merk library and RocksDB's raw iterators are the record \<open>merk_lib\<close>; the locale
  \<open>merk_laws\<close> states their documented behaviour in terms of the sorted entries of a tree.
  Operations on files are left out.
\<close>

section \<open>The library\<close>

datatype merk_op = Put bytes | Delete

record ('m, 'i, 'ss) merk_lib =
  ml_get :: "'m \<Rightarrow> bytes \<Rightarrow> bytes option result"
  ml_get_aux :: "'m \<Rightarrow> bytes \<Rightarrow> bytes option result"
  ml_apply :: "(bytes \<times> merk_op) list \<Rightarrow> (bytes \<times> merk_op) list \<Rightarrow> ('m, unit) op"
  ml_flush :: "('m, unit) op"
  ml_root_hash :: "'m \<Rightarrow> bytes"
  ml_checkpoint :: "'m \<Rightarrow> 'm result"
  ml_chunk_count :: "'m \<Rightarrow> nat result"
  ml_chunk :: "'m \<Rightarrow> nat \<Rightarrow> bytes result"
  ml_snapshot :: "'m \<Rightarrow> 'ss result"
  ml_sha512_256 :: "bytes \<Rightarrow> bytes"
  ml_raw_iter :: "'m \<Rightarrow> 'i"
  ml_seek :: "bytes \<Rightarrow> 'i \<Rightarrow> 'i"
  ml_seek_to_last :: "'i \<Rightarrow> 'i"
  ml_next :: "'i \<Rightarrow> 'i"
  ml_prev :: "'i \<Rightarrow> 'i"
  ml_valid :: "'i \<Rightarrow> bool"
  ml_status :: "'i \<Rightarrow> unit result"
  ml_key :: "'i \<Rightarrow> bytes option"
  ml_value :: "'i \<Rightarrow> bytes option"
  ml_tree_value :: "bytes \<Rightarrow> bytes"

section \<open>Snapshots\<close>

record 'm snapshot =
  ss_checkpoint :: 'm
  ss_length :: u32
  ss_hash :: bytes

definition snapshot_new :: "('m, 'i, 'ss) merk_lib \<Rightarrow> 'm \<Rightarrow> 'm snapshot result" where
  "snapshot_new M checkpoint = and_then (ml_chunk_count M checkpoint) (\<lambda>n.
     Ok \<lparr>ss_checkpoint = checkpoint, ss_length = of_nat n, ss_hash = ml_root_hash M checkpoint\<rparr>)"

definition snapshot_chunk :: "('m, 'i, 'ss) merk_lib \<Rightarrow> 'm snapshot \<Rightarrow> nat \<Rightarrow> bytes result" where
  "snapshot_chunk M self index = ml_chunk M (ss_checkpoint self) index"

datatype snapshot_filter = Interval (sf_interval: u64) (sf_limit: u64) | SpecificHeight (sf_height: u64) (sf_keep_until: "u64 option")

definition word_rem :: "u64 \<Rightarrow> u64 \<Rightarrow> u64 result" where
  "word_rem a b = (if b = 0 then Panic else Ok (a mod b))"

definition word_mul :: "u64 \<Rightarrow> u64 \<Rightarrow> u64 result" where
  "word_mul a b = unwrap (checked_mul a b)"

fun filter_should_create :: "snapshot_filter \<Rightarrow> u64 \<Rightarrow> bool result" where
  "filter_should_create (Interval interval _) height = and_then (word_rem height interval) (\<lambda>r. Ok (r = 0))"
| "filter_should_create (SpecificHeight h _) height = Ok (height = h)"

fun filter_should_keep :: "snapshot_filter \<Rightarrow> u64 \<Rightarrow> u64 \<Rightarrow> bool result" where
  "filter_should_keep (Interval interval limit) ss_height cur_height =
     and_then (word_rem ss_height interval) (\<lambda>r.
       if r \<noteq> 0 then Ok False
       else and_then (word_sub cur_height ss_height) (\<lambda>d.
            and_then (word_mul interval limit) (\<lambda>w. Ok (d < w))))"
| "filter_should_keep (SpecificHeight height keep_until) ss_height cur_height =
     Ok (ss_height = height \<and> (case keep_until of None \<Rightarrow> True | Some n \<Rightarrow> cur_height < n))"

text \<open>\<^verbatim>\<open>any\<close> stops at the first filter that holds.\<close>

fun any_filter :: "(snapshot_filter \<Rightarrow> bool result) \<Rightarrow> snapshot_filter list \<Rightarrow> bool result" where
  "any_filter P [] = Ok False"
| "any_filter P (f # fs) = and_then (P f) (\<lambda>b. if b then Ok True else any_filter P fs)"

record 'm snapshots =
  sn_snapshots :: "(u64, 'm snapshot) btree"
  sn_filters :: "snapshot_filter list"

definition snapshots_get :: "'m snapshots \<Rightarrow> u64 \<Rightarrow> 'm snapshot option" where
  "snapshots_get self height = map_of (sn_snapshots self) height"

definition snapshots_get_latest :: "'m snapshots \<Rightarrow> (u64 \<times> 'm snapshot) option" where
  "snapshots_get_latest self = last_opt (sn_snapshots self)"

definition should_create :: "'m snapshots \<Rightarrow> u64 \<Rightarrow> bool result" where
  "should_create self height =
     (if 0 < height then any_filter (\<lambda>f. filter_should_create f height) (sn_filters self) else Ok False)"

definition should_keep :: "'m snapshots \<Rightarrow> u64 \<Rightarrow> u64 \<Rightarrow> bool result" where
  "should_keep self ss_height cur_height = any_filter (\<lambda>f. filter_should_keep f ss_height cur_height) (sn_filters self)"

fun remove_heights :: "'m snapshots \<Rightarrow> u64 \<Rightarrow> (u64, 'm snapshot) btree \<Rightarrow> u64 list result" where
  "remove_heights self cur_height [] = Ok []"
| "remove_heights self cur_height ((ss_height, _) # rest) =
     and_then (should_keep self ss_height cur_height) (\<lambda>keep.
     and_then (remove_heights self cur_height rest) (\<lambda>hs. Ok (if keep then hs else ss_height # hs)))"

definition maybe_prune :: "u64 \<Rightarrow> ('m snapshots, unit) op" where
  "maybe_prune cur_height = op_bind (op_read (\<lambda>self. remove_heights self cur_height (sn_snapshots self))) (\<lambda>hs.
     op_upd (\<lambda>self. self\<lparr>sn_snapshots := fold bt_remove hs (sn_snapshots self)\<rparr>))"

definition snapshots_create :: "('m, 'i, 'ss) merk_lib \<Rightarrow> u64 \<Rightarrow> 'm \<Rightarrow> ('m snapshots, unit) op" where
  "snapshots_create M height checkpoint self =
     (if map_of (sn_snapshots self) height \<noteq> None then (Ok (), self)
      else op_bind (op_lift (snapshot_new M checkpoint)) (\<lambda>snapshot.
           op_bind (op_upd (\<lambda>self. self\<lparr>sn_snapshots := bt_insert height snapshot (sn_snapshots self)\<rparr>)) (\<lambda>_.
             maybe_prune height)) self)"

definition snapshot_interval :: u64 where
  "snapshot_interval = 1000"

definition first_snapshot_height :: u64 where
  "first_snapshot_height = 2"

record abci_snapshot =
  as_height :: u64
  as_chunks :: u32
  as_hash :: bytes

definition canonical_height :: "u64 \<Rightarrow> bool" where
  "canonical_height height \<longleftrightarrow> height mod snapshot_interval = 0 \<or> height = first_snapshot_height"

definition abci_snapshots :: "'m snapshots \<Rightarrow> abci_snapshot list result" where
  "abci_snapshots self = Ok (map (\<lambda>(height, snapshot). \<lparr>as_height = height, as_chunks = ss_length snapshot, as_hash = ss_hash snapshot\<rparr>)
     (filter (\<lambda>(height, _). canonical_height height) (sn_snapshots self)))"

definition abci_load_chunk :: "('m, 'i, 'ss) merk_lib \<Rightarrow> 'm snapshots \<Rightarrow> u64 \<Rightarrow> u32 \<Rightarrow> bytes result" where
  "abci_load_chunk M self height chunk = (case map_of (sn_snapshots self) height of
      Some snapshot \<Rightarrow> snapshot_chunk M snapshot (unat chunk)
    | None \<Rightarrow> Ok [])"

section \<open>The store\<close>

record ('m, 'ss) merk_store =
  mk_merk :: 'm
  mk_map :: bufmap
  mk_snapshots :: "'m snapshots"
  mk_target_snapshot :: "abci_snapshot option"
  mk_mem_snapshots :: "(u64, 'ss) btree"

text \<open>\<^verbatim>\<open>get_next\<close> and \<^verbatim>\<open>get_prev\<close> on a raw iterator.\<close>

definition iter_entry :: "('m, 'i, 'ss) merk_lib \<Rightarrow> 'i \<Rightarrow> kv option result" where
  "iter_entry M it =
     and_then (unwrap (ml_key M it)) (\<lambda>key.
     and_then (unwrap (ml_value M it)) (\<lambda>tree_bytes. Ok (Some (key, ml_tree_value M tree_bytes))))"

definition raw_get_next :: "('m, 'i, 'ss) merk_lib \<Rightarrow> 'i \<Rightarrow> bytes \<Rightarrow> kv option result" where
  "raw_get_next M it start =
     (let it = ml_seek M start it
      in if \<not> ml_valid M it then and_then (ml_status M it) (\<lambda>_. Ok None)
         else and_then (unwrap (ml_key M it)) (\<lambda>key.
           if key = start
           then let it = ml_next M it
                in if \<not> ml_valid M it then and_then (ml_status M it) (\<lambda>_. Ok None) else iter_entry M it
           else iter_entry M it))"

definition raw_get_prev :: "('m, 'i, 'ss) merk_lib \<Rightarrow> 'i \<Rightarrow> bytes option \<Rightarrow> kv option result" where
  "raw_get_prev M it end_key = (case end_key of
      Some k \<Rightarrow>
        (let it = ml_seek M k it
         in if \<not> ml_valid M it then and_then (ml_status M it) (\<lambda>_. Ok None)
            else and_then (unwrap (ml_key M it)) (\<lambda>key.
              if key = k
              then let it = ml_prev M it
                   in if \<not> ml_valid M it then and_then (ml_status M it) (\<lambda>_. Ok None) else iter_entry M it
              else iter_entry M it))
    | None \<Rightarrow>
        (let it = ml_seek_to_last M it
         in if \<not> ml_valid M it then and_then (ml_status M it) (\<lambda>_. Ok None) else iter_entry M it))"

definition merk_get :: "('m, 'i, 'ss) merk_lib \<Rightarrow> ('m, 'ss) merk_store \<Rightarrow> bytes \<Rightarrow> bytes option result" where
  "merk_get M self key = (case map_of (mk_map self) key of
      Some (Some value) \<Rightarrow> Ok (Some value)
    | Some None \<Rightarrow> Ok None
    | None \<Rightarrow> ml_get M (mk_merk self) key)"

definition merk_get_next :: "('m, 'i, 'ss) merk_lib \<Rightarrow> ('m, 'ss) merk_store \<Rightarrow> bytes \<Rightarrow> kv option result" where
  "merk_get_next M self start = raw_get_next M (ml_raw_iter M (mk_merk self)) start"

definition merk_get_prev :: "('m, 'i, 'ss) merk_lib \<Rightarrow> ('m, 'ss) merk_store \<Rightarrow> bytes option \<Rightarrow> kv option result" where
  "merk_get_prev M self end_key = raw_get_prev M (ml_raw_iter M (mk_merk self)) end_key"

definition merk_put :: "bytes \<Rightarrow> bytes \<Rightarrow> (('m, 'ss) merk_store, unit) op" where
  "merk_put key value = op_upd (\<lambda>self. self\<lparr>mk_map := bt_insert key (Some value) (mk_map self)\<rparr>)"

definition merk_delete :: "bytes \<Rightarrow> (('m, 'ss) merk_store, unit) op" where
  "merk_delete key = op_upd (\<lambda>self. self\<lparr>mk_map := bt_insert key None (mk_map self)\<rparr>)"

definition merk_backing :: "('m, 'i, 'ss) merk_lib \<Rightarrow> ('m, 'ss) merk_store backing" where
  "merk_backing M = \<lparr>
     bk_read = (\<lambda>self. \<lparr>rd_get = merk_get M self, rd_get_next = merk_get_next M self, rd_get_prev = merk_get_prev M self\<rparr>),
     bk_put = merk_put, bk_delete = merk_delete\<rparr>"

definition to_batch :: "(bytes \<times> bytes option) list \<Rightarrow> (bytes \<times> merk_op) list" where
  "to_batch i = map (\<lambda>(key, val). case val of Some val \<Rightarrow> (key, Put val) | None \<Rightarrow> (key, Delete)) i"

definition on_merk :: "('m, 'a) op \<Rightarrow> (('m, 'ss) merk_store, 'a) op" where
  "on_merk f self = (case f (mk_merk self) of (r, m) \<Rightarrow> (r, self\<lparr>mk_merk := m\<rparr>))"

definition merk_write :: "('m, 'i, 'ss) merk_lib \<Rightarrow> (bytes \<times> bytes option) list \<Rightarrow> (('m, 'ss) merk_store, unit) op" where
  "merk_write M aux self = on_merk (ml_apply M (to_batch (mk_map self)) (to_batch aux)) (self\<lparr>mk_map := []\<rparr>)"

text \<open>\<^verbatim>\<open>read_u64\<close> panics on another number of bytes than eight.\<close>

definition read_u64 :: "bytes \<Rightarrow> u64 result" where
  "read_u64 bytes = (if length bytes = 8 then Ok (of_nat (of_be_bytes bytes)) else Panic)"

definition height_key :: bytes where
  "height_key = [104, 101, 105, 103, 104, 116]"

definition merk_height :: "('m, 'i, 'ss) merk_lib \<Rightarrow> ('m, 'ss) merk_store \<Rightarrow> u64 result" where
  "merk_height M self = and_then (ml_get_aux M (mk_merk self) height_key) (\<lambda>maybe_bytes. case maybe_bytes of
      None \<Rightarrow> Ok 0
    | Some bytes \<Rightarrow> read_u64 bytes)"

definition calc_app_hash :: "('m, 'i, 'ss) merk_lib \<Rightarrow> bytes \<Rightarrow> bytes" where
  "calc_app_hash M merk_root = ml_sha512_256 M ([105, 98, 99] @ merk_root)"

definition merk_root_hash :: "('m, 'i, 'ss) merk_lib \<Rightarrow> ('m, 'ss) merk_store \<Rightarrow> bytes result" where
  "merk_root_hash M self = Ok (calc_app_hash M (ml_root_hash M (mk_merk self)))"

text \<open>The header of a block, as far as it is used.\<close>

record header =
  hd_height :: int
  hd_time :: "int option"

definition height_u64 :: "int \<Rightarrow> u64" where
  "height_u64 h = word_of_int h"

fun pop_until :: "nat \<Rightarrow> 'a list \<Rightarrow> 'a list" where
  "pop_until n [] = []"
| "pop_until n (x # xs) = (if n < length (x # xs) then pop_until n xs else x # xs)"

text \<open>\<open>state_sync\<close> is the feature of that name, \<open>now\<close> the system time in seconds.\<close>

definition merk_commit :: "('m, 'i, 'ss) merk_lib \<Rightarrow> bool \<Rightarrow> int \<Rightarrow> header \<Rightarrow> (('m, 'ss) merk_store, unit) op" where
  "merk_commit M state_sync now header =
     (let height = height_u64 (hd_height header)
      in op_bind (merk_write M [(height_key, Some (be_bytes 8 (unat height)))]) (\<lambda>_.
         op_bind (on_merk (ml_flush M)) (\<lambda>_.
         op_bind (op_lift (unwrap (hd_time header))) (\<lambda>seconds.
         op_bind (if state_sync \<and> now - seconds < 10
                  then op_bind (op_read (\<lambda>self. should_create (mk_snapshots self) height)) (\<lambda>create.
                    if create
                    then op_bind (op_read (\<lambda>self. ml_checkpoint M (mk_merk self))) (\<lambda>checkpoint self.
                      case snapshots_create M height checkpoint (mk_snapshots self) of
                        (r, ss) \<Rightarrow> (r, self\<lparr>mk_snapshots := ss\<rparr>))
                    else op_ok ())
                  else op_ok ()) (\<lambda>_.
         op_bind (op_read (\<lambda>self. ml_snapshot M (mk_merk self))) (\<lambda>snapshot.
           op_upd (\<lambda>self. self\<lparr>mk_mem_snapshots := pop_until 20 (bt_insert height snapshot (mk_mem_snapshots self))\<rparr>)))))))"

definition merk_list_snapshots :: "('m, 'ss) merk_store \<Rightarrow> abci_snapshot list result" where
  "merk_list_snapshots self = abci_snapshots (mk_snapshots self)"

definition merk_load_snapshot_chunk :: "('m, 'i, 'ss) merk_lib \<Rightarrow> ('m, 'ss) merk_store \<Rightarrow> u64 \<Rightarrow> u32 \<Rightarrow> bytes result" where
  "merk_load_snapshot_chunk M self height chunk = abci_load_chunk M (mk_snapshots self) height chunk"

datatype offer_result = Accept | Reject

definition merk_offer_snapshot :: "('m, 'i, 'ss) merk_lib \<Rightarrow> abci_snapshot option \<Rightarrow> bytes \<Rightarrow> (('m, 'ss) merk_store, offer_result) op" where
  "merk_offer_snapshot M offered app_hash self = (case offered of
      Some snapshot \<Rightarrow>
        if canonical_height (as_height snapshot) \<and> calc_app_hash M (as_hash snapshot) = app_hash
        then (Ok Accept, self\<lparr>mk_target_snapshot := Some snapshot\<rparr>)
        else (Ok Reject, self)
    | None \<Rightarrow> (Ok Reject, self))"

section \<open>Proofs\<close>

text \<open>Read access to a snapshot of the tree, in memory or on disk.\<close>

definition tree_reader :: "('m, 'i, 'ss) merk_lib \<Rightarrow> 'm \<Rightarrow> reader" where
  "tree_reader M m = \<lparr>rd_get = ml_get M m, rd_get_next = raw_get_next M (ml_raw_iter M m), rd_get_prev = raw_get_prev M (ml_raw_iter M m)\<rparr>"

text \<open>\<^verbatim>\<open>ProofBuilder\<close> records what is read as a query; the query is the list of the items
  inserted into it, the last first.\<close>

datatype query_item = QueryKey bytes | QueryRange bytes bytes | QueryRangeInclusive bytes bytes

definition proof_get :: "reader \<Rightarrow> bytes \<Rightarrow> (query_item list, bytes option) op" where
  "proof_get store key = op_bind (op_upd (\<lambda>query. QueryKey key # query)) (\<lambda>_. op_lift (rd_get store key))"

definition proof_get_next :: "reader \<Rightarrow> bytes \<Rightarrow> (query_item list, kv option) op" where
  "proof_get_next store key = op_bind (op_lift (rd_get_next store key)) (\<lambda>maybe_entry.
     op_bind (op_upd (\<lambda>query. (case maybe_entry of
         Some (next_key, _) \<Rightarrow> QueryRangeInclusive key next_key
       | None \<Rightarrow> QueryRangeInclusive key key) # query)) (\<lambda>_. op_ok maybe_entry))"

definition proof_get_prev :: "reader \<Rightarrow> bytes option \<Rightarrow> (query_item list, kv option) op" where
  "proof_get_prev store key = op_bind (op_lift (rd_get_prev store key)) (\<lambda>maybe_entry.
     op_bind (op_upd (\<lambda>query. (case key of
         Some key \<Rightarrow> (case maybe_entry of Some (prev_key, _) \<Rightarrow> QueryRange prev_key key | None \<Rightarrow> QueryKey key)
       | None \<Rightarrow> (case maybe_entry of Some (prev_key, _) \<Rightarrow> QueryKey prev_key | None \<Rightarrow> QueryKey [])) # query)) (\<lambda>_. op_ok maybe_entry))"

fun in_query :: "bytes \<Rightarrow> query_item \<Rightarrow> bool" where
  "in_query k (QueryKey a) \<longleftrightarrow> k = a"
| "in_query k (QueryRange a b) \<longleftrightarrow> a \<le> k \<and> k < b"
| "in_query k (QueryRangeInclusive a b) \<longleftrightarrow> a \<le> k \<and> k \<le> b"

text \<open>\<^verbatim>\<open>ProofStore\<close> reads from a verified proof.  A read of the library's \<^verbatim>\<open>ProofMap\<close> may find that the
  data is missing.\<close>

datatype 'a proof_result = Found 'a | MissingData | OtherError

record proof_map =
  pf_get :: "bytes \<Rightarrow> bytes option proof_result"
  pf_first :: "bytes bound \<times> bytes bound \<Rightarrow> kv option proof_result"
  pf_last :: "bytes bound \<times> bytes bound \<Rightarrow> kv option proof_result"

fun proof_error :: "error \<Rightarrow> 'a proof_result \<Rightarrow> 'a result" where
  "proof_error e (Found x) = Ok x"
| "proof_error e MissingData = Err e"
| "proof_error e OtherError = Err Error_Merk"

definition proof_store_reader :: "proof_map \<Rightarrow> reader" where
  "proof_store_reader P = \<lparr>
     rd_get = (\<lambda>key. proof_error (Error_StoreErr (GetUnknown key)) (pf_get P key)),
     rd_get_next = (\<lambda>key. proof_error (Error_StoreErr (GetNextUnknown key)) (pf_first P (Excluded key, Unbounded))),
     rd_get_prev = (\<lambda>key. proof_error Error_Merk (pf_last P (Unbounded, case key of None \<Rightarrow> Unbounded | Some k \<Rightarrow> Excluded k)))\<rparr>"

section \<open>Pruning\<close>

lemma pop_until_drop: "pop_until n xs = drop (length xs - n) xs"
  by (induction xs) (auto simp: Suc_diff_le drop_Cons')

lemma last_bt_insert: "bt_wf xs \<Longrightarrow> \<forall>k\<in>fst ` set xs. k \<le> h \<Longrightarrow> last (bt_insert h v xs) = (h, v)"
proof (induction xs)
  case (Cons e m)
  have ne: "bt_insert h v m \<noteq> []" by (cases m) auto
  show ?case
  proof (cases "h = fst e")
    case True
    then have "m = []" using Cons.prems by (cases m) auto
    then show ?thesis using True by simp
  next
    case False
    then have "\<not> h < fst e" using Cons.prems by auto
    with False ne Cons show ?thesis by auto
  qed
qed simp

text \<open>The newest height stays when the oldest are dropped.\<close>

lemma pop_until_newest:
  assumes "bt_wf xs" and "0 < n" and "\<forall>k\<in>fst ` set xs. k \<le> h"
  shows "length (pop_until n (bt_insert h v xs)) \<le> n \<and> map_of (pop_until n (bt_insert h v xs)) h = Some v"
proof -
  let ?ys = "bt_insert h v xs"
  have wf: "bt_wf ?ys" using assms(1) by (rule bt_wf_insert)
  have ne: "?ys \<noteq> []" by (cases xs) auto
  have "last ?ys = (h, v)" by (rule last_bt_insert [OF assms(1,3)])
  moreover have "drop (length ?ys - n) ?ys \<noteq> []" using assms(2) ne by (simp add: not_le diff_less)
  then have "last (drop (length ?ys - n) ?ys) = last ?ys" by (simp add: last_drop)
  ultimately have "(h, v) \<in> set (drop (length ?ys - n) ?ys)"
    using \<open>drop (length ?ys - n) ?ys \<noteq> []\<close> last_in_set by metis
  moreover have "distinct (map fst (drop (length ?ys - n) ?ys))"
    using bt_wf_distinct [OF wf] by (simp add: drop_map [symmetric] distinct_drop)
  ultimately show ?thesis by (simp add: pop_until_drop map_of_is_SomeI)
qed

lemma fold_bt_remove: "fold bt_remove hs m = filter (\<lambda>e. fst e \<notin> set hs) m"
  by (induction hs arbitrary: m) (auto simp: bt_remove_def intro!: filter_cong)

lemma remove_heights_keeps:
  "remove_heights self cur m = Ok hs \<Longrightarrow> (h, ss) \<in> set m \<Longrightarrow> bt_wf m \<Longrightarrow> h \<notin> set hs \<longleftrightarrow> should_keep self h cur = Ok True"
proof (induction m arbitrary: hs)
  case (Cons e m)
  obtain h0 s0 where e: "e = (h0, s0)" by force
  obtain keep hs' where k: "should_keep self h0 cur = Ok keep" "remove_heights self cur m = Ok hs'" "hs = (if keep then hs' else h0 # hs')"
    using Cons.prems(1) e by (auto simp: result_simps)
  have sub: "set hs' \<subseteq> fst ` set m"
    using k(2)
  proof (induction m arbitrary: hs')
    case (Cons a m)
    then show ?case by (cases a) (force simp: result_simps split: if_splits)
  qed simp
  show ?case
  proof (cases "h = h0")
    case True
    then have "h \<notin> fst ` set m" using Cons.prems(3) e by auto
    then show ?thesis using k sub True by (cases keep) auto
  next
    case False
    then have "(h, ss) \<in> set m" using Cons.prems(2) e by auto
    then show ?thesis using Cons.IH [OF k(2)] Cons.prems(3) k(3) False by (auto split: if_splits)
  qed
qed simp

lemma prune_keeps:
  assumes "maybe_prune cur self = (Ok (), self')" and "bt_wf (sn_snapshots self)"
  shows "sn_snapshots self' = filter (\<lambda>e. should_keep self (fst e) cur = Ok True) (sn_snapshots self)" and "sn_filters self' = sn_filters self"
proof -
  obtain hs where hs: "remove_heights self cur (sn_snapshots self) = Ok hs" "self' = self\<lparr>sn_snapshots := fold bt_remove hs (sn_snapshots self)\<rparr>"
    using assms(1) by (auto simp: maybe_prune_def result_simps)
  then show "sn_filters self' = sn_filters self" by simp
  show "sn_snapshots self' = filter (\<lambda>e. should_keep self (fst e) cur = Ok True) (sn_snapshots self)"
  proof (simp add: hs(2) fold_bt_remove, rule filter_cong [OF refl])
    fix e assume "e \<in> set (sn_snapshots self)"
    then show "(fst e \<notin> set hs) = (should_keep self (fst e) cur = Ok True)"
      using remove_heights_keeps [OF hs(1) _ assms(2), of "fst e" "snd e"] by simp
  qed
qed

text \<open>How many snapshots a filter keeps.\<close>

fun filter_capacity :: "snapshot_filter \<Rightarrow> nat" where
  "filter_capacity (Interval interval limit) = unat limit"
| "filter_capacity (SpecificHeight height keep_until) = 1"

lemma any_filter_True: "any_filter P fs = Ok True \<Longrightarrow> \<exists>f\<in>set fs. P f = Ok True"
  by (induction fs) (auto simp: result_simps split: if_splits)

lemma covered_length:
  assumes "\<And>f hs. f \<in> set fs \<Longrightarrow> distinct hs \<Longrightarrow> \<forall>h\<in>set hs. K f h \<Longrightarrow> length hs \<le> cap f"
    and "distinct hs" and "\<forall>h\<in>set hs. \<exists>f\<in>set fs. K f h"
  shows "length hs \<le> sum_list (map cap fs)"
  using assms
proof (induction fs arbitrary: hs)
  case (Cons f fs)
  have "length (filter (K f) hs) \<le> cap f" using Cons.prems by simp
  moreover have "length (filter (\<lambda>h. \<not> K f h) hs) \<le> sum_list (map cap fs)"
    using Cons.prems by (intro Cons.IH) auto
  ultimately show ?case using sum_length_filter_compl [of "K f" hs] by simp
qed simp

lemma filter_keeps_few:
  assumes "distinct hs" and "\<forall>h\<in>set hs. h \<le> cur \<and> filter_should_keep f h cur = Ok True"
  shows "length hs \<le> filter_capacity f"
proof (cases f)
  case (Interval i l)
  have k: "unat i \<noteq> 0" "unat h mod unat i = 0" "unat h \<le> unat cur" "unat cur - unat h < unat i * unat l" if "h \<in> set hs" for h
  proof -
    have keep: "i \<noteq> 0" "h mod i = 0" "cur - h < i * l" "unat i * unat l < 2 ^ 64" and le: "h \<le> cur"
      using assms(2) that Interval
      by (auto simp: word_rem_def word_mul_def word_sub_eq_Ok result_simps checked_mul_def split: if_splits option.splits)
    show "unat i \<noteq> 0" using keep(1) by (simp add: unat_eq_0)
    show "unat h mod unat i = 0" using arg_cong [OF keep(2), of unat] by (simp add: unat_mod_distrib)
    show "unat h \<le> unat cur" using le by (simp add: word_le_nat_alt)
    show "unat cur - unat h < unat i * unat l"
      using keep(3,4) le by (simp add: word_less_nat_alt unat_sub unat_mult_lem [THEN iffD1])
  qed
  let ?q = "\<lambda>h. unat cur div unat i - unat h div unat i"
  have "?q h < unat l" if h: "h \<in> set hs" for h
  proof -
    obtain q where q: "unat h = unat i * q" using k(2) [OF h] by (metis mod_0_imp_dvd dvdE)
    have "unat i * (unat cur div unat i - q) = unat i * (unat cur div unat i) - unat i * q" by (simp add: right_diff_distrib')
    also have "\<dots> \<le> unat cur - unat i * q" by (rule diff_le_mono) simp
    also have "\<dots> < unat i * unat l" using k(4) [OF h] q by simp
    finally show ?thesis using k(1) [OF h] q by simp
  qed
  moreover have "inj_on ?q (set hs)"
  proof (rule inj_onI)
    fix h h' assume h: "h \<in> set hs" "h' \<in> set hs" and eq: "?q h = ?q h'"
    have "unat h div unat i \<le> unat cur div unat i" "unat h' div unat i \<le> unat cur div unat i"
      using k(3) h by (simp_all add: div_le_mono)
    with eq have "unat h div unat i = unat h' div unat i" by simp
    then have "unat h = unat h'" using k(2) [OF h(1)] k(2) [OF h(2)] by (metis div_mult_mod_eq)
    then show "h = h'" by (rule unsigned_word_eqI)
  qed
  ultimately have "card (set hs) \<le> card {..<unat l}" by (intro card_inj_on_le [of ?q]) auto
  then show ?thesis using assms(1) Interval by (simp add: distinct_card)
next
  case (SpecificHeight height keep_until)
  then have "set hs \<subseteq> {height}" using assms(2) by auto
  then have "card (set hs) \<le> 1" using card_mono [of "{height}"] by fastforce
  then show ?thesis using assms(1) SpecificHeight by (simp add: distinct_card)
qed

text \<open>The snapshots on disk that the filters ask for, without the panics: no interval is zero, and no
  product of an interval and a limit overflows.\<close>

definition filters_ok :: "snapshot_filter list \<Rightarrow> bool" where
  "filters_ok fs \<longleftrightarrow> (\<forall>i l. Interval i l \<in> set fs \<longrightarrow> i \<noteq> 0 \<and> unat i * unat l < 2 ^ 64)"

definition snapshot_wanted :: "snapshot_filter list \<Rightarrow> u64 \<Rightarrow> bool" where
  "snapshot_wanted fs height \<longleftrightarrow> height \<noteq> 0
    \<and> (\<exists>f\<in>set fs. case f of Interval i l \<Rightarrow> unat height mod unat i = 0 | SpecificHeight h _ \<Rightarrow> height = h)"

definition snapshot_kept :: "snapshot_filter list \<Rightarrow> u64 \<Rightarrow> u64 \<Rightarrow> bool" where
  "snapshot_kept fs height cur \<longleftrightarrow> (\<exists>f\<in>set fs. case f of
      Interval i l \<Rightarrow> unat height mod unat i = 0 \<and> unat cur - unat height < unat i * unat l
    | SpecificHeight h until \<Rightarrow> height = h \<and> (case until of None \<Rightarrow> True | Some n \<Rightarrow> cur < n))"

lemma any_filter_total:
  assumes "\<And>f. f \<in> set fs \<Longrightarrow> P f = Ok (Q f)"
  shows "any_filter P fs = Ok (\<exists>f\<in>set fs. Q f)"
  using assms by (induction fs) auto

lemma mod_word_zero: "(h :: u64) mod i = 0 \<longleftrightarrow> unat h mod unat i = 0"
  by (simp flip: unat_mod_distrib add: unat_eq_0)

lemma should_create_total:
  assumes "filters_ok (sn_filters self)"
  shows "should_create self height = Ok (snapshot_wanted (sn_filters self) height)"
proof -
  have "filter_should_create f height = Ok (case f of Interval i l \<Rightarrow> unat height mod unat i = 0 | SpecificHeight h _ \<Rightarrow> height = h)"
    if f: "f \<in> set (sn_filters self)" for f
  proof (cases f)
    case (Interval i l)
    then have "i \<noteq> 0" using f assms by (auto simp: filters_ok_def)
    then show ?thesis using Interval by (simp add: word_rem_def mod_word_zero)
  qed simp
  then show ?thesis by (simp add: should_create_def snapshot_wanted_def any_filter_total word_gt_0)
qed

lemma should_keep_total:
  assumes "filters_ok (sn_filters self)" and "height \<le> cur"
  shows "should_keep self height cur = Ok (snapshot_kept (sn_filters self) height cur)"
proof -
  have "filter_should_keep f height cur = Ok (case f of
      Interval i l \<Rightarrow> unat height mod unat i = 0 \<and> unat cur - unat height < unat i * unat l
    | SpecificHeight h until \<Rightarrow> height = h \<and> (case until of None \<Rightarrow> True | Some n \<Rightarrow> cur < n))"
    if f: "f \<in> set (sn_filters self)" for f
  proof (cases f)
    case (Interval i l)
    then have ok: "i \<noteq> 0" "unat i * unat l < 2 ^ 64" using f assms(1) by (auto simp: filters_ok_def)
    then have "checked_mul i l = Some (i * l)" "unat (i * l) = unat i * unat l"
      by (simp_all add: checked_mul_def unat_mult_lem [THEN iffD1])
    moreover have "word_sub cur height = Ok (cur - height)" "unat (cur - height) = unat cur - unat height"
      using assms(2) by (simp_all add: word_sub_eq_Ok unat_sub)
    ultimately show ?thesis using Interval ok(1) by (simp add: word_rem_def word_mul_def mod_word_zero word_less_nat_alt)
  qed simp
  then show ?thesis by (simp add: should_keep_def snapshot_kept_def any_filter_total)
qed

lemma remove_heights_total:
  "filters_ok (sn_filters self) \<Longrightarrow> \<forall>e\<in>set m. fst e \<le> cur \<Longrightarrow> \<exists>hs. remove_heights self cur m = Ok hs"
  by (induction m) (auto simp: should_keep_total)

text \<open>A snapshot that is not there is added; those that no filter keeps are dropped.\<close>

lemma snapshots_create_law:
  assumes "filters_ok (sn_filters self)" and "bt_wf (sn_snapshots self)" and "\<forall>k\<in>fst ` set (sn_snapshots self). k \<le> height"
    and "snapshot_new M checkpoint = Ok ss"
  shows "snapshots_create M height checkpoint self = (Ok (), if map_of (sn_snapshots self) height \<noteq> None then self
    else self\<lparr>sn_snapshots := filter (\<lambda>e. snapshot_kept (sn_filters self) (fst e) height) (bt_insert height ss (sn_snapshots self))\<rparr>)"
proof (cases "map_of (sn_snapshots self) height")
  case None
  let ?m = "bt_insert height ss (sn_snapshots self)" and ?self = "self\<lparr>sn_snapshots := bt_insert height ss (sn_snapshots self)\<rparr>"
  have wf: "bt_wf (sn_snapshots ?self)" using bt_wf_insert [OF assms(2)] by simp
  have le: "\<forall>e\<in>set ?m. fst e \<le> height"
  proof
    fix e assume "e \<in> set ?m"
    then have "fst e \<in> insert height (fst ` set (sn_snapshots self))" using set_fst_bt_insert imageI by metis
    then show "fst e \<le> height" using assms(3) by auto
  qed
  obtain hs where hs: "remove_heights ?self height ?m = Ok hs" using remove_heights_total [of ?self ?m height] assms(1) le by auto
  then have run: "maybe_prune height ?self = (Ok (), ?self\<lparr>sn_snapshots := fold bt_remove hs ?m\<rparr>)"
    by (simp add: maybe_prune_def op_bind_def)
  have "fold bt_remove hs ?m = filter (\<lambda>e. should_keep ?self (fst e) height = Ok True) ?m"
    using prune_keeps(1) [OF run wf] by simp
  also have "\<dots> = filter (\<lambda>e. snapshot_kept (sn_filters self) (fst e) height) ?m"
    using le assms(1) by (intro filter_cong) (auto simp: should_keep_total)
  finally show ?thesis using None run assms(4) by (simp add: snapshots_create_def op_bind_def)
qed (simp add: snapshots_create_def)

text \<open>The snapshots on disk after a commit; only recent blocks of nodes with the feature have one
  made.\<close>

definition disk_snapshots_after :: "('m, 'i, 'ss) merk_lib \<Rightarrow> ('m \<Rightarrow> kv list) \<Rightarrow> bool \<Rightarrow> u64 \<Rightarrow> 'm \<Rightarrow> 'm snapshots \<Rightarrow> 'm snapshots \<Rightarrow> bool" where
  "disk_snapshots_after M ents recent height m old new \<longleftrightarrow>
    (if recent \<and> snapshot_wanted (sn_filters old) height \<and> map_of (sn_snapshots old) height = None
     then sn_filters new = sn_filters old
       \<and> (\<exists>ss. ents (ss_checkpoint ss) = ents m \<and> ss_hash ss = ml_root_hash M (ss_checkpoint ss)
          \<and> (\<exists>n. ml_chunk_count M (ss_checkpoint ss) = Ok n \<and> ss_length ss = of_nat n)
          \<and> sn_snapshots new = filter (\<lambda>e. snapshot_kept (sn_filters old) (fst e) height) (bt_insert height ss (sn_snapshots old)))
     else new = old)"

section \<open>What the library guarantees\<close>

text \<open>\<open>ents\<close> are the entries of a tree and \<open>auxs\<close> its auxiliary entries; \<open>it_of\<close> says that an iterator
  is over some entries, \<open>cur\<close> is the entry it stands at.\<close>

locale merk_laws =
  fixes M :: "('m, 'i, 'ss) merk_lib" and ents :: "'m \<Rightarrow> kv list" and auxs :: "'m \<Rightarrow> bytes \<Rightarrow> bytes option"
    and it_of :: "'i \<Rightarrow> kv list \<Rightarrow> bool" and cur :: "'i \<Rightarrow> kv option"
  assumes tree_wf: "bt_wf (ents m)"
    and tree_get: "ml_get M m k = Ok (map_of (ents m) k)"
    and tree_aux: "ml_get_aux M m k = Ok (auxs m k)"
    and tree_apply: "bt_wf mp \<Longrightarrow> \<exists>m'. ml_apply M (to_batch mp) (to_batch aux) m = (Ok (), m') \<and> ents m' = overlay mp (ents m)
      \<and> (\<forall>k. auxs m' k = (case map_of (rev aux) k of Some v \<Rightarrow> v | None \<Rightarrow> auxs m k))"
    and tree_flush: "\<exists>m'. ml_flush M m = (Ok (), m') \<and> ents m' = ents m \<and> auxs m' = auxs m"
    and tree_snapshot: "\<exists>ss. ml_snapshot M m = Ok ss"
    and tree_checkpoint: "\<exists>m'. ml_checkpoint M m = Ok m' \<and> ents m' = ents m"
    and tree_chunks: "\<exists>n. ml_chunk_count M m = Ok n"
    and raw_iter: "it_of (ml_raw_iter M m) (ents m)"
    and iter_seek: "it_of it es \<Longrightarrow> it_of (ml_seek M k it) es \<and> cur (ml_seek M k it) = hd_opt (filter (\<lambda>e. k \<le> fst e) es)"
    and iter_last: "it_of it es \<Longrightarrow> it_of (ml_seek_to_last M it) es \<and> cur (ml_seek_to_last M it) = last_opt es"
    and iter_next: "it_of it es \<Longrightarrow> cur it = Some e \<Longrightarrow> it_of (ml_next M it) es \<and> cur (ml_next M it) = next_entry es (fst e)"
    and iter_prev: "it_of it es \<Longrightarrow> cur it = Some e \<Longrightarrow> it_of (ml_prev M it) es \<and> cur (ml_prev M it) = prev_entry es (Some (fst e))"
    and iter_valid: "it_of it es \<Longrightarrow> ml_valid M it \<longleftrightarrow> cur it \<noteq> None"
    and iter_status: "it_of it es \<Longrightarrow> ml_status M it = Ok ()"
    and iter_key: "it_of it es \<Longrightarrow> cur it = Some (k, v) \<Longrightarrow> ml_key M it = Some k
      \<and> (\<exists>tb. ml_value M it = Some tb \<and> ml_tree_value M tb = v)"
begin

lemma iter_entry_law: "it_of it es \<Longrightarrow> cur it = Some e \<Longrightarrow> iter_entry M it = Ok (Some e)"
  using iter_key [of it es "fst e" "snd e"] by (auto simp: iter_entry_def)

text \<open>The rest of an iteration step: the entry the iterator stands at, if any.\<close>

lemma iter_here:
  assumes "it_of it es"
  shows "(if \<not> ml_valid M it then and_then (ml_status M it) (\<lambda>_. Ok None) else iter_entry M it) = Ok (cur it)"
  using iter_valid [OF assms] iter_status [OF assms] iter_entry_law [OF assms] by (cases "cur it") auto

lemma raw_get_next_law:
  assumes "it_of it es" and "bt_wf es"
  shows "raw_get_next M it k = Ok (next_entry es k)"
proof -
  let ?it = "ml_seek M k it" and ?above = "filter (\<lambda>e. k \<le> fst e) es"
  have i: "it_of ?it es" "cur ?it = hd_opt ?above" using iter_seek [OF assms(1)] by auto
  show ?thesis
  proof (cases ?above)
    case Nil
    then have "next_entry es k = None" by (auto simp: next_entry_def filter_empty_conv intro: less_imp_le)
    then show ?thesis using Nil i iter_valid [OF i(1)] iter_status [OF i(1)] by (simp add: raw_get_next_def)
  next
    case (Cons e rest)
    have key: "ml_key M ?it = Some (fst e)" using iter_key [OF i(1), of "fst e" "snd e"] i(2) Cons by simp
    have val: "ml_valid M ?it" using iter_valid [OF i(1)] i(2) Cons by simp
    have "e \<in> set ?above" using Cons by simp
    then have e: "k \<le> fst e" by simp
    show ?thesis
    proof (cases "fst e = k")
      case True
      have n: "it_of (ml_next M ?it) es" "cur (ml_next M ?it) = next_entry es k" using iter_next [OF i(1), of e] i(2) Cons True by auto
      then show ?thesis using key val True iter_here [OF n(1)] by (simp add: raw_get_next_def Let_def)
    next
      case False
      have "k \<noteq> fst x" if "x \<in> set es" for x
      proof
        assume x: "k = fst x"
        then have "x \<in> set (e # rest)" using that Cons [symmetric] by auto
        moreover have "bt_wf (e # rest)" using assms(2) Cons by (metis bt_wf_filter)
        ultimately show False using e False x by auto
      qed
      then have "next_entry es k = hd_opt ?above" by (auto simp: next_entry_def less_le intro!: arg_cong [where f = hd_opt] filter_cong)
      then show ?thesis using key val False iter_entry_law [OF i(1)] i(2) Cons by (simp add: raw_get_next_def Let_def)
    qed
  qed
qed

text \<open>\<open>raw_get_prev\<close> with a key stays at the first entry at or after the key, unless it is the key's.\<close>

lemma raw_get_prev_law:
  assumes "it_of it es"
  shows "raw_get_prev M it None = Ok (last_opt es)"
    and "raw_get_prev M it (Some k) = Ok (case hd_opt (filter (\<lambda>e. k \<le> fst e) es) of
        None \<Rightarrow> None
      | Some e \<Rightarrow> if fst e = k then prev_entry es (Some k) else Some e)"
proof -
  have l: "it_of (ml_seek_to_last M it) es" "cur (ml_seek_to_last M it) = last_opt es" using iter_last [OF assms] by auto
  then show "raw_get_prev M it None = Ok (last_opt es)" using iter_here [OF l(1)] by (simp add: raw_get_prev_def Let_def)
  let ?it = "ml_seek M k it"
  have i: "it_of ?it es" "cur ?it = hd_opt (filter (\<lambda>e. k \<le> fst e) es)" using iter_seek [OF assms] by auto
  show "raw_get_prev M it (Some k) = Ok (case hd_opt (filter (\<lambda>e. k \<le> fst e) es) of
        None \<Rightarrow> None
      | Some e \<Rightarrow> if fst e = k then prev_entry es (Some k) else Some e)"
  proof (cases "cur ?it")
    case None
    then show ?thesis using i iter_valid [OF i(1)] iter_status [OF i(1)] by (simp add: raw_get_prev_def Let_def)
  next
    case (Some e)
    have key: "ml_key M ?it = Some (fst e)" using iter_key [OF i(1), of "fst e" "snd e"] Some by simp
    have val: "ml_valid M ?it" using iter_valid [OF i(1)] Some by simp
    have p: "it_of (ml_prev M ?it) es" "cur (ml_prev M ?it) = prev_entry es (Some (fst e))" using iter_prev [OF i(1) Some] by auto
    show ?thesis
      using key val Some i(2) [symmetric] iter_entry_law [OF i(1) Some] iter_here [OF p(1)] p(2) by (simp add: raw_get_prev_def Let_def)
  qed
qed

lemma merk_get_law: "bt_wf (mk_map s) \<Longrightarrow> merk_get M s k = Ok (map_of (overlay (mk_map s) (ents (mk_merk s))) k)"
  using overlay_map_of [OF _ tree_wf] tree_get by (auto simp: merk_get_def split: option.splits)

lemma merk_get_next_law: "merk_get_next M s k = Ok (next_entry (ents (mk_merk s)) k)"
  unfolding merk_get_next_def by (rule raw_get_next_law [OF raw_iter tree_wf])

text \<open>Without pending writes the store reads lawfully in the forward direction.\<close>

lemma merk_forward: "mk_map s = [] \<Longrightarrow> forward_reader (bk_read (merk_backing M) s) (ents (mk_merk s))"
  using merk_get_law [of s] by unfold_locales (simp_all add: tree_wf merk_backing_def merk_get_next_law overlay_map_of tree_wf)

lemma merk_write_law:
  assumes "bt_wf (mk_map s)"
  shows "\<exists>m'. merk_write M aux s = (Ok (), s\<lparr>mk_map := [], mk_merk := m'\<rparr>) \<and> ents m' = overlay (mk_map s) (ents (mk_merk s))
    \<and> (\<forall>k. auxs m' k = (case map_of (rev aux) k of Some v \<Rightarrow> v | None \<Rightarrow> auxs (mk_merk s) k))"
  using tree_apply [OF assms, of aux "mk_merk s"] by (auto simp: merk_write_def on_merk_def)

lemma disk_step_law:
  fixes s :: "('m, 'ss) merk_store"
  defines "snaps \<equiv> mk_snapshots s"
  assumes "recent \<Longrightarrow> filters_ok (sn_filters snaps) \<and> bt_wf (sn_snapshots snaps) \<and> (\<forall>k\<in>fst ` set (sn_snapshots snaps). k \<le> height)"
  shows "\<exists>snaps'. (if recent
      then op_bind (op_read (\<lambda>self. should_create (mk_snapshots self) height)) (\<lambda>create.
        if create
        then op_bind (op_read (\<lambda>self. ml_checkpoint M (mk_merk self))) (\<lambda>checkpoint self.
          case snapshots_create M height checkpoint (mk_snapshots self) of (r, ss) \<Rightarrow> (r, self\<lparr>mk_snapshots := ss\<rparr>))
        else op_ok ())
      else op_ok ()) s = (Ok (), s\<lparr>mk_snapshots := snaps'\<rparr>)
    \<and> disk_snapshots_after M ents recent height (mk_merk s) snaps snaps'"
proof (cases "recent \<and> snapshot_wanted (sn_filters snaps) height")
  case True
  then have ok: "filters_ok (sn_filters snaps)" "bt_wf (sn_snapshots snaps)" "\<forall>k\<in>fst ` set (sn_snapshots snaps). k \<le> height"
    using assms(2) by blast+
  obtain cp where cp: "ml_checkpoint M (mk_merk s) = Ok cp" "ents cp = ents (mk_merk s)" using tree_checkpoint by blast
  obtain n where n: "ml_chunk_count M cp = Ok n" using tree_chunks by blast
  let ?ss = "\<lparr>ss_checkpoint = cp, ss_length = of_nat n, ss_hash = ml_root_hash M cp\<rparr>"
  have "snapshot_new M cp = Ok ?ss" using n by (simp add: snapshot_new_def)
  note c = snapshots_create_law [OF ok this]
  show ?thesis
    using True c cp n should_create_total [OF ok(1)]
    by (cases "map_of (sn_snapshots snaps) height") (auto simp: snaps_def op_bind_def disk_snapshots_after_def intro!: exI [of _ ?ss])
next
  case False
  then show ?thesis
    using assms(2) by (cases recent) (auto simp: snaps_def op_bind_def should_create_total disk_snapshots_after_def intro!: exI [of _ "mk_snapshots s"])
qed

lemma commit_law:
  assumes "bt_wf (mk_map s)" and "hd_time h = Some t"
    and disk: "state_sync \<and> now - t < 10 \<Longrightarrow> filters_ok (sn_filters (mk_snapshots s)) \<and> bt_wf (sn_snapshots (mk_snapshots s))
      \<and> (\<forall>k\<in>fst ` set (sn_snapshots (mk_snapshots s)). k \<le> height_u64 (hd_height h))"
  shows "\<exists>s'. merk_commit M state_sync now h s = (Ok (), s') \<and> mk_map s' = []
    \<and> ents (mk_merk s') = overlay (mk_map s) (ents (mk_merk s)) \<and> merk_height M s' = Ok (height_u64 (hd_height h))
    \<and> disk_snapshots_after M ents (state_sync \<and> now - t < 10) (height_u64 (hd_height h)) (mk_merk s') (mk_snapshots s) (mk_snapshots s')
    \<and> mk_target_snapshot s' = mk_target_snapshot s
    \<and> (\<exists>ss. mk_mem_snapshots s' = pop_until 20 (bt_insert (height_u64 (hd_height h)) ss (mk_mem_snapshots s)))"
proof -
  let ?h = "height_u64 (hd_height h)" and ?recent = "state_sync \<and> now - t < 10"
  let ?aux = "[(height_key, Some (be_bytes 8 (unat ?h)))]"
  obtain m1 where m1: "merk_write M ?aux s = (Ok (), s\<lparr>mk_map := [], mk_merk := m1\<rparr>)"
      "ents m1 = overlay (mk_map s) (ents (mk_merk s))" "auxs m1 height_key = Some (be_bytes 8 (unat ?h))"
    using merk_write_law [OF assms(1), of ?aux] by fastforce
  obtain m2 where m2: "ml_flush M m1 = (Ok (), m2)" "ents m2 = ents m1" "auxs m2 = auxs m1" using tree_flush by blast
  obtain ss where ss: "ml_snapshot M m2 = Ok ss" using tree_snapshot by blast
  let ?s2 = "s\<lparr>mk_map := [], mk_merk := m2\<rparr>"
  obtain snaps' where step: "(if ?recent
      then op_bind (op_read (\<lambda>self. should_create (mk_snapshots self) ?h)) (\<lambda>create.
        if create
        then op_bind (op_read (\<lambda>self. ml_checkpoint M (mk_merk self))) (\<lambda>checkpoint self.
          case snapshots_create M ?h checkpoint (mk_snapshots self) of (r, ss) \<Rightarrow> (r, self\<lparr>mk_snapshots := ss\<rparr>))
        else op_ok ())
      else op_ok ()) ?s2 = (Ok (), ?s2\<lparr>mk_snapshots := snaps'\<rparr>)"
      and after: "disk_snapshots_after M ents ?recent ?h m2 (mk_snapshots s) snaps'"
    using disk_step_law [of ?recent ?s2 ?h] disk by auto
  let ?s = "s\<lparr>mk_map := [], mk_merk := m2, mk_snapshots := snaps', mk_mem_snapshots := pop_until 20 (bt_insert ?h ss (mk_mem_snapshots s))\<rparr>"
  have "merk_commit M state_sync now h s = (Ok (), ?s)"
    unfolding merk_commit_def Let_def using m1(1) m2(1) ss assms(2) step
    by (simp only: op_bind_def on_merk_def) simp
  moreover have "unat ?h < 256 ^ 8" using unsigned_less [of ?h, where 'a = nat] by simp
  then have "merk_height M ?s = Ok ?h"
    using m1(3) m2(3) by (simp add: merk_height_def tree_aux read_u64_def of_be_bytes_be_bytes)
  ultimately show ?thesis using m1(2) m2(2) after by (intro exI [of _ ?s]) auto
qed

end

section \<open>A library on lists\<close>

text \<open>Trees as lists of entries with a map of auxiliary entries, iterators as the list and the entry
  they stand at.\<close>

type_synonym list_tree = "kv list \<times> (bytes \<Rightarrow> bytes option)"

definition list_ents :: "list_tree \<Rightarrow> kv list" where
  "list_ents m = (if bt_wf (fst m) then fst m else [])"

definition of_batch :: "(bytes \<times> merk_op) list \<Rightarrow> (bytes \<times> bytes option) list" where
  "of_batch b = map (\<lambda>(k, x). (k, case x of Put v \<Rightarrow> Some v | Delete \<Rightarrow> None)) b"

definition list_merk :: "(list_tree, kv list \<times> kv option, unit) merk_lib" where
  "list_merk = \<lparr>
     ml_get = (\<lambda>m k. Ok (map_of (list_ents m) k)),
     ml_get_aux = (\<lambda>m k. Ok (snd m k)),
     ml_apply = (\<lambda>b aux m. (Ok (), (overlay (of_batch b) (list_ents m),
        \<lambda>k. case map_of (rev (of_batch aux)) k of Some v \<Rightarrow> v | None \<Rightarrow> snd m k))),
     ml_flush = op_ok (),
     ml_root_hash = (\<lambda>_. []), ml_checkpoint = Ok, ml_chunk_count = (\<lambda>_. Ok 1), ml_chunk = (\<lambda>_ _. Ok []),
     ml_snapshot = (\<lambda>_. Ok ()), ml_sha512_256 = id,
     ml_raw_iter = (\<lambda>m. (list_ents m, None)),
     ml_seek = (\<lambda>k (es, _). (es, hd_opt (filter (\<lambda>e. k \<le> fst e) es))),
     ml_seek_to_last = (\<lambda>(es, _). (es, last_opt es)),
     ml_next = (\<lambda>(es, c). (es, case c of None \<Rightarrow> None | Some e \<Rightarrow> next_entry es (fst e))),
     ml_prev = (\<lambda>(es, c). (es, case c of None \<Rightarrow> None | Some e \<Rightarrow> prev_entry es (Some (fst e)))),
     ml_valid = (\<lambda>(_, c). c \<noteq> None), ml_status = (\<lambda>_. Ok ()),
     ml_key = (\<lambda>(_, c). map_option fst c), ml_value = (\<lambda>(_, c). map_option snd c), ml_tree_value = id\<rparr>"

lemma of_to_batch [simp]: "of_batch (to_batch m) = m"
  by (induction m) (auto simp: of_batch_def to_batch_def split: option.splits)

interpretation list_merk: merk_laws list_merk list_ents snd "\<lambda>it es. fst it = es" snd
proof
  fix m :: list_tree and mp :: bufmap and aux
  assume "bt_wf mp"
  moreover have "bt_wf (list_ents m)" by (simp add: list_ents_def)
  ultimately have "bt_wf (overlay mp (list_ents m))" by (rule overlay_wf)
  then show "\<exists>m'. ml_apply list_merk (to_batch mp) (to_batch aux) m = (Ok (), m') \<and> list_ents m' = overlay mp (list_ents m)
      \<and> (\<forall>k. snd m' k = (case map_of (rev aux) k of Some v \<Rightarrow> v | None \<Rightarrow> snd m k))"
    by (simp add: list_merk_def list_ents_def)
qed (auto simp: list_merk_def list_ents_def split: prod.splits)

section \<open>Properties\<close>

text \<open>
  (C25) What the reads of a \<^verbatim>\<open>MerkStore\<close> return, with \<open>es\<close> the committed entries: \<open>get\<close> sees pending
  writes over the committed entries, \<open>get_next\<close> and \<open>get_prev\<close> do not.  \<open>get_prev\<close> of a key
  that is not in the tree returns the first entry after the key instead of the last before it,
  and nothing if there is none after it.
\<close>

theorem merk_store_reads:
  assumes "merk_laws M ents auxs it_of cur" and "bt_wf (mk_map s)"
  shows "let es = ents (mk_merk s)
    in merk_get M s k = Ok (map_of (overlay (mk_map s) es) k)
      \<and> merk_get_next M s k = Ok (next_entry es k)
      \<and> merk_get_prev M s None = Ok (prev_entry es None)
      \<and> (map_of es k \<noteq> None \<longrightarrow> merk_get_prev M s (Some k) = Ok (prev_entry es (Some k)))
      \<and> (map_of es k = None \<longrightarrow> merk_get_prev M s (Some k) = Ok (next_entry es k))"
proof -
  note laws = assms(1)
  let ?es = "ents (mk_merk s)"
  have wf: "bt_wf ?es" by (rule merk_laws.tree_wf [OF laws])
  have it: "it_of (ml_raw_iter M (mk_merk s)) ?es" by (rule merk_laws.raw_iter [OF laws])
  have above: "filter (\<lambda>e. k \<le> fst e) ?es = filter (\<lambda>e. k < fst e) ?es" if "map_of ?es k = None"
    using that by (intro filter_cong) (auto simp: map_of_eq_None_iff image_iff less_le)
  have hd: "\<exists>v. hd_opt (filter (\<lambda>e. k \<le> fst e) ?es) = Some (k, v)" if "map_of ?es k = Some v" for v
  proof -
    have v: "(k, v) \<in> set ?es" using that by (rule map_of_SomeD)
    then obtain e rest where e: "filter (\<lambda>e. k \<le> fst e) ?es = e # rest" by (cases "filter (\<lambda>e. k \<le> fst e) ?es") (auto simp: filter_empty_conv)
    have "bt_wf (e # rest)" using wf e by (metis bt_wf_filter)
    moreover have "(k, v) \<in> set (e # rest)" using v e [symmetric] by simp
    moreover have "e \<in> set (filter (\<lambda>e. k \<le> fst e) ?es)" unfolding e by simp
    ultimately have "fst e = k" by fastforce
    then show ?thesis using e by (cases e) auto
  qed
  have "merk_get_prev M s (Some k) = Ok (next_entry ?es k)" if n: "map_of ?es k = None"
  proof (cases "next_entry ?es k")
    case None
    then show ?thesis using merk_laws.raw_get_prev_law(2) [OF laws it, of k] above [OF n] by (simp add: merk_get_prev_def next_entry_def)
  next
    case (Some e)
    then have "fst e \<noteq> k" by (auto simp: next_entry_def dest: hd_opt_in)
    then show ?thesis using merk_laws.raw_get_prev_law(2) [OF laws it, of k] above [OF n] Some by (simp add: merk_get_prev_def next_entry_def)
  qed
  moreover have "merk_get_prev M s (Some k) = Ok (prev_entry ?es (Some k))" if "map_of ?es k \<noteq> None"
    using that hd merk_laws.raw_get_prev_law(2) [OF laws it, of k] by (auto simp: merk_get_prev_def)
  moreover have "merk_get_prev M s None = Ok (prev_entry ?es None)"
    using merk_laws.raw_get_prev_law(1) [OF laws it] by (simp add: merk_get_prev_def prev_entry_def)
  ultimately show ?thesis
    using merk_laws.merk_get_law [OF laws assms(2), of k] merk_laws.merk_get_next_law [OF laws, of s k] by (simp add: Let_def)
qed

abbreviation list_store :: "kv list \<Rightarrow> bufmap \<Rightarrow> (list_tree, unit) merk_store" where
  "list_store es mp \<equiv> \<lparr>mk_merk = (es, \<lambda>_. None), mk_map = mp, mk_snapshots = \<lparr>sn_snapshots = [], sn_filters = []\<rparr>,
     mk_target_snapshot = None, mk_mem_snapshots = []\<rparr>"

theorem merk_store_reads_witness:
  "merk_get list_merk (list_store [([1], [10]), ([5], [50])] [([3], Some [30])]) [3] = Ok (Some [30])
   \<and> merk_get_next list_merk (list_store [([1], [10]), ([5], [50])] [([3], Some [30])]) [1] = Ok (Some ([5], [50]))
   \<and> merk_get_prev list_merk (list_store [([1], [10]), ([5], [50])] [([3], Some [30])]) (Some [3]) = Ok (Some ([5], [50]))
   \<and> merk_get_prev list_merk (list_store [([1], [10]), ([5], [50])] [([3], Some [30])]) (Some [7]) = Ok None"
  using merk_store_reads [OF list_merk.merk_laws_axioms, of "list_store [([1], [10]), ([5], [50])] [([3], Some [30])]" "[3]"]
    merk_store_reads [OF list_merk.merk_laws_axioms, of "list_store [([1], [10]), ([5], [50])] [([3], Some [30])]" "[1]"]
    merk_store_reads [OF list_merk.merk_laws_axioms, of "list_store [([1], [10]), ([5], [50])] [([3], Some [30])]" "[7]"]
  by (simp add: Let_def list_ents_def next_entry_def)



text \<open>
  Pruning keeps exactly the snapshots that some filter wants to keep, and no more than the
  limits of the filters add up to.
\<close>

lemma prune_keeps_wanted:
  assumes "maybe_prune cur self = (Ok (), self')" and "bt_wf (sn_snapshots self)" and "\<forall>e\<in>set (sn_snapshots self). fst e \<le> cur"
  shows "sn_snapshots self' = filter (\<lambda>e. should_keep self (fst e) cur = Ok True) (sn_snapshots self)
    \<and> length (sn_snapshots self') \<le> sum_list (map filter_capacity (sn_filters self))"
proof -
  note keeps = prune_keeps(1) [OF assms(1,2)]
  have d: "distinct (map fst (sn_snapshots self'))" unfolding keeps using bt_wf_distinct [OF bt_wf_filter [OF assms(2)]] .
  have "\<exists>f\<in>set (sn_filters self). h \<le> cur \<and> filter_should_keep f h cur = Ok True" if "h \<in> set (map fst (sn_snapshots self'))" for h
    using that assms(3) any_filter_True unfolding keeps should_keep_def by fastforce
  then have "length (map fst (sn_snapshots self')) \<le> sum_list (map filter_capacity (sn_filters self))"
    using filter_keeps_few d by (intro covered_length [where K = "\<lambda>f h. h \<le> cur \<and> filter_should_keep f h cur = Ok True"]) blast+
  with keeps show ?thesis by simp
qed

lemma prune_keeps_wanted_witness:
  "\<exists>self'. maybe_prune 5 \<lparr>sn_snapshots = [(2, \<lparr>ss_checkpoint = (), ss_length = 0, ss_hash = []\<rparr>), (3, \<lparr>ss_checkpoint = (), ss_length = 0, ss_hash = []\<rparr>)],
      sn_filters = [SpecificHeight 2 None]\<rparr> = (Ok (), self') \<and> length (sn_snapshots self') \<le> 1"
proof -
  let ?s = "\<lparr>sn_snapshots = [(2, \<lparr>ss_checkpoint = (), ss_length = 0, ss_hash = []\<rparr>), (3, \<lparr>ss_checkpoint = (), ss_length = 0, ss_hash = []\<rparr>)],
      sn_filters = [SpecificHeight 2 None]\<rparr> :: unit snapshots"
  obtain self' where r: "maybe_prune 5 ?s = (Ok (), self')"
    by (simp add: maybe_prune_def op_bind_def should_keep_def)
  have "length (sn_snapshots self') \<le> 1" using prune_keeps_wanted [OF r] by (simp add: should_keep_def)
  with r show ?thesis by blast
qed

text \<open>
  Whatever a read through a \<^verbatim>\<open>ProofBuilder\<close> returns, its key is covered by the query that was
  recorded, so that the proof will contain it, provided that \<open>get_next\<close> returns later keys and
  \<open>get_prev\<close> earlier ones.
\<close>

lemma proof_builder_records:
  assumes "lawful_reader r es"
  shows "(\<forall>v q'. proof_get r k q = (Ok v, q') \<longrightarrow> (\<exists>i\<in>set q'. in_query k i) \<and> set q \<subseteq> set q')
    \<and> (\<forall>e q'. proof_get_next r k q = (Ok (Some e), q') \<longrightarrow> (\<exists>i\<in>set q'. in_query (fst e) i \<and> in_query k i) \<and> set q \<subseteq> set q')
    \<and> (\<forall>e q'. proof_get_prev r ko q = (Ok (Some e), q') \<longrightarrow> (\<exists>i\<in>set q'. in_query (fst e) i) \<and> set q \<subseteq> set q')"
proof -
  have f: "forward_reader r es" using assms by (simp add: lawful_reader_def)
  have "k < fst e" if "rd_get_next r k = Ok (Some e)" for e
    using that forward_reader.get_next_law [OF f, of k] by (auto simp: next_entry_def dest: hd_opt_in)
  moreover have "fst e < k'" if "rd_get_prev r (Some k') = Ok (Some e)" for e k'
    using that lawful_reader.get_prev_law [OF assms, of "Some k'"] by (auto simp: prev_entry_def dest: last_opt_in)
  ultimately show ?thesis
    by (auto simp: proof_get_def proof_get_next_def proof_get_prev_def result_simps less_imp_le split: option.splits)
qed

lemma proof_builder_records_witness:
  "\<exists>e q'. proof_get_next (bk_read mapstore_backing \<lparr>buf_map = [([3], Some [7])], buf_store = ()\<rparr>) [1] [] = (Ok (Some e), q')
    \<and> (\<exists>i\<in>set q'. in_query (fst e) i \<and> in_query [1] i)"
proof -
  let ?s = "\<lparr>buf_map = [([3], Some [7])], buf_store = ()\<rparr>"
  have l: "lawful_reader (bk_read mapstore_backing ?s) (buf_ents (\<lambda>_. []) ?s)"
    by (rule mapstore.reads_lawful) (simp add: buf_invar_def)
  have "rd_get_next (bk_read mapstore_backing ?s) [1] = Ok (Some ([3], [7]))"
    using forward_reader.get_next_law [OF lawful_reader.axioms(1) [OF l], of "[1]"] by (simp add: buf_ents_def next_entry_def)
  then have "\<exists>e q'. proof_get_next (bk_read mapstore_backing ?s) [1] [] = (Ok (Some e), q')" by (simp add: proof_get_next_def)
  with proof_builder_records [OF l, of "[1]" "[]"] show ?thesis by metis
qed

end
