(* ===== verification/Abci_Server.thy ===== *)
theory Abci_Server
  imports Merk_Store Prefix_Store
begin

text \<open>
  \<^verbatim>\<open>src/abci/mod.rs\<close>: the state machine that handles the requests of the consensus engine, the
  interface to the store of the committed state, and its in-memory implementation.

  Every handler of the application works on two buffers over the store.  A request is run to
  its end before the next one is taken from the channel, so the machine is a function on
  requests; the threads that read requests from sockets are left out.  \<open>taken\<close> parts of the
  machine are \<open>None\<close>: when a handler fails, they are not put back.
\<close>

section \<open>Stores of committed state\<close>

record 's abci_store =
  ab_backing :: "'s backing"
  ab_height :: "'s \<Rightarrow> u64 result"
  ab_root_hash :: "'s \<Rightarrow> bytes result"
  ab_commit :: "header \<Rightarrow> ('s, unit) op"
  ab_list_snapshots :: "'s \<Rightarrow> abci_snapshot list result"
  ab_load_snapshot_chunk :: "'s \<Rightarrow> u64 \<Rightarrow> u32 \<Rightarrow> bytes result"
  ab_offer_snapshot :: "abci_snapshot option \<Rightarrow> bytes \<Rightarrow> ('s, offer_result) op"
  ab_apply_snapshot_chunk :: "bytes \<Rightarrow> ('s, unit) op"

record mem_store =
  ms_height :: u64
  ms_store :: mapstore

definition mem_store_new :: mem_store where
  "mem_store_new = \<lparr>ms_height = 0, ms_store = mapstore_new\<rparr>"

definition on_mapstore :: "(mapstore, 'a) op \<Rightarrow> (mem_store, 'a) op" where
  "on_mapstore f self = (case f (ms_store self) of (r, st) \<Rightarrow> (r, self\<lparr>ms_store := st\<rparr>))"

definition mem_backing :: "mem_store backing" where
  "mem_backing = \<lparr>
     bk_read = (\<lambda>self. bk_read mapstore_backing (ms_store self)),
     bk_put = (\<lambda>key value. on_mapstore (bk_put mapstore_backing key value)),
     bk_delete = (\<lambda>key. on_mapstore (bk_delete mapstore_backing key))\<rparr>"

text \<open>\<^verbatim>\<open>unimplemented!()\<close> panics.  The default answer to an offer is neither acceptance nor rejection;
  it is not told apart from a rejection.\<close>

definition mem_abci_store :: "mem_store abci_store" where
  "mem_abci_store = \<lparr>
     ab_backing = mem_backing,
     ab_height = (\<lambda>self. Ok (ms_height self)),
     ab_root_hash = (\<lambda>_. Ok []),
     ab_commit = (\<lambda>header. op_upd (\<lambda>self. self\<lparr>ms_height := height_u64 (hd_height header)\<rparr>)),
     ab_list_snapshots = (\<lambda>_. Ok []),
     ab_load_snapshot_chunk = (\<lambda>_ _ _. Panic),
     ab_offer_snapshot = (\<lambda>_ _. op_ok Reject),
     ab_apply_snapshot_chunk = (\<lambda>_ self. (Panic, self))\<rparr>"

text \<open>The store on Merk; restoring a snapshot from chunks is the library's part.\<close>

definition merk_abci_store :: "('m, 'i, 'ss) merk_lib \<Rightarrow> bool \<Rightarrow> int \<Rightarrow> (bytes \<Rightarrow> (('m, 'ss) merk_store, unit) op) \<Rightarrow> ('m, 'ss) merk_store abci_store" where
  "merk_abci_store M state_sync now restore = \<lparr>
     ab_backing = merk_backing M,
     ab_height = merk_height M,
     ab_root_hash = merk_root_hash M,
     ab_commit = merk_commit M state_sync now,
     ab_list_snapshots = merk_list_snapshots,
     ab_load_snapshot_chunk = merk_load_snapshot_chunk M,
     ab_offer_snapshot = merk_offer_snapshot M,
     ab_apply_snapshot_chunk = restore\<rparr>"

section \<open>The machine\<close>

type_synonym 's wrapped = "'s bufstore bufstore"

text \<open>The application: its handlers, which see the store through two buffers.\<close>

record ('s, 'q, 'a) application =
  ap_init_chain :: "'q \<Rightarrow> ('s wrapped, 'a) op"
  ap_begin_block :: "'q \<Rightarrow> ('s wrapped, 'a) op"
  ap_deliver_tx :: "'q \<Rightarrow> ('s wrapped, 'a) op"
  ap_end_block :: "'q \<Rightarrow> ('s wrapped, 'a) op"
  ap_check_tx :: "'q \<Rightarrow> ('s wrapped, 'a) op"
  ap_query :: "'s \<Rightarrow> 'q \<Rightarrow> 'a result"

record 's abci_machine =
  am_app :: bool
  am_store :: "'s option"
  am_mempool_state :: "bufmap option"
  am_consensus_state :: "bufmap option"
  am_height :: u64
  am_skip_init_chain :: bool
  am_header :: "header option"

definition abci_machine_new :: "'s \<Rightarrow> bool \<Rightarrow> 's abci_machine" where
  "abci_machine_new store skip_init_chain = \<lparr>am_app = True, am_store = Some store, am_mempool_state = Some [],
     am_consensus_state = Some [], am_height = 0, am_skip_init_chain = skip_init_chain, am_header = None\<rparr>"

datatype 'q abci_request =
    ReqInfo | ReqFlush | ReqEcho | ReqSetOption
  | ReqQuery 'q
  | ReqInitChain 'q
  | ReqBeginBlock 'q "header option"
  | ReqDeliverTx 'q
  | ReqEndBlock 'q int
  | ReqCommit
  | ReqCheckTx 'q
  | ReqListSnapshots
  | ReqOfferSnapshot "abci_snapshot option" bytes
  | ReqLoadSnapshotChunk u64 u32
  | ReqApplySnapshotChunk bytes u32 string

text \<open>A failed query is answered by the error and the height.\<close>

datatype 'a abci_response =
    ResInfo u64 bytes | ResFlush | ResEcho | ResSetOption
  | ResQuery 'a | ResQueryError error u64
  | ResInitChain "'a option"
  | ResBeginBlock 'a | ResDeliverTx 'a | ResEndBlock 'a
  | ResCommit bytes
  | ResCheckTx 'a
  | ResListSnapshots "abci_snapshot list"
  | ResOfferSnapshot offer_result
  | ResLoadSnapshotChunk bytes
  | ResChunkAccepted | ResChunkRetry "u32 list" "string list"

text \<open>Running a handler on a fresh buffer over the buffer \<open>m\<close> over the store: what it wrote is
  flushed into the buffer below.\<close>

definition run_handler :: "'s backing \<Rightarrow> ('s wrapped, 'a) op \<Rightarrow> 's \<Rightarrow> bufmap \<Rightarrow> ('a \<times> 's bufstore) result" where
  "run_handler bk f store m =
     (case f (buf_wrap (buf_wrap_with_map store m)) of
        (Ok res, flush_store) \<Rightarrow>
          (case buf_flush (buf_backing (bk_read bk)) flush_store of
             (Ok _, unwrapped_fs) \<Rightarrow> Ok (res, buf_store unwrapped_fs)
           | (Err e, _) \<Rightarrow> Err e
           | (Panic, _) \<Rightarrow> Panic)
      | (Err e, _) \<Rightarrow> Err e
      | (Panic, _) \<Rightarrow> Panic)"

text \<open>A handler on the consensus state; \<open>flushes\<close> says whether the consensus state is written on
  to the store.\<close>

definition on_consensus :: "'s backing \<Rightarrow> bool \<Rightarrow> ('s wrapped, 'a) op \<Rightarrow> ('s abci_machine, 'a) op" where
  "on_consensus bk flushes f self =
     (if \<not> am_app self then (Panic, self)
      else case am_store self of
        None \<Rightarrow> (Panic, self\<lparr>am_app := False\<rparr>)
      | Some store \<Rightarrow> (case am_consensus_state self of
        None \<Rightarrow> (Panic, self\<lparr>am_app := False, am_store := None\<rparr>)
      | Some m \<Rightarrow>
          (let taken = self\<lparr>am_app := False, am_store := None, am_consensus_state := None\<rparr>
           in case run_handler bk f store m of
                Ok (res, owned_store) \<Rightarrow>
                  (case (if flushes then buf_flush bk owned_store else (Ok (), owned_store)) of
                     (Ok _, owned_store) \<Rightarrow>
                       (Ok res, self\<lparr>am_consensus_state := Some (buf_into_map owned_store), am_store := Some (buf_store owned_store)\<rparr>)
                   | (Err e, _) \<Rightarrow> (Err e, taken)
                   | (Panic, _) \<Rightarrow> (Panic, taken))
              | Err e \<Rightarrow> (Err e, taken)
              | Panic \<Rightarrow> (Panic, taken))))"

definition on_mempool :: "'s backing \<Rightarrow> ('s wrapped, 'a) op \<Rightarrow> ('s abci_machine, 'a) op" where
  "on_mempool bk f self =
     (if \<not> am_app self then (Panic, self)
      else case am_store self of
        None \<Rightarrow> (Panic, self\<lparr>am_app := False\<rparr>)
      | Some store \<Rightarrow> (case am_mempool_state self of
        None \<Rightarrow> (Panic, self\<lparr>am_app := False, am_store := None\<rparr>)
      | Some m \<Rightarrow>
          (let taken = self\<lparr>am_app := False, am_store := None, am_mempool_state := None\<rparr>
           in case run_handler bk f store m of
                Ok (res, owned_store) \<Rightarrow>
                  (Ok res, self\<lparr>am_mempool_state := Some (buf_into_map owned_store), am_store := Some (buf_store owned_store)\<rparr>)
              | Err e \<Rightarrow> (Err e, taken)
              | Panic \<Rightarrow> (Panic, taken))))"

text \<open>Operations on the store that is there.\<close>

definition on_store :: "('s, 'a) op \<Rightarrow> ('s abci_machine, 'a) op" where
  "on_store f self = (case am_store self of
      None \<Rightarrow> (Panic, self)
    | Some st \<Rightarrow> (case f st of (r, st') \<Rightarrow> (r, self\<lparr>am_store := Some st'\<rparr>)))"

text \<open>\<^verbatim>\<open>Info\<close> takes the store; it is not put back when reading the height fails.\<close>

definition handle_info :: "'s abci_store \<Rightarrow> ('s abci_machine, 'a abci_response) op" where
  "handle_info S self = (case am_store self of
      None \<Rightarrow> (Panic, self)
    | Some st \<Rightarrow>
        (case and_then (ab_height S st) (\<lambda>start_height.
              and_then (if start_height = 0 then Ok [] else ab_root_hash S st) (\<lambda>app_hash. Ok (ResInfo start_height app_hash))) of
           Ok res \<Rightarrow> (Ok res, self)
         | Err e \<Rightarrow> (Err e, self\<lparr>am_store := None\<rparr>)
         | Panic \<Rightarrow> (Panic, self\<lparr>am_store := None\<rparr>)))"

definition handle_query :: "('s, 'q, 'a) application \<Rightarrow> 'q \<Rightarrow> ('s abci_machine, 'a abci_response) op" where
  "handle_query app req self = (case am_store self of
      None \<Rightarrow> (Panic, self)
    | Some st \<Rightarrow>
        if \<not> am_app self then (Panic, self\<lparr>am_store := None\<rparr>)
        else case ap_query app st req of
           Ok res \<Rightarrow> (Ok (ResQuery res), self)
         | Err e \<Rightarrow> (Ok (ResQueryError e (am_height self)), self)
         | Panic \<Rightarrow> (Panic, self\<lparr>am_store := None, am_app := False\<rparr>))"

text \<open>\<open>stop_height\<close> is the environment variable \<^verbatim>\<open>ORGA_STOP_HEIGHT\<close>, \<open>stop_msg\<close> the text of the error.\<close>

definition handle_begin_block :: "'s backing \<Rightarrow> ('s, 'q, 'a) application \<Rightarrow> int option \<Rightarrow> string \<Rightarrow> 'q \<Rightarrow> header option \<Rightarrow> ('s abci_machine, 'a abci_response) op" where
  "handle_begin_block bk app stop_height stop_msg req header =
     op_bind (op_lift (case stop_height of
         None \<Rightarrow> Ok ()
       | Some stop \<Rightarrow> and_then (unwrap header) (\<lambda>h. if stop < hd_height h then Err (Error_ABCI stop_msg) else Ok ()))) (\<lambda>_.
     op_bind (\<lambda>self. if \<not> am_app self then (Panic, self)
       else if am_store self = None then (Panic, self\<lparr>am_app := False\<rparr>) else (Ok (), self)) (\<lambda>_.
     op_bind (op_upd (\<lambda>self. self\<lparr>am_header := header\<rparr>)) (\<lambda>_.
     op_bind (on_consensus bk False (ap_begin_block app req)) (\<lambda>res. op_ok (ResBeginBlock res)))))"

definition handle_commit :: "'s abci_store \<Rightarrow> ('s abci_machine, 'a abci_response) op" where
  "handle_commit S self =
     (case am_store self of
        None \<Rightarrow> (Panic, self)
      | Some store \<Rightarrow> (case am_consensus_state self of
        None \<Rightarrow> (Panic, self\<lparr>am_store := None\<rparr>)
      | Some m \<Rightarrow>
          (let taken = self\<lparr>am_store := None, am_consensus_state := None\<rparr>
           in case buf_flush (ab_backing S) (buf_wrap_with_map store m) of
                (Ok _, flushed) \<Rightarrow>
                  (case am_header self of
                     None \<Rightarrow> (Panic, taken)
                   | Some header \<Rightarrow>
                       (case ab_commit S header (buf_store flushed) of
                          (Ok _, store') \<Rightarrow>
                            (let self' = self\<lparr>am_store := None, am_mempool_state := Some [], am_consensus_state := Some []\<rparr>
                             in case ab_root_hash S store' of
                                  Ok h \<Rightarrow> (Ok (ResCommit h), self'\<lparr>am_store := Some store'\<rparr>)
                                | Err e \<Rightarrow> (Err e, self')
                                | Panic \<Rightarrow> (Panic, self'))
                        | (Err e, _) \<Rightarrow> (Err e, taken)
                        | (Panic, _) \<Rightarrow> (Panic, taken)))
              | (Err e, _) \<Rightarrow> (Err e, taken)
              | (Panic, _) \<Rightarrow> (Panic, taken))))"

definition handle_init_chain :: "'s backing \<Rightarrow> ('s, 'q, 'a) application \<Rightarrow> 'q \<Rightarrow> ('s abci_machine, 'a abci_response) op" where
  "handle_init_chain bk app req self =
     (if am_skip_init_chain self then (Ok (ResInitChain None), self)
      else op_bind (on_consensus bk True (ap_init_chain app req)) (\<lambda>res.
           op_bind (op_upd (\<lambda>self. self\<lparr>am_consensus_state := Some []\<rparr>)) (\<lambda>_. op_ok (ResInitChain (Some res)))) self)"

fun run :: "'s abci_store \<Rightarrow> ('s, 'q, 'a) application \<Rightarrow> int option \<Rightarrow> string \<Rightarrow> 'q abci_request option \<Rightarrow> ('s abci_machine, 'a abci_response) op" where
  "run S app stop msg None = op_err (Error_ABCI ''Received empty request'')"
| "run S app stop msg (Some ReqInfo) = handle_info S"
| "run S app stop msg (Some ReqFlush) = op_ok ResFlush"
| "run S app stop msg (Some ReqEcho) = op_ok ResEcho"
| "run S app stop msg (Some ReqSetOption) = op_ok ResSetOption"
| "run S app stop msg (Some (ReqQuery req)) = handle_query app req"
| "run S app stop msg (Some (ReqInitChain req)) = handle_init_chain (ab_backing S) app req"
| "run S app stop msg (Some (ReqBeginBlock req header)) = handle_begin_block (ab_backing S) app stop msg req header"
| "run S app stop msg (Some (ReqDeliverTx req)) =
     op_bind (on_consensus (ab_backing S) True (ap_deliver_tx app req)) (\<lambda>res. op_ok (ResDeliverTx res))"
| "run S app stop msg (Some (ReqEndBlock req height)) =
     op_bind (op_upd (\<lambda>self. self\<lparr>am_height := height_u64 height\<rparr>)) (\<lambda>_.
     op_bind (on_consensus (ab_backing S) False (ap_end_block app req)) (\<lambda>res. op_ok (ResEndBlock res)))"
| "run S app stop msg (Some ReqCommit) = handle_commit S"
| "run S app stop msg (Some (ReqCheckTx req)) =
     op_bind (on_mempool (ab_backing S) (ap_check_tx app req)) (\<lambda>res. op_ok (ResCheckTx res))"
| "run S app stop msg (Some ReqListSnapshots) =
     op_bind (on_store (op_read (ab_list_snapshots S))) (\<lambda>ss. op_ok (ResListSnapshots ss))"
| "run S app stop msg (Some (ReqOfferSnapshot snapshot app_hash)) =
     op_bind (on_store (ab_offer_snapshot S snapshot app_hash)) (\<lambda>r. op_ok (ResOfferSnapshot r))"
| "run S app stop msg (Some (ReqLoadSnapshotChunk height chunk)) =
     op_bind (on_store (op_read (\<lambda>st. ab_load_snapshot_chunk S st height chunk))) (\<lambda>c. op_ok (ResLoadSnapshotChunk c))"
| "run S app stop msg (Some (ReqApplySnapshotChunk chunk index sender)) =
     on_store (\<lambda>st. case ab_apply_snapshot_chunk S chunk st of
         (Ok _, st') \<Rightarrow> (Ok ResChunkAccepted, st')
       | (Err _, st') \<Rightarrow> (Ok (ResChunkRetry [index] [sender]), st')
       | (Panic, st') \<Rightarrow> (Panic, st'))"

text \<open>The loop of \<^verbatim>\<open>listen\<close>: a failed request ends it, and so does the stop height after a commit.\<close>

fun listen :: "'s abci_store \<Rightarrow> ('s, 'q, 'a) application \<Rightarrow> int option \<Rightarrow> string \<Rightarrow> 'q abci_request option list
    \<Rightarrow> ('s abci_machine, 'a abci_response list) op" where
  "listen S app stop msg [] = op_ok []"
| "listen S app stop msg (req # reqs) =
     op_bind (run S app stop msg req) (\<lambda>res.
     op_bind (op_read (\<lambda>self. case stop of
         Some h \<Rightarrow> if req = Some ReqCommit \<and> height_u64 h \<le> am_height self then Err (Error_ABCI msg) else Ok ()
       | None \<Rightarrow> Ok ())) (\<lambda>_.
     op_bind (listen S app stop msg reqs) (\<lambda>rest. op_ok (res # rest))))"

section \<open>Laws of a store\<close>

text \<open>What the machine relies on: lawful writes, and commits that keep the entries and succeed for
  the headers \<open>okh\<close>.\<close>

locale server_store = writable_backing "ab_backing S" ents invar "\<lambda>_. True"
  for S :: "'s abci_store" and ents :: "'s \<Rightarrow> kv list" and invar :: "'s \<Rightarrow> bool" +
  fixes okh :: "header \<Rightarrow> bool"
  assumes commit_keeps: "invar s \<Longrightarrow> okh h \<Longrightarrow> \<exists>s'. ab_commit S h s = (Ok (), s') \<and> invar s' \<and> ents s' = ents s"
    and root_hash_total: "invar s \<Longrightarrow> \<exists>b. ab_root_hash S s = Ok b"

text \<open>A handler writes to the buffer it is given and to nothing below it.\<close>

definition buffered :: "('s wrapped, 'a) op \<Rightarrow> bool" where
  "buffered f \<longleftrightarrow> (\<forall>fs. bt_wf (buf_map fs) \<longrightarrow> bt_wf (buf_map (snd (f fs))) \<and> buf_store (snd (f fs)) = buf_store fs)"

definition machine_wf :: "('s \<Rightarrow> bool) \<Rightarrow> 's abci_machine \<Rightarrow> bool" where
  "machine_wf invar self \<longleftrightarrow> am_app self
     \<and> (\<exists>st m mp. am_store self = Some st \<and> am_consensus_state self = Some m \<and> am_mempool_state self = Some mp
          \<and> invar st \<and> bt_wf m \<and> bt_wf mp)"

text \<open>The state of the block: the consensus state over the entries of the store; and the stores
  that the handlers see.\<close>

definition block_view :: "('s \<Rightarrow> kv list) \<Rightarrow> 's abci_machine \<Rightarrow> kv list" where
  "block_view ents self = overlay (the (am_consensus_state self)) (ents (the (am_store self)))"

definition block_store :: "'s abci_machine \<Rightarrow> 's wrapped" where
  "block_store self = buf_wrap (buf_wrap_with_map (the (am_store self)) (the (am_consensus_state self)))"

text \<open>Blocks that are not refused because of the stop height.\<close>

definition admitted :: "int option \<Rightarrow> header option \<Rightarrow> bool" where
  "admitted stop header \<longleftrightarrow> (case stop of None \<Rightarrow> True | Some n \<Rightarrow> \<exists>h. header = Some h \<and> hd_height h \<le> n)"

definition check_store :: "'s abci_machine \<Rightarrow> 's wrapped" where
  "check_store self = buf_wrap (buf_wrap_with_map (the (am_store self)) (the (am_mempool_state self)))"

lemma flush_loop_below: "buf_store (snd (snd (flush_loop (buf_backing rd) m s))) = buf_store s"
proof (induction m arbitrary: s)
  case (Cons e m)
  obtain k v where "e = (k, v)" by force
  then show ?case using Cons.IH by (cases v) (simp_all add: buf_backing_def buf_put_def buf_delete_def)
qed simp

context server_store
begin

abbreviation view :: "'s abci_machine \<Rightarrow> kv list" where
  "view \<equiv> block_view ents"

lemma run_handler_law:
  assumes "invar st" and "bt_wf m" and "buffered f" and "f (buf_wrap (buf_wrap_with_map st m)) = (Ok res, fs)"
  shows "\<exists>m'. run_handler (ab_backing S) f st m = Ok (res, \<lparr>buf_map = m', buf_store = st\<rparr>) \<and> bt_wf m'
    \<and> overlay m' (ents st) = overlay (buf_map fs) (overlay m (ents st))"
proof -
  let ?rd = "bk_read (ab_backing S)" and ?own = "buf_wrap_with_map st m"
  have fs: "bt_wf (buf_map fs)" "buf_store fs = ?own"
    using assms(3) [unfolded buffered_def, rule_format, of "buf_wrap ?own"] assms(4) by (simp_all add: buf_wrap_def)
  have inv: "buf_invar (buf_invar invar) fs" using fs assms(1,2) by (simp add: buf_invar_def buf_wrap_with_map_def)
  obtain own where own: "buf_flush (buf_backing ?rd) fs = (Ok (), \<lparr>buf_map = [], buf_store = own\<rparr>)" "buf_invar invar own"
      "buf_ents ents own = buf_ents (buf_ents ents) fs"
    using writable_backing.buf_flush_ok [OF buf_writable inv, of ?rd] by auto
  have "buf_store own = st"
    using own(1) flush_loop_below [of ?rd "buf_map fs" "buf_store fs"] fs(2)
    by (cases fs) (auto simp: buf_flush_def buf_wrap_with_map_def split: prod.splits)
  then obtain m' where m': "own = \<lparr>buf_map = m', buf_store = st\<rparr>" by (cases own) auto
  have "run_handler (ab_backing S) f st m = Ok (res, own)" using assms(4) own(1) by (simp add: run_handler_def)
  then show ?thesis using own(2,3) m' fs(2) by (auto simp: buf_invar_def buf_ents_def buf_wrap_with_map_def)
qed

lemma on_consensus_law:
  assumes "machine_wf invar self" and "buffered f" and "f (block_store self) = (Ok res, fs)"
  shows "\<exists>self'. on_consensus (ab_backing S) flushes f self = (Ok res, self') \<and> machine_wf invar self'
    \<and> view self' = overlay (buf_map fs) (view self) \<and> am_mempool_state self' = am_mempool_state self
    \<and> am_header self' = am_header self \<and> am_height self' = am_height self
    \<and> (flushes \<longrightarrow> am_consensus_state self' = Some []) \<and> (\<not> flushes \<longrightarrow> am_store self' = am_store self)"
proof -
  obtain st m mp where s: "am_app self" "am_store self = Some st" "am_consensus_state self = Some m"
      "am_mempool_state self = Some mp" "invar st" "bt_wf m" "bt_wf mp"
    using assms(1) by (auto simp: machine_wf_def)
  obtain m' where m': "run_handler (ab_backing S) f st m = Ok (res, \<lparr>buf_map = m', buf_store = st\<rparr>)" "bt_wf m'"
      "overlay m' (ents st) = overlay (buf_map fs) (view self)"
    using run_handler_law [OF s(5,6) assms(2)] assms(3) s by (auto simp: block_store_def block_view_def)
  show ?thesis
  proof (cases flushes)
    case True
    obtain st' where st': "buf_flush (ab_backing S) \<lparr>buf_map = m', buf_store = st\<rparr> = (Ok (), \<lparr>buf_map = [], buf_store = st'\<rparr>)"
        "invar st'" "ents st' = overlay m' (ents st)"
      using buf_flush_ok [of "\<lparr>buf_map = m', buf_store = st\<rparr>"] s(5) m'(2) by (auto simp: buf_invar_def buf_ents_def)
    then show ?thesis
      using s m' True by (simp add: on_consensus_def machine_wf_def block_view_def buf_into_map_def)
  next
    case False
    then show ?thesis using s m' by (simp add: on_consensus_def machine_wf_def block_view_def buf_into_map_def)
  qed
qed

lemma on_mempool_law:
  assumes "machine_wf invar self" and "buffered f" and "f (check_store self) = (Ok res, fs)"
  shows "\<exists>m'. on_mempool (ab_backing S) f self = (Ok res, self\<lparr>am_mempool_state := Some m'\<rparr>) \<and> bt_wf m'
    \<and> overlay m' (ents (the (am_store self))) = overlay (buf_map fs) (overlay (the (am_mempool_state self)) (ents (the (am_store self))))"
proof -
  obtain st m mp where s: "am_app self" "am_store self = Some st" "am_mempool_state self = Some mp" "invar st" "bt_wf mp"
    using assms(1) by (auto simp: machine_wf_def)
  obtain m' where "run_handler (ab_backing S) f st mp = Ok (res, \<lparr>buf_map = m', buf_store = st\<rparr>)" "bt_wf m'"
      "overlay m' (ents st) = overlay (buf_map fs) (overlay mp (ents st))"
    using run_handler_law [OF s(4,5) assms(2)] assms(3) s by (auto simp: check_store_def)
  moreover have "self\<lparr>am_mempool_state := Some m', am_store := Some st\<rparr> = self\<lparr>am_mempool_state := Some m'\<rparr>"
    using s(2) by (cases self) simp
  ultimately show ?thesis using s by (intro exI [of _ m']) (simp add: on_mempool_def buf_into_map_def)
qed

lemma commit_law:
  assumes "machine_wf invar self" and "am_header self = Some h" and "okh h"
  shows "\<exists>b self' st'. handle_commit S self = (Ok (ResCommit b), self') \<and> machine_wf invar self'
    \<and> am_store self' = Some st' \<and> ents st' = view self \<and> am_consensus_state self' = Some [] \<and> am_mempool_state self' = Some []"
proof -
  obtain st m mp where s: "am_app self" "am_store self = Some st" "am_consensus_state self = Some m" "invar st" "bt_wf m"
    using assms(1) by (auto simp: machine_wf_def)
  obtain st1 where st1: "buf_flush (ab_backing S) (buf_wrap_with_map st m) = (Ok (), \<lparr>buf_map = [], buf_store = st1\<rparr>)" "invar st1"
      "ents st1 = overlay m (ents st)"
    using buf_flush_ok [of "buf_wrap_with_map st m"] s by (auto simp: buf_invar_def buf_ents_def buf_wrap_with_map_def)
  obtain st2 where st2: "ab_commit S h st1 = (Ok (), st2)" "invar st2" "ents st2 = ents st1" using commit_keeps [OF st1(2) assms(3)] by blast
  obtain b where b: "ab_root_hash S st2 = Ok b" using root_hash_total [OF st2(2)] by blast
  show ?thesis
    using s st1 st2 b assms(2) by (simp add: handle_commit_def machine_wf_def block_view_def)
qed

end

section \<open>The stores satisfy the laws\<close>

interpretation mem_store: server_store mem_abci_store "\<lambda>s. buf_ents (\<lambda>_. []) (ms_store s)" "\<lambda>s. buf_invar (\<lambda>_. True) (ms_store s)" "\<lambda>_. True"
proof
  fix s :: mem_store and key v
  assume inv: "buf_invar (\<lambda>_. True) (ms_store s)"
  show "bt_wf (buf_ents (\<lambda>_. []) (ms_store s))" by (rule mapstore.writing.write_wf [OF inv])
  show "\<exists>s'. bk_put (ab_backing mem_abci_store) key v s = (Ok (), s') \<and> buf_invar (\<lambda>_. True) (ms_store s')
      \<and> buf_ents (\<lambda>_. []) (ms_store s') = bt_insert key v (buf_ents (\<lambda>_. []) (ms_store s))"
    using mapstore.put_law [OF inv TrueI, of key v] by (auto simp: mem_abci_store_def mem_backing_def on_mapstore_def)
  show "\<exists>s'. bk_delete (ab_backing mem_abci_store) key s = (Ok (), s') \<and> buf_invar (\<lambda>_. True) (ms_store s')
      \<and> buf_ents (\<lambda>_. []) (ms_store s') = bt_remove key (buf_ents (\<lambda>_. []) (ms_store s))"
    using mapstore.delete_law [OF inv, of key] by (auto simp: mem_abci_store_def mem_backing_def on_mapstore_def)
qed (auto simp: mem_abci_store_def)

text \<open>A Merk store's entries include the pending writes.\<close>

definition merk_ents :: "('m \<Rightarrow> kv list) \<Rightarrow> ('m, 'ss) merk_store \<Rightarrow> kv list" where
  "merk_ents ents s = overlay (mk_map s) (ents (mk_merk s))"

definition merk_invar :: "('m, 'ss) merk_store \<Rightarrow> bool" where
  "merk_invar s \<longleftrightarrow> bt_wf (mk_map s) \<and> bt_wf (mk_mem_snapshots s)"

definition merk_header_ok :: "bool \<Rightarrow> int \<Rightarrow> header \<Rightarrow> bool" where
  "merk_header_ok state_sync now h \<longleftrightarrow> (\<exists>t. hd_time h = Some t \<and> (\<not> state_sync \<or> 10 \<le> now - t))"

lemma pop_until_wf: "bt_wf xs \<Longrightarrow> bt_wf (pop_until n xs)"
  by (simp add: pop_until_drop drop_map [symmetric] sorted_wrt_drop)

context merk_laws
begin

lemma merk_server_store:
  "server_store (merk_abci_store M state_sync now restore) (merk_ents ents) merk_invar (merk_header_ok state_sync now)"
proof
  fix s :: "('m, 'ss) merk_store" and key v h
  assume inv: "merk_invar s"
  then have wf: "bt_wf (mk_map s)" "bt_wf (mk_mem_snapshots s)" by (simp_all add: merk_invar_def)
  note ins = bt_insert_overlay [OF wf(1) tree_wf [of "mk_merk s"]]
  show "bt_wf (merk_ents ents s)" unfolding merk_ents_def by (rule overlay_wf [OF wf(1) tree_wf])
  show "\<exists>s'. bk_put (ab_backing (merk_abci_store M state_sync now restore)) key v s = (Ok (), s') \<and> merk_invar s'
      \<and> merk_ents ents s' = bt_insert key v (merk_ents ents s)"
    using wf ins by (auto simp: merk_abci_store_def merk_backing_def merk_put_def merk_invar_def merk_ents_def)
  show "\<exists>s'. bk_delete (ab_backing (merk_abci_store M state_sync now restore)) key s = (Ok (), s') \<and> merk_invar s'
      \<and> merk_ents ents s' = bt_remove key (merk_ents ents s)"
    using wf ins by (auto simp: merk_abci_store_def merk_backing_def merk_delete_def merk_invar_def merk_ents_def)
  show "\<exists>b. ab_root_hash (merk_abci_store M state_sync now restore) s = Ok b"
    by (simp add: merk_abci_store_def merk_root_hash_def)
  assume "merk_header_ok state_sync now h"
  then obtain t where t: "hd_time h = Some t" "\<not> state_sync \<or> 10 \<le> now - t" by (auto simp: merk_header_ok_def)
  from commit_law [OF wf(1) t(1), of state_sync now] t(2)
  obtain s' ss where s': "merk_commit M state_sync now h s = (Ok (), s')" "mk_map s' = []" "ents (mk_merk s') = overlay (mk_map s) (ents (mk_merk s))"
      "mk_mem_snapshots s' = pop_until 20 (bt_insert (height_u64 (hd_height h)) ss (mk_mem_snapshots s))" by force
  have "bt_wf (mk_mem_snapshots s')" unfolding s'(4) by (rule pop_until_wf [OF bt_wf_insert [OF wf(2)]])
  then show "\<exists>s'. ab_commit (merk_abci_store M state_sync now restore) h s = (Ok (), s') \<and> merk_invar s' \<and> merk_ents ents s' = merk_ents ents s"
    using s'(1-3) by (intro exI [of _ s']) (simp add: merk_abci_store_def merk_invar_def merk_ents_def)
qed

end

interpretation list_merk_store: server_store "merk_abci_store list_merk state_sync now restore" "merk_ents list_ents" merk_invar
  "merk_header_ok state_sync now" for state_sync now restore
  by (rule list_merk.merk_server_store)

text \<open>Writes to a Merk store leave its tree as it is until the commit.\<close>

lemma merk_flush_tree: "mk_merk (snd (snd (flush_loop (merk_backing M) m s))) = mk_merk s"
proof (induction m arbitrary: s)
  case (Cons e m)
  obtain k v where "e = (k, v)" by force
  then show ?case using Cons.IH by (cases v) (simp_all add: merk_backing_def merk_put_def merk_delete_def)
qed simp

lemma on_consensus_tree:
  assumes "on_consensus (merk_backing M) True f self = (Ok res, self')" and "buffered f" and "am_store self = Some st0"
    and "am_store self' = Some st"
  shows "mk_merk st = mk_merk st0"
proof -
  let ?rd = "bk_read (merk_backing M)"
  obtain m where m: "am_app self" "am_consensus_state self = Some m"
    using assms(1,3) by (cases "am_app self"; cases "am_consensus_state self") (auto simp: on_consensus_def)
  obtain own own' where own: "run_handler (merk_backing M) f st0 m = Ok (res, own)" "buf_flush (merk_backing M) own = (Ok (), own')" "buf_store own' = st"
    using assms m by (auto simp: on_consensus_def Let_def split: result.splits prod.splits)
  obtain fs fs' where fs: "f (buf_wrap (buf_wrap_with_map st0 m)) = (Ok res, fs)" "buf_flush (buf_backing ?rd) fs = (Ok (), fs')" "own = buf_store fs'"
    using own(1) by (auto simp: run_handler_def split: result.splits prod.splits)
  have "buf_store fs = buf_wrap_with_map st0 m"
    using assms(2) [unfolded buffered_def, rule_format, of "buf_wrap (buf_wrap_with_map st0 m)"] fs(1) by (simp add: buf_wrap_def)
  then have "buf_store own = st0"
    using fs(2,3) flush_loop_below [of ?rd "buf_map fs" "buf_store fs"] by (auto simp: buf_flush_def buf_wrap_with_map_def split: prod.splits)
  then show ?thesis
    using own(2,3) merk_flush_tree [of M "buf_map own" "buf_store own"] by (auto simp: buf_flush_def split: prod.splits)
qed

section \<open>Failures\<close>

text \<open>What the handler of a request returns, and the requests that use the store or the application.\<close>

definition handler_result :: "('s, 'q, 'a) application \<Rightarrow> int option \<Rightarrow> 's abci_machine \<Rightarrow> 'q abci_request \<Rightarrow> 'a result option" where
  "handler_result app stop self r = (case r of
      ReqInitChain req \<Rightarrow> if am_skip_init_chain self then None else Some (fst (ap_init_chain app req (block_store self)))
    | ReqBeginBlock req header \<Rightarrow> if admitted stop header then Some (fst (ap_begin_block app req (block_store self))) else None
    | ReqDeliverTx req \<Rightarrow> Some (fst (ap_deliver_tx app req (block_store self)))
    | ReqEndBlock req _ \<Rightarrow> Some (fst (ap_end_block app req (block_store self)))
    | ReqCheckTx req \<Rightarrow> Some (fst (ap_check_tx app req (check_store self)))
    | _ \<Rightarrow> None)"

definition needs_store :: "int option \<Rightarrow> 's abci_machine \<Rightarrow> 'q abci_request \<Rightarrow> bool" where
  "needs_store stop self r = (case r of
      ReqFlush \<Rightarrow> False | ReqEcho \<Rightarrow> False | ReqSetOption \<Rightarrow> False
    | ReqInitChain _ \<Rightarrow> \<not> am_skip_init_chain self
    | ReqBeginBlock _ header \<Rightarrow> (case (stop, header) of (Some n, Some h) \<Rightarrow> hd_height h \<le> n | _ \<Rightarrow> True)
    | _ \<Rightarrow> True)"

lemma needs_store_cong: "am_skip_init_chain self' = am_skip_init_chain self \<Longrightarrow> needs_store stop self' r = needs_store stop self r"
  by (simp add: needs_store_def split: abci_request.split)

lemma needs_store_panics:
  assumes "\<not> am_app self" and "am_store self = None" and "needs_store stop self r"
  shows "fst (run S app stop msg (Some r) self) = Panic"
proof (cases r)
  case (ReqBeginBlock req header)
  then show ?thesis
    using assms by (cases stop; cases header) (auto simp: handle_begin_block_def needs_store_def op_bind_def)
qed (use assms in \<open>simp_all add: handle_info_def handle_query_def handle_commit_def handle_init_chain_def on_consensus_def on_mempool_def
    on_store_def op_bind_def needs_store_def\<close>)

lemma needs_store_answers:
  assumes "\<not> needs_store stop self r" and "am_skip_init_chain self' = am_skip_init_chain self"
  shows "fst (run S app stop msg (Some r) self') = fst (run S app stop msg (Some r) self) \<and> snd (run S app stop msg (Some r) self') = self'"
proof (cases r)
  case (ReqBeginBlock req header)
  then show ?thesis
    using assms by (cases stop; cases header) (auto simp: handle_begin_block_def needs_store_def op_bind_def)
qed (use assms in \<open>simp_all add: handle_init_chain_def needs_store_def\<close>)

lemma on_consensus_fails:
  assumes "machine_wf invar self" and "fst (f (block_store self)) = Err e"
  shows "on_consensus bk flushes f self = (Err e, self\<lparr>am_app := False, am_store := None, am_consensus_state := None\<rparr>)"
proof -
  obtain st m where s: "am_app self" "am_store self = Some st" "am_consensus_state self = Some m"
    using assms(1) by (auto simp: machine_wf_def)
  obtain fs where "f (buf_wrap (buf_wrap_with_map st m)) = (Err e, fs)"
    using assms(2) s by (cases "f (block_store self)") (auto simp: block_store_def)
  then show ?thesis using s by (simp add: on_consensus_def run_handler_def)
qed

lemma on_mempool_fails:
  assumes "machine_wf invar self" and "fst (f (check_store self)) = Err e"
  shows "on_mempool bk f self = (Err e, self\<lparr>am_app := False, am_store := None, am_mempool_state := None\<rparr>)"
proof -
  obtain st m where s: "am_app self" "am_store self = Some st" "am_mempool_state self = Some m"
    using assms(1) by (auto simp: machine_wf_def)
  obtain fs where "f (buf_wrap (buf_wrap_with_map st m)) = (Err e, fs)"
    using assms(2) s by (cases "f (check_store self)") (auto simp: check_store_def)
  then show ?thesis using s by (simp add: on_mempool_def run_handler_def)
qed

lemma failed_handler_takes:
  assumes "machine_wf invar self" and "handler_result app stop self r = Some (Err e)"
  shows "\<exists>self'. run S app stop msg (Some r) self = (Err e, self') \<and> \<not> am_app self' \<and> am_store self' = None
    \<and> am_skip_init_chain self' = am_skip_init_chain self
    \<and> (case r of ReqCheckTx _ \<Rightarrow> am_mempool_state self' = None \<and> am_consensus_state self' = am_consensus_state self
       | _ \<Rightarrow> am_consensus_state self' = None \<and> am_mempool_state self' = am_mempool_state self)"
proof (cases r)
  case (ReqInitChain req)
  then show ?thesis
    using assms(2) on_consensus_fails [OF assms(1), of "ap_init_chain app req" e]
    by (simp add: handler_result_def handle_init_chain_def op_bind_def split: if_splits)
next
  case (ReqBeginBlock req header)
  let ?self = "self\<lparr>am_header := header\<rparr>"
  have w: "machine_wf invar ?self" "block_store ?self = block_store self" using assms(1) by (simp_all add: machine_wf_def block_store_def)
  have "run S app stop msg (Some r) self = op_bind (on_consensus (ab_backing S) False (ap_begin_block app req)) (\<lambda>res. op_ok (ResBeginBlock res)) ?self"
    using assms ReqBeginBlock
    by (cases stop) (auto simp: handle_begin_block_def handler_result_def admitted_def op_bind_def machine_wf_def split: if_splits)
  then show ?thesis
    using assms(2) ReqBeginBlock on_consensus_fails [OF w(1), of "ap_begin_block app req" e] w(2)
    by (simp add: handler_result_def op_bind_def split: if_splits)
next
  case (ReqDeliverTx req)
  then show ?thesis using assms(2) on_consensus_fails [OF assms(1), of "ap_deliver_tx app req" e] by (simp add: handler_result_def op_bind_def)
next
  case (ReqEndBlock req height)
  let ?self = "self\<lparr>am_height := height_u64 height\<rparr>"
  have "machine_wf invar ?self" "block_store ?self = block_store self" using assms(1) by (simp_all add: machine_wf_def block_store_def)
  then show ?thesis
    using assms(2) ReqEndBlock on_consensus_fails [of invar ?self "ap_end_block app req" e] by (simp add: handler_result_def op_bind_def)
next
  case (ReqCheckTx req)
  then show ?thesis using assms(2) on_mempool_fails [OF assms(1), of "ap_check_tx app req" e] by (simp add: handler_result_def op_bind_def)
qed (use assms(2) in \<open>simp_all add: handler_result_def\<close>)

section \<open>Properties\<close>

text \<open>
  (C3) The handlers of a block act one after the other on one state: the handlers of BeginBlock
  (unless the block is past the stop height), DeliverTx and EndBlock find the state as the previous
  one left it, and what they write (\<open>buf_map fs\<close>) is put on top; whether they returned a failure in
  their response makes no difference, and the mempool state is not touched.  Of the three only
  DeliverTx writes to the store.  A commit makes the state of the block the contents of the store
  and empties the states of the consensus and of the mempool.
\<close>

theorem block_handlers_accumulate:
  assumes "server_store S ents invar okh" and "machine_wf invar self"
  shows "(admitted stop header \<longrightarrow> buffered (ap_begin_block app req) \<longrightarrow> ap_begin_block app req (block_store self) = (Ok res, fs) \<longrightarrow>
      (\<exists>self'. run S app stop msg (Some (ReqBeginBlock req header)) self = (Ok (ResBeginBlock res), self') \<and> machine_wf invar self'
        \<and> block_view ents self' = overlay (buf_map fs) (block_view ents self) \<and> am_store self' = am_store self
        \<and> am_mempool_state self' = am_mempool_state self \<and> am_header self' = header))
    \<and> (buffered (ap_deliver_tx app req) \<longrightarrow> ap_deliver_tx app req (block_store self) = (Ok res, fs) \<longrightarrow>
      (\<exists>self'. run S app stop msg (Some (ReqDeliverTx req)) self = (Ok (ResDeliverTx res), self') \<and> machine_wf invar self'
        \<and> block_view ents self' = overlay (buf_map fs) (block_view ents self) \<and> am_consensus_state self' = Some []
        \<and> am_mempool_state self' = am_mempool_state self \<and> am_header self' = am_header self))
    \<and> (buffered (ap_end_block app req) \<longrightarrow> ap_end_block app req (block_store self) = (Ok res, fs) \<longrightarrow>
      (\<exists>self'. run S app stop msg (Some (ReqEndBlock req height)) self = (Ok (ResEndBlock res), self') \<and> machine_wf invar self'
        \<and> block_view ents self' = overlay (buf_map fs) (block_view ents self) \<and> am_store self' = am_store self
        \<and> am_mempool_state self' = am_mempool_state self \<and> am_header self' = am_header self \<and> am_height self' = height_u64 height))
    \<and> (\<forall>h. am_header self = Some h \<longrightarrow> okh h \<longrightarrow>
        (\<exists>b self' st'. run S app stop msg (Some ReqCommit) self = (Ok (ResCommit b), self') \<and> machine_wf invar self'
          \<and> am_store self' = Some st' \<and> ents st' = block_view ents self \<and> block_view ents self' = block_view ents self
          \<and> am_consensus_state self' = Some [] \<and> am_mempool_state self' = Some []))"
proof (intro conjI impI allI)
  assume adm: "admitted stop header" and h: "buffered (ap_begin_block app req)" "ap_begin_block app req (block_store self) = (Ok res, fs)"
  let ?self = "self\<lparr>am_header := header\<rparr>"
  have w: "machine_wf invar ?self" "block_store ?self = block_store self" "block_view ents ?self = block_view ents self"
    using assms(2) by (simp_all add: machine_wf_def block_store_def block_view_def)
  have "run S app stop msg (Some (ReqBeginBlock req header)) self
      = op_bind (on_consensus (ab_backing S) False (ap_begin_block app req)) (\<lambda>res. op_ok (ResBeginBlock res)) ?self"
    using adm assms(2) by (cases stop) (auto simp: handle_begin_block_def admitted_def op_bind_def machine_wf_def)
  then show "\<exists>self'. run S app stop msg (Some (ReqBeginBlock req header)) self = (Ok (ResBeginBlock res), self') \<and> machine_wf invar self'
      \<and> block_view ents self' = overlay (buf_map fs) (block_view ents self) \<and> am_store self' = am_store self
      \<and> am_mempool_state self' = am_mempool_state self \<and> am_header self' = header"
    using server_store.on_consensus_law [OF assms(1) w(1) h(1), of res fs False] h(2) w(2,3) by (auto simp: op_bind_def)
next
  assume h: "buffered (ap_deliver_tx app req)" "ap_deliver_tx app req (block_store self) = (Ok res, fs)"
  then show "\<exists>self'. run S app stop msg (Some (ReqDeliverTx req)) self = (Ok (ResDeliverTx res), self') \<and> machine_wf invar self'
      \<and> block_view ents self' = overlay (buf_map fs) (block_view ents self) \<and> am_consensus_state self' = Some []
      \<and> am_mempool_state self' = am_mempool_state self \<and> am_header self' = am_header self"
    using server_store.on_consensus_law [OF assms h, of True] by (auto simp: op_bind_def)
next
  assume h: "buffered (ap_end_block app req)" "ap_end_block app req (block_store self) = (Ok res, fs)"
  let ?self = "self\<lparr>am_height := height_u64 height\<rparr>"
  have w: "machine_wf invar ?self" "block_store ?self = block_store self" "block_view ents ?self = block_view ents self"
    using assms(2) by (simp_all add: machine_wf_def block_store_def block_view_def)
  show "\<exists>self'. run S app stop msg (Some (ReqEndBlock req height)) self = (Ok (ResEndBlock res), self') \<and> machine_wf invar self'
      \<and> block_view ents self' = overlay (buf_map fs) (block_view ents self) \<and> am_store self' = am_store self
      \<and> am_mempool_state self' = am_mempool_state self \<and> am_header self' = am_header self \<and> am_height self' = height_u64 height"
    using server_store.on_consensus_law [OF assms(1) w(1) h(1), of res fs False] h(2) w(2,3) by (auto simp: op_bind_def)
next
  fix h assume h: "am_header self = Some h" "okh h"
  obtain b self' st' where "run S app stop msg (Some ReqCommit) self = (Ok (ResCommit b), self')" "machine_wf invar self'" "am_store self' = Some st'"
      "ents st' = block_view ents self" "am_consensus_state self' = Some []" "am_mempool_state self' = Some []"
    unfolding run.simps using server_store.commit_law [OF assms h] by blast
  then show "\<exists>b self' st'. run S app stop msg (Some ReqCommit) self = (Ok (ResCommit b), self') \<and> machine_wf invar self'
      \<and> am_store self' = Some st' \<and> ents st' = block_view ents self \<and> block_view ents self' = block_view ents self
      \<and> am_consensus_state self' = Some [] \<and> am_mempool_state self' = Some []"
    by (intro exI [of _ b] exI [of _ self'] exI [of _ st']) (simp add: block_view_def)
qed

text \<open>An application that writes one entry.\<close>

definition put_app :: "bytes \<Rightarrow> bytes \<Rightarrow> ('s, unit, unit) application" where
  "put_app k v = \<lparr>ap_init_chain = (\<lambda>_. buf_put k v), ap_begin_block = (\<lambda>_. buf_put k v), ap_deliver_tx = (\<lambda>_. buf_put k v),
     ap_end_block = (\<lambda>_. buf_put k v), ap_check_tx = (\<lambda>_. buf_put k v), ap_query = (\<lambda>_ _. Ok ())\<rparr>"

lemma buf_put_buffered: "buffered (buf_put k v)"
proof -
  have "buf_store (snd (buf_put k v fs)) = buf_store fs" for fs :: "'s wrapped" by (cases fs) (simp add: buf_put_def)
  then show ?thesis by (auto simp: buffered_def buf_put_def)
qed

lemma new_machine:
  "machine_wf (\<lambda>s. buf_invar (\<lambda>_. True) (ms_store s)) (abci_machine_new mem_store_new skip)"
  "block_view (\<lambda>s. buf_ents (\<lambda>_. []) (ms_store s)) (abci_machine_new mem_store_new skip) = []"
  by (simp_all add: machine_wf_def abci_machine_new_def mem_store_new_def mapstore_new_def buf_invar_def block_view_def buf_ents_def)

lemma put_wrapped: "\<exists>fs. buf_put k v (block_store self) = (Ok (), fs) \<and> buf_map fs = [(k, Some v)]"
  by (simp add: buf_put_def block_store_def buf_wrap_def)

text \<open>A block with one transaction and its commit.\<close>

theorem block_handlers_accumulate_witness:
  "\<exists>self1 self2 self3 self4 b.
      run mem_abci_store (put_app [1] [7]) (Some 9) [] (Some (ReqBeginBlock () (Some \<lparr>hd_height = 5, hd_time = Some 0\<rparr>))) (abci_machine_new mem_store_new False)
        = (Ok (ResBeginBlock ()), self1)
    \<and> run mem_abci_store (put_app [2] [8]) None [] (Some (ReqDeliverTx ())) self1 = (Ok (ResDeliverTx ()), self2)
    \<and> run mem_abci_store (put_app [1] [9]) None [] (Some (ReqEndBlock () 5)) self2 = (Ok (ResEndBlock ()), self3)
    \<and> run mem_abci_store (put_app [1] [7]) None [] (Some ReqCommit) self3 = (Ok (ResCommit b), self4)
    \<and> buf_ents (\<lambda>_. []) (ms_store (the (am_store self4))) = [([1], [9]), ([2], [8])] \<and> am_mempool_state self4 = Some []"
proof -
  let ?ents = "\<lambda>s. buf_ents (\<lambda>_. []) (ms_store s)" and ?inv = "\<lambda>s. buf_invar (\<lambda>_. True) (ms_store s)"
  let ?self = "abci_machine_new mem_store_new False" and ?h = "\<lparr>hd_height = 5, hd_time = Some 0\<rparr> :: header"
  note acc = block_handlers_accumulate [OF mem_store.server_store_axioms, where req = "()" and msg = "[]" and res = "()"]
  have b: "buffered (ap_begin_block (put_app k v) ())" "buffered (ap_deliver_tx (put_app k v) ())" "buffered (ap_end_block (put_app k v) ())"
    for k v by (simp_all add: put_app_def buf_put_buffered)
  have p: "\<exists>fs. ap_begin_block (put_app k v) () (block_store self) = (Ok (), fs) \<and> buf_map fs = [(k, Some v)]"
    "\<exists>fs. ap_deliver_tx (put_app k v) () (block_store self) = (Ok (), fs) \<and> buf_map fs = [(k, Some v)]"
    "\<exists>fs. ap_end_block (put_app k v) () (block_store self) = (Ok (), fs) \<and> buf_map fs = [(k, Some v)]" for k v and self :: "mem_store abci_machine"
    using put_wrapped by (simp_all add: put_app_def)
  have adm: "admitted (Some 9) (Some ?h)" by (simp add: admitted_def)
  obtain f1 where f1: "ap_begin_block (put_app [1] [7]) () (block_store ?self) = (Ok (), f1)" "buf_map f1 = [([1], Some [7])]" using p(1) by blast
  obtain self1 where 1: "run mem_abci_store (put_app [1] [7]) (Some 9) [] (Some (ReqBeginBlock () (Some ?h))) ?self = (Ok (ResBeginBlock ()), self1)"
      "machine_wf ?inv self1" "block_view ?ents self1 = [([1], [7])]" "am_header self1 = Some ?h"
    using acc [OF new_machine(1), THEN conjunct1, rule_format, OF adm b(1) f1(1)] by (auto simp: f1(2) new_machine(2))
  obtain f2 where f2: "ap_deliver_tx (put_app [2] [8]) () (block_store self1) = (Ok (), f2)" "buf_map f2 = [([2], Some [8])]" using p(2) by blast
  obtain self2 where 2: "run mem_abci_store (put_app [2] [8]) None [] (Some (ReqDeliverTx ())) self1 = (Ok (ResDeliverTx ()), self2)"
      "machine_wf ?inv self2" "block_view ?ents self2 = [([1], [7]), ([2], [8])]" "am_header self2 = Some ?h"
    using acc [OF 1(2), THEN conjunct2, THEN conjunct1, rule_format, OF b(2) f2(1), of None] 1(4) by (auto simp: f2(2) 1(3))
  obtain f3 where f3: "ap_end_block (put_app [1] [9]) () (block_store self2) = (Ok (), f3)" "buf_map f3 = [([1], Some [9])]" using p(3) by blast
  obtain self3 where 3: "run mem_abci_store (put_app [1] [9]) None [] (Some (ReqEndBlock () 5)) self2 = (Ok (ResEndBlock ()), self3)"
      "machine_wf ?inv self3" "block_view ?ents self3 = [([1], [9]), ([2], [8])]" "am_header self3 = Some ?h"
    using acc [OF 2(2), THEN conjunct2, THEN conjunct2, THEN conjunct1, rule_format, OF b(3) f3(1), of None 5] 2(4) by (auto simp: f3(2) 2(3))
  obtain c self4 where 4: "run mem_abci_store (put_app [1] [7]) None [] (Some ReqCommit) self3 = (Ok (ResCommit c), self4)"
      "?ents (the (am_store self4)) = [([1], [9]), ([2], [8])]" "am_mempool_state self4 = Some []"
    using acc [OF 3(2), THEN conjunct2, THEN conjunct2, THEN conjunct2, rule_format, OF 3(4) TrueI, of "put_app [1] [7]" None]
    by (auto simp: 3(3))
  from 1(1) 2(1) 3(1) 4 show ?thesis by blast
qed

text \<open>
  (C4) Checking a transaction does not change the state of the block nor the store: it works on
  the mempool state, which the next commit resets.
\<close>

theorem check_tx_isolated:
  assumes "server_store S ents invar okh" and "machine_wf invar self" and "buffered (ap_check_tx app req)"
    and "ap_check_tx app req (check_store self) = (Ok res, fs)"
  shows "\<exists>m'. run S app stop msg (Some (ReqCheckTx req)) self = (Ok (ResCheckTx res), self\<lparr>am_mempool_state := Some m'\<rparr>)
    \<and> machine_wf invar (self\<lparr>am_mempool_state := Some m'\<rparr>)
    \<and> block_view ents (self\<lparr>am_mempool_state := Some m'\<rparr>) = block_view ents self"
proof -
  obtain m' where "on_mempool (ab_backing S) (ap_check_tx app req) self = (Ok res, self\<lparr>am_mempool_state := Some m'\<rparr>)" "bt_wf m'"
    using server_store.on_mempool_law [OF assms] by blast
  then show ?thesis using assms(2) by (intro exI [of _ m']) (auto simp: op_bind_def machine_wf_def block_view_def)
qed

theorem check_tx_isolated_witness:
  "\<exists>self'. run mem_abci_store (put_app [1] [7]) None [] (Some (ReqCheckTx ())) (abci_machine_new mem_store_new False)
      = (Ok (ResCheckTx ()), self') \<and> block_view (\<lambda>s. buf_ents (\<lambda>_. []) (ms_store s)) self' = []"
proof -
  let ?self = "abci_machine_new mem_store_new False" and ?inv = "\<lambda>s. buf_invar (\<lambda>_. True) (ms_store s)"
  have w: "machine_wf ?inv ?self" by (simp add: machine_wf_def abci_machine_new_def mem_store_new_def mapstore_new_def buf_invar_def)
  have b: "buffered (ap_check_tx (put_app [1] [7]) () :: (mem_store wrapped, unit) op)" by (simp add: put_app_def buf_put_buffered)
  obtain fs where "ap_check_tx (put_app [1] [7]) () (check_store ?self) = (Ok (), fs)" by (simp add: put_app_def buf_put_def)
  from check_tx_isolated [OF mem_store.server_store_axioms w b this, of None "[]"]
  have "\<exists>m'. run mem_abci_store (put_app [1] [7]) None [] (Some (ReqCheckTx ())) ?self = (Ok (ResCheckTx ()), ?self\<lparr>am_mempool_state := Some m'\<rparr>)
      \<and> block_view (\<lambda>s. buf_ents (\<lambda>_. []) (ms_store s)) (?self\<lparr>am_mempool_state := Some m'\<rparr>)
        = block_view (\<lambda>s. buf_ents (\<lambda>_. []) (ms_store s)) ?self" by blast
  then show ?thesis
    by (auto simp: block_view_def abci_machine_new_def mem_store_new_def mapstore_new_def buf_ents_def)
qed

text \<open>
  (C5) When the handler of InitChain, BeginBlock, DeliverTx, EndBlock or CheckTx fails, the request
  returns its error, which ends the loop, and the machine has lost its application, its store and
  the state that the handler worked on.  A request that needs one of them would panic from
  then on: all but Flush, Echo, SetOption, an InitChain that is skipped, and a BeginBlock past the
  stop height, which are answered as before.
\<close>

theorem failed_handler_stops_machine:
  assumes "machine_wf invar self" and "handler_result app stop self r = Some (Err e)"
  shows "\<exists>self'. run S app stop msg (Some r) self = (Err e, self') \<and> listen S app stop msg (Some r # reqs) self = (Err e, self')
    \<and> \<not> am_app self' \<and> am_store self' = None
    \<and> (case r of ReqCheckTx _ \<Rightarrow> am_mempool_state self' = None \<and> am_consensus_state self' = am_consensus_state self
       | _ \<Rightarrow> am_consensus_state self' = None \<and> am_mempool_state self' = am_mempool_state self)
    \<and> (\<forall>r'. if needs_store stop self r' then fst (run S app stop msg (Some r') self') = Panic
         else fst (run S app stop msg (Some r') self') = fst (run S app stop msg (Some r') self) \<and> snd (run S app stop msg (Some r') self') = self')"
proof -
  obtain self' where s': "run S app stop msg (Some r) self = (Err e, self')" "\<not> am_app self'" "am_store self' = None"
      "am_skip_init_chain self' = am_skip_init_chain self"
      "case r of ReqCheckTx _ \<Rightarrow> am_mempool_state self' = None \<and> am_consensus_state self' = am_consensus_state self
       | _ \<Rightarrow> am_consensus_state self' = None \<and> am_mempool_state self' = am_mempool_state self"
    using failed_handler_takes [OF assms, of S msg] by blast
  then show ?thesis
    using needs_store_panics [OF s'(2,3)] needs_store_answers [of stop self _ self' S app msg]
    by (intro exI [of _ self']) (auto simp: op_bind_def needs_store_cong [OF s'(4)])
qed

theorem failed_handler_stops_machine_witness:
  "\<exists>self'. run mem_abci_store ((put_app [1] [7])\<lparr>ap_end_block := \<lambda>_. op_err Error_Unknown\<rparr>) None [] (Some (ReqEndBlock () 3)) (abci_machine_new mem_store_new False)
      = (Err Error_Unknown, self')
    \<and> fst (run mem_abci_store ((put_app [1] [7])\<lparr>ap_end_block := \<lambda>_. op_err Error_Unknown\<rparr>) None [] (Some ReqCommit) self') = Panic
    \<and> fst (run mem_abci_store ((put_app [1] [7])\<lparr>ap_end_block := \<lambda>_. op_err Error_Unknown\<rparr>) None [] (Some ReqEcho) self') = Ok ResEcho"
proof -
  let ?self = "abci_machine_new mem_store_new False" and ?app = "(put_app [1] [7])\<lparr>ap_end_block := \<lambda>_. op_err Error_Unknown\<rparr>"
  have "handler_result ?app None ?self (ReqEndBlock () 3) = Some (Err Error_Unknown)" by (simp add: handler_result_def)
  note f = failed_handler_stops_machine [OF new_machine(1) this, where S = mem_abci_store and msg = "[]"]
  have n: "needs_store None ?self (ReqCommit :: unit abci_request)" "\<not> needs_store None ?self (ReqEcho :: unit abci_request)" by (simp_all add: needs_store_def)
  from f obtain self' where s': "run mem_abci_store ?app None [] (Some (ReqEndBlock () 3)) ?self = (Err Error_Unknown, self')"
      and r: "\<And>r'. if needs_store None ?self r' then fst (run mem_abci_store ?app None [] (Some r') self') = Panic
         else fst (run mem_abci_store ?app None [] (Some r') self') = fst (run mem_abci_store ?app None [] (Some r') ?self)
           \<and> snd (run mem_abci_store ?app None [] (Some r') self') = self'" by blast
  have "fst (run mem_abci_store ?app None [] (Some ReqCommit) self') = Panic" using r [of ReqCommit] n(1) by simp
  moreover have "fst (run mem_abci_store ?app None [] (Some ReqEcho) self') = Ok ResEcho" using r [of ReqEcho] n(2) by simp
  ultimately show ?thesis using s' by blast
qed

text \<open>
  (C6) On a Merk store, delivering a transaction moves what the block has written so far into
  the pending writes of the store, and leaves the consensus state empty.  From then on, until
  the commit, reads of single keys see these writes, but looking for the next key does not: it
  still finds the entries \<open>es\<close> of the last commit.
\<close>

theorem deliver_tx_hides_writes_from_iteration:
  assumes "merk_laws M ents auxs it_of cur" and "machine_wf merk_invar self" and "buffered (ap_deliver_tx app req)"
    and "ap_deliver_tx app req (block_store self) = (Ok res, fs)" and "am_store self = Some st0"
  shows "\<exists>self' st. run (merk_abci_store M state_sync now restore) app stop msg (Some (ReqDeliverTx req)) self = (Ok (ResDeliverTx res), self')
    \<and> am_store self' = Some st \<and> am_consensus_state self' = Some []
    \<and> (\<forall>k. merk_get M st k = Ok (map_of (overlay (buf_map fs) (block_view (merk_ents ents) self)) k))
    \<and> (\<forall>k. merk_get_next M st k = Ok (next_entry (ents (mk_merk st0)) k))"
proof -
  let ?S = "merk_abci_store M state_sync now restore"
  note srv = merk_laws.merk_server_store [OF assms(1), of state_sync now restore]
  obtain self' where s': "on_consensus (ab_backing ?S) True (ap_deliver_tx app req) self = (Ok res, self')" "machine_wf merk_invar self'"
      "block_view (merk_ents ents) self' = overlay (buf_map fs) (block_view (merk_ents ents) self)" "am_consensus_state self' = Some []"
    using server_store.on_consensus_law [OF srv assms(2-4), of True] by auto
  obtain st where st: "am_store self' = Some st" "merk_invar st" using s'(2) by (auto simp: machine_wf_def)
  have "mk_merk st = mk_merk st0" using on_consensus_tree [OF s'(1) [unfolded merk_abci_store_def, simplified] assms(3) assms(5) st(1)] .
  moreover have "merk_ents ents st = overlay (buf_map fs) (block_view (merk_ents ents) self)"
    using s'(3,4) st(1) by (simp add: block_view_def)
  ultimately show ?thesis
    using s'(1,4) st merk_laws.merk_get_law [OF assms(1)] merk_laws.merk_get_next_law [OF assms(1)]
    by (auto simp: op_bind_def merk_ents_def merk_invar_def)
qed

theorem deliver_tx_hides_writes_from_iteration_witness:
  "\<exists>self' st. run (merk_abci_store list_merk False 0 (\<lambda>_. op_ok ())) (put_app [3] [30]) None [] (Some (ReqDeliverTx ()))
      (abci_machine_new (list_store [([1], [10])] []) False) = (Ok (ResDeliverTx ()), self')
    \<and> am_store self' = Some st \<and> merk_get list_merk st [3] = Ok (Some [30]) \<and> merk_get_next list_merk st [1] = Ok None"
proof -
  let ?st = "list_store [([1], [10])] []"
  let ?self = "abci_machine_new ?st False" and ?app = "put_app [3] [30] :: ((list_tree, unit) merk_store, unit, unit) application"
  have w: "machine_wf merk_invar ?self" by (simp add: machine_wf_def abci_machine_new_def merk_invar_def)
  have b: "buffered (ap_deliver_tx ?app ())" by (simp add: put_app_def buf_put_buffered)
  obtain fs where fs: "ap_deliver_tx ?app () (block_store ?self) = (Ok (), fs)" "buf_map fs = [([3], Some [30])]"
    by (simp add: put_app_def buf_put_def block_store_def abci_machine_new_def buf_wrap_def)
  have st: "am_store ?self = Some ?st" by (simp add: abci_machine_new_def)
  have v: "block_view (merk_ents list_ents) ?self = [([1], [10])]"
    by (simp add: block_view_def abci_machine_new_def merk_ents_def list_ents_def)
  have n: "next_entry (list_ents (mk_merk ?st)) [1] = None" by (simp add: list_ents_def next_entry_def)
  from deliver_tx_hides_writes_from_iteration [OF list_merk.merk_laws_axioms w b fs(1) st, of False 0 "\<lambda>_. op_ok ()" None "[]"]
  obtain self' st' where "run (merk_abci_store list_merk False 0 (\<lambda>_. op_ok ())) ?app None [] (Some (ReqDeliverTx ())) ?self = (Ok (ResDeliverTx ()), self')"
      "am_store self' = Some st'" and g: "\<forall>k. merk_get list_merk st' k = Ok (map_of (overlay (buf_map fs) (block_view (merk_ents list_ents) ?self)) k)"
      "\<forall>k. merk_get_next list_merk st' k = Ok (next_entry (list_ents (mk_merk ?st)) k)" by blast
  moreover have "merk_get list_merk st' [3] = Ok (Some [30])" using g(1) fs(2) v by simp
  moreover have "merk_get_next list_merk st' [1] = Ok None" using g(2) n by simp
  ultimately show ?thesis by blast
qed

end
