(* ===== verification/Abci_Node.thy ===== *)
theory Abci_Node
  imports Abci_Server State_Traits
begin

text \<open>
  \<^verbatim>\<open>src/abci/node.rs\<close>: the application that the state machine runs.  Each request loads the whole
  state from the store, locks it, runs the call, and flushes the state back.

  The state is the ABCI plugin around the app; its implementation of \<^verbatim>\<open>State\<close>, its call and the
  decoder of transactions are the record \<open>node_app\<close>.  The contexts \<open>'x\<close> are global and survive
  a request; calls read the store, and write to it when the state is flushed.
\<close>

section \<open>Calls\<close>

datatype ('ri, 'rb, 're, 'c) abci_call = InitChain 'ri | BeginBlock 'rb | EndBlock 're | DeliverTx 'c | CheckTx 'c

record ('s, 'p, 'x, 'ri, 'rb, 're, 'c, 'u, 'ev) node_app =
  na_state :: "('s, 'p) state_ops"
  na_default :: 'p
  na_decode :: "bytes \<Rightarrow> ('c \<times> bytes) result"
  na_call :: "'s \<Rightarrow> ('ri, 'rb, 're, 'c) abci_call \<Rightarrow> ('p \<times> 'x, unit) op"
  na_take_updates :: "'p \<Rightarrow> 'u list option \<times> 'p"
  na_take_events :: "'p \<Rightarrow> 'ev list option \<times> 'p"
  na_take_logs :: "'p \<Rightarrow> string list option \<times> 'p"

text \<open>A mutex is poisoned when a panic occurs while it is locked.\<close>

datatype 'p mutex = Mutex (mx_value: 'p) (mx_poisoned: bool)

type_synonym ('p, 'x) locked = "'p mutex \<times> 'x"

definition lock_unwrap :: "('p \<times> 'x, 'a) op \<Rightarrow> (('p, 'x) locked, 'a) op" where
  "lock_unwrap f = (\<lambda>(m, x).
     if mx_poisoned m then (Panic, (m, x))
     else case f (mx_value m, x) of (r, (p, x')) \<Rightarrow> (r, (Mutex p (r = Panic), x')))"

text \<open>\<^verbatim>\<open>catch_unwind\<close> with the error the node puts in place of the panic.\<close>

definition catch_unwind :: "('s, 'a) op \<Rightarrow> ('s, 'a result) op" where
  "catch_unwind f = (\<lambda>s. case f s of
      (Panic, s') \<Rightarrow> (Ok (Err (Error_Call ''Panicked'')), s')
    | (r, s') \<Rightarrow> (Ok r, s'))"

definition on_plugin :: "('p \<Rightarrow> 'a \<times> 'p) \<Rightarrow> ('p \<times> 'x, 'a) op" where
  "on_plugin f = (\<lambda>(p, x). case f p of (a, p') \<Rightarrow> (Ok a, (p', x)))"

definition unwrap_or_default :: "'a list option \<Rightarrow> 'a list" where
  "unwrap_or_default x = (case x of Some xs \<Rightarrow> xs | None \<Rightarrow> [])"

section \<open>Running a request\<close>

text \<open>\<open>f\<close> is the closure; an error it returns is a value that \<^verbatim>\<open>run\<close> hands on after the state has
  been flushed.\<close>

definition initial_bytes :: "'s backing \<Rightarrow> ('s, 'p, 'x, 'ri, 'rb, 're, 'c, 'u, 'ev) node_app \<Rightarrow> ('s, bytes) op" where
  "initial_bytes bk A = op_bind (op_read (\<lambda>s. store_get (bk_read bk s) [] [])) (\<lambda>state_bytes. case state_bytes of
      Some inner \<Rightarrow> op_ok inner
    | None \<Rightarrow>
        (case st_attach (na_state A) [] (na_default A) of
           (Ok _, dflt) \<Rightarrow>
             op_bind (st_flush (na_state A) dflt) (\<lambda>encoded_bytes.
             op_bind (store_put bk [] [] encoded_bytes) (\<lambda>_. op_ok encoded_bytes))
         | (Err e, _) \<Rightarrow> op_err e
         | (Panic, _) \<Rightarrow> op_lift Panic))"

definition save_state :: "'s backing \<Rightarrow> ('s, 'p, 'x, 'ri, 'rb, 're, 'c, 'u, 'ev) node_app \<Rightarrow> 'p mutex \<Rightarrow> ('s, unit) op" where
  "save_state bk A m =
     (if mx_poisoned m then op_ok ()
      else op_bind (st_flush (na_state A) (mx_value m)) (\<lambda>bytes. store_put bk [] [] bytes))"

definition app_run :: "'s backing \<Rightarrow> ('s, 'p, 'x, 'ri, 'rb, 're, 'c, 'u, 'ev) node_app \<Rightarrow> ('s \<Rightarrow> (('p, 'x) locked, 'a) op) \<Rightarrow> ('s \<times> 'x, 'a) op" where
  "app_run bk A f = (\<lambda>(s, x). case initial_bytes bk A s of
      (Ok state_bytes, s) \<Rightarrow>
        (case st_load (na_state A) s [] state_bytes of
           Ok (p, _) \<Rightarrow>
             (case f s (Mutex p False, x) of
                (Panic, (m, x)) \<Rightarrow> (Panic, (s, x))
              | (res, (m, x)) \<Rightarrow>
                  (case save_state bk A m s of
                     (Ok _, s) \<Rightarrow> (res, (s, x))
                   | (Err e, s) \<Rightarrow> (Err e, (s, x))
                   | (Panic, s) \<Rightarrow> (Panic, (s, x))))
         | Err e \<Rightarrow> (Err e, (s, x))
         | Panic \<Rightarrow> (Panic, (s, x)))
    | (Err e, s) \<Rightarrow> (Err e, (s, x))
    | (Panic, s) \<Rightarrow> (Panic, (s, x)))"

section \<open>Handlers\<close>

definition node_init_chain :: "'s backing \<Rightarrow> ('s, 'p, 'x, 'ri, 'rb, 're, 'c, 'u, 'ev) node_app \<Rightarrow> 'ri \<Rightarrow> ('s \<times> 'x, 'u list) op" where
  "node_init_chain bk A req = app_run bk A (\<lambda>s. lock_unwrap (
     op_bind (na_call A s (InitChain req)) (\<lambda>_.
     op_bind (on_plugin (na_take_updates A)) (\<lambda>updates. op_lift (unwrap updates)))))"

definition node_begin_block :: "'s backing \<Rightarrow> ('s, 'p, 'x, 'ri, 'rb, 're, 'c, 'u, 'ev) node_app \<Rightarrow> 'rb \<Rightarrow> ('s \<times> 'x, 'ev list) op" where
  "node_begin_block bk A req = app_run bk A (\<lambda>s. lock_unwrap (
     op_bind (na_call A s (BeginBlock req)) (\<lambda>_.
     op_bind (on_plugin (na_take_events A)) (\<lambda>events.
     op_bind (on_plugin (na_take_logs A)) (\<lambda>logs. op_ok (unwrap_or_default events))))))"

text \<open>\<open>static_valset\<close> is the environment variable \<^verbatim>\<open>ORGA_STATIC_VALSET\<close>.\<close>

definition node_end_block :: "'s backing \<Rightarrow> ('s, 'p, 'x, 'ri, 'rb, 're, 'c, 'u, 'ev) node_app \<Rightarrow> string option \<Rightarrow> 're \<Rightarrow> ('s \<times> 'x, 'u list \<times> 'ev list) op" where
  "node_end_block bk A static_valset req = op_bind
     (app_run bk A (\<lambda>s. lock_unwrap (
       op_bind (na_call A s (EndBlock req)) (\<lambda>_.
       op_bind (on_plugin (na_take_updates A)) (\<lambda>updates.
       op_bind (op_lift (unwrap updates)) (\<lambda>updates.
       op_bind (on_plugin (na_take_events A)) (\<lambda>events.
       op_bind (on_plugin (na_take_logs A)) (\<lambda>logs. op_ok (updates, unwrap_or_default events)))))))))
     (\<lambda>(updates, events). op_ok
        (filter (\<lambda>_. case static_valset of Some flag \<Rightarrow> flag = ''0'' \<or> flag = ''false'' | None \<Rightarrow> True) updates, events))"

record 'ev tx_response =
  tx_code :: nat
  tx_log :: string
  tx_events :: "'ev list"

text \<open>\<^verbatim>\<open>join\<close> with line breaks.\<close>

fun join_lines :: "string list \<Rightarrow> string" where
  "join_lines [] = []"
| "join_lines [l] = l"
| "join_lines (l # ls) = l @ CHR 10 # join_lines ls"

text \<open>The response to a transaction.  \<open>text\<close> is the text of an error.\<close>

definition tx_result :: "(error \<Rightarrow> string) \<Rightarrow> unit result \<times> 'ev list \<times> string list \<Rightarrow> 'ev tx_response" where
  "tx_result text = (\<lambda>(res, events, logs). case res of
      Ok _ \<Rightarrow> \<lparr>tx_code = 0, tx_log = join_lines logs, tx_events = events\<rparr>
    | Err err \<Rightarrow> \<lparr>tx_code = 1, tx_log = (if logs = [] then text err else join_lines logs), tx_events = []\<rparr>
    | Panic \<Rightarrow> \<lparr>tx_code = 0, tx_log = [], tx_events = []\<rparr>)"

definition decode_and_call :: "('s, 'p, 'x, 'ri, 'rb, 're, 'c, 'u, 'ev) node_app \<Rightarrow> 's \<Rightarrow> ('c \<Rightarrow> ('ri, 'rb, 're, 'c) abci_call) \<Rightarrow> bytes \<Rightarrow> (('p, 'x) locked, unit) op" where
  "decode_and_call A s kind tx =
     op_bind (op_lift (na_decode A tx)) (\<lambda>(inner_call, _). lock_unwrap (na_call A s (kind inner_call)))"

definition take_events_logs :: "('s, 'p, 'x, 'ri, 'rb, 're, 'c, 'u, 'ev) node_app \<Rightarrow> ('p \<times> 'x, 'ev list \<times> string list) op" where
  "take_events_logs A =
     op_bind (on_plugin (na_take_events A)) (\<lambda>events.
     op_bind (on_plugin (na_take_logs A)) (\<lambda>logs. op_ok (unwrap_or_default events, unwrap_or_default logs)))"

definition node_deliver_tx :: "'s backing \<Rightarrow> ('s, 'p, 'x, 'ri, 'rb, 're, 'c, 'u, 'ev) node_app \<Rightarrow> (error \<Rightarrow> string) \<Rightarrow> bytes \<Rightarrow> ('s \<times> 'x, 'ev tx_response) op" where
  "node_deliver_tx bk A text tx = app_run bk A (\<lambda>s.
     op_bind (catch_unwind (decode_and_call A s DeliverTx tx)) (\<lambda>res.
     op_bind (lock_unwrap (take_events_logs A)) (\<lambda>(events, logs). op_ok (tx_result text (res, events, logs)))))"

definition node_check_tx :: "'s backing \<Rightarrow> ('s, 'p, 'x, 'ri, 'rb, 're, 'c, 'u, 'ev) node_app \<Rightarrow> (error \<Rightarrow> string) \<Rightarrow> bytes \<Rightarrow> ('s \<times> 'x, 'ev tx_response) op" where
  "node_check_tx bk A text tx = app_run bk A (\<lambda>s.
     op_bind (catch_unwind (decode_and_call A s CheckTx tx)) (\<lambda>res (m, x).
       if mx_poisoned m then (Ok (tx_result text (res, [], [])), (m, x))
       else op_bind (lock_unwrap (take_events_logs A)) (\<lambda>(events, logs). op_ok (tx_result text (res, events, logs))) (m, x)))"

section \<open>Properties\<close>

text \<open>The state in the store.\<close>

definition loaded :: "'s backing \<Rightarrow> ('s, 'p, 'x, 'ri, 'rb, 're, 'c, 'u, 'ev) node_app \<Rightarrow> 's \<Rightarrow> 'p \<Rightarrow> bool" where
  "loaded bk A s p \<longleftrightarrow> (\<exists>bs rest. store_get (bk_read bk s) [] [] = Ok (Some bs) \<and> st_load (na_state A) s [] bs = Ok (p, rest))"

lemma app_run_loaded:
  assumes "loaded bk A s p"
  shows "app_run bk A f (s, x) = (case f s (Mutex p False, x) of
      (Panic, (m, x)) \<Rightarrow> (Panic, (s, x))
    | (res, (m, x)) \<Rightarrow> (case save_state bk A m s of
        (Ok _, s) \<Rightarrow> (res, (s, x)) | (Err e, s) \<Rightarrow> (Err e, (s, x)) | (Panic, s) \<Rightarrow> (Panic, (s, x))))"
proof -
  obtain bs rest where "store_get (bk_read bk s) [] [] = Ok (Some bs)" "st_load (na_state A) s [] bs = Ok (p, rest)"
    using assms by (auto simp: loaded_def)
  then show ?thesis by (simp add: app_run_def initial_bytes_def op_bind_def)
qed

text \<open>A store that holds a byte as the state of an app whose calls replace the byte, fail on 1 after
  replacing it, and panic on 2.\<close>

definition byte_app :: "(mapstore, byte, unit, unit, unit, unit, byte, unit, unit) node_app" where
  "byte_app = \<lparr>na_state = leaf_state word_codec, na_default = 0, na_decode = dec word_codec,
     na_call = (\<lambda>_ c (p, x). case c of
         DeliverTx b \<Rightarrow> (if b = 2 then Panic else if b = 1 then Err Error_Unknown else Ok (), (b, x))
       | CheckTx b \<Rightarrow> (if b = 2 then Panic else if b = 1 then Err Error_Unknown else Ok (), (b, x))
       | _ \<Rightarrow> (Ok (), (p, x))),
     na_take_updates = (\<lambda>p. (Some [], p)), na_take_events = (\<lambda>p. (None, p)), na_take_logs = (\<lambda>p. (None, p))\<rparr>"

abbreviation byte_store :: "byte \<Rightarrow> mapstore" where
  "byte_store b \<equiv> \<lparr>buf_map = [([], Some [b])], buf_store = ()\<rparr>"

lemma byte_loaded: "loaded mapstore_backing byte_app (byte_store b) b"
  by (simp add: loaded_def store_get_def store_concat_def mapstore_backing_def buf_backing_def buf_reader_def buf_get_def byte_app_def leaf_state_def)

text \<open>
  (C7) Delivering a transaction: whether the call succeeds or fails, the state as the call left
  it is flushed to the store, so that a failed transaction keeps the changes made before the
  failure; the response has code 0 or 1.  If the call panics, so does the node.
\<close>

theorem deliver_tx_outcomes:
  assumes "loaded bk A s p" and "na_decode A tx = Ok (c, r)" and "na_call A s (DeliverTx c) (p, x) = (res, (p1, x1))"
  shows "if res = Panic then fst (node_deliver_tx bk A text tx (s, x)) = Panic
    else let (ev, p2) = na_take_events A p1; (lg, p3) = na_take_logs A p2;
             response = tx_result text (res, unwrap_or_default ev, unwrap_or_default lg)
      in tx_code response = (if res = Ok () then 0 else 1)
        \<and> node_deliver_tx bk A text tx (s, x) = (case op_bind (st_flush (na_state A) p3) (store_put bk [] []) s of
            (Ok _, s') \<Rightarrow> (Ok response, (s', x1)) | (Err e, s') \<Rightarrow> (Err e, (s', x1)) | (Panic, s') \<Rightarrow> (Panic, (s', x1)))"
proof -
  obtain ev p2 lg p3 where e: "na_take_events A p1 = (ev, p2)" "na_take_logs A p2 = (lg, p3)" by force
  have dc: "decode_and_call A s DeliverTx tx (Mutex p False, x) = (res, (Mutex p1 (res = Panic), x1))"
    using assms(2,3) by (simp add: decode_and_call_def lock_unwrap_def)
  show ?thesis
    unfolding node_deliver_tx_def app_run_loaded [OF assms(1)]
    using e dc by (cases res)
      (auto simp: op_bind_def catch_unwind_def lock_unwrap_def take_events_logs_def on_plugin_def tx_result_def save_state_def Let_def split: prod.splits result.splits)
qed

theorem deliver_tx_outcomes_witness:
  "fst (node_deliver_tx mapstore_backing byte_app (\<lambda>_. []) [2] (byte_store 9, ())) = Panic
   \<and> node_deliver_tx mapstore_backing byte_app (\<lambda>_. []) [1] (byte_store 9, ())
      = (Ok \<lparr>tx_code = 1, tx_log = [], tx_events = []\<rparr>, (byte_store 1, ()))"
proof -
  have "op_bind (st_flush (na_state byte_app) 1) (store_put mapstore_backing [] []) (byte_store 9) = (Ok (), byte_store 1)"
    by (simp add: byte_app_def leaf_state_def op_bind_def store_put_def store_concat_def mapstore_backing_def
        buf_backing_def buf_put_def)
  then show ?thesis
    using deliver_tx_outcomes [OF byte_loaded [of 9], of "[1]" 1 "[]" "()" "Err Error_Unknown" 1 "()" "\<lambda>_. []"]
      deliver_tx_outcomes [OF byte_loaded [of 9], of "[2]" 2 "[]" "()" Panic 2 "()" "\<lambda>_. []"]
    by (simp add: byte_app_def tx_result_def unwrap_or_default_def)
qed

text \<open>
  (C8) Checking a transaction whose call panics gives a response with code 1 and leaves the
  store as it was, since the poisoned state is not flushed; delivering it panics.
\<close>

theorem check_tx_survives_panic:
  assumes "loaded bk A s p" and "na_decode A tx = Ok (c, r)" and "na_call A s (CheckTx c) (p, x) = (Panic, (p1, x1))"
    and "na_call A s (DeliverTx c) (p, x) = (Panic, (p1, x1))"
  shows "node_check_tx bk A text tx (s, x) = (Ok \<lparr>tx_code = 1, tx_log = text (Error_Call ''Panicked''), tx_events = []\<rparr>, (s, x1))
    \<and> fst (node_deliver_tx bk A text tx (s, x)) = Panic"
proof -
  have "decode_and_call A s CheckTx tx (Mutex p False, x) = (Panic, (Mutex p1 True, x1))"
      "decode_and_call A s DeliverTx tx (Mutex p False, x) = (Panic, (Mutex p1 True, x1))"
    using assms(2-4) by (simp_all add: decode_and_call_def lock_unwrap_def)
  then show ?thesis
    unfolding node_deliver_tx_def node_check_tx_def app_run_loaded [OF assms(1)]
    by (simp add: op_bind_def catch_unwind_def lock_unwrap_def save_state_def tx_result_def)
qed

theorem check_tx_survives_panic_witness:
  "node_check_tx mapstore_backing byte_app (\<lambda>_. []) [2] (byte_store 9, ()) = (Ok \<lparr>tx_code = 1, tx_log = [], tx_events = []\<rparr>, (byte_store 9, ()))"
  using check_tx_survives_panic [OF byte_loaded [of 9], of "[2]" 2 "[]" "()" 2 "()" "\<lambda>_. []"] by (simp add: byte_app_def)

end
