(* ===== verification/Abci_Plugin.thy ===== *)
theory Abci_Plugin
  imports Validator_Set Abci_Node
begin

text \<open>
  \<^verbatim>\<open>ABCIPlugin\<close> of \<^verbatim>\<open>src/plugins/abci.rs\<close>: the outermost value of an app, which turns the
  requests of the node into calls of the app with the contexts \<^verbatim>\<open>Validators\<close>, \<^verbatim>\<open>Time\<close>, \<^verbatim>\<open>Events\<close>
  and \<^verbatim>\<open>Logs\<close>, and afterwards applies the updates of the validator set.
\<close>

section \<open>Requests\<close>

record timestamp =
  ts_seconds :: int
  ts_nanos :: int

record request_init_chain =
  ri_time :: "timestamp option"
  ri_chain_id :: string
  ri_validators :: "validator_update list"
  ri_app_state_bytes :: bytes
  ri_initial_height :: int

record init_chain_ctx =
  ic_time :: "timestamp option"
  ic_chain_id :: string
  ic_validators :: "validator list"
  ic_app_state_bytes :: bytes
  ic_initial_height :: int

fun map_result :: "('a \<Rightarrow> 'b result) \<Rightarrow> 'a list \<Rightarrow> 'b list result" where
  "map_result f [] = Ok []"
| "map_result f (x # xs) = and_then (f x) (\<lambda>y. and_then (map_result f xs) (\<lambda>ys. Ok (y # ys)))"

definition init_chain_ctx_from :: "request_init_chain \<Rightarrow> init_chain_ctx result" where
  "init_chain_ctx_from req = and_then (map_result validator_from_update (ri_validators req)) (\<lambda>validators.
     Ok \<lparr>ic_time = ri_time req, ic_chain_id = ri_chain_id req, ic_validators = validators,
         ic_app_state_bytes = ri_app_state_bytes req, ic_initial_height = ri_initial_height req\<rparr>)"

text \<open>A header, of which the fields that this file reads are named, the last commit and the
  evidence of misbehaviour, which it passes on.\<close>

record header =
  hd_height :: int
  hd_time :: "timestamp option"

record ('h, 'l, 'e) request_begin_block =
  rb_hash :: bytes
  rb_header :: "'h header_scheme option"
  rb_last_commit_info :: "'l option"
  rb_byzantine_validators :: "'e list"

record ('h, 'l, 'e) begin_block_ctx =
  bb_hash :: bytes
  bb_height :: u64
  bb_header :: "'h header_scheme"
  bb_last_commit_info :: "'l option"
  bb_byzantine_validators :: "'e list"

definition begin_block_ctx_from :: "('h, 'l, 'e) request_begin_block \<Rightarrow> ('h, 'l, 'e) begin_block_ctx result" where
  "begin_block_ctx_from req = and_then (unwrap (rb_header req)) (\<lambda>header.
     Ok \<lparr>bb_hash = rb_hash req, bb_height = word_of_int (hd_height header), bb_header = header,
         bb_last_commit_info = rb_last_commit_info req, bb_byzantine_validators = rb_byzantine_validators req\<rparr>)"

record request_end_block =
  re_height :: int

record end_block_ctx =
  eb_height :: u64

definition end_block_ctx_from :: "request_end_block \<Rightarrow> end_block_ctx" where
  "end_block_ctx_from req = \<lparr>eb_height = word_of_int (re_height req)\<rparr>"

type_synonym ('h, 'l, 'e, 'c) plugin_call =
  "(request_init_chain, ('h, 'l, 'e) request_begin_block, request_end_block, 'c) abci_call"

section \<open>The plugin\<close>

record 't abci_plugin =
  ab_inner :: 't
  ab_validator_updates :: "update_map option"
  ab_updates :: "(bytes, validator_update) omap"
  ab_time :: "timestamp option"
  ab_events :: "event list option"
  ab_cells :: validator_cells
  ab_logs :: "string list option"

definition abci_plugin_default :: "'t \<Rightarrow> 't abci_plugin" where
  "abci_plugin_default inner = \<lparr>ab_inner = inner, ab_validator_updates = None, ab_updates = map_new, ab_time = None,
     ab_events = None, ab_cells = \<lparr>vc_current_vp = Some entry_map_new, vc_cons_key = Some map_new\<rparr>, ab_logs = None\<rparr>"

text \<open>The methods of the app that the plugin calls.\<close>

type_synonym ('t, 'z) abci_world = "'t \<times> 'z abci_contexts_scheme"

record ('t, 'z, 'h, 'l, 'e, 'c) app =
  ap_init_chain :: "init_chain_ctx \<Rightarrow> (('t, 'z) abci_world, unit) op"
  ap_begin_block :: "('h, 'l, 'e) begin_block_ctx \<Rightarrow> (('t, 'z) abci_world, unit) op"
  ap_end_block :: "end_block_ctx \<Rightarrow> (('t, 'z) abci_world, unit) op"
  ap_call :: "'c \<Rightarrow> (('t, 'z) abci_world, unit) op"

definition on_app :: "(('t, 'z) abci_world, 'a) op \<Rightarrow> (('t abci_plugin, 'z) abci_world, 'a) op" where
  "on_app f = (\<lambda>(p, cx). case f (ab_inner p, cx) of (r, (t, cx')) \<Rightarrow> (r, (p\<lparr>ab_inner := t\<rparr>, cx')))"

definition on_plugin_fields :: "('t abci_plugin \<Rightarrow> 't abci_plugin) \<Rightarrow> (('t abci_plugin, 'z) abci_world, unit) op" where
  "on_plugin_fields f = op_upd (\<lambda>(p, cx). (f p, cx))"

definition on_cx :: "('z abci_contexts_scheme \<Rightarrow> 'z abci_contexts_scheme) \<Rightarrow> ('t \<times> 'z abci_contexts_scheme, unit) op" where
  "on_cx f = op_upd (\<lambda>(t, cx). (t, f cx))"

section \<open>Calls\<close>

definition create_time_ctx :: "(('t abci_plugin, 'z) abci_world, unit) op" where
  "create_time_ctx = op_upd (\<lambda>(p, cx). (p, case ab_time p of
      Some t \<Rightarrow> context_add cx_time_update \<lparr>tm_seconds = ts_seconds t, tm_nanos = ts_nanos t\<rparr> cx
    | None \<Rightarrow> cx))"

text \<open>\<^verbatim>\<open>let res = ...\<close> with the result as a value; a panic still unwinds.\<close>

definition op_try :: "('s, 'a) op \<Rightarrow> ('s, 'a result) op" where
  "op_try f = (\<lambda>st. case f st of (Panic, st') \<Rightarrow> (Panic, st') | (r, st') \<Rightarrow> (Ok r, st'))"

text \<open>The part that the requests other than \<^verbatim>\<open>InitChain\<close> share: \<open>prepare\<close> is what they do between
  setting up the contexts and the call of the app.\<close>

definition with_events_logs :: "(('t abci_plugin, 'z) abci_world, 'x) op \<Rightarrow> ('x \<Rightarrow> (('t, 'z) abci_world, unit) op)
    \<Rightarrow> (('t abci_plugin, 'z) abci_world, unit) op" where
  "with_events_logs prepare f =
     op_bind (on_cx (context_add cx_events_update [])) (\<lambda>_.
     op_bind (on_cx (context_add cx_logs_update [])) (\<lambda>_.
     op_bind (on_plugin_fields (ab_events_update (\<lambda>_. Some []))) (\<lambda>_.
     op_bind (on_plugin_fields (ab_logs_update (\<lambda>_. Some []))) (\<lambda>_.
     op_bind prepare (\<lambda>ctx.
     op_bind (op_try (on_app (f ctx))) (\<lambda>res.
     op_bind (if is_ok res
       then op_bind (op_read (\<lambda>(p, cx). unwrap (context_resolve cx_events cx))) (\<lambda>events.
            on_plugin_fields (ab_events_update (\<lambda>_. Some events)))
       else op_ok ()) (\<lambda>_.
     op_bind (op_read (\<lambda>(p, cx). unwrap (context_resolve cx_logs cx))) (\<lambda>messages.
     op_bind (on_plugin_fields (ab_logs_update (\<lambda>_. Some messages))) (\<lambda>_.
     op_bind (on_cx (context_remove cx_events_update)) (\<lambda>_.
     op_bind (on_cx (context_remove cx_logs_update)) (\<lambda>_.
     op_lift res)))))))))))"

definition abci_dispatch :: "('t, 'z, 'h, 'l, 'e, 'c) app \<Rightarrow> ('h, 'l, 'e, 'c) plugin_call \<Rightarrow> (('t abci_plugin, 'z) abci_world, unit) op" where
  "abci_dispatch app call = (case call of
      InitChain req \<Rightarrow>
        op_bind (op_lift (init_chain_ctx_from req)) (\<lambda>ctx.
        op_bind (on_plugin_fields (ab_time_update (\<lambda>_. ic_time ctx))) (\<lambda>_.
        op_bind create_time_ctx (\<lambda>_. on_app (ap_init_chain app ctx))))
    | BeginBlock req \<Rightarrow> with_events_logs
        (op_bind (op_lift (begin_block_ctx_from req)) (\<lambda>ctx.
         op_bind (on_plugin_fields (ab_time_update (\<lambda>_. hd_time (bb_header ctx)))) (\<lambda>_.
         op_bind create_time_ctx (\<lambda>_. op_ok ctx))))
        (ap_begin_block app)
    | EndBlock req \<Rightarrow> with_events_logs (op_ok (end_block_ctx_from req)) (ap_end_block app)
    | DeliverTx inner_call \<Rightarrow> with_events_logs (op_ok inner_call) (ap_call app)
    | CheckTx inner_call \<Rightarrow> with_events_logs (op_ok inner_call) (ap_call app))"

text \<open>The loop over the updates of the call.\<close>

definition on_updates :: "((bytes, validator_update) omap, 'a) op \<Rightarrow> (('t abci_plugin, 'z) abci_world, 'a) op" where
  "on_updates f = (\<lambda>(p, cx). case f (ab_updates p) of (r, m) \<Rightarrow> (r, (p\<lparr>ab_updates := m\<rparr>, cx)))"

definition on_current :: "((bytes, u64) entry_map, 'a) op \<Rightarrow> (('t abci_plugin, 'z) abci_world, 'a) op" where
  "on_current f = (\<lambda>(p, cx). case vc_current_vp (cx_cells cx) of
      None \<Rightarrow> (Panic, (p, cx))
    | Some em \<Rightarrow> (case f em of (r, em') \<Rightarrow> (r, (p, cx\<lparr>cx_cells := (cx_cells cx)\<lparr>vc_current_vp := Some em'\<rparr>\<rparr>))))"

fun apply_updates :: "'s abci_types \<Rightarrow> 's \<Rightarrow> update_map \<Rightarrow> (('t abci_plugin, 'z) abci_world, unit) op" where
  "apply_updates A s [] = op_ok ()"
| "apply_updates A s ((pubkey, update) # ups) =
     op_bind (on_updates (map_insert (at_updates A) pubkey update)) (\<lambda>_.
     op_bind (on_current
       (if 0 < vu_power update
        then entry_map_insert (at_current A) validator_entry_ops \<lparr>ve_pubkey = pubkey, ve_power = word_of_int (vu_power update)\<rparr>
        else entry_map_delete (at_current A) validator_entry_ops s \<lparr>ve_pubkey = pubkey, ve_power = 0\<rparr>)) (\<lambda>_.
     apply_updates A s ups))"

definition build_updates :: "'s abci_types \<Rightarrow> 's \<Rightarrow> (('t abci_plugin, 'z) abci_world, unit) op" where
  "build_updates A s =
     op_bind (op_read (\<lambda>(p, cx). map_to_list (at_updates A) (at_bytes A) (ab_updates p) s)) (\<lambda>es.
     op_bind (on_updates (remove_keys (at_updates A) s (map fst es))) (\<lambda>_.
     on_plugin_fields (ab_validator_updates_update (\<lambda>_. Some (fold (\<lambda>(k, u). AList.update k u) es [])))))"

text \<open>\<^verbatim>\<open>call\<close>.  The \<^verbatim>\<open>ContextRemover\<close> drops the context \<^verbatim>\<open>Validators\<close> however the call ends.\<close>

definition abci_call_body :: "'s abci_types \<Rightarrow> 's \<Rightarrow> ('t, 'z, 'h, 'l, 'e, 'c) app \<Rightarrow> ('h, 'l, 'e, 'c) plugin_call
    \<Rightarrow> (('t abci_plugin, 'z) abci_world, unit) op" where
  "abci_call_body A s app call =
     op_bind (on_cx (context_add cx_validators_update validators_new)) (\<lambda>_.
     op_bind create_time_ctx (\<lambda>_.
     op_bind (abci_dispatch app call) (\<lambda>_.
     op_bind (op_read (\<lambda>(p, cx). unwrap (context_resolve cx_validators cx))) (\<lambda>updates.
     op_bind (on_current (op_ok ())) (\<lambda>_.
     op_bind (apply_updates A s (at_order A updates)) (\<lambda>_. build_updates A s))))))"

definition abci_plugin_call :: "'s abci_types \<Rightarrow> 's \<Rightarrow> ('t, 'z, 'h, 'l, 'e, 'c) app \<Rightarrow> ('h, 'l, 'e, 'c) plugin_call
    \<Rightarrow> (('t abci_plugin, 'z) abci_world, unit) op" where
  "abci_plugin_call A s app call = (\<lambda>(p, cx).
     case abci_call_body A s app call (p, cx\<lparr>cx_cells := ab_cells p\<rparr>) of
       (r, (p', cx')) \<Rightarrow> (r, (p'\<lparr>ab_cells := cx_cells cx'\<rparr>, context_remove cx_validators_update cx')))"

section \<open>State\<close>

definition on_field :: "('p \<Rightarrow> 'a) \<Rightarrow> (('a \<Rightarrow> 'a) \<Rightarrow> 'p \<Rightarrow> 'p) \<Rightarrow> ('a, 'b) op \<Rightarrow> ('p, 'b) op" where
  "on_field sel upd f = (\<lambda>p. case f (sel p) of (r, x) \<Rightarrow> (r, upd (\<lambda>_. x) p))"

definition abci_attach :: "'s abci_types \<Rightarrow> ('s, 't) state_ops \<Rightarrow> byte codec \<Rightarrow> bytes \<Rightarrow> ('t abci_plugin, unit) op" where
  "abci_attach A T u8c store =
     op_bind (on_field ab_inner ab_inner_update (st_attach T (store_sub store [0]))) (\<lambda>_.
     op_bind (on_field ab_updates ab_updates_update (map_attach (at_updates A) (store_sub store [1]))) (\<lambda>_.
     op_bind (on_field ab_cells ab_cells_update (on_field vc_current_vp vc_current_vp_update
       (st_attach (option_state (map_state (at_current A)) u8c) (store_sub store [2])))) (\<lambda>_.
     on_field ab_cells ab_cells_update (on_field vc_cons_key vc_cons_key_update
       (st_attach (option_state (map_state (at_operators A)) u8c) (store_sub store [3]))))))"

text \<open>The bytes of the two cells are written to a buffer that is dropped.\<close>

definition abci_flush :: "bool \<Rightarrow> 's abci_types \<Rightarrow> ('s, 't) state_ops \<Rightarrow> byte codec \<Rightarrow> 't abci_plugin \<Rightarrow> ('s, bytes) op" where
  "abci_flush compat_mode A T u8c p =
     op_bind (st_flush T (ab_inner p)) (\<lambda>inner.
     op_bind (st_flush (map_state (at_updates A)) (ab_updates p)) (\<lambda>updates.
     op_bind (st_flush (option_state (map_state (at_current A)) u8c) (vc_current_vp (ab_cells p))) (\<lambda>_.
     op_bind (st_flush (option_state (map_state (at_operators A)) u8c) (vc_cons_key (ab_cells p))) (\<lambda>_.
     op_ok ((if compat_mode then [] else [0]) @ inner @ updates)))))"

definition abci_load :: "bool \<Rightarrow> (byte \<Rightarrow> byte \<Rightarrow> string) \<Rightarrow> 's abci_types \<Rightarrow> ('s, 't) state_ops \<Rightarrow> 's \<Rightarrow> bytes \<Rightarrow> bytes
    \<Rightarrow> ('t abci_plugin \<times> bytes) result" where
  "abci_load compat_mode msg A T s store bytes = (case
     op_bind (load_child compat_mode msg T s) (\<lambda>inner.
     op_bind (load_child compat_mode msg (map_state (at_updates A)) s) (\<lambda>updates.
     op_bind (load_child compat_mode msg (map_state (at_current A)) s) (\<lambda>current_vp.
     op_bind (load_child compat_mode msg (map_state (at_operators A)) s) (\<lambda>cons_key_by_op_addr.
     op_ok \<lparr>ab_inner = inner, ab_validator_updates = None, ab_updates = updates, ab_time = None, ab_events = None,
       ab_cells = \<lparr>vc_current_vp = Some current_vp, vc_cons_key = Some cons_key_by_op_addr\<rparr>, ab_logs = None\<rparr>))))
     (loader_new store bytes 0) of
       (Ok p, l) \<Rightarrow> Ok (p, ld_bytes l)
     | (Err e, _) \<Rightarrow> Err e
     | (Panic, _) \<Rightarrow> Panic)"

definition abci_state :: "bool \<Rightarrow> (byte \<Rightarrow> byte \<Rightarrow> string) \<Rightarrow> 's abci_types \<Rightarrow> ('s, 't) state_ops \<Rightarrow> byte codec \<Rightarrow> ('s, 't abci_plugin) state_ops" where
  "abci_state compat_mode msg A T u8c = \<lparr>st_attach = abci_attach A T u8c, st_flush = abci_flush compat_mode A T u8c,
     st_load = abci_load compat_mode msg A T\<rparr>"

text \<open>The plugin as the node runs it; the updates are drained in the order of the \<^verbatim>\<open>HashMap\<close>.\<close>

definition abci_node_app :: "bool \<Rightarrow> (byte \<Rightarrow> byte \<Rightarrow> string) \<Rightarrow> 's abci_types \<Rightarrow> ('s, 't) state_ops \<Rightarrow> byte codec \<Rightarrow> 't
    \<Rightarrow> (bytes \<Rightarrow> ('c \<times> bytes) result) \<Rightarrow> ('s \<Rightarrow> ('t, 'z, 'h, 'l, 'e, 'c) app)
    \<Rightarrow> ('s, 't abci_plugin, 'z abci_contexts_scheme, request_init_chain, ('h, 'l, 'e) request_begin_block, request_end_block, 'c,
        validator_update, event) node_app" where
  "abci_node_app compat_mode msg A T u8c dflt decode app = \<lparr>
     na_state = abci_state compat_mode msg A T u8c,
     na_default = abci_plugin_default dflt,
     na_decode = decode,
     na_call = (\<lambda>s. abci_plugin_call A s (app s)),
     na_take_updates = (\<lambda>p. (map_option (\<lambda>ups. map snd (at_order A ups)) (ab_validator_updates p), p\<lparr>ab_validator_updates := None\<rparr>)),
     na_take_events = (\<lambda>p. (ab_events p, p\<lparr>ab_events := None\<rparr>)),
     na_take_logs = (\<lambda>p. (ab_logs p, p\<lparr>ab_logs := None\<rparr>))\<rparr>"

section \<open>Apps that change validators through the context\<close>

text \<open>While a call runs, the validator set differs from what it was only at keys with an
  update.\<close>

definition tracks :: "((bytes, u64) entry_map \<Rightarrow> 's \<Rightarrow> bytes \<Rightarrow> u64 option) \<Rightarrow> ((bytes, u64) entry_map \<Rightarrow> 's \<Rightarrow> bool) \<Rightarrow> ((bytes, bytes) omap \<Rightarrow> 's \<Rightarrow> bool)
    \<Rightarrow> (validator_update \<Rightarrow> bool) \<Rightarrow> (bytes \<Rightarrow> u64 option) \<Rightarrow> 's \<Rightarrow> 'z abci_contexts_scheme \<Rightarrow> bool" where
  "tracks clook cwf owf uok L s cx \<longleftrightarrow> (\<exists>ups. cx_validators cx = Some ups \<and> updates_ok uok ups \<and> cells_ok cwf owf (cx_cells cx) s
     \<and> (\<forall>k. pubkey_ok k \<longrightarrow> map_of ups k = None \<longrightarrow> vp_of clook (cx_cells cx) s k = L k))"

definition through_validators :: "((bytes, u64) entry_map \<Rightarrow> 's \<Rightarrow> bytes \<Rightarrow> u64 option) \<Rightarrow> ((bytes, u64) entry_map \<Rightarrow> 's \<Rightarrow> bool) \<Rightarrow> ((bytes, bytes) omap \<Rightarrow> 's \<Rightarrow> bool)
    \<Rightarrow> (validator_update \<Rightarrow> bool) \<Rightarrow> 's \<Rightarrow> (('t, 'z) abci_world, 'a) op \<Rightarrow> bool" where
  "through_validators clook cwf owf uok s f \<longleftrightarrow> (\<forall>L. op_keeps (\<lambda>(t, cx). tracks clook cwf owf uok L s cx) f)"

definition app_through_validators :: "((bytes, u64) entry_map \<Rightarrow> 's \<Rightarrow> bytes \<Rightarrow> u64 option) \<Rightarrow> ((bytes, u64) entry_map \<Rightarrow> 's \<Rightarrow> bool) \<Rightarrow> ((bytes, bytes) omap \<Rightarrow> 's \<Rightarrow> bool)
    \<Rightarrow> (validator_update \<Rightarrow> bool) \<Rightarrow> 's \<Rightarrow> ('t, 'z, 'h, 'l, 'e, 'c) app \<Rightarrow> bool" where
  "app_through_validators clook cwf owf uok s app \<longleftrightarrow>
     (\<forall>ctx. through_validators clook cwf owf uok s (ap_init_chain app ctx)) \<and> (\<forall>ctx. through_validators clook cwf owf uok s (ap_begin_block app ctx))
   \<and> (\<forall>ctx. through_validators clook cwf owf uok s (ap_end_block app ctx)) \<and> (\<forall>c. through_validators clook cwf owf uok s (ap_call app c))"

text \<open>The validator set after a list of updates.\<close>

definition power_of :: "validator_update \<Rightarrow> u64 option" where
  "power_of u = (if 0 < vu_power u then Some (word_of_int (vu_power u)) else None)"

definition updated :: "(bytes \<Rightarrow> u64 option) \<Rightarrow> update_map \<Rightarrow> bytes \<Rightarrow> u64 option" where
  "updated f ups k = (case map_of ups k of Some u \<Rightarrow> power_of u | None \<Rightarrow> f k)"

text \<open>A plugin between calls: no updates are left.\<close>

definition plugin_ok :: "((bytes, validator_update) omap \<Rightarrow> 's \<Rightarrow> bytes \<Rightarrow> validator_update option) \<Rightarrow> ((bytes, validator_update) omap \<Rightarrow> 's \<Rightarrow> bool)
    \<Rightarrow> ((bytes, u64) entry_map \<Rightarrow> 's \<Rightarrow> bool) \<Rightarrow> ((bytes, bytes) omap \<Rightarrow> 's \<Rightarrow> bool) \<Rightarrow> 't abci_plugin \<Rightarrow> 's \<Rightarrow> bool" where
  "plugin_ok ulook uwf cwf owf p s \<longleftrightarrow> uwf (ab_updates p) s \<and> (\<forall>k. pubkey_ok k \<longrightarrow> ulook (ab_updates p) s k = None) \<and> cells_ok cwf owf (ab_cells p) s"

lemma map_of_alist_update: "map_of (AList.update k v al) k' = (if k' = k then Some v else map_of al k')"
  by (simp add: update_conv')

lemma updates_ok_update: "updates_ok uok ups \<Longrightarrow> pubkey_ok k \<Longrightarrow> uok u \<Longrightarrow> updates_ok uok (AList.update k u ups)"
  by (auto simp: updates_ok_def map_of_alist_update distinct_update)

lemma updates_ok_Nil [simp]: "updates_ok uok []"
  by (simp add: updates_ok_def)

context validator_maps
begin

abbreviation following :: "(bytes \<Rightarrow> u64 option) \<Rightarrow> 's \<Rightarrow> 'z abci_contexts_scheme \<Rightarrow> bool" where
  "following \<equiv> tracks clook cwf owf uok"

text \<open>The methods of the context are such operations.\<close>

lemma set_voting_power_through:
  assumes "pubkey_ok k"
  shows "through_validators clook cwf owf uok s (on_validators e (set_voting_power A k v) :: ('t \<times> 'z abci_contexts_scheme, unit) op)"
  unfolding through_validators_def
proof (intro allI op_keepsI)
  fix L and st st' :: "('t, 'z) abci_world" and r
  obtain t cx where st: "st = (t, cx)" by force
  assume "case st of (t, cx) \<Rightarrow> following L s cx" and run: "on_validators e (set_voting_power A k v) st = (r, st')"
  then obtain ups where ups: "cx_validators cx = Some ups" "updates_ok uok ups" "ok (cx_cells cx) s"
      "\<forall>k. pubkey_ok k \<longrightarrow> map_of ups k = None \<longrightarrow> vp (cx_cells cx) s k = L k"
    by (auto simp: st tracks_def)
  obtain cells' where c: "set_voting_power A k v (ups, cx_cells cx) = (Ok (), (AList.update k (update_of k v) ups, cells'))" "ok cells' s"
      "\<forall>k'. pubkey_ok k' \<longrightarrow> vp cells' s k' = (if k' = k then Some v else vp (cx_cells cx) s k')"
    using set_voting_power_law [OF ups(3) assms] by blast
  have "st' = (t, cx\<lparr>cx_validators := Some (AList.update k (update_of k v) ups), cx_cells := cells'\<rparr>)"
    using run c(1) ups(1) by (simp add: st on_validators_def)
  then show "case st' of (t, cx) \<Rightarrow> following L s cx"
    using c(2,3) ups(4) updates_ok_update [OF ups(2) assms update_of_ok [OF assms]] by (simp add: tracks_def map_of_alist_update)
qed

lemma set_operator_through:
  assumes "opok a" and "pubkey_ok k"
  shows "through_validators clook cwf owf uok s (on_validators e (set_operator A k a) :: ('t \<times> 'z abci_contexts_scheme, unit) op)"
  unfolding through_validators_def
proof (intro allI op_keepsI)
  fix L and st st' :: "('t, 'z) abci_world" and r
  obtain t cx where st: "st = (t, cx)" by force
  assume "case st of (t, cx) \<Rightarrow> following L s cx" and run: "on_validators e (set_operator A k a) st = (r, st')"
  then obtain ups where ups: "cx_validators cx = Some ups" "updates_ok uok ups" "ok (cx_cells cx) s"
      "\<forall>k. pubkey_ok k \<longrightarrow> map_of ups k = None \<longrightarrow> vp (cx_cells cx) s k = L k"
    by (auto simp: st tracks_def)
  obtain cells' where c: "set_operator A k a (ups, cx_cells cx) = (Ok (), (ups, cells'))" "ok cells' s" "vc_current_vp cells' = vc_current_vp (cx_cells cx)"
    using set_operator_law [OF ups(3) assms] by blast
  have "st' = (t, cx\<lparr>cx_validators := Some ups, cx_cells := cells'\<rparr>)"
    using run c(1) ups(1) by (simp add: st on_validators_def)
  then show "case st' of (t, cx) \<Rightarrow> following L s cx" using c(2,3) ups by (simp add: tracks_def vp_of_def)
qed

end

section \<open>Calls change the set by their updates\<close>

lemma keeps_on_cx [intro]: "(\<And>t cx. P (t, cx) \<Longrightarrow> P (t, h cx)) \<Longrightarrow> op_keeps P (on_cx h)"
  unfolding on_cx_def by (rule op_keeps_upd) auto

lemma keeps_on_plugin_fields [intro]: "(\<And>p cx. P (p, cx) \<Longrightarrow> P (h p, cx)) \<Longrightarrow> op_keeps P (on_plugin_fields h)"
  unfolding on_plugin_fields_def by (rule op_keeps_upd) auto

lemma op_bind_assoc: "op_bind (op_bind f g) h s = op_bind f (\<lambda>x. op_bind (g x) h) s"
  by (cases "f s") (simp add: op_bind_def split: result.splits)

lemma keeps_if: "(c \<Longrightarrow> op_keeps P f) \<Longrightarrow> (\<not> c \<Longrightarrow> op_keeps P g) \<Longrightarrow> op_keeps P (if c then f else g)"
  by simp

lemma keeps_op_try [intro]:
  assumes "op_keeps P f" shows "op_keeps P (op_try f)"
proof (rule op_keepsI)
  fix s r s' assume "P s" "op_try f s = (r, s')"
  moreover obtain r1 s1 where "f s = (r1, s1)" by force
  ultimately show "P s'" using op_keepsD [OF assms, of s r1 s1] by (cases r1) (simp_all add: op_try_def)
qed

lemma keeps_on_app:
  assumes "op_keeps (\<lambda>(t, cx). Q cx) f"
  shows "op_keeps (\<lambda>(p, cx). R (ab_updates p) \<and> Q cx) (on_app f)"
proof (rule op_keepsI)
  fix st r st' assume P: "case st of (p, cx) \<Rightarrow> R (ab_updates p) \<and> Q cx" and run: "on_app f st = (r, st')"
  obtain p cx where st: "st = (p, cx)" by force
  obtain r1 t1 cx1 where f: "f (ab_inner p, cx) = (r1, (t1, cx1))" by (rule prod_cases3)
  have "Q cx1" using op_keepsD [OF assms _ f] P st by simp
  then show "case st' of (p, cx) \<Rightarrow> R (ab_updates p) \<and> Q cx" using P run f by (auto simp: st on_app_def)
qed

lemma through_on_app:
  "through_validators clook cwf owf uok s f \<Longrightarrow> op_keeps (\<lambda>(p, cx). ab_updates p = U \<and> tracks clook cwf owf uok L s cx) (on_app f)"
  using keeps_on_app [where R = "\<lambda>u. u = U" and Q = "tracks clook cwf owf uok L s" and f = f] by (simp add: through_validators_def)

lemma create_time_keeps: "op_keeps (\<lambda>(p, cx). ab_updates p = U \<and> tracks clook cwf owf uok L s cx) create_time_ctx"
  unfolding create_time_ctx_def by (rule op_keeps_upd) (auto simp: tracks_def split: option.splits)

lemma with_events_logs_keeps:
  assumes "op_keeps (\<lambda>(p, cx). ab_updates p = U \<and> tracks clook cwf owf uok L s cx) prepare" and "\<And>x. through_validators clook cwf owf uok s (f x)"
  shows "op_keeps (\<lambda>(p, cx). ab_updates p = U \<and> tracks clook cwf owf uok L s cx) (with_events_logs prepare f)"
  unfolding with_events_logs_def
  by (intro op_keeps_bind keeps_if keeps_on_cx keeps_on_plugin_fields keeps_op_try through_on_app assms op_keeps_simps) (auto simp: tracks_def)

lemma dispatch_keeps:
  assumes "app_through_validators clook cwf owf uok s app"
  shows "op_keeps (\<lambda>(p, cx). ab_updates p = U \<and> tracks clook cwf owf uok L s cx) (abci_dispatch app call)"
  using assms unfolding abci_dispatch_def app_through_validators_def
  by (cases call) (auto intro!: op_keeps_bind keeps_on_plugin_fields through_on_app create_time_keeps with_events_logs_keeps)

lemma map_of_eq_if_set:
  assumes "distinct (map fst xs)" and "distinct (map fst ys)" and "set xs = set ys"
  shows "map_of xs = map_of ys"
proof
  fix k show "map_of xs k = map_of ys k"
    by (metis assms map_of_eq_Some_iff not_None_eq)
qed

lemma fold_update_distinct: "distinct (map fst (xs @ es)) \<Longrightarrow> fold (\<lambda>(k, u). AList.update k u) es xs = xs @ es"
proof (induction es arbitrary: xs)
  case (Cons e es)
  obtain k u where e: "e = (k, u)" by force
  have "AList.update k u ys = ys @ [(k, u)]" if "k \<notin> fst ` set ys" for ys using that by (induction ys) auto
  then show ?case using Cons.IH [of "xs @ [e]"] Cons.prems by (simp add: e)
qed simp

context validator_maps
begin

lemma apply_updates_law:
  assumes "updates_ok uok ups" and "uwf (ab_updates p) s" and "ok (cx_cells cx) s"
  shows "\<exists>U cells. apply_updates A s ups (p, cx) = (Ok (), (p\<lparr>ab_updates := U\<rparr>, cx\<lparr>cx_cells := cells\<rparr>)) \<and> uwf U s \<and> ok cells s
    \<and> (\<forall>k. pubkey_ok k \<longrightarrow> ulook U s k = (case map_of ups k of Some u \<Rightarrow> Some u | None \<Rightarrow> ulook (ab_updates p) s k)
         \<and> vp cells s k = updated (vp (cx_cells cx) s) ups k)"
  using assms
proof (induction ups arbitrary: p cx)
  case Nil
  then show ?case by (intro exI [of _ "ab_updates p"] exI [of _ "cx_cells cx"]) (simp add: updated_def)
next
  case (Cons e ups)
  obtain k u where e: "e = (k, u)" by force
  have k: "pubkey_ok k" "uok u" "updates_ok uok ups" "map_of ups k = None"
    using Cons.prems(1) by (auto simp: e updates_ok_def map_of_eq_None_iff split: if_splits)
  obtain U1 where U1: "map_insert (at_updates A) k u (ab_updates p) = (Ok (), U1)" "uwf U1 s"
      "\<forall>k'. pubkey_ok k' \<longrightarrow> ulook U1 s k' = (if k' = k then Some u else ulook (ab_updates p) s k')"
    using updates.insert_law [OF Cons.prems(2) k(1,2)] by auto
  obtain em where em: "vc_current_vp (cx_cells cx) = Some em" "cwf em s" using Cons.prems(3) by (auto simp: cells_ok_def)
  let ?f = "if 0 < vu_power u then entry_map_insert (at_current A) validator_entry_ops \<lparr>ve_pubkey = k, ve_power = word_of_int (vu_power u)\<rparr>
      else entry_map_delete (at_current A) validator_entry_ops s \<lparr>ve_pubkey = k, ve_power = 0\<rparr>"
  obtain em' where em': "?f em = (Ok (), em')" "cwf em' s" "\<forall>k'. pubkey_ok k' \<longrightarrow> clook em' s k' = (if k' = k then power_of u else clook em s k')"
  proof (cases "0 < vu_power u")
    case True
    then show ?thesis using that current.insert_law [OF em(2) k(1), of "word_of_int (vu_power u)"]
      by (auto simp: entry_map_insert_def power_of_def)
  next
    case False
    then show ?thesis using that current.remove_law [OF em(2) k(1)]
      by (auto simp: entry_map_delete_def power_of_def op_bind_def)
  qed
  let ?c = "(cx_cells cx)\<lparr>vc_current_vp := Some em'\<rparr>"
  have "ok ?c s" using Cons.prems(3) em'(2) by (simp add: cells_ok_def)
  then obtain U cells where IH: "apply_updates A s ups (p\<lparr>ab_updates := U1\<rparr>, cx\<lparr>cx_cells := ?c\<rparr>)
        = (Ok (), (p\<lparr>ab_updates := U\<rparr>, cx\<lparr>cx_cells := cells\<rparr>))" "uwf U s" "ok cells s"
      "\<forall>k. pubkey_ok k \<longrightarrow> ulook U s k = (case map_of ups k of Some u \<Rightarrow> Some u | None \<Rightarrow> ulook (ab_updates (p\<lparr>ab_updates := U1\<rparr>)) s k) \<and> vp cells s k = updated (vp ?c s) ups k"
    using Cons.IH [OF k(3), of "p\<lparr>ab_updates := U1\<rparr>" "cx\<lparr>cx_cells := ?c\<rparr>", simplified] U1(2) by blast
  have "apply_updates A s (e # ups) (p, cx) = (Ok (), (p\<lparr>ab_updates := U\<rparr>, cx\<lparr>cx_cells := cells\<rparr>))"
    using U1(1) em(1) em'(1) IH(1) by (simp add: e op_bind_def on_updates_def on_current_def)
  moreover have "vp ?c s k' = (if k' = k then power_of u else vp (cx_cells cx) s k')" if "pubkey_ok k'" for k'
    using em'(3) em(1) that by (simp add: vp_of_def)
  ultimately show ?case
    using IH(2-4) U1(3) k(4) by (intro exI [of _ U] exI [of _ cells]) (auto simp: e updated_def split: option.splits)
qed

lemma build_updates_law:
  assumes "uwf (ab_updates p) s"
  shows "\<exists>U es. build_updates A s (p, cx) = (Ok (), (p\<lparr>ab_updates := U, ab_validator_updates := Some es\<rparr>, cx)) \<and> uwf U s
    \<and> (\<forall>k. pubkey_ok k \<longrightarrow> ulook U s k = None) \<and> distinct (map fst es) \<and> (\<forall>k u. map_of es k = Some u \<longleftrightarrow> pubkey_ok k \<and> ulook (ab_updates p) s k = Some u)"
proof -
  obtain es where es: "map_to_list (at_updates A) (at_bytes A) (ab_updates p) s = Ok es" "distinct (map fst es)"
      "\<forall>k u. (k, u) \<in> set es \<longleftrightarrow> pubkey_ok k \<and> ulook (ab_updates p) s k = Some u"
    using updates.to_list_law [OF assms] by blast
  have "list_all pubkey_ok (map fst es)" using es(3) by (auto simp: list_all_iff)
  then obtain U where U: "remove_keys (at_updates A) s (map fst es) (ab_updates p) = (Ok (), U)" "uwf U s"
      "\<forall>k. pubkey_ok k \<longrightarrow> ulook U s k = (if k \<in> set (map fst es) then None else ulook (ab_updates p) s k)"
    using updates.remove_keys_law [OF assms] by blast
  have "ulook U s k = None" if "pubkey_ok k" for k
  proof (cases "ulook (ab_updates p) s k")
    case (Some u)
    then have "(k, u) \<in> set es" using es(3) that by blast
    then have "k \<in> set (map fst es)" by force
    then show ?thesis using U(3) that by simp
  qed (use U(3) that in simp)
  moreover have "map_of es k = Some u \<longleftrightarrow> pubkey_ok k \<and> ulook (ab_updates p) s k = Some u" for k u
    using es(2,3) by (simp add: map_of_eq_Some_iff)
  moreover have "build_updates A s (p, cx) = (Ok (), (p\<lparr>ab_updates := U, ab_validator_updates := Some es\<rparr>, cx))"
    using es(1) U(1) fold_update_distinct [of "[]" es] es(2)
    by (simp add: build_updates_def op_bind_def on_updates_def on_plugin_fields_def)
  ultimately show ?thesis using U(2) es(2) by (intro exI [of _ U] exI [of _ es]) blast
qed

text \<open>What follows the dispatch of a call that has kept track of its updates.\<close>

lemma finish_law:
  assumes "uwf (ab_updates p) s" and "\<forall>k. pubkey_ok k \<longrightarrow> ulook (ab_updates p) s k = None" and "following L s cx" and "cx_validators cx = Some ups"
  shows "\<exists>p' cx' es. op_bind (on_current (op_ok ())) (\<lambda>_. op_bind (apply_updates A s (at_order A ups)) (\<lambda>_. build_updates A s)) (p, cx) = (Ok (), (p', cx'))
    \<and> uwf (ab_updates p') s \<and> (\<forall>k. pubkey_ok k \<longrightarrow> ulook (ab_updates p') s k = None) \<and> ok (cx_cells cx') s
    \<and> ab_validator_updates p' = Some es \<and> distinct (map fst es) \<and> map_of es = map_of ups
    \<and> (\<forall>k. pubkey_ok k \<longrightarrow> vp (cx_cells cx') s k = updated L ups k) \<and> ab_inner p' = ab_inner p"
proof -
  have u: "updates_ok uok ups" "ok (cx_cells cx) s" "\<forall>k. pubkey_ok k \<longrightarrow> map_of ups k = None \<longrightarrow> vp (cx_cells cx) s k = L k"
    using assms(3,4) by (auto simp: tracks_def)
  let ?o = "at_order A ups"
  have m: "mset (map fst ?o) = mset (map fst ups)" by (simp add: order_law mset_map)
  have d: "distinct (map fst ups)" using u(1) by (simp add: updates_ok_def)
  then have d': "distinct (map fst ?o)" using m by (metis mset_eq_imp_distinct_iff)
  have mo: "map_of ?o = map_of ups"
    using d d' by (rule map_of_eq_if_set [symmetric]) (metis order_law mset_eq_setD)
  have "updates_ok uok ?o" using u(1) d' by (simp add: updates_ok_def mo)
  from apply_updates_law [OF this assms(1) u(2)] obtain U cells where 1: "apply_updates A s ?o (p, cx) = (Ok (), (p\<lparr>ab_updates := U\<rparr>, cx\<lparr>cx_cells := cells\<rparr>))"
      "uwf U s" "ok cells s" "\<forall>k. pubkey_ok k \<longrightarrow> ulook U s k = (case map_of ups k of Some u \<Rightarrow> Some u | None \<Rightarrow> ulook (ab_updates p) s k)
         \<and> vp cells s k = updated (vp (cx_cells cx) s) ?o k"
    unfolding mo by blast
  from build_updates_law [of "p\<lparr>ab_updates := U\<rparr>" s "cx\<lparr>cx_cells := cells\<rparr>"] 1(2) obtain U' es where
    2: "build_updates A s (p\<lparr>ab_updates := U\<rparr>, cx\<lparr>cx_cells := cells\<rparr>) = (Ok (), (p\<lparr>ab_updates := U', ab_validator_updates := Some es\<rparr>, cx\<lparr>cx_cells := cells\<rparr>))"
      "uwf U' s" "\<forall>k. pubkey_ok k \<longrightarrow> ulook U' s k = None" "distinct (map fst es)" "\<forall>k u. map_of es k = Some u \<longleftrightarrow> pubkey_ok k \<and> ulook U s k = Some u"
    by auto
  have es: "map_of es k = Some w \<longleftrightarrow> map_of ups k = Some w" for k w
    using 2(5) 1(4) assms(2) u(1) unfolding updates_ok_def by (auto split: option.splits)
  have "map_of es = map_of ups" by (rule ext) (metis es not_None_eq)
  moreover have "vp cells s k = updated L ups k" if "pubkey_ok k" for k
    using 1(4) u(3) that by (auto simp: updated_def mo split: option.splits)
  moreover have "on_current (op_ok ()) (p, cx) = (Ok (), (p, cx))" using u(2) by (auto simp: on_current_def cells_ok_def)
  ultimately show ?thesis using 1 2
    by (intro exI [of _ "p\<lparr>ab_updates := U', ab_validator_updates := Some es\<rparr>"] exI [of _ "cx\<lparr>cx_cells := cells\<rparr>"] exI [of _ es]) (simp add: op_bind_def)
qed

lemma call_law:
  assumes app: "app_through_validators clook cwf owf uok s app" and p: "plugin_ok ulook uwf cwf owf p s"
    and run: "op_bind create_time_ctx (\<lambda>_. abci_dispatch app call) (p, cx\<lparr>cx_cells := ab_cells p, cx_validators := Some []\<rparr>) = (r, (p1, cx1))"
  shows "\<exists>p' cx'. abci_plugin_call A s app call (p, cx) = (r, (p', cx')) \<and> cx_validators cx' = None
    \<and> (r = Ok () \<longrightarrow> plugin_ok ulook uwf cwf owf p' s \<and> ab_inner p' = ab_inner p1
       \<and> (\<exists>ups. ab_validator_updates p' = Some ups \<and> distinct (map fst ups) \<and> Some (map_of ups) = map_option map_of (cx_validators cx1)
         \<and> (\<forall>k. pubkey_ok k \<longrightarrow> vp (ab_cells p') s k = updated (vp (ab_cells p) s) ups k)))"
proof -
  let ?L = "vp (ab_cells p) s" and ?cx = "cx\<lparr>cx_cells := ab_cells p, cx_validators := Some []\<rparr>"
  let ?finish = "\<lambda>ups. op_bind (on_current (op_ok ())) (\<lambda>_. op_bind (apply_updates A s (at_order A ups)) (\<lambda>_. build_updates A s))"
  have "following ?L s ?cx" using p by (simp add: tracks_def plugin_ok_def)
  then have k: "ab_updates p1 = ab_updates p" "following ?L s cx1"
    using op_keepsD [OF op_keeps_bind [OF create_time_keeps dispatch_keeps [OF app]] _ run, of "ab_updates p" ?L] by auto
  obtain ups where ups: "cx_validators cx1 = Some ups" using k(2) by (auto simp: tracks_def)
  have body: "abci_call_body A s app call (p, cx\<lparr>cx_cells := ab_cells p\<rparr>) = (if r = Ok () then ?finish ups (p1, cx1) else (r, (p1, cx1)))"
  proof -
    let ?rest = "\<lambda>_. op_bind (op_read (\<lambda>(p, cx). unwrap (context_resolve cx_validators cx))) ?finish"
    have "abci_call_body A s app call (p, cx\<lparr>cx_cells := ab_cells p\<rparr>)
        = op_bind (op_bind create_time_ctx (\<lambda>_. abci_dispatch app call)) ?rest (p, ?cx)"
      unfolding abci_call_body_def validators_new_def on_cx_def op_bind_upd op_bind_assoc by simp
    moreover have "?rest () (p1, cx1) = ?finish ups (p1, cx1)" using ups by (simp add: op_bind_def unwrap_def)
    ultimately show ?thesis using run by (cases r) (simp_all add: op_bind_Ok op_bind_Err op_bind_Panic)
  qed
  show ?thesis
  proof (cases "r = Ok ()")
    case True
    have p1: "uwf (ab_updates p1) s" "\<forall>k. pubkey_ok k \<longrightarrow> ulook (ab_updates p1) s k = None" using p k(1) by (simp_all add: plugin_ok_def)
    obtain p' cx' es where "?finish ups (p1, cx1) = (Ok (), (p', cx'))" "uwf (ab_updates p') s" "\<forall>k. pubkey_ok k \<longrightarrow> ulook (ab_updates p') s k = None"
        "ok (cx_cells cx') s" "ab_validator_updates p' = Some es" "distinct (map fst es)" "map_of es = map_of ups"
        "\<forall>k. pubkey_ok k \<longrightarrow> vp (cx_cells cx') s k = updated ?L ups k" "ab_inner p' = ab_inner p1"
      using finish_law [OF p1 k(2) ups] by blast
    with True body ups show ?thesis
      by (intro exI [of _ "p'\<lparr>ab_cells := cx_cells cx'\<rparr>"] exI [of _ "cx'\<lparr>cx_validators := None\<rparr>"])
        (simp add: abci_plugin_call_def plugin_ok_def updated_def)
  qed (use body in \<open>simp add: abci_plugin_call_def\<close>)
qed

end

text \<open>
  (C9) The validator set after a call: \<open>abci_plugin_call\<close> returns what the app's handler
  returned, and drops the context \<^verbatim>\<open>Validators\<close>.  If the handler has succeeded, then so has the call;
  the updates it leaves for the node are exactly those in the context after the handler, each
  key once; the new validator set is the one before the call with these updates applied,
  where a power that is not positive removes the validator; and no updates are left over.
\<close>

theorem validator_updates_applied:
  assumes maps: "validator_maps A ulook uwf uok clook cwf olook owf opok"
    and app: "app_through_validators clook cwf owf uok s app" and p: "plugin_ok ulook uwf cwf owf p s"
    and run: "op_bind create_time_ctx (\<lambda>_. abci_dispatch app call) (p, cx\<lparr>cx_cells := ab_cells p, cx_validators := Some []\<rparr>) = (r, (p1, cx1))"
  shows "\<exists>p' cx'. abci_plugin_call A s app call (p, cx) = (r, (p', cx')) \<and> cx_validators cx' = None
    \<and> (r = Ok () \<longrightarrow> plugin_ok ulook uwf cwf owf p' s \<and> ab_inner p' = ab_inner p1
       \<and> (\<exists>ups. ab_validator_updates p' = Some ups \<and> distinct (map fst ups) \<and> Some (map_of ups) = map_option map_of (cx_validators cx1)
         \<and> (\<forall>k. pubkey_ok k \<longrightarrow> vp_of clook (ab_cells p') s k = updated (vp_of clook (ab_cells p) s) ups k)))"
  by (rule validator_maps.call_law [OF maps app p run])

text \<open>An app whose calls set the power of a validator.\<close>

definition power_app :: "'s abci_types \<Rightarrow> ('t, 'z, 'h, 'l, 'e, bytes \<times> u64) app" where
  "power_app A = \<lparr>ap_init_chain = (\<lambda>_. op_ok ()), ap_begin_block = (\<lambda>_. op_ok ()), ap_end_block = (\<lambda>_. op_ok ()),
     ap_call = (\<lambda>(k, v). if pubkey_ok k then on_validators (Error_App ''No validator context found'') (set_voting_power A k v) else op_ok ())\<rparr>"

context validator_maps
begin

lemma through_ok [simp]: "through_validators clook cwf owf uok s (op_ok x :: ('t \<times> 'z abci_contexts_scheme, 'a) op)"
  by (simp add: through_validators_def)

lemma power_app_through: "app_through_validators clook cwf owf uok s (power_app A :: ('t, 'z, 'h, 'l, 'e, bytes \<times> u64) app)"
  using set_voting_power_through [where ?'t = 't and ?'z = 'z]
  by (simp add: app_through_validators_def power_app_def split: prod.splits)

lemma power_app_call:
  fixes app :: "('t, 'z, 'h, 'l, 'e, bytes \<times> u64) app"
  assumes app: "app = power_app A" and "plugin_ok ulook uwf cwf owf p s" and "pubkey_ok k" and "0 < sint v" and "ab_time p = None"
  shows "\<exists>p' cx'. abci_plugin_call A s app (DeliverTx (k, v)) (p, cx) = (Ok (), (p', cx')) \<and> plugin_ok ulook uwf cwf owf p' s
    \<and> vp (ab_cells p') s k = Some v"
proof -
  let ?cx = "cx\<lparr>cx_cells := ab_cells p, cx_validators := Some [], cx_events := Some [], cx_logs := Some []\<rparr>"
  obtain cells' where c: "set_voting_power A k v ([], ab_cells p) = (Ok (), (AList.update k (update_of k v) [], cells'))"
    using set_voting_power_law [OF _ assms(3)] assms(2) unfolding plugin_ok_def by blast
  obtain p1 cx1 where run: "op_bind create_time_ctx (\<lambda>_. abci_dispatch app (DeliverTx (k, v)))
      (p, cx\<lparr>cx_cells := ab_cells p, cx_validators := Some []\<rparr>) = (Ok (), (p1, cx1))" "cx_validators cx1 = Some [(k, update_of k v)]"
    using c assms(3,5) app by (simp add: create_time_ctx_def abci_dispatch_def with_events_logs_def power_app_def on_cx_def on_plugin_fields_def op_bind_def
        op_try_def on_app_def on_validators_def unwrap_def)
  obtain p' cx' ups where "abci_plugin_call A s app (DeliverTx (k, v)) (p, cx) = (Ok (), (p', cx'))" "plugin_ok ulook uwf cwf owf p' s"
      "map_of ups = map_of [(k, update_of k v)]" "\<forall>k. pubkey_ok k \<longrightarrow> vp (ab_cells p') s k = updated (vp (ab_cells p) s) ups k"
    using call_law [OF power_app_through [where ?'t = 't and ?'z = 'z and ?'h = 'h and ?'l = 'l and ?'e = 'e, folded app] assms(2) run(1)] run(2) by auto
  then show ?thesis using assms(3,4)
    by (intro exI [of _ p'] exI [of _ cx']) (simp add: updated_def power_of_def update_of_def)
qed

end

text \<open>A later end of a block with a handler that does nothing.\<close>

context validator_maps
begin

lemma empty_end_block:
  fixes app :: "('t, 'z, 'h, 'l, 'e, 'c) app"
  assumes "app_through_validators clook cwf owf uok s app" and "plugin_ok ulook uwf cwf owf p s" and "ap_end_block app = (\<lambda>_. op_ok ())"
  shows "\<exists>p' cx'. abci_plugin_call A s app (EndBlock req) (p, cx) = (Ok (), (p', cx')) \<and> plugin_ok ulook uwf cwf owf p' s
    \<and> ab_validator_updates p' = Some [] \<and> (\<forall>k. pubkey_ok k \<longrightarrow> vp (ab_cells p') s k = vp (ab_cells p) s k)"
proof -
  obtain p1 cx1 where run: "op_bind create_time_ctx (\<lambda>_. abci_dispatch app (EndBlock req))
      (p, cx\<lparr>cx_cells := ab_cells p, cx_validators := Some []\<rparr>) = (Ok (), (p1, cx1))" "cx_validators cx1 = Some []"
    using assms(3) by (cases "ab_time p") (simp_all add: create_time_ctx_def abci_dispatch_def with_events_logs_def on_cx_def on_plugin_fields_def op_bind_def
        op_try_def on_app_def unwrap_def)
  obtain p' cx' ups where "abci_plugin_call A s app (EndBlock req) (p, cx) = (Ok (), (p', cx'))" "plugin_ok ulook uwf cwf owf p' s"
      "ab_validator_updates p' = Some ups" "map_of ups = Map.empty"
      "\<forall>k. pubkey_ok k \<longrightarrow> vp (ab_cells p') s k = updated (vp (ab_cells p) s) ups k"
    using call_law [OF assms(1,2) run(1)] run(2) by auto
  then show ?thesis by (intro exI [of _ p'] exI [of _ cx']) (simp add: updated_def)
qed

lemma order_Nil [simp]: "at_order A [] = []"
  using order_law [of "[]"] by simp

end

text \<open>
  (C10) Updates that a transaction makes are not reported: \<open>abci_plugin_call\<close> empties the map of
  updates at the end of every call, and the node takes the updates only of \<^verbatim>\<open>InitChain\<close> and
  \<^verbatim>\<open>EndBlock\<close>.  When a delivered transaction has changed the power of a validator and the handler
  at the end of the block makes no update, the validator set of the state keeps the change and
  the node reports no update to Tendermint.
\<close>

theorem delivered_updates_not_reported:
  assumes maps: "validator_maps A ulook uwf uok clook cwf olook owf opok"
    and app: "app_through_validators clook cwf owf uok s app" and p: "plugin_ok ulook uwf cwf owf p s"
    and tx: "abci_plugin_call A s app (DeliverTx c) (p, cx) = (Ok (), (p1, cx1))"
    and changed: "pubkey_ok k" "vp_of clook (ab_cells p1) s k \<noteq> vp_of clook (ab_cells p) s k"
    and end_block: "ap_end_block app = (\<lambda>_. op_ok ())"
  shows "\<exists>p2 cx2. abci_plugin_call A s app (EndBlock req) (p1\<lparr>ab_validator_updates := None\<rparr>, cx1) = (Ok (), (p2, cx2))
    \<and> vp_of clook (ab_cells p2) s k \<noteq> vp_of clook (ab_cells p) s k
    \<and> fst (na_take_updates (abci_node_app compat_mode msg A T u8c dflt decode (\<lambda>_. app)) p2) = Some []"
proof -
  obtain r q1 cy1 where run: "op_bind create_time_ctx (\<lambda>_. abci_dispatch app (DeliverTx c)) (p, cx\<lparr>cx_cells := ab_cells p, cx_validators := Some []\<rparr>) = (r, (q1, cy1))"
    by (rule prod_cases3)
  have "plugin_ok ulook uwf cwf owf p1 s" using validator_maps.call_law [OF maps app p run] tx by auto
  then have "plugin_ok ulook uwf cwf owf (p1\<lparr>ab_validator_updates := None\<rparr>) s" by (simp add: plugin_ok_def)
  from validator_maps.empty_end_block [OF maps app this end_block, of req cx1] obtain p2 cx2 where
    "abci_plugin_call A s app (EndBlock req) (p1\<lparr>ab_validator_updates := None\<rparr>, cx1) = (Ok (), (p2, cx2))"
    "ab_validator_updates p2 = Some []" "\<forall>k. pubkey_ok k \<longrightarrow> vp_of clook (ab_cells p2) s k = vp_of clook (ab_cells p1) s k"
    by auto
  then show ?thesis using changed
    by (intro exI [of _ p2] exI [of _ cx2]) (simp add: abci_node_app_def validator_maps.order_Nil [OF maps])
qed

abbreviation empty_contexts :: abci_contexts where
  "empty_contexts \<equiv> \<lparr>cx_paid = None, cx_signer = None, cx_chain_id = None, cx_events = None, cx_time = None, cx_logs = None,
     cx_validators = None, cx_cells = \<lparr>vc_current_vp = None, vc_cons_key = None\<rparr>\<rparr>"

abbreviation mem_app :: "(unit, unit, unit, unit, unit, bytes \<times> u64) app" where "mem_app \<equiv> power_app mem_types"

abbreviation mem_plugin :: "unit abci_plugin" where "mem_plugin \<equiv> abci_plugin_default ()"

lemma mem_plugin_ok:
  "plugin_ok (map_look (at_updates mem_types) mapstore_ents) (mem_wf (at_updates mem_types) pubkey_ok made_update)
     (mem_wf (at_current mem_types) pubkey_ok (\<lambda>_. True)) (mem_wf (at_operators mem_types) (\<lambda>a. length a = 20) pubkey_ok) mem_plugin mapstore_new"
  by (simp add: plugin_ok_def abci_plugin_default_def entry_map_new_def cells_ok_def mem_new_wf mem_new_look)

lemmas mem_power_call = mem_validators.power_app_call [OF refl mem_plugin_ok sample_key_ok, of 7 empty_contexts, where ?'h = unit and ?'l = unit and ?'e = unit]

lemma mem_set_power:
  "\<exists>cells'. set_voting_power mem_types (replicate 32 1) 7 ([], ab_cells mem_plugin)
    = (Ok (), ([(replicate 32 1, update_of (replicate 32 1) 7)], cells'))"
  using mem_validators.set_voting_power_law [OF _ sample_key_ok, of "ab_cells mem_plugin" mapstore_new 7 "[]"] mem_plugin_ok
  unfolding plugin_ok_def by auto

theorem validator_updates_applied_witness:
  "\<exists>p' cx' ups. abci_plugin_call mem_types mapstore_new mem_app (DeliverTx (replicate 32 1, 7)) (mem_plugin, empty_contexts) = (Ok (), (p', cx'))
    \<and> ab_validator_updates p' = Some ups \<and> map_of ups (replicate 32 1) = Some (update_of (replicate 32 1) 7)
    \<and> vp_of (map_look (at_current mem_types) mapstore_ents) (ab_cells p') mapstore_new (replicate 32 1) = Some 7"
proof -
  obtain p1 cx1 where run: "op_bind create_time_ctx (\<lambda>_. abci_dispatch mem_app (DeliverTx (replicate 32 1, 7)))
      (mem_plugin, empty_contexts\<lparr>cx_cells := ab_cells mem_plugin, cx_validators := Some []\<rparr>) = (Ok (), (p1, cx1))"
      "cx_validators cx1 = Some [(replicate 32 1, update_of (replicate 32 1) 7)]"
    using mem_set_power sample_key_ok
    by (auto simp: create_time_ctx_def abci_dispatch_def with_events_logs_def power_app_def on_cx_def on_plugin_fields_def op_bind_def
        op_try_def on_app_def on_validators_def unwrap_def abci_plugin_default_def)
  obtain p' cx' ups where p': "abci_plugin_call mem_types mapstore_new mem_app (DeliverTx (replicate 32 1, 7)) (mem_plugin, empty_contexts) = (Ok (), (p', cx'))"
      "ab_validator_updates p' = Some ups" "map_of ups = map_of [(replicate 32 1, update_of (replicate 32 1) 7)]"
      "\<forall>k. pubkey_ok k \<longrightarrow> vp_of (map_look (at_current mem_types) mapstore_ents) (ab_cells p') mapstore_new k
        = updated (vp_of (map_look (at_current mem_types) mapstore_ents) (ab_cells mem_plugin) mapstore_new) ups k"
    using validator_updates_applied [OF mem_validators.validator_maps_axioms mem_validators.power_app_through mem_plugin_ok run(1)] run(2) by auto
  have "vp_of (map_look (at_current mem_types) mapstore_ents) (ab_cells p') mapstore_new (replicate 32 1) = Some 7"
    using p'(3,4) sample_key_ok by (simp add: updated_def power_of_def update_of_def)
  with p' show ?thesis by (intro exI [of _ p'] exI [of _ cx'] exI [of _ ups]) simp
qed

theorem delivered_updates_not_reported_witness:
  "\<exists>p1 cx1 p2 cx2. abci_plugin_call mem_types mapstore_new mem_app (DeliverTx (replicate 32 1, 7)) (mem_plugin, empty_contexts) = (Ok (), (p1, cx1))
    \<and> abci_plugin_call mem_types mapstore_new mem_app (EndBlock \<lparr>re_height = 5\<rparr>) (p1\<lparr>ab_validator_updates := None\<rparr>, cx1) = (Ok (), (p2, cx2))
    \<and> fst (na_take_updates (abci_node_app False (\<lambda>_ _. []) mem_types (leaf_state unit_codec) word_codec () (\<lambda>_. Panic) (\<lambda>_. mem_app)) p2) = Some []"
proof -
  have t: "ab_time mem_plugin = None" "0 < sint (7 :: u64)" by (simp_all add: abci_plugin_default_def)
  obtain p1 cx1 where 1: "abci_plugin_call mem_types mapstore_new mem_app (DeliverTx (replicate 32 1, 7)) (mem_plugin, empty_contexts) = (Ok (), (p1, cx1))"
      and v: "vp_of (map_look (at_current mem_types) mapstore_ents) (ab_cells p1) mapstore_new (replicate 32 1) = Some 7"
    using mem_power_call [OF t(2,1)] by blast
  have "vp_of (map_look (at_current mem_types) mapstore_ents) (ab_cells mem_plugin) mapstore_new (replicate 32 1) = None"
    by (simp add: abci_plugin_default_def vp_of_def entry_map_new_def mem_new_look)
  then have ne: "vp_of (map_look (at_current mem_types) mapstore_ents) (ab_cells p1) mapstore_new (replicate 32 1)
      \<noteq> vp_of (map_look (at_current mem_types) mapstore_ents) (ab_cells mem_plugin) mapstore_new (replicate 32 1)" using v by simp
  have e: "ap_end_block mem_app = (\<lambda>_. op_ok ())" by (simp add: power_app_def)
  show ?thesis
    using 1 delivered_updates_not_reported [OF mem_validators.validator_maps_axioms mem_validators.power_app_through mem_plugin_ok 1 sample_key_ok ne e,
        of "\<lparr>re_height = 5\<rparr>" False "\<lambda>_ _. []" "leaf_state unit_codec" word_codec "()" "\<lambda>_. Panic"] by blast
qed

end
