(* ===== verification/Upgrade_Mod.thy ===== *)
theory Upgrade_Mod
  imports Validator_Set Amounts
begin

text \<open>
  \<^verbatim>\<open>src/upgrade/mod.rs\<close>: validators signal that they are ready for a version of the software, and
  the network moves to a version once validators with more than a threshold of the voting power
  have signalled it for some time.

  A version, a vector with its length, is its bytes here.  The votes are counted in a \<^verbatim>\<open>HashMap\<close>,
  in which the first version above the threshold is chosen; the order in which it is iterated
  is a parameter, and the choice is shown not to depend on it if the threshold is a majority.
\<close>

section \<open>State\<close>

record signal =
  sg_version :: bytes
  sg_time :: int

record 'd upgrade =
  up_signals :: "(bytes, signal) omap"
  up_threshold :: "'d decimal"
  up_activation_delay_seconds :: int
  up_rate_limit_seconds :: int
  up_current_version :: "(unit, bytes) omap"

type_synonym votes = "(bytes \<times> u64) list"

record ('s, 'd) upgrade_types =
  ut_abci :: "'s abci_types"
  ut_num :: "'d num_decimal"
  ut_signals :: "('s, bytes, signal) map_types"
  ut_version :: "('s, unit, bytes) map_types"
  ut_order :: "votes \<Rightarrow> votes"
  ut_wait_text :: "int \<Rightarrow> string"
  ut_version_text :: "bytes \<Rightarrow> string"

text \<open>\<^verbatim>\<open>Default\<close>; a version of one byte always has a length.\<close>

definition upgrade_default :: "('s, 'd) upgrade_types \<Rightarrow> 'd upgrade result" where
  "upgrade_default U = (case map_insert (ut_version U) () [0] map_new of
      (Ok _, current_version) \<Rightarrow>
        (case math_into (amount_div (ut_num U) (Amount 2) (Amount 3)) of
           Ok threshold \<Rightarrow> Ok \<lparr>up_signals = map_new, up_threshold = threshold, up_activation_delay_seconds = 60 * 60 * 24,
             up_rate_limit_seconds = 60, up_current_version = current_version\<rparr>
         | _ \<Rightarrow> Panic)
    | _ \<Rightarrow> Panic)"

type_synonym ('d, 'z) upgrade_world = "'d upgrade \<times> 'z abci_contexts_scheme"

definition on_signals :: "((bytes, signal) omap, 'a) op \<Rightarrow> (('d, 'z) upgrade_world, 'a) op" where
  "on_signals f = (\<lambda>(up, cx). case f (up_signals up) of (r, m) \<Rightarrow> (r, (up\<lparr>up_signals := m\<rparr>, cx)))"

definition on_current_version :: "((unit, bytes) omap, 'a) op \<Rightarrow> (('d, 'z) upgrade_world, 'a) op" where
  "on_current_version f = (\<lambda>(up, cx). case f (up_current_version up) of (r, m) \<Rightarrow> (r, (up\<lparr>up_current_version := m\<rparr>, cx)))"

section \<open>Contexts\<close>

definition upgrade_current_seconds :: "(('d, 'z) upgrade_world, int) op" where
  "upgrade_current_seconds = op_read (\<lambda>(up, cx).
     and_then (ok_or (Error_Coins ''No Time context available'') (context_resolve cx_time cx)) (\<lambda>time. Ok (tm_seconds time)))"

definition upgrade_signer :: "(('d, 'z) upgrade_world, address) op" where
  "upgrade_signer = op_read (\<lambda>(up, cx).
     and_then (ok_or (Error_Coins ''No Signer context available'') (context_resolve cx_signer cx)) (\<lambda>ctx.
     ok_or (Error_Coins ''Call must be signed'') (signer_signer ctx)))"

definition signer_cons_key :: "('s, 'd) upgrade_types \<Rightarrow> 's \<Rightarrow> (('d, 'z) upgrade_world, bytes) op" where
  "signer_cons_key U s =
     op_bind upgrade_signer (\<lambda>signer.
     op_bind (on_validators (Error_App ''No validator context found'') (consensus_key (ut_abci U) s (address_bytes signer))) (\<lambda>key.
     op_lift (ok_or (Error_App ''Signer does not have a consensus key'') key)))"

definition current_validators :: "('s, 'd) upgrade_types \<Rightarrow> 's \<Rightarrow> (('d, 'z) upgrade_world, validator_entry list) op" where
  "current_validators U s = on_validators (Error_App ''No validator context found'') (validators_entries (ut_abci U) s)"

section \<open>Signalling\<close>

definition check_previous :: "('s, 'd) upgrade_types \<Rightarrow> 'd upgrade \<Rightarrow> signal \<Rightarrow> signal option \<Rightarrow> unit result" where
  "check_previous U up signal prev = (case prev of
      None \<Rightarrow> Ok ()
    | Some prev_signal \<Rightarrow>
        and_then (i64_add (sg_time prev_signal) (up_rate_limit_seconds up)) (\<lambda>soonest.
        if sg_time signal < soonest
        then and_then (i64_sub soonest (sg_time signal)) (\<lambda>d. Err (Error_App (ut_wait_text U d)))
        else if sg_version signal = sg_version prev_signal then Err (Error_App (ut_version_text U (sg_version signal)))
        else Ok ()))"

definition upgrade_signal :: "('s, 'd) upgrade_types \<Rightarrow> 's \<Rightarrow> bytes \<Rightarrow> (('d, 'z) upgrade_world, unit) op" where
  "upgrade_signal U s version =
     op_bind (on_contexts disable_fee) (\<lambda>_.
     op_bind (signer_cons_key U s) (\<lambda>cons_key.
     op_bind upgrade_current_seconds (\<lambda>now.
       let signal = \<lparr>sg_version = version, sg_time = now\<rparr> in
     op_bind (op_read (\<lambda>(up, cx). and_then (map_get (ut_signals U) (up_signals up) s cons_key) (\<lambda>prev.
       check_previous U up signal (map_option ref_deref prev)))) (\<lambda>_.
     on_signals (map_insert (ut_signals U) cons_key signal)))))"

section \<open>Counting\<close>

text \<open>One validator of the loop of \<^verbatim>\<open>upgrade_ready\<close>.\<close>

definition tally :: "('s, 'd) upgrade_types \<Rightarrow> 's \<Rightarrow> 'd upgrade \<Rightarrow> int \<Rightarrow> validator_entry \<Rightarrow> u64 \<times> votes \<Rightarrow> (u64 \<times> votes) result" where
  "tally U s up latest_counted_time validator = (\<lambda>(total_vp, signal_vps).
     and_then (word_add total_vp (ve_power validator)) (\<lambda>total_vp.
     and_then (map_get (ut_signals U) (up_signals up) s (ve_pubkey validator)) (\<lambda>found. case map_option ref_deref found of
         None \<Rightarrow> Ok (total_vp, signal_vps)
       | Some signal \<Rightarrow>
           if sg_time signal \<le> latest_counted_time
           then and_then (map_get (ut_version U) (up_current_version up) s ()) (\<lambda>current.
                and_then (unwrap current) (\<lambda>current.
                if sg_version signal \<noteq> ref_deref current \<and> 0 < ve_power validator
                then and_then (word_add (or_else 0 (map_of signal_vps (sg_version signal))) (ve_power validator)) (\<lambda>vp.
                     Ok (total_vp, AList.update (sg_version signal) vp signal_vps))
                else Ok (total_vp, signal_vps)))
           else Ok (total_vp, signal_vps))))"

definition amount_gt_decimal :: "'d num_decimal \<Rightarrow> amount \<Rightarrow> 'd decimal \<Rightarrow> bool" where
  "amount_gt_decimal N self other = (let self_decimal = decimal_from_amount N self
     in nd_less N (dec_value other) (dec_value self_decimal))"

definition upgrade_ready :: "('s, 'd) upgrade_types \<Rightarrow> 's \<Rightarrow> (('d, 'z) upgrade_world, bytes option) op" where
  "upgrade_ready U s =
     op_bind upgrade_current_seconds (\<lambda>now.
     op_bind (op_read (\<lambda>(up, cx). i64_sub now (up_activation_delay_seconds up))) (\<lambda>latest_counted_time.
     op_bind (current_validators U s) (\<lambda>validators.
     op_bind (op_read (\<lambda>(up, cx). fold_result (tally U s up latest_counted_time) validators (0, []))) (\<lambda>(total_vp, signal_vps).
     op_bind (op_read (\<lambda>(up, cx). math_q (decimal_mul_amount (ut_num U) (up_threshold up) (Amount total_vp)))) (\<lambda>vp_threshold.
     op_ok (map_option fst (find (\<lambda>(_, vp). amount_gt_decimal (ut_num U) (Amount vp) vp_threshold) (ut_order U signal_vps))))))))"

definition upgrade_step :: "('s, 'd) upgrade_types \<Rightarrow> 's \<Rightarrow> bytes \<Rightarrow> bool \<Rightarrow> (('d, 'z) upgrade_world, unit) op" where
  "upgrade_step U s bin_version upgrade_authorized =
     op_bind (op_read (\<lambda>(up, cx). and_then (map_get (ut_version U) (up_current_version up) s ()) unwrap)) (\<lambda>current.
       let net_version = ref_deref current in
       if bin_version \<noteq> net_version then op_err (Error_Upgrade (UpgradeVersion net_version bin_version))
       else if \<not> upgrade_authorized then op_ok ()
       else op_bind (upgrade_ready U s) (\<lambda>ready. case ready of
          Some new_version \<Rightarrow> on_current_version (map_insert (ut_version U) () new_version)
        | None \<Rightarrow> op_ok ()))"

definition version_key :: bytes where
  "version_key = map (of_nat \<circ> of_char) ''/version''"

definition load_version :: "'s backing \<Rightarrow> 's \<Rightarrow> bytes option result" where
  "load_version bk s = store_get (bk_read bk s) [] version_key"

section \<open>The votes for a version\<close>

text \<open>The power of the validators whose signal for a version is old enough.\<close>

definition counted :: "(bytes \<Rightarrow> signal option) \<Rightarrow> int \<Rightarrow> bytes \<Rightarrow> validator_entry \<Rightarrow> bool" where
  "counted sigs latest v e \<longleftrightarrow> (\<exists>g. sigs (ve_pubkey e) = Some g \<and> sg_time g \<le> latest \<and> sg_version g = v)"

definition vote_power :: "(bytes \<Rightarrow> signal option) \<Rightarrow> int \<Rightarrow> validator_entry list \<Rightarrow> bytes \<Rightarrow> nat" where
  "vote_power sigs latest vs v = powers (filter (counted sigs latest v) vs)"

definition tallied :: "(bytes \<Rightarrow> signal option) \<Rightarrow> int \<Rightarrow> bytes \<Rightarrow> validator_entry list \<Rightarrow> u64 \<times> votes \<Rightarrow> bool" where
  "tallied sigs latest cv vs acc \<longleftrightarrow> powers vs < 2 ^ 64 \<and> fst acc = of_nat (powers vs) \<and> distinct (map fst (snd acc))
     \<and> (\<forall>v. map_of (snd acc) v = (if v \<noteq> cv \<and> 0 < vote_power sigs latest vs v then Some (of_nat (vote_power sigs latest vs v)) else None))"

lemma powers_simps [simp]: "powers [] = 0" "powers (vs @ ws) = powers vs + powers ws" "powers (v # vs) = unat (ve_power v) + powers vs"
  by (simp_all add: powers_def)

lemma powers_filter: "powers (filter P vs) \<le> powers vs"
  by (induction vs) auto

text \<open>Two versions do not share a vote.\<close>

lemma vote_power_disjoint: "v \<noteq> w \<Longrightarrow> vote_power sigs latest vs v + vote_power sigs latest vs w \<le> powers vs"
  by (induction vs) (auto simp: vote_power_def counted_def)

lemma vote_power_le: "vote_power sigs latest vs v \<le> powers vs"
  by (simp add: vote_power_def powers_filter)

locale upgrade_maps =
  validator_maps "ut_abci U" ulook uwf uok clook cwf olook owf opok +
  signals: map_access "ut_signals U" slook swf pubkey_ok sok +
  version: map_access "ut_version U" vlook vwf "\<lambda>_. True" vok +
  num: decimal_lib "ut_num U" dv
  for U :: "('s, 'd) upgrade_types" and ulook uwf uok clook cwf olook owf opok slook swf sok vlook vwf vok dv +
  assumes vote_order_law: "mset (ut_order U vs) = mset vs" and signal_version_ok: "sok g \<Longrightarrow> vok (sg_version g)"

definition upgrade_ok :: "((bytes, signal) omap \<Rightarrow> 's \<Rightarrow> bool) \<Rightarrow> ((unit, bytes) omap \<Rightarrow> 's \<Rightarrow> bool) \<Rightarrow> ((unit, bytes) omap \<Rightarrow> 's \<Rightarrow> unit \<Rightarrow> bytes option)
    \<Rightarrow> 'd upgrade \<Rightarrow> 's \<Rightarrow> bytes \<Rightarrow> bool" where
  "upgrade_ok swf vwf vlook up s cv \<longleftrightarrow> swf (up_signals up) s \<and> vwf (up_current_version up) s \<and> vlook (up_current_version up) s () = Some cv"

context upgrade_maps
begin

abbreviation sigs :: "'d upgrade \<Rightarrow> 's \<Rightarrow> bytes \<Rightarrow> signal option" where "sigs up s \<equiv> slook (up_signals up) s"
abbreviation upok :: "'d upgrade \<Rightarrow> 's \<Rightarrow> bytes \<Rightarrow> bool" where "upok \<equiv> upgrade_ok swf vwf vlook"

lemma version_get: "upok up s cv \<Longrightarrow> \<exists>r. map_get (ut_version U) (up_current_version up) s () = Ok (Some r) \<and> ref_deref r = cv"
  using version.access_get [of "up_current_version up" s "()"] by (auto simp: upgrade_ok_def)

lemma tally_law:
  assumes up: "upok up s cv" and k: "pubkey_ok (ve_pubkey e)" and t: "tallied (sigs up s) latest cv vs acc"
  shows "if powers (vs @ [e]) < 2 ^ 64 then \<exists>acc'. tally U s up latest e acc = Ok acc' \<and> tallied (sigs up s) latest cv (vs @ [e]) acc'
    else tally U s up latest e acc = Panic"
proof -
  obtain total vps where acc: "acc = (total, vps)" by force
  obtain r where r: "map_get (ut_signals U) (up_signals up) s (ve_pubkey e) = Ok r" "map_option ref_deref r = sigs up s (ve_pubkey e)"
    using signals.access_get [OF _ k] up by (auto simp: upgrade_ok_def)
  obtain c where c: "map_get (ut_version U) (up_current_version up) s () = Ok (Some c)" "ref_deref c = cv" using version_get [OF up] by blast
  have total: "unat total = powers vs" using t by (simp add: acc tallied_def unat_of_nat)
  have vp: "vote_power (sigs up s) latest (vs @ [e]) v = vote_power (sigs up s) latest vs v + (if counted (sigs up s) latest v e then unat (ve_power e) else 0)" for v
    by (simp add: vote_power_def)
  show ?thesis
  proof (cases "powers (vs @ [e]) < 2 ^ 64")
    case True
    then have w: "word_add total (ve_power e) = Ok (total + ve_power e)" using total by (simp add: word_add_def checked_add_def)
    have tot: "total + ve_power e = of_nat (powers (vs @ [e]))" using t by (simp add: acc tallied_def)
    show ?thesis
    proof (cases "\<exists>v. counted (sigs up s) latest v e \<and> v \<noteq> cv \<and> 0 < ve_power e")
      case None: False
      have "tally U s up latest e acc = Ok (total + ve_power e, vps)"
      proof (cases "sigs up s (ve_pubkey e)")
        case (Some g)
        then have "\<not> (sg_time g \<le> latest \<and> sg_version g \<noteq> cv \<and> 0 < ve_power e)" using None by (auto simp: counted_def)
        then show ?thesis using Some w r c by (auto simp: acc tally_def unwrap_def)
      qed (use w r in \<open>simp add: acc tally_def\<close>)
      moreover have "tallied (sigs up s) latest cv (vs @ [e]) (total + ve_power e, vps)"
      proof -
        have "vote_power (sigs up s) latest (vs @ [e]) v = vote_power (sigs up s) latest vs v" if "v \<noteq> cv" for v
          using None that word_gt_0 [of "ve_power e"] by (auto simp: vp)
        then show ?thesis using t True tot by (simp add: acc tallied_def cong: conj_cong)
      qed
      ultimately show ?thesis using True by auto
    next
      case Some: True
      then obtain v g where v: "sigs up s (ve_pubkey e) = Some g" "sg_time g \<le> latest" "sg_version g = v" "v \<noteq> cv" "0 < ve_power e"
        by (auto simp: counted_def)
      let ?x = "or_else 0 (map_of vps v)"
      have x: "unat ?x = vote_power (sigs up s) latest vs v"
        using t v(4) vote_power_le [of "sigs up s" latest vs v] by (auto simp: acc tallied_def unat_of_nat)
      have le: "vote_power (sigs up s) latest vs v + unat (ve_power e) < 2 ^ 64" using True vote_power_le [of "sigs up s" latest vs v] by simp
      then have "word_add ?x (ve_power e) = Ok (?x + ve_power e)" using x by (simp add: word_add_def checked_add_def)
      then have run: "tally U s up latest e acc = Ok (total + ve_power e, AList.update v (?x + ve_power e) vps)"
        using v w r c by (auto simp: acc tally_def unwrap_def)
      have new: "?x + ve_power e = of_nat (vote_power (sigs up s) latest (vs @ [e]) v)"
        using x v by (simp add: vp counted_def flip: x)
      have pos: "0 < vote_power (sigs up s) latest (vs @ [e]) v" using v by (auto simp: vp counted_def word_neq_0_conv unat_gt_0)
      have "tallied (sigs up s) latest cv (vs @ [e]) (total + ve_power e, AList.update v (?x + ve_power e) vps)"
        using t True tot pos v(1,2,3,4) unfolding new
        by (auto simp: acc tallied_def update_conv' distinct_update vp counted_def split: if_splits)
      then show ?thesis using True run by auto
    qed
  next
    case False
    then have "word_add total (ve_power e) = Panic" using total by (simp add: word_add_def checked_add_def)
    then show ?thesis using False by (simp add: acc tally_def)
  qed
qed

lemma tally_fold:
  assumes up: "upok up s cv" and "tallied (sigs up s) latest cv vs acc" and "\<forall>e \<in> set ws. pubkey_ok (ve_pubkey e)"
  shows "if powers (vs @ ws) < 2 ^ 64 then \<exists>acc'. fold_result (tally U s up latest) ws acc = Ok acc' \<and> tallied (sigs up s) latest cv (vs @ ws) acc'
    else fold_result (tally U s up latest) ws acc = Panic"
  using assms(2,3)
proof (induction ws arbitrary: vs acc)
  case Nil
  then show ?case by (simp add: tallied_def)
next
  case (Cons e ws)
  note step = tally_law [OF up, of e latest vs acc]
  show ?case
  proof (cases "powers (vs @ [e]) < 2 ^ 64")
    case True
    then obtain acc' where a: "tally U s up latest e acc = Ok acc'" "tallied (sigs up s) latest cv (vs @ [e]) acc'"
      using step Cons.prems by auto
    have assoc: "(vs @ [e]) @ ws = vs @ e # ws" by simp
    have run: "fold_result (tally U s up latest) (e # ws) acc = fold_result (tally U s up latest) ws acc'" using a(1) by simp
    have ws: "\<forall>e \<in> set ws. pubkey_ok (ve_pubkey e)" using Cons.prems(2) by simp
    show ?thesis unfolding run by (rule Cons.IH [OF a(2) ws, unfolded assoc])
  next
    case False
    then have "tally U s up latest e acc = Panic" using step Cons.prems by simp
    then show ?thesis using False by simp
  qed
qed

text \<open>The outcome of counting, for the validators of the current set.\<close>

definition ready :: "'d upgrade \<Rightarrow> 's \<Rightarrow> int \<Rightarrow> bytes \<Rightarrow> validator_entry list \<Rightarrow> 'd decimal \<Rightarrow> bytes option \<Rightarrow> bool" where
  "ready up s latest cv vs thr choice \<longleftrightarrow> (case choice of
      Some v \<Rightarrow> v \<noteq> cv \<and> 0 < vote_power (sigs up s) latest vs v \<and> num.val thr < real (vote_power (sigs up s) latest vs v)
    | None \<Rightarrow> \<forall>v. v \<noteq> cv \<longrightarrow> 0 < vote_power (sigs up s) latest vs v \<longrightarrow> real (vote_power (sigs up s) latest vs v) \<le> num.val thr)"

lemma gt_decimal_law: "amount_gt_decimal (ut_num U) a d \<longleftrightarrow> num.val d < real (am_nat a)"
  by (simp add: amount_gt_decimal_def num.less_law del: num.val_from_amount) (simp add: decimal_from_amount_def num.from_u64_law)

lemma find_ready:
  assumes "tallied (sigs up s) latest cv vs (n, vps)"
  shows "ready up s latest cv vs thr (map_option fst (find (\<lambda>(_, vp). amount_gt_decimal (ut_num U) (Amount vp) thr) (ut_order U vps)))"
proof -
  have set: "set (ut_order U vps) = set vps" using vote_order_law [of vps] by (metis set_mset_mset)
  have mo: "(v, x) \<in> set vps \<longleftrightarrow> v \<noteq> cv \<and> 0 < vote_power (sigs up s) latest vs v \<and> x = of_nat (vote_power (sigs up s) latest vs v)" for v x
  proof -
    have "distinct (map fst vps)" using assms by (simp add: tallied_def)
    then have "(v, x) \<in> set vps \<longleftrightarrow> map_of vps v = Some x" by (simp add: map_of_eq_Some_iff)
    also have "map_of vps v = (if v \<noteq> cv \<and> 0 < vote_power (sigs up s) latest vs v then Some (of_nat (vote_power (sigs up s) latest vs v)) else None)"
      using assms unfolding tallied_def snd_conv by blast
    finally show ?thesis by auto
  qed
  have un: "unat (of_nat (vote_power (sigs up s) latest vs v) :: u64) = vote_power (sigs up s) latest vs v" for v
    using assms vote_power_le [of "sigs up s" latest vs v] by (simp add: tallied_def unat_of_nat)
  show ?thesis
  proof (cases "find (\<lambda>(_, vp). amount_gt_decimal (ut_num U) (Amount vp) thr) (ut_order U vps)")
    case None
    then have "\<not> amount_gt_decimal (ut_num U) (Amount x) thr" if "(v, x) \<in> set vps" for v x
      using that set by (auto simp: find_None_iff)
    then show ?thesis using None by (auto simp: ready_def mo un gt_decimal_law not_less simp del: of_nat_unat)
  next
    case (Some vx)
    then have "vx \<in> set vps" "amount_gt_decimal (ut_num U) (Amount (snd vx)) thr"
      using set by (auto simp: find_Some_iff) (metis nth_mem)
    then show ?thesis using Some mo [of "fst vx" "snd vx"] un by (auto simp: ready_def gt_decimal_law simp del: of_nat_unat)
  qed
qed

lemma upgrade_ready_law:
  assumes up: "upok up s cv" and cx: "cx_time cx = Some t" "cx_validators cx = Some ups" "ok (cx_cells cx) s"
    and vs: "validators_entries (ut_abci U) s (ups, cx_cells cx) = (Ok vs, (ups, cx_cells cx))" "\<forall>e \<in> set vs. pubkey_ok (ve_pubkey e)"
    and latest: "latest = tm_seconds t - up_activation_delay_seconds up"
  shows "if \<not> in_i64 latest \<or> 2 ^ 64 \<le> powers vs then upgrade_ready U s (up, cx) = (Panic, (up, cx))
    else case decimal_mul_amount (ut_num U) (up_threshold up) (Amount (of_nat (powers vs))) of
        MErr _ \<Rightarrow> upgrade_ready U s (up, cx) = (Err Error_Unknown, (up, cx))
      | MOk thr \<Rightarrow> \<exists>choice. upgrade_ready U s (up, cx) = (Ok choice, (up, cx)) \<and> ready up s latest cv vs thr choice"
proof -
  let ?rest = "\<lambda>(total_vp, signal_vps). op_bind (op_read (\<lambda>(up, cx). math_q (decimal_mul_amount (ut_num U) (up_threshold up) (Amount total_vp)))) (\<lambda>vp_threshold.
     op_ok (map_option fst (find (\<lambda>(_, vp). amount_gt_decimal (ut_num U) (Amount vp) vp_threshold) (ut_order U signal_vps))))"
  have cxid: "cx\<lparr>cx_validators := Some ups, cx_cells := cx_cells cx\<rparr> = cx" using cx(2) by simp
  have cur: "current_validators U s (up, cx) = (Ok vs, (up, cx))" using vs(1) cx(2) cxid by (simp add: current_validators_def on_validators_def)
  have run: "upgrade_ready U s (up, cx) = (if in_i64 latest
      then op_bind (op_lift (fold_result (tally U s up latest) vs (0, []))) ?rest (up, cx) else (Panic, (up, cx)))"
    using cx(1) cur latest by (simp add: upgrade_ready_def upgrade_current_seconds_def op_bind_def ok_or_def i64_sub_def)
  have "tallied (sigs up s) latest cv [] (0, [])" by (simp add: tallied_def vote_power_def)
  from tally_fold [OF up this vs(2)]
  have fold: "if powers vs < 2 ^ 64 then \<exists>acc. fold_result (tally U s up latest) vs (0, []) = Ok acc \<and> tallied (sigs up s) latest cv vs acc
      else fold_result (tally U s up latest) vs (0, []) = Panic" unfolding append_Nil .
  show ?thesis
  proof (cases "in_i64 latest \<and> powers vs < 2 ^ 64")
    case True
    then obtain n vps where f: "fold_result (tally U s up latest) vs (0, []) = Ok (n, vps)" and t: "tallied (sigs up s) latest cv vs (n, vps)"
      using fold by (auto split: if_splits)
    have n: "n = of_nat (powers vs)" using t by (simp add: tallied_def)
    show ?thesis
    proof (cases "decimal_mul_amount (ut_num U) (up_threshold up) (Amount n)")
      case (MOk thr)
      let ?choice = "map_option fst (find (\<lambda>(_, vp). amount_gt_decimal (ut_num U) (Amount vp) thr) (ut_order U vps))"
      have "upgrade_ready U s (up, cx) = (Ok ?choice, (up, cx))" using run True f MOk by (simp add: op_bind_def)
      then show ?thesis using True MOk find_ready [OF t, of thr] by (auto simp: n)
    next
      case (MErr e)
      then show ?thesis using run True f by (simp add: op_bind_def n)
    qed
  next
    case False
    then show ?thesis using run fold by (auto simp: not_less split: if_splits)
  qed
qed

text \<open>Which entries are counted: the current validator set.\<close>

lemma entries_pubkeys:
  assumes "ok cells s" and "validators_entries (ut_abci U) s (ups, cells) = (Ok vs, (ups, cells))"
  shows "\<forall>e \<in> set vs. pubkey_ok (ve_pubkey e) \<and> vp cells s (ve_pubkey e) = Some (ve_power e)"
proof
  obtain ws where ws: "validators_entries (ut_abci U) s (ups, cells) = (Ok ws, (ups, cells))"
      "\<forall>k v. \<lparr>ve_pubkey = k, ve_power = v\<rparr> \<in> set ws \<longleftrightarrow> pubkey_ok k \<and> vp cells s k = Some v"
    using entries_law [OF assms(1)] by blast
  fix e assume "e \<in> set vs"
  then have "e \<in> set ws" using ws(1) assms(2) by simp
  moreover have "\<lparr>ve_pubkey = ve_pubkey e, ve_power = ve_power e\<rparr> = e" by simp
  ultimately have "\<lparr>ve_pubkey = ve_pubkey e, ve_power = ve_power e\<rparr> \<in> set ws" by (simp only:)
  then show "pubkey_ok (ve_pubkey e) \<and> vp cells s (ve_pubkey e) = Some (ve_power e)" using ws(2) by blast
qed

lemma set_version:
  assumes "upok up s cv" and "vok v"
  shows "\<exists>m'. on_current_version (map_insert (ut_version U) () v) (up, cx) = (Ok (), (up\<lparr>up_current_version := m'\<rparr>, cx)) \<and> upok (up\<lparr>up_current_version := m'\<rparr>) s v"
  using version.access_insert [OF _ _ assms(2), of "up_current_version up" s "()"] assms(1)
  by (auto simp: on_current_version_def upgrade_ok_def)

lemma voted_version_ok:
  assumes "upok up s cv" and "0 < vote_power (sigs up s) latest vs v" and "\<forall>e \<in> set vs. pubkey_ok (ve_pubkey e)"
  shows "vok v"
proof -
  have "filter (counted (sigs up s) latest v) vs \<noteq> []" using assms(2) by (auto simp: vote_power_def)
  then obtain e g where "e \<in> set vs" "sigs up s (ve_pubkey e) = Some g" "sg_version g = v" by (auto simp: filter_empty_conv counted_def)
  then show ?thesis using signals.access_ok [of "up_signals up" s "ve_pubkey e" g] assms(1,3) signal_version_ok by (auto simp: upgrade_ok_def)
qed

lemma step_run:
  assumes "upok up s cv"
  shows "upgrade_step U s bin_version auth (up, cx) = (if bin_version \<noteq> cv then (Err (Error_Upgrade (UpgradeVersion cv bin_version)), (up, cx))
    else if \<not> auth then (Ok (), (up, cx))
    else op_bind (upgrade_ready U s) (\<lambda>ready. case ready of
          Some new_version \<Rightarrow> on_current_version (map_insert (ut_version U) () new_version)
        | None \<Rightarrow> op_ok ()) (up, cx))"
  using version_get [OF assms] by (auto simp: upgrade_step_def op_bind_def unwrap_def Let_def)

lemma step_quorum:
  assumes up: "upok up s cv" and cells: "cx_validators cx \<noteq> None \<Longrightarrow> ok (cx_cells cx) s"
    and run: "upgrade_step U s bin_version auth (up, cx) = (r, (up', cx'))" and changed: "vlook (up_current_version up') s () \<noteq> Some cv"
  shows "auth \<and> bin_version = cv \<and> r = Ok () \<and> (\<exists>t ups vs thr v. cx_time cx = Some t \<and> cx_validators cx = Some ups
    \<and> validators_entries (ut_abci U) s (ups, cx_cells cx) = (Ok vs, (ups, cx_cells cx))
    \<and> decimal_mul_amount (ut_num U) (up_threshold up) (Amount (of_nat (powers vs))) = MOk thr
    \<and> vlook (up_current_version up') s () = Some v
    \<and> num.val thr < real (vote_power (sigs up s) (tm_seconds t - up_activation_delay_seconds up) vs v))"
proof -
  let ?go = "\<lambda>ready. case ready of Some new_version \<Rightarrow> on_current_version (map_insert (ut_version U) () new_version) | None \<Rightarrow> op_ok ()"
  have cv: "vlook (up_current_version up) s () = Some cv" using up by (simp add: upgrade_ok_def)
  have ab: "auth" "bin_version = cv" and go: "op_bind (upgrade_ready U s) ?go (up, cx) = (r, (up', cx'))"
    using run changed cv unfolding step_run [OF up] by (auto split: if_splits)
  have same: "fst (snd (upgrade_ready U s (up, cx))) = up \<Longrightarrow> \<exists>ch cx1. upgrade_ready U s (up, cx) = (Ok (Some ch), (up, cx1))"
    using go changed cv by (cases "upgrade_ready U s (up, cx)") (auto simp: op_bind_def split: result.splits option.splits)
  obtain t where t: "cx_time cx = Some t"
    using same by (cases "cx_time cx") (auto simp: upgrade_ready_def upgrade_current_seconds_def op_bind_def ok_or_def)
  show ?thesis
  proof (cases "cx_validators cx")
    case None
    then have "upgrade_ready U s (up, cx) = (if in_i64 (tm_seconds t - up_activation_delay_seconds up) then Err (Error_App ''No validator context found'') else Panic, (up, cx))"
      using t by (simp add: upgrade_ready_def upgrade_current_seconds_def op_bind_def ok_or_def i64_sub_def current_validators_def on_validators_def)
    then show ?thesis using same by (auto split: if_splits)
  next
    case (Some ups)
    then have c: "ok (cx_cells cx) s" using cells by simp
    obtain vs where vs: "validators_entries (ut_abci U) s (ups, cx_cells cx) = (Ok vs, (ups, cx_cells cx))" using entries_law [OF c] by blast
    have pk: "\<forall>e \<in> set vs. pubkey_ok (ve_pubkey e)" using entries_pubkeys [OF c vs] by blast
    let ?l = "tm_seconds t - up_activation_delay_seconds up"
    note law = upgrade_ready_law [OF up t Some c vs pk refl]
    obtain thr ch where thr: "decimal_mul_amount (ut_num U) (up_threshold up) (Amount (of_nat (powers vs))) = MOk thr"
        "upgrade_ready U s (up, cx) = (Ok ch, (up, cx))" "ready up s ?l cv vs thr ch"
      using law same by (auto split: if_splits math_result.splits)
    then obtain v where v: "ch = Some v" using same by auto
    then have q: "num.val thr < real (vote_power (sigs up s) ?l vs v)" "0 < vote_power (sigs up s) ?l vs v" using thr(3) by (simp_all add: ready_def)
    obtain m' where "on_current_version (map_insert (ut_version U) () v) (up, cx) = (Ok (), (up\<lparr>up_current_version := m'\<rparr>, cx))"
        "upok (up\<lparr>up_current_version := m'\<rparr>) s v" using set_version [OF up voted_version_ok [OF up q(2) pk]] by blast
    then have "r = Ok ()" "vlook (up_current_version up') s () = Some v" using go thr(2) v by (auto simp: op_bind_def upgrade_ok_def)
    then show ?thesis using ab t Some vs thr(1) q by blast
  qed
qed

text \<open>With a majority as the threshold there is one version at most, and it is chosen.\<close>

lemma majority_step:
  assumes up: "upok up s cv" and t: "cx_time cx = Some t" and ups: "cx_validators cx = Some ups" and c: "ok (cx_cells cx) s"
    and vs: "validators_entries (ut_abci U) s (ups, cx_cells cx) = (Ok vs, (ups, cx_cells cx))" "powers vs < 2 ^ 64"
    and l: "l = tm_seconds t - up_activation_delay_seconds up" "in_i64 l"
    and thr: "decimal_mul_amount (ut_num U) (up_threshold up) (Amount (of_nat (powers vs))) = MOk thr" "real (powers vs) \<le> 2 * num.val thr"
    and v: "v \<noteq> cv" "num.val thr < real (vote_power (sigs up s) l vs v)"
  shows "\<exists>up'. upgrade_step U s cv True (up, cx) = (Ok (), (up', cx)) \<and> upok up' s v"
proof -
  have pk: "\<forall>e \<in> set vs. pubkey_ok (ve_pubkey e)" using entries_pubkeys [OF c vs(1)] by blast
  obtain ch where ch: "upgrade_ready U s (up, cx) = (Ok ch, (up, cx))" "ready up s l cv vs thr ch"
    using upgrade_ready_law [OF up t ups c vs(1) pk l(1)] vs(2) l(2) thr(1) by auto
  have pos: "0 < vote_power (sigs up s) l vs v" using v(2) thr(2) by (cases "vote_power (sigs up s) l vs v") auto
  have "ch = Some v"
  proof (cases ch)
    case None
    then show ?thesis using ch(2) v pos by (auto simp: ready_def)
  next
    case (Some w)
    then have "num.val thr < real (vote_power (sigs up s) l vs w)" using ch(2) by (simp add: ready_def)
    then have "powers vs < vote_power (sigs up s) l vs v + vote_power (sigs up s) l vs w" using v(2) thr(2) by linarith
    then show ?thesis using Some vote_power_disjoint [of v w "sigs up s" l vs] by fastforce
  qed
  moreover obtain m' where "on_current_version (map_insert (ut_version U) () v) (up, cx) = (Ok (), (up\<lparr>up_current_version := m'\<rparr>, cx))"
      "upok (up\<lparr>up_current_version := m'\<rparr>) s v" using set_version [OF up voted_version_ok [OF up pos pk]] by blast
  ultimately show ?thesis using ch(1) by (simp add: step_run [OF up] op_bind_def)
qed

lemma signal_law:
  assumes up: "upok up s cv" and sg: "cx_signer cx = Some (Signer (Some a))" "opok (address_bytes a)"
    and c: "cx_validators cx = Some ups" "ok (cx_cells cx) s" "opr (cx_cells cx) s (address_bytes a) = Some k" "pubkey_ok k"
    and t: "cx_time cx = Some t" and new: "g = \<lparr>sg_version = version, sg_time = tm_seconds t\<rparr>" "sok g"
  shows "case check_previous U up g (sigs up s k) of
      Ok _ \<Rightarrow> \<exists>m'. upgrade_signal U s version (up, cx) = (Ok (), (up\<lparr>up_signals := m'\<rparr>, disable_fee cx)) \<and> upok (up\<lparr>up_signals := m'\<rparr>) s cv
        \<and> (\<forall>k'. pubkey_ok k' \<longrightarrow> slook m' s k' = (if k' = k then Some g else sigs up s k'))
    | Err e \<Rightarrow> upgrade_signal U s version (up, cx) = (Err e, (up, disable_fee cx))
    | Panic \<Rightarrow> upgrade_signal U s version (up, cx) = (Panic, (up, disable_fee cx))"
proof -
  have swf: "swf (up_signals up) s" using up by (simp add: upgrade_ok_def)
  have d: "cx_signer (disable_fee cx) = cx_signer cx" "cx_validators (disable_fee cx) = cx_validators cx" "cx_cells (disable_fee cx) = cx_cells cx"
      "cx_time (disable_fee cx) = cx_time cx" "(disable_fee cx)\<lparr>cx_validators := Some ups, cx_cells := cx_cells cx\<rparr> = disable_fee cx"
    using c(1) by (simp_all add: disable_fee_def split: option.splits)
  have key: "signer_cons_key U s (up, disable_fee cx) = (Ok k, (up, disable_fee cx))"
    using sg c consensus_key_law [OF c(2) sg(2), of ups] d
    by (simp add: signer_cons_key_def upgrade_signer_def op_bind_def ok_or_def on_validators_def)
  obtain r where r: "map_get (ut_signals U) (up_signals up) s k = Ok r" "map_option ref_deref r = sigs up s k"
    using signals.access_get [OF swf c(4)] by blast
  have run: "upgrade_signal U s version (up, cx) = op_bind (op_lift (check_previous U up g (sigs up s k))) (\<lambda>_. on_signals (map_insert (ut_signals U) k g)) (up, disable_fee cx)"
    using key r t d(4) by (simp add: upgrade_signal_def upgrade_current_seconds_def op_bind_def ok_or_def Let_def new(1))
  show ?thesis
  proof (cases "check_previous U up g (sigs up s k)")
    case (Ok u)
    obtain m' where "map_insert (ut_signals U) k g (up_signals up) = (Ok (), m')" "swf m' s"
        "\<forall>k'. pubkey_ok k' \<longrightarrow> slook m' s k' = (if k' = k then Some g else sigs up s k')"
      using signals.access_insert [OF swf c(4) new(2)] by auto
    then show ?thesis using run Ok up by (auto simp: on_signals_def upgrade_ok_def)
  qed (use run in simp_all)
qed

end

section \<open>In-memory state\<close>

text \<open>\<^verbatim>\<open>LengthVec<u8, u8>\<close> and \<^verbatim>\<open>i64\<close>, and the derived implementation for a signal.\<close>

definition version_codec :: "bytes codec" where
  "version_codec = \<lparr>
     enc = (\<lambda>v. length_vec_encode word_codec Ok (length_vec_new (of_nat (length v) :: byte) v)),
     dec = (\<lambda>bytes. and_then (length_vec_decode word_codec word_codec (\<lambda>len :: byte. Some (unat len)) bytes) (\<lambda>(v, rest). Ok (lv_values v, rest)))\<rparr>"

definition i64_codec :: "int codec" where
  "i64_codec = \<lparr>enc = (\<lambda>x. enc word_codec (word_of_int x :: u64)),
     dec = (\<lambda>bytes. and_then (dec (word_codec :: u64 codec) bytes) (\<lambda>(w, rest). Ok (sint w, rest)))\<rparr>"

definition signal_state :: "(byte \<Rightarrow> byte \<Rightarrow> string) \<Rightarrow> ('s, signal) state_ops" where
  "signal_state msg = derived_ops msg \<lparr>sg_version = [], sg_time = 0\<rparr> (plain_input
     [struct_field ''version'' sg_version (\<lambda>v. sg_version_update (\<lambda>_. v)) \<lparr>sg_version = [], sg_time = 0\<rparr> (leaf_state version_codec),
      struct_field ''time'' sg_time (\<lambda>t. sg_time_update (\<lambda>_. t)) \<lparr>sg_version = [], sg_time = 0\<rparr> (leaf_state i64_codec)])"

definition signal_fits :: "signal \<Rightarrow> bool" where
  "signal_fits g \<longleftrightarrow> length (sg_version g) < 256 \<and> in_i64 (sg_time g)"

interpretation version_codec: terminated_codec version_codec "\<lambda>v. length v < 256"
proof
  fix v :: bytes and bs rest
  show "\<exists>bs. enc version_codec v = Ok bs" by (simp add: version_codec_def length_vec_encode_def length_vec_new_def)
  assume v: "length v < 256" and "enc version_codec v = Ok bs"
  then have "bs = of_nat (length v) # v" by (simp add: version_codec_def length_vec_encode_def length_vec_new_def)
  moreover have "unat (of_nat (length v) :: byte) = length v" using v by (simp add: unat_of_nat)
  moreover have "decode_n word_codec (length v) (v @ rest) = Ok (v, rest)"
    using enc_all_decode_n [OF u8_codec.terminated_codec_axioms, of v v rest] by (simp add: enc_all_u8 list_all_iff)
  ultimately show "dec version_codec (bs @ rest) = Ok (v, rest)" by (simp add: version_codec_def length_vec_decode_def ok_or_def)
qed

interpretation i64_codec: terminated_codec i64_codec in_i64
proof
  fix x :: int and bs rest
  show "\<exists>bs. enc i64_codec x = Ok bs" using u64_codec.enc_total by (simp add: i64_codec_def)
  assume x: "in_i64 x" and e: "enc i64_codec x = Ok bs"
  have "sint (word_of_int x :: u64) = x"
    using x by (simp add: in_i64_def i64_min_def i64_max_def sint_sbintrunc' signed_take_bit_int_eq_self)
  then show "dec i64_codec (bs @ rest) = Ok (x, rest)"
    using e u64_codec.dec_enc [of "word_of_int x" bs rest] by (simp add: i64_codec_def)
qed

interpretation signal_state: simple_state "signal_state msg :: ('s, signal) state_ops" signal_fits for msg
  unfolding signal_state_def
proof (rule two_fields_simple)
  show "simple_field signal_fits (struct_field ''version'' sg_version (\<lambda>v. sg_version_update (\<lambda>_. v)) \<lparr>sg_version = [], sg_time = 0\<rparr> (leaf_state version_codec) :: ('s, signal) state_field)"
    by (rule struct_field_simple [OF leaf_state_simple [OF version_codec.terminated_codec_axioms]]) (simp_all add: signal_fits_def)
  show "simple_field signal_fits (struct_field ''time'' sg_time (\<lambda>t. sg_time_update (\<lambda>_. t)) \<lparr>sg_version = [], sg_time = 0\<rparr> (leaf_state i64_codec) :: ('s, signal) state_field)"
    by (rule struct_field_simple [OF leaf_state_simple [OF i64_codec.terminated_codec_axioms]]) (simp_all add: signal_fits_def)
qed (simp_all add: struct_field_def)

definition unit_map :: "(mapstore, 'v) state_ops \<Rightarrow> (mapstore, unit, 'v) map_types" where
  "unit_map V = \<lparr>mt_backing = mapstore_backing, mt_key = unit_codec, mt_value = V, mt_fuel = 0\<rparr>"

lemma unit_map_simple: "stored_state V okv \<Longrightarrow> simple_map (unit_map V) mapstore_ents mapstore_invar (\<lambda>_. True) okv"
  by (intro simple_map.intro) (simp_all add: unit_map_def mapstore.lawful_backing_axioms unit_codec.terminated_codec_axioms)

definition mem_upgrade :: "(mapstore, rat) upgrade_types" where
  "mem_upgrade = \<lparr>ut_abci = mem_types, ut_num = rat_decimal, ut_signals = array_map 32 (signal_state (\<lambda>_ _. [])) 0,
     ut_version = unit_map (leaf_state version_codec), ut_order = id, ut_wait_text = (\<lambda>_. []), ut_version_text = (\<lambda>_. [])\<rparr>"

abbreviation "mem_slook \<equiv> map_look (ut_signals mem_upgrade) mapstore_ents"
abbreviation "mem_swf \<equiv> map_wf (ut_signals mem_upgrade) mapstore_ents mapstore_invar pubkey_ok signal_fits"
abbreviation "mem_vlook \<equiv> map_look (ut_version mem_upgrade) mapstore_ents"
abbreviation "mem_vwf \<equiv> map_wf (ut_version mem_upgrade) mapstore_ents mapstore_invar (\<lambda>_. True) (\<lambda>v. length v < 256)"
abbreviation "mem_cwf \<equiv> mem_wf (at_current mem_types) pubkey_ok (\<lambda>_. True)"
abbreviation "mem_owf \<equiv> mem_wf (at_operators mem_types) (\<lambda>a. length a = 20) pubkey_ok"

interpretation mem_upgrade: upgrade_maps mem_upgrade
    "map_look (at_updates mem_types) mapstore_ents" "mem_wf (at_updates mem_types) pubkey_ok made_update" made_update
    "map_look (at_current mem_types) mapstore_ents" mem_cwf "map_look (at_operators mem_types) mapstore_ents" mem_owf "\<lambda>a. length a = 20"
    mem_slook mem_swf signal_fits mem_vlook mem_vwf "\<lambda>v. length v < 256" of_rat
proof (intro upgrade_maps.intro upgrade_maps_axioms.intro)
  have u: "ut_abci mem_upgrade = mem_types" by (simp add: mem_upgrade_def)
  show "validator_maps (ut_abci mem_upgrade) (map_look (at_updates mem_types) mapstore_ents) (mem_wf (at_updates mem_types) pubkey_ok made_update) made_update
      (map_look (at_current mem_types) mapstore_ents) mem_cwf (map_look (at_operators mem_types) mapstore_ents) mem_owf (\<lambda>a. length a = 20)"
    unfolding u by (rule mem_validators.validator_maps_axioms)
  have "simple_map (ut_signals mem_upgrade) mapstore_ents mapstore_invar pubkey_ok signal_fits"
    unfolding mem_upgrade_def upgrade_types.simps
    by (rule array_map_simple [OF signal_state.stored_contract]) (simp add: pubkey_ok_def pubkey_length_def)
  then show "map_access (ut_signals mem_upgrade) mem_slook mem_swf pubkey_ok signal_fits"
    by (rule map_contract.access_contract [OF simple_map.simple_map_contract])
  have "simple_map (ut_version mem_upgrade) mapstore_ents mapstore_invar (\<lambda>_. True) (\<lambda>v. length v < 256)"
    unfolding mem_upgrade_def upgrade_types.simps
    by (rule unit_map_simple [OF simple_state.stored_contract [OF leaf_state_simple [OF version_codec.terminated_codec_axioms]]])
  then show "map_access (ut_version mem_upgrade) mem_vlook mem_vwf (\<lambda>_. True) (\<lambda>v. length v < 256)"
    by (rule map_contract.access_contract [OF simple_map.simple_map_contract])
  show "decimal_lib (ut_num mem_upgrade) of_rat" by (simp add: mem_upgrade_def rat_decimal.decimal_lib_axioms)
qed (simp_all add: mem_upgrade_def signal_fits_def)

section \<open>A state with a quorum\<close>

abbreviation (input) sample_key :: bytes where "sample_key \<equiv> replicate 32 1"

text \<open>One validator of power 7, which signalled version 1 at time 0; it is time 100 now.\<close>

lemma sample_upgrade:
  "\<exists>(up :: rat upgrade) (cx :: abci_contexts). upgrade_ok mem_swf mem_vwf mem_vlook up mapstore_new [0] \<and> cx_time cx = Some \<lparr>tm_seconds = 100, tm_nanos = 0\<rparr>
    \<and> cx_validators cx = Some [] \<and> cells_ok mem_cwf mem_owf (cx_cells cx) mapstore_new
    \<and> validators_entries mem_types mapstore_new ([], cx_cells cx) = (Ok [\<lparr>ve_pubkey = sample_key, ve_power = 7\<rparr>], ([], cx_cells cx))
    \<and> mem_slook (up_signals up) mapstore_new sample_key = Some \<lparr>sg_version = [1], sg_time = 0\<rparr>
    \<and> up_threshold up = Decimal (2 / 3) \<and> up_activation_delay_seconds up = 10"
proof -
  note new = mem_new_wf and none = mem_new_look
  let ?c0 = "\<lparr>vc_current_vp = Some map_new, vc_cons_key = Some map_new\<rparr>"
  have c0: "cells_ok mem_cwf mem_owf ?c0 mapstore_new" by (simp add: cells_ok_def new)
  have c0n: "vp_of (map_look (at_current mem_types) mapstore_ents) ?c0 mapstore_new k' = None" for k' by (simp add: vp_of_def none)
  obtain c where c: "cells_ok mem_cwf mem_owf c mapstore_new"
      "\<forall>k'. pubkey_ok k' \<longrightarrow> vp_of (map_look (at_current mem_types) mapstore_ents) c mapstore_new k' = (if k' = sample_key then Some 7 else None)"
    using mem_validators.set_voting_power_law [OF c0 sample_key_ok, of 7 "[]"] unfolding c0n by blast
  obtain vs where vs: "validators_entries mem_types mapstore_new ([], c) = (Ok vs, ([], c))" "distinct (map ve_pubkey vs)"
      "\<forall>k v. \<lparr>ve_pubkey = k, ve_power = v\<rparr> \<in> set vs \<longleftrightarrow> pubkey_ok k \<and> vp_of (map_look (at_current mem_types) mapstore_ents) c mapstore_new k = Some v"
    using mem_validators.entries_law [OF c(1)] by blast
  let ?e = "\<lparr>ve_pubkey = sample_key, ve_power = 7\<rparr> :: validator_entry"
  have "e \<in> set vs \<longleftrightarrow> e = ?e" for e
    using vs(3) c(2) sample_key_ok by (cases e) (auto split: if_splits)
  then have set: "set vs = {?e}" by blast
  have "distinct vs" using vs(2) by (simp add: distinct_map)
  then have "length vs = 1" using set distinct_card [of vs] by simp
  then have v: "vs = [?e]" using set by (cases vs) auto
  obtain sm where sm: "mem_swf sm mapstore_new" "mem_slook sm mapstore_new sample_key = Some \<lparr>sg_version = [1], sg_time = 0\<rparr>"
    using mem_upgrade.signals.access_insert [OF new sample_key_ok, of "\<lparr>sg_version = [1], sg_time = 0\<rparr>"] sample_key_ok
    by (auto simp: signal_fits_def in_i64_def i64_min_def i64_max_def)
  obtain vm where vm: "mem_vwf vm mapstore_new" "mem_vlook vm mapstore_new () = Some [0]"
    using mem_upgrade.version.access_insert [OF new, where k = "()" and v = "[0]"] by auto
  let ?up = "\<lparr>up_signals = sm, up_threshold = Decimal (2 / 3), up_activation_delay_seconds = 10, up_rate_limit_seconds = 60, up_current_version = vm\<rparr>"
  let ?cx = "\<lparr>cx_paid = None, cx_signer = None, cx_chain_id = None, cx_events = None, cx_time = Some \<lparr>tm_seconds = 100, tm_nanos = 0\<rparr>, cx_logs = None,
     cx_validators = Some [], cx_cells = c\<rparr> :: abci_contexts"
  show ?thesis using sm vm c(1) vs(1) v by (intro exI [of _ ?up] exI [of _ ?cx]) (simp add: upgrade_ok_def)
qed

lemma sample_votes:
  assumes "sigs sample_key = Some \<lparr>sg_version = [1], sg_time = 0\<rparr>"
  shows "vote_power sigs 90 [\<lparr>ve_pubkey = sample_key, ve_power = 7\<rparr>] [1] = 7" "powers [\<lparr>ve_pubkey = sample_key, ve_power = 7\<rparr>] = 7"
  using assms by (simp_all add: vote_power_def counted_def)

lemma sample_threshold:
  "decimal_mul_amount (ut_num mem_upgrade) (Decimal (2 / 3)) (Amount (of_nat 7)) = MOk (Decimal (14 / 3))" "real_of_rat (14 / 3) = 14 / 3"
  by (simp_all add: decimal_mul_amount_def decimal_from_amount_def mem_upgrade_def rat_decimal_def of_rat_divide)

section \<open>Properties\<close>

text \<open>
  (C13) The network version changes only by a quorum: when \<open>upgrade_step\<close> has changed the current
  version, then the upgrade was authorized, the binary ran the old version, and the validators
  of the current set whose signals for the new version are at least the activation delay
  old have more voting power than the threshold times the total power of the set.
\<close>

theorem upgrade_needs_quorum:
  assumes "upgrade_maps U ulook uwf uok clook cwf olook owf opok slook swf sok vlook vwf vok dv"
    and "upgrade_ok swf vwf vlook up s cv" and "cx_validators cx \<noteq> None \<Longrightarrow> cells_ok cwf owf (cx_cells cx) s"
    and "upgrade_step U s bin_version auth (up, cx) = (r, (up', cx'))" and "vlook (up_current_version up') s () \<noteq> Some cv"
  shows "auth \<and> bin_version = cv \<and> r = Ok () \<and> (\<exists>t ups vs thr v. cx_time cx = Some t \<and> cx_validators cx = Some ups
    \<and> validators_entries (ut_abci U) s (ups, cx_cells cx) = (Ok vs, (ups, cx_cells cx))
    \<and> decimal_mul_amount (ut_num U) (up_threshold up) (Amount (of_nat (powers vs))) = MOk thr
    \<and> vlook (up_current_version up') s () = Some v
    \<and> dv (dec_value thr) < real (vote_power (slook (up_signals up) s) (tm_seconds t - up_activation_delay_seconds up) vs v))"
  by (rule upgrade_maps.step_quorum [OF assms])

theorem upgrade_needs_quorum_witness:
  "\<exists>up (cx :: abci_contexts) up' thr. upgrade_step mem_upgrade mapstore_new [0] True (up, cx) = (Ok (), (up', cx))
    \<and> mem_vlook (up_current_version up') mapstore_new () = Some [1] \<and> real_of_rat thr < 7"
proof -
  obtain up :: "rat upgrade" and cx :: abci_contexts where up: "upgrade_ok mem_swf mem_vwf mem_vlook up mapstore_new [0]" and cx: "cx_time cx = Some \<lparr>tm_seconds = 100, tm_nanos = 0\<rparr>"
      "cx_validators cx = Some []" "cells_ok mem_cwf mem_owf (cx_cells cx) mapstore_new"
      and vs: "validators_entries mem_types mapstore_new ([], cx_cells cx) = (Ok [\<lparr>ve_pubkey = sample_key, ve_power = 7\<rparr>], ([], cx_cells cx))"
      and sg: "mem_slook (up_signals up) mapstore_new sample_key = Some \<lparr>sg_version = [1], sg_time = 0\<rparr>"
      and th: "up_threshold up = Decimal (2 / 3)" "up_activation_delay_seconds up = 10"
    using sample_upgrade by blast
  have u: "ut_abci mem_upgrade = mem_types" by (simp add: mem_upgrade_def)
  obtain up' where run: "upgrade_step mem_upgrade mapstore_new [0] True (up, cx) = (Ok (), (up', cx))" and up': "upgrade_ok mem_swf mem_vwf mem_vlook up' mapstore_new [1]"
    using mem_upgrade.majority_step [OF up cx, of "[\<lparr>ve_pubkey = sample_key, ve_power = 7\<rparr>]" 90 "Decimal (14 / 3)" "[1]"] vs sample_votes [of "mem_slook (up_signals up) mapstore_new", OF sg] sample_threshold th u
    by (auto simp: in_i64_def i64_min_def i64_max_def)
  have ch: "mem_vlook (up_current_version up') mapstore_new () \<noteq> Some [0]" using up' by (simp add: upgrade_ok_def)
  have "real_of_rat (14 / 3) < 7" by (simp add: sample_threshold)
  moreover have "\<exists>v. mem_vlook (up_current_version up') mapstore_new () = Some v"
    using upgrade_needs_quorum [OF mem_upgrade.upgrade_maps_axioms up cx(3) run ch] by blast
  ultimately show ?thesis using run up' by (intro exI [of _ up] exI [of _ cx] exI [of _ up'] exI [of _ "14 / 3"]) (simp add: upgrade_ok_def)
qed

text \<open>
  (C14) With a majority as the threshold, a quorum is effective and the choice does not depend
  on the order of the \<^verbatim>\<open>HashMap\<close>: if some version other than the current one has more votes than
  the threshold, then \<open>upgrade_step\<close> makes it the current version, whatever \<open>ut_order\<close> is.
\<close>

theorem majority_upgrade_happens:
  assumes "upgrade_maps U ulook uwf uok clook cwf olook owf opok slook swf sok vlook vwf vok dv"
    and "upgrade_ok swf vwf vlook up s cv" and "cx_time cx = Some t" and "cx_validators cx = Some ups" and "cells_ok cwf owf (cx_cells cx) s"
    and "validators_entries (ut_abci U) s (ups, cx_cells cx) = (Ok vs, (ups, cx_cells cx))" and "powers vs < 2 ^ 64"
    and "l = tm_seconds t - up_activation_delay_seconds up" and "in_i64 l"
    and "decimal_mul_amount (ut_num U) (up_threshold up) (Amount (of_nat (powers vs))) = MOk thr" and "real (powers vs) \<le> 2 * dv (dec_value thr)"
    and "v \<noteq> cv" and "dv (dec_value thr) < real (vote_power (slook (up_signals up) s) l vs v)"
  shows "\<exists>up'. upgrade_step U s cv True (up, cx) = (Ok (), (up', cx)) \<and> upgrade_ok swf vwf vlook up' s v"
  by (rule upgrade_maps.majority_step [OF assms])

theorem majority_upgrade_happens_witness:
  "\<exists>up (cx :: abci_contexts) up'. upgrade_step mem_upgrade mapstore_new [0] True (up, cx) = (Ok (), (up', cx))
    \<and> upgrade_ok mem_swf mem_vwf mem_vlook up' mapstore_new [1]"
proof -
  obtain up :: "rat upgrade" and cx :: abci_contexts where up: "upgrade_ok mem_swf mem_vwf mem_vlook up mapstore_new [0]" and cx: "cx_time cx = Some \<lparr>tm_seconds = 100, tm_nanos = 0\<rparr>"
      "cx_validators cx = Some []" "cells_ok mem_cwf mem_owf (cx_cells cx) mapstore_new"
      and vs: "validators_entries mem_types mapstore_new ([], cx_cells cx) = (Ok [\<lparr>ve_pubkey = sample_key, ve_power = 7\<rparr>], ([], cx_cells cx))"
      and sg: "mem_slook (up_signals up) mapstore_new sample_key = Some \<lparr>sg_version = [1], sg_time = 0\<rparr>"
      and th: "up_threshold up = Decimal (2 / 3)" "up_activation_delay_seconds up = 10"
    using sample_upgrade by blast
  have u: "ut_abci mem_upgrade = mem_types" by (simp add: mem_upgrade_def)
  show ?thesis
    using majority_upgrade_happens [OF mem_upgrade.upgrade_maps_axioms up cx, of "[\<lparr>ve_pubkey = sample_key, ve_power = 7\<rparr>]" 90 "Decimal (14 / 3)" "[1]"]
      vs sample_votes [of "mem_slook (up_signals up) mapstore_new", OF sg] sample_threshold th u
    by (auto simp: in_i64_def i64_min_def i64_max_def)
qed

end
