(* ===== verification/Faucet.thy ===== *)
theory Faucet
  imports Payable Amounts
begin

text \<open>
  Scheduled issuance of coins: \<^verbatim>\<open>src/coins/faucet.rs\<close>.

  A faucet issues a fixed total over a number of periods, each of which gets the share of the
  one before it times a decay.  The locale \<open>rounded_decimal\<close> says how the decimal library rounds;
  with it, the coins that the faucet has minted never exceed the total, and are all of it
  after the last period.
\<close>

section \<open>The faucet\<close>

record 'd faucet =
  fc_configured :: bool
  fc_amount_minted :: amount
  fc_start_seconds :: int
  fc_multiplier_total :: "'d decimal"
  fc_total_to_mint :: amount
  fc_period_decay :: "'d decimal"
  fc_seconds_per_period :: u64
  fc_num_periods :: u32

text \<open>A \<^verbatim>\<open>Duration\<close> of the standard library; \<^verbatim>\<open>as_secs\<close> is its first field.\<close>

record duration =
  as_secs :: u64
  subsec_nanos :: u32

record 'd faucet_options =
  fo_num_periods :: u32
  fo_period_length :: duration
  fo_total_coins :: amount
  fo_period_decay :: "'d decimal"
  fo_start_seconds :: int

definition i64_mul :: "int \<Rightarrow> int \<Rightarrow> int result" where
  "i64_mul a b = (if in_i64 (a * b) then Ok (a * b) else Panic)"

fun multiplier_loop :: "'d num_decimal \<Rightarrow> 'd decimal \<Rightarrow> nat \<Rightarrow> 'd decimal \<Rightarrow> 'd decimal \<Rightarrow> 'd decimal result" where
  "multiplier_loop N period_decay 0 multiplier_total running_multiplier = Ok multiplier_total"
| "multiplier_loop N period_decay (Suc n) multiplier_total running_multiplier =
     and_then (math_q (decimal_mul N running_multiplier period_decay)) (\<lambda>running_multiplier.
     and_then (math_q (decimal_add N multiplier_total running_multiplier)) (\<lambda>multiplier_total.
     multiplier_loop N period_decay n multiplier_total running_multiplier))"

definition faucet_configure :: "'d num_decimal \<Rightarrow> 'd faucet_options \<Rightarrow> ('d faucet, unit) op" where
  "faucet_configure N opts =
     op_bind (op_lift (word_sub (fo_num_periods opts) 1)) (\<lambda>rounds.
     op_bind (op_lift (multiplier_loop N (fo_period_decay opts) (unat rounds) (decimal_from_u64 N 1) (decimal_from_u64 N 1))) (\<lambda>multiplier_total.
     op_upd (\<lambda>self. self\<lparr>fc_total_to_mint := fo_total_coins opts, fc_configured := True, fc_num_periods := fo_num_periods opts,
       fc_period_decay := fo_period_decay opts, fc_start_seconds := fo_start_seconds opts, fc_multiplier_total := multiplier_total,
       fc_seconds_per_period := as_secs (fo_period_length opts)\<rparr>)))"

text \<open>The loop over the periods, with \<open>n\<close> of them left and \<open>i\<close> behind.\<close>

fun target_loop :: "'d num_decimal \<Rightarrow> 'd faucet \<Rightarrow> int \<Rightarrow> nat \<Rightarrow> int \<Rightarrow> 'd decimal \<Rightarrow> 'd decimal \<Rightarrow> 'd decimal result" where
  "target_loop N self seconds_since_start 0 i issued running_multiplier = Ok issued"
| "target_loop N self seconds_since_start (Suc n) i issued running_multiplier =
     and_then (math_q (op_lhs (decimal_div N) (amount_mul_decimal N (fc_total_to_mint self) running_multiplier) (fc_multiplier_total self))) (\<lambda>this_period.
     and_then (i64_mul (i + 1) (sint (fc_seconds_per_period self))) (\<lambda>period_end.
     if period_end < seconds_since_start
     then and_then (math_q (decimal_add N issued this_period)) (\<lambda>issued.
          and_then (math_q (decimal_mul N running_multiplier (fc_period_decay self))) (\<lambda>running_multiplier.
          target_loop N self seconds_since_start n (i + 1) issued running_multiplier))
     else and_then (i64_mul i (sint (fc_seconds_per_period self))) (\<lambda>period_start.
          and_then (i64_sub seconds_since_start period_start) (\<lambda>seconds_into_period.
          and_then (math_q (amount_div N (Amount (word_of_int seconds_into_period)) (Amount (fc_seconds_per_period self)))) (\<lambda>period_fraction.
          math_q (op_rhs (decimal_add N) issued (decimal_mul N period_fraction this_period)))))))"

definition target_amount_minted :: "'d num_decimal \<Rightarrow> 'd faucet \<Rightarrow> int \<Rightarrow> amount result" where
  "target_amount_minted N self seconds_since_start =
     and_then (target_loop N self seconds_since_start (unat (fc_num_periods self)) 0 (decimal_from_u64 N 0) (decimal_from_u64 N 1)) (decimal_amount N)"

definition faucet_current_seconds :: "('d faucet \<times> 'z contexts_scheme, int) op" where
  "faucet_current_seconds = op_read (\<lambda>(self, cx).
     and_then (ok_or (Error_Coins ''No Time context'') (context_resolve cx_time cx)) (\<lambda>time. Ok (tm_seconds time)))"

definition mint_to :: "amount \<Rightarrow> ('d faucet, coin) op" where
  "mint_to target = (\<lambda>self.
     if fc_amount_minted self < target
     then case math_q (amount_sub target (fc_amount_minted self)) of
            Ok delta \<Rightarrow> (Ok (Coin delta), self\<lparr>fc_amount_minted := target\<rparr>)
          | Err e \<Rightarrow> (Err e, self)
          | Panic \<Rightarrow> (Panic, self)
     else (Ok (Coin (Amount 0)), self))"

definition faucet_mint :: "'d num_decimal \<Rightarrow> ('d faucet \<times> 'z contexts_scheme, coin) op" where
  "faucet_mint N = (\<lambda>(self, cx).
     if \<not> fc_configured self then (Err (Error_Coins ''Faucet must be configured before minting''), (self, cx))
     else op_bind faucet_current_seconds (\<lambda>current_seconds.
          op_bind (op_read (\<lambda>(self, cx). i64_sub current_seconds (fc_start_seconds self))) (\<lambda>seconds_since_start.
          if seconds_since_start \<le> 0 then op_ok (Coin (Amount 0))
          else op_bind (op_read (\<lambda>(self, cx). target_amount_minted N self seconds_since_start)) (\<lambda>target.
               (\<lambda>(self, cx). case mint_to target self of (r, self') \<Rightarrow> (r, (self', cx)))))) (self, cx))"

section \<open>Rounding\<close>

text \<open>
  The results of the decimal library are the exact ones rounded to 28 digits: \<open>rnd\<close> is monotone,
  keeps what is a decimal already, integers among them, and errs by at most one part in
  \<open>10 ^ 27\<close>.
\<close>

locale rounded_decimal = decimal_lib N dv
  for N :: "'d num_decimal" and dv +
  fixes rnd :: "real \<Rightarrow> real"
  assumes rnd_mono: "x \<le> y \<Longrightarrow> rnd x \<le> rnd y"
    and rnd_dv: "rnd (dv a) = dv a" and rnd_rnd: "rnd (rnd x) = rnd x"
    and rnd_nat: "real n < 2 ^ 95 \<Longrightarrow> rnd (real n) = real n"
    and rnd_near: "\<bar>rnd x - x\<bar> \<le> max 1 \<bar>x\<bar> / 10 ^ 27"
    and add_rnd: "\<bar>dv a + dv b\<bar> < 2 ^ 95 \<Longrightarrow> \<exists>c. nd_checked_add N a b = Some c \<and> dv c = rnd (dv a + dv b)"
    and mul_rnd: "\<bar>dv a * dv b\<bar> < 2 ^ 95 \<Longrightarrow> \<exists>c. nd_checked_mul N a b = Some c \<and> dv c = rnd (dv a * dv b)"
    and div_rnd: "dv b \<noteq> 0 \<Longrightarrow> \<bar>dv a / dv b\<bar> < 2 ^ 95 \<Longrightarrow> \<exists>c. nd_checked_div N a b = Some c \<and> dv c = rnd (dv a / dv b)"

text \<open>The numbers that the loops compute: the multiplier of a period, the sum of the first
  multipliers, the coins due for a period and for all periods before it.\<close>

fun mult :: "(real \<Rightarrow> real) \<Rightarrow> real \<Rightarrow> nat \<Rightarrow> real" where
  "mult rnd d 0 = 1"
| "mult rnd d (Suc i) = rnd (mult rnd d i * d)"

fun mult_sum :: "(real \<Rightarrow> real) \<Rightarrow> real \<Rightarrow> nat \<Rightarrow> real" where
  "mult_sum rnd d 0 = 1"
| "mult_sum rnd d (Suc i) = rnd (mult_sum rnd d i + mult rnd d (Suc i))"

definition due :: "(real \<Rightarrow> real) \<Rightarrow> real \<Rightarrow> real \<Rightarrow> real \<Rightarrow> nat \<Rightarrow> real" where
  "due rnd T M d i = rnd (rnd (T * mult rnd d i) / M)"

fun due_sum :: "(real \<Rightarrow> real) \<Rightarrow> real \<Rightarrow> real \<Rightarrow> real \<Rightarrow> nat \<Rightarrow> real" where
  "due_sum rnd T M d 0 = 0"
| "due_sum rnd T M d (Suc i) = rnd (due_sum rnd T M d i + due rnd T M d i)"

lemma divide_shrinks: "0 \<le> x \<Longrightarrow> 1 \<le> M \<Longrightarrow> x / M \<le> (x :: real)"
  using mult_right_mono [of 1 M x] by (simp add: divide_le_eq mult.commute)

lemma math_q_eq_Ok: "math_q r = Ok x \<longleftrightarrow> r = MOk x"
  by (cases r) simp_all

lemma sint_unat: "0 \<le> sint p \<Longrightarrow> sint p = int (unat (p :: u64))"
  using uint_sint [of p] sint_lt [of p] by (simp add: take_bit_int_eq_self)

lemma abs_scaled: "0 \<le> x \<Longrightarrow> x < b \<Longrightarrow> 0 \<le> r \<Longrightarrow> r \<le> 1 \<Longrightarrow> \<bar>x * r\<bar> < (b :: real)"
  using mult_left_le [of r x] by (simp add: abs_mult)

lemma abs_between: "\<bar>a - b\<bar> \<le> x \<Longrightarrow> \<bar>b - c\<bar> \<le> y \<Longrightarrow> \<bar>a - c\<bar> \<le> x + (y :: real)"
  by linarith

context rounded_decimal
begin

lemma rnd_0: "rnd 0 = 0" and rnd_1: "rnd 1 = 1"
  using rnd_nat [of 0] rnd_nat [of 1] by simp_all

lemma rnd_nonneg: "0 \<le> x \<Longrightarrow> 0 \<le> rnd x"
  using rnd_mono [of 0 x] by (simp add: rnd_0)

lemma rnd_le_nat: "x \<le> real n \<Longrightarrow> real n < 2 ^ 95 \<Longrightarrow> rnd x \<le> real n"
  using rnd_mono [of x "real n"] rnd_nat by simp

lemma near_bound:
  assumes "0 \<le> x" "x \<le> b" "1 \<le> b"
  shows "\<bar>rnd x - x\<bar> \<le> b / 10 ^ 27"
proof -
  have "max 1 \<bar>x\<bar> / 10 ^ 27 \<le> b / 10 ^ 27" using assms by (intro divide_right_mono) auto
  then show ?thesis using rnd_near [of x] by (rule order_trans [rotated])
qed

lemma mult_range: "0 \<le> d \<Longrightarrow> d \<le> 1 \<Longrightarrow> 0 \<le> mult rnd d i \<and> mult rnd d i \<le> 1"
proof (induction i)
  case (Suc i)
  then have "0 \<le> mult rnd d i * d" "mult rnd d i * d \<le> 1" by (auto intro: mult_le_one)
  then show ?case using rnd_nonneg rnd_le_nat [of "mult rnd d i * d" 1] by simp
qed simp

lemma mult_sum_range:
  assumes "0 \<le> d" "d \<le> 1" "real n < 2 ^ 94"
  shows "i \<le> n \<Longrightarrow> 1 \<le> mult_sum rnd d i \<and> mult_sum rnd d i \<le> real (Suc i)"
proof (induction i)
  case (Suc i)
  note r = mult_range [OF assms(1,2), of "Suc i"]
  have "real (Suc (Suc i)) < 2 ^ 95" using assms(3) Suc.prems by simp
  then have "mult_sum rnd d (Suc i) \<le> real (Suc (Suc i))" using Suc r rnd_le_nat [of _ "Suc (Suc i)"] by simp
  moreover have "rnd 1 \<le> mult_sum rnd d (Suc i)" using Suc r unfolding mult_sum.simps(2) by (intro rnd_mono) simp
  ultimately show ?case by (simp add: rnd_1)
qed simp

lemma mult_sum_near:
  assumes "0 \<le> d" "d \<le> 1" "real n < 2 ^ 94"
  shows "i \<le> n \<Longrightarrow> \<bar>mult_sum rnd d i - (\<Sum>j\<le>i. mult rnd d j)\<bar> \<le> real i * (real (Suc n) / 10 ^ 27)"
proof (induction i)
  case (Suc i)
  let ?x = "mult_sum rnd d i + mult rnd d (Suc i)"
  have "1 \<le> ?x" "?x \<le> real (Suc n)"
    using mult_range [OF assms(1,2), of "Suc i"] mult_sum_range [OF assms, of i] Suc.prems by simp_all
  then have "\<bar>rnd ?x - ?x\<bar> \<le> real (Suc n) / 10 ^ 27" by (intro near_bound) simp_all
  moreover have "\<bar>mult_sum rnd d i - (\<Sum>j\<le>i. mult rnd d j)\<bar> \<le> real i * (real (Suc n) / 10 ^ 27)" using Suc by simp
  ultimately have "\<bar>rnd ?x - (\<Sum>j\<le>Suc i. mult rnd d j)\<bar> \<le> real (Suc n) / 10 ^ 27 + real i * (real (Suc n) / 10 ^ 27)"
    unfolding sum.atMost_Suc by linarith
  then show ?case by (simp add: algebra_simps add_divide_distrib)
qed simp

text \<open>Here \<open>T\<close> is the total, a \<^verbatim>\<open>u64\<close>, and \<open>M\<close> the sum of the multipliers.\<close>

lemma total_times:
  assumes "T < 2 ^ 64" "i \<le> 1000"
  shows "real (i * T) < 2 ^ 95"
proof -
  have "i * T \<le> 1000 * 2 ^ 64" using assms by (intro mult_mono) auto
  then have "real (i * T) \<le> real (1000 * 2 ^ 64)" by (rule of_nat_mono)
  then show ?thesis by simp
qed

lemma due_range:
  assumes d: "0 \<le> d" "d \<le> 1" and T: "T < 2 ^ 64" and M: "1 \<le> M"
  shows "0 \<le> due rnd (real T) M d i \<and> due rnd (real T) M d i \<le> real T"
    and "0 \<le> rnd (real T * mult rnd d i)" and "rnd (real T * mult rnd d i) \<le> real T" and "rnd (real T * mult rnd d i) / M \<le> real T"
proof -
  note r = mult_range [OF d, of i]
  have b: "real T < 2 ^ 95" using total_times [OF T, of 1] by simp
  show a: "0 \<le> rnd (real T * mult rnd d i)" using r by (intro rnd_nonneg) simp
  show c: "rnd (real T * mult rnd d i) \<le> real T" using r b by (intro rnd_le_nat) (simp_all add: mult_left_le)
  show e: "rnd (real T * mult rnd d i) / M \<le> real T" using divide_shrinks [OF a M] c by linarith
  show "0 \<le> due rnd (real T) M d i \<and> due rnd (real T) M d i \<le> real T"
    unfolding due_def using a e M rnd_nonneg rnd_le_nat [OF e b] by simp
qed

lemma due_near:
  assumes d: "0 \<le> d" "d \<le> 1" and T: "1 \<le> T" "T < 2 ^ 64" and M: "1 \<le> M"
  shows "\<bar>due rnd (real T) M d i - real T * mult rnd d i / M\<bar> \<le> 2 * (real T / 10 ^ 27)"
proof -
  let ?x = "real T * mult rnd d i" and ?e = "real T / 10 ^ 27"
  note r = mult_range [OF d, of i] and du = due_range [OF d T(2) M, of i]
  have "\<bar>rnd ?x - ?x\<bar> \<le> ?e" using r T(1) by (intro near_bound) (simp_all add: mult_left_le)
  then have "\<bar>(rnd ?x - ?x) / M\<bar> \<le> ?e" using divide_shrinks [OF abs_ge_zero M, of "rnd ?x - ?x"] M unfolding abs_divide by linarith
  moreover have "\<bar>due rnd (real T) M d i - rnd ?x / M\<bar> \<le> ?e"
    unfolding due_def using du M T(1) by (intro near_bound) simp_all
  ultimately show ?thesis using abs_between [of _ "rnd ?x / M" ?e _ ?e] unfolding diff_divide_distrib mult_2 by blast
qed

lemma due_sum_range:
  assumes d: "0 \<le> d" "d \<le> 1" and T: "T < 2 ^ 64" and M: "1 \<le> M"
  shows "i \<le> 1000 \<Longrightarrow> 0 \<le> due_sum rnd (real T) M d i \<and> due_sum rnd (real T) M d i \<le> real (i * T)"
proof (induction i)
  case (Suc i)
  note du = due_range(1) [OF d T M, of i]
  have "due_sum rnd (real T) M d i + due rnd (real T) M d i \<le> real (Suc i * T)" using Suc du by (simp add: algebra_simps)
  then have "due_sum rnd (real T) M d (Suc i) \<le> real (Suc i * T)"
    using total_times [OF T Suc.prems] unfolding due_sum.simps by (rule rnd_le_nat)
  then show ?case using Suc du by (simp add: rnd_nonneg)
qed simp

lemma due_sum_mono:
  assumes "0 \<le> d" "d \<le> 1" "T < 2 ^ 64" "1 \<le> M"
  shows "i \<le> j \<Longrightarrow> due_sum rnd (real T) M d i \<le> due_sum rnd (real T) M d j"
proof (rule lift_Suc_mono_le [of "due_sum rnd (real T) M d"])
  fix i
  have "rnd (due_sum rnd (real T) M d i) = due_sum rnd (real T) M d i" by (cases i) (simp_all add: rnd_rnd rnd_0)
  then show "due_sum rnd (real T) M d i \<le> due_sum rnd (real T) M d (Suc i)"
    using rnd_mono [of "due_sum rnd (real T) M d i" "due_sum rnd (real T) M d i + due rnd (real T) M d i"] due_range(1) [OF assms, of i] by simp
qed

lemma due_sum_near:
  assumes d: "0 \<le> d" "d \<le> 1" and T: "1 \<le> T" "T < 2 ^ 64" and M: "1 \<le> M" and n: "n \<le> 1000"
  shows "i \<le> n \<Longrightarrow> \<bar>due_sum rnd (real T) M d i - (\<Sum>j<i. due rnd (real T) M d j)\<bar> \<le> real i * (real (n * T) / 10 ^ 27)"
proof (induction i)
  case (Suc i)
  let ?s = "due_sum rnd (real T) M d" and ?d = "due rnd (real T) M d"
  have "0 \<le> ?s i + ?d i" "?s i + ?d i \<le> real (Suc i * T)"
    using due_sum_range [OF d T(2) M, of i] due_range(1) [OF d T(2) M, of i] Suc.prems n by (simp_all add: algebra_simps)
  moreover have "real (Suc i * T) \<le> real (n * T)" using Suc.prems by (intro of_nat_mono mult_right_mono) simp_all
  moreover have "1 \<le> n * T" using Suc.prems T by (cases n) simp_all
  then have "1 \<le> real (n * T)" by linarith
  ultimately have "\<bar>?s (Suc i) - (?s i + ?d i)\<bar> \<le> real (n * T) / 10 ^ 27"
    unfolding due_sum.simps by (intro near_bound) linarith+
  then have "\<bar>?s (Suc i) - (\<Sum>j<Suc i. ?d j)\<bar> \<le> real (n * T) / 10 ^ 27 + real i * (real (n * T) / 10 ^ 27)"
    using Suc unfolding sum.lessThan_Suc by linarith
  then show ?case by (simp add: algebra_simps add_divide_distrib)
qed simp

text \<open>The coins due for all periods are the total, up to a quarter of a coin.\<close>

lemma due_sum_total:
  assumes d: "0 \<le> d" "d \<le> 1" and T: "1 \<le> T" "T < 2 ^ 64" and n: "n < 1000" and M: "M = mult_sum rnd d n"
  shows "\<bar>due_sum rnd (real T) M d (Suc n) - real T\<bar> \<le> 1 / 4"
proof -
  let ?e = "real T / 10 ^ 27" and ?r = "\<Sum>j\<le>n. mult rnd d j" and ?s = "\<Sum>j<Suc n. due rnd (real T) M d j"
  have nb: "real n < 2 ^ 94" using n by simp
  have M1: "1 \<le> M" using mult_sum_range [OF d nb, of n] M by simp
  have "real (Suc n * T) / 10 ^ 27 = real (Suc n) * ?e" by (simp add: algebra_simps)
  moreover have "Suc n \<le> 1000" using n by simp
  ultimately have 1: "\<bar>due_sum rnd (real T) M d (Suc n) - ?s\<bar> \<le> real (Suc n) * (real (Suc n) * ?e)"
    using due_sum_near [OF d T M1 _ order_refl, of "Suc n"] by (simp only:)
  have "\<bar>?s - (\<Sum>j<Suc n. real T * mult rnd d j / M)\<bar> \<le> (\<Sum>j<Suc n. 2 * ?e)"
    unfolding sum_subtractf [symmetric] by (rule order_trans [OF sum_abs]) (intro sum_mono due_near [OF d T M1])
  moreover have "(\<Sum>j<Suc n. real T * mult rnd d j / M) = real T * ?r / M"
    by (simp only: sum_divide_distrib [symmetric] sum_distrib_left [symmetric] lessThan_Suc_atMost)
  ultimately have 2: "\<bar>?s - real T * ?r / M\<bar> \<le> real (Suc n) * (2 * ?e)" by simp
  have "\<bar>?r - M\<bar> \<le> real n * (real (Suc n) / 10 ^ 27)" using mult_sum_near [OF d nb, of n] M by (simp add: abs_minus_commute)
  then have "real T * (\<bar>?r - M\<bar> / M) \<le> real T * (real n * (real (Suc n) / 10 ^ 27))"
    using divide_shrinks [OF abs_ge_zero M1, of "?r - M"] by (intro mult_left_mono) linarith+
  moreover have "real T * ?r / M - real T = real T * ((?r - M) / M)" using M1 by (simp add: field_simps)
  then have "\<bar>real T * ?r / M - real T\<bar> = real T * (\<bar>?r - M\<bar> / M)" using M1 by (simp add: abs_mult)
  ultimately have 3: "\<bar>real T * ?r / M - real T\<bar> \<le> real n * (real (Suc n) * ?e)" by (simp add: algebra_simps)
  have "real T \<le> 2 ^ 64" using T by (metis less_imp_le of_nat_le_iff of_nat_numeral of_nat_power)
  then have e: "?e \<le> 2 ^ 64 / 10 ^ 27" by (rule divide_right_mono) simp
  have s: "real (Suc n) \<le> 1000" "real n \<le> 1000" using n by simp_all
  have q: "x * (y * ?e) \<le> 1000 * (1000 * (2 ^ 64 / 10 ^ 27))" if "0 \<le> x" "x \<le> 1000" "0 \<le> y" "y \<le> 1000" for x y :: real
    using that e by (intro mult_mono) auto
  have "\<bar>due_sum rnd (real T) M d (Suc n) - real T\<bar> \<le> 3 * (1000 * (1000 * (2 ^ 64 / 10 ^ 27)))"
    (is "_ \<le> 3 * ?q")
  proof -
    have "real (Suc n) * (real (Suc n) * ?e) \<le> ?q" "real (Suc n) * (2 * ?e) \<le> ?q" "real n * (real (Suc n) * ?e) \<le> ?q"
      by (intro q s; simp)+
    then show ?thesis using abs_between [OF abs_between [OF 1 2] 3] by linarith
  qed
  also have "3 * (1000 * (1000 * (2 ^ 64 / 10 ^ 27))) \<le> (1 / 4 :: real)" by simp
  finally show ?thesis .
qed

section \<open>The loops\<close>

lemma mul_law: "\<bar>val a * val b\<bar> < 2 ^ 95 \<Longrightarrow> \<exists>c. decimal_mul N a b = MOk c \<and> val c = rnd (val a * val b)"
  using mul_rnd [of "dec_value a" "dec_value b"] by (auto simp: decimal_mul_def)

lemma add_law': "\<bar>val a + val b\<bar> < 2 ^ 95 \<Longrightarrow> \<exists>c. decimal_add N a b = MOk c \<and> val c = rnd (val a + val b)"
  using add_rnd [of "dec_value a" "dec_value b"] by (auto simp: decimal_add_def)

lemma div_law: "val b \<noteq> 0 \<Longrightarrow> \<bar>val a / val b\<bar> < 2 ^ 95 \<Longrightarrow> \<exists>c. decimal_div N a b = MOk c \<and> val c = rnd (val a / val b)"
  using div_rnd [of "dec_value b" "dec_value a"] by (auto simp: decimal_div_def)

lemma decay_law:
  assumes "0 \<le> val decay" "val decay \<le> 1" "val rm = mult rnd (val decay) k"
  shows "\<exists>c. decimal_mul N rm decay = MOk c \<and> val c = mult rnd (val decay) (Suc k)"
proof -
  have "\<bar>val rm * val decay\<bar> < 2 ^ 95" using mult_range [OF assms(1,2), of k] assms by (intro abs_scaled) simp_all
  then show ?thesis using mul_law [of rm decay] assms(3) by simp
qed

lemma multiplier_law:
  assumes d: "0 \<le> val decay" "val decay \<le> 1"
  shows "val rm = mult rnd (val decay) k \<Longrightarrow> val mt = mult_sum rnd (val decay) k \<Longrightarrow> k + n \<le> 1000
    \<Longrightarrow> \<exists>m. multiplier_loop N decay n mt rm = Ok m \<and> val m = mult_sum rnd (val decay) (k + n)"
proof (induction n arbitrary: k mt rm)
  case (Suc n)
  let ?d = "val decay"
  obtain rm' where rm': "decimal_mul N rm decay = MOk rm'" "val rm' = mult rnd ?d (Suc k)"
    using decay_law [OF d Suc.prems(1)] by blast
  have "1 \<le> val mt" "val mt \<le> 1001" using mult_sum_range [OF d, of 1000 k] Suc.prems by auto
  then have "\<bar>val mt + val rm'\<bar> < 2 ^ 95" using mult_range [OF d, of "Suc k"] rm' by simp
  then obtain mt' where "decimal_add N mt rm' = MOk mt'" "val mt' = mult_sum rnd ?d (Suc k)"
    using add_law' [of mt rm'] Suc.prems rm' by auto
  then show ?case using Suc.IH [of rm' "Suc k" mt'] Suc.prems rm' by simp
qed simp

end

text \<open>A faucet whose fields are those that \<open>faucet_configure\<close> computes, for \<open>Suc n\<close> periods.\<close>

definition faucet_ok :: "('d \<Rightarrow> real) \<Rightarrow> (real \<Rightarrow> real) \<Rightarrow> 'd faucet \<Rightarrow> nat \<Rightarrow> bool" where
  "faucet_ok dv rnd f n \<longleftrightarrow> fc_configured f \<and> unat (fc_num_periods f) = Suc n \<and> n < 1000
     \<and> 0 \<le> dv (dec_value (fc_period_decay f)) \<and> dv (dec_value (fc_period_decay f)) \<le> 1
     \<and> dv (dec_value (fc_multiplier_total f)) = mult_sum rnd (dv (dec_value (fc_period_decay f))) n"

context rounded_decimal
begin

abbreviation f_due :: "'d faucet \<Rightarrow> nat \<Rightarrow> real" where
  "f_due f \<equiv> due rnd (real (am_nat (fc_total_to_mint f))) (val (fc_multiplier_total f)) (val (fc_period_decay f))"

abbreviation f_sum :: "'d faucet \<Rightarrow> nat \<Rightarrow> real" where
  "f_sum f \<equiv> due_sum rnd (real (am_nat (fc_total_to_mint f))) (val (fc_multiplier_total f)) (val (fc_period_decay f))"

lemma faucet_okD:
  assumes "faucet_ok dv rnd f n"
  shows "0 \<le> val (fc_period_decay f)" "val (fc_period_decay f) \<le> 1" "am_nat (fc_total_to_mint f) < 2 ^ 64" "1 \<le> val (fc_multiplier_total f)"
  using assms mult_sum_range [of "val (fc_period_decay f)" n n] unsigned_less [of "am_value (fc_total_to_mint f)"] by (auto simp: faucet_ok_def)

lemma this_period_law:
  assumes f: "faucet_ok dv rnd f n" and "val rm = mult rnd (val (fc_period_decay f)) i"
  shows "\<exists>p. op_lhs (decimal_div N) (amount_mul_decimal N (fc_total_to_mint f) rm) (fc_multiplier_total f) = MOk p \<and> val p = f_due f i"
proof -
  let ?T = "real (am_nat (fc_total_to_mint f))" and ?d = "val (fc_period_decay f)"
  note ok = faucet_okD [OF f] and du = due_range [OF faucet_okD [OF f], of i]
  note r = mult_range [OF ok(1,2), of i]
  have b: "?T < 2 ^ 95" by (rule am_bound)
  have "\<bar>?T * val rm\<bar> < 2 ^ 95" using r assms(2) b by (intro abs_scaled) (simp_all del: of_nat_unat)
  then obtain c where c: "amount_mul_decimal N (fc_total_to_mint f) rm = MOk (Decimal c)" "dv c = rnd (?T * mult rnd ?d i)"
    using mul_rnd [of "dec_value (decimal_from_amount N (fc_total_to_mint f))" "dec_value rm"] assms(2) by (auto simp: amount_mul_decimal_def)
  have "\<bar>val (Decimal c) / val (fc_multiplier_total f)\<bar> < 2 ^ 95" using c du b ok(4) by simp
  then show ?thesis using div_law [of "fc_multiplier_total f" "Decimal c"] c ok(4) by (auto simp: op_lhs_def due_def)
qed

text \<open>The two additions that advance the loop.\<close>

lemma sum_law:
  assumes f: "faucet_ok dv rnd f n" and "val t = f_sum f i" "0 \<le> val p" "val p \<le> f_due f i" "i < 1000"
  shows "\<exists>t'. decimal_add N t p = MOk t' \<and> val t' = rnd (f_sum f i + val p) \<and> val t' \<le> f_sum f (Suc i)"
proof -
  let ?T = "am_nat (fc_total_to_mint f)"
  note ok = faucet_okD [OF f]
  have "0 \<le> f_sum f i" "f_sum f i \<le> real (i * ?T)" "f_due f i \<le> real ?T"
    using due_sum_range [OF ok, of i] due_range(1) [OF ok, of i] assms(5) by auto
  moreover have "real (Suc i * ?T) < 2 ^ 95" using total_times [OF ok(3), of "Suc i"] assms(5) by simp
  ultimately have "\<bar>val t + val p\<bar> < 2 ^ 95" using assms(2-4) by (simp add: algebra_simps)
  then obtain t' where "decimal_add N t p = MOk t'" "val t' = rnd (f_sum f i + val p)" using add_law' assms(2) by metis
  then show ?thesis using assms(4) by (auto intro: rnd_mono)
qed

lemma loop_done:
  assumes f: "faucet_ok dv rnd f n" and p: "0 \<le> sint (fc_seconds_per_period f)" and secs: "secs \<le> i64_max"
  shows "val t = f_sum f i \<Longrightarrow> val rm = mult rnd (val (fc_period_decay f)) i \<Longrightarrow> i + m \<le> 1000 \<Longrightarrow> int (i + m) * sint (fc_seconds_per_period f) < secs
    \<Longrightarrow> \<exists>x. target_loop N f secs m (int i) t rm = Ok x \<and> val x = f_sum f (i + m)"
proof (induction m arbitrary: i t rm)
  case (Suc m)
  let ?p = "sint (fc_seconds_per_period f)"
  obtain q where q: "op_lhs (decimal_div N) (amount_mul_decimal N (fc_total_to_mint f) rm) (fc_multiplier_total f) = MOk q" "val q = f_due f i"
    using this_period_law [OF f Suc.prems(2)] by blast
  obtain t' where t': "decimal_add N t q = MOk t'" "val t' = f_sum f (Suc i)"
    using sum_law [OF f Suc.prems(1), of q] q(2) due_range(1) [OF faucet_okD [OF f], of i] Suc.prems(3) by auto
  obtain rm' where rm': "decimal_mul N rm (fc_period_decay f) = MOk rm'" "val rm' = mult rnd (val (fc_period_decay f)) (Suc i)"
    using decay_law [OF faucet_okD(1,2) [OF f] Suc.prems(2)] by blast
  have "(int i + 1) * ?p \<le> int (i + Suc m) * ?p" using p by (intro mult_right_mono) simp_all
  then have e: "(int i + 1) * ?p < secs" using Suc.prems(4) by linarith
  moreover have "0 \<le> (int i + 1) * ?p" using p by simp
  ultimately have "in_i64 ((int i + 1) * ?p)" using secs by (simp add: in_i64_def i64_min_def)
  then show ?case using q t' rm' e Suc.IH [OF t'(2) rm'(2)] Suc.prems by (simp add: i64_mul_def add.commute)
qed simp

text \<open>The fraction of a period that is in progress.\<close>

lemma fraction_law:
  assumes s: "0 < s" "s \<le> sint p" and d: "amount_div N (Amount (word_of_int s)) (Amount p) = MOk c"
  shows "0 \<le> val c \<and> val c \<le> 1"
proof -
  have p: "sint p = int (unat p)" using s by (intro sint_unat) simp
  have "s < 2 ^ 64" using s sint_lt [of p] by simp
  then have "take_bit 64 s = s" using s by (simp add: take_bit_int_eq_self)
  then have "unat (word_of_int s :: u64) = nat s" by (simp only: unat_eq_nat_uint uint_word_of_int_eq) simp
  then have v: "val (decimal_from_amount N (Amount (word_of_int s))) = real_of_int s" "val (decimal_from_amount N (Amount p)) = real_of_int (sint p)"
    using s p by (simp_all del: of_nat_unat)
  have q: "0 \<le> real_of_int s / real_of_int (sint p)" "real_of_int s / real_of_int (sint p) \<le> 1" using s by (simp_all del: of_int_sint)
  then have "\<bar>val (decimal_from_amount N (Amount (word_of_int s))) / val (decimal_from_amount N (Amount p))\<bar> < 2 ^ 95" unfolding v by simp
  then have "val c = rnd (real_of_int s / real_of_int (sint p))"
    using div_law [of "decimal_from_amount N (Amount p)" "decimal_from_amount N (Amount (word_of_int s))"] d s unfolding amount_div_def v by (auto simp del: of_int_sint)
  then show ?thesis using q rnd_nonneg rnd_le_nat [of "real_of_int s / real_of_int (sint p)" 1] by simp
qed

lemma partial_law:
  assumes f: "faucet_ok dv rnd f n" and t: "val t = f_sum f i" and i: "i < 1000"
    and c: "0 \<le> val c" "val c \<le> 1" and q: "val q = f_due f i" and run: "op_rhs (decimal_add N) t (decimal_mul N c q) = MOk x"
  shows "val x \<le> f_sum f (Suc i)"
proof -
  note du = due_range(1) [OF faucet_okD [OF f], of i]
  have "f_due f i < 2 ^ 95" using du am_bound [of "fc_total_to_mint f"] by linarith
  then have "\<bar>val q * val c\<bar> < 2 ^ 95" using q du c by (intro abs_scaled) simp_all
  then obtain y where y: "decimal_mul N c q = MOk y" "val y = rnd (val c * val q)" using mul_law [of c q] by (auto simp: mult.commute)
  have "0 \<le> val c * val q" "val c * val q \<le> val q" using c q du by (simp_all add: mult_left_le_one_le)
  then have "0 \<le> val y" "val y \<le> f_due f i" using y(2) rnd_nonneg rnd_mono [of "val c * val q" "val q"] rnd_dv [of "dec_value q"] q by simp_all
  from sum_law [OF f t this i] show ?thesis using run y(1) by (auto simp: op_rhs_def)
qed

lemma loop_bound:
  assumes f: "faucet_ok dv rnd f n"
  shows "target_loop N f secs m (int i) t rm = Ok x \<Longrightarrow> val t = f_sum f i \<Longrightarrow> val rm = mult rnd (val (fc_period_decay f)) i
    \<Longrightarrow> i + m \<le> 1000 \<Longrightarrow> 0 < secs \<Longrightarrow> int i * sint (fc_seconds_per_period f) < secs \<Longrightarrow> val x \<le> f_sum f (i + m)"
proof (induction m arbitrary: i t rm)
  case (Suc m)
  let ?p = "fc_seconds_per_period f"
  obtain q where q: "op_lhs (decimal_div N) (amount_mul_decimal N (fc_total_to_mint f) rm) (fc_multiplier_total f) = MOk q" "val q = f_due f i"
    using this_period_law [OF f Suc.prems(3)] by blast
  note du = due_range(1) [OF faucet_okD [OF f], of i]
  show ?case
  proof (cases "(int i + 1) * sint ?p < secs")
    case True
    obtain t' where t': "decimal_add N t q = MOk t'" "val t' = f_sum f (Suc i)"
      using sum_law [OF f Suc.prems(2), of q] q(2) du Suc.prems(4) by auto
    obtain rm' where rm': "decimal_mul N rm (fc_period_decay f) = MOk rm'" "val rm' = mult rnd (val (fc_period_decay f)) (Suc i)"
      using decay_law [OF faucet_okD(1,2) [OF f] Suc.prems(3)] by blast
    have "target_loop N f secs m (int (Suc i)) t' rm' = Ok x"
      using Suc.prems(1) True q t' rm' by (simp add: i64_mul_def add.commute split: if_splits)
    from Suc.IH [OF this t'(2) rm'(2)] show ?thesis using True Suc.prems(4,5) by (simp add: add.commute)
  next
    case False
    let ?s = "secs - int i * sint ?p"
    obtain c where c: "amount_div N (Amount (word_of_int ?s)) (Amount ?p) = MOk c" and run: "op_rhs (decimal_add N) t (decimal_mul N c q) = MOk x"
      using Suc.prems(1) False q by (auto simp: i64_mul_def i64_sub_def and_then_eq_Ok math_q_eq_Ok split: if_splits)
    have "0 < ?s" "?s \<le> sint ?p" using Suc.prems(6) False by (simp_all add: algebra_simps)
    from fraction_law [OF this c] have "val x \<le> f_sum f (Suc i)"
      using partial_law [OF f Suc.prems(2) _ _ _ q(2) run] Suc.prems(4) by simp
    also have "\<dots> \<le> f_sum f (i + Suc m)" by (rule due_sum_mono [OF faucet_okD [OF f]]) simp
    finally show ?thesis .
  qed
qed simp

section \<open>Minting\<close>

lemma faucet_amount:
  assumes "decimal_amount N x = Ok a" and "val x \<le> real n + 1 / 4"
  shows "am_nat a \<le> n"
proof -
  let ?r = "nd_round N (dec_value x)"
  obtain w where w: "nd_to_u64 N ?r = Some w" "a = Amount w" using assms(1) by (auto simp: decimal_amount_def split: if_splits option.splits)
  obtain z where z: "dv ?r = of_int z" using round_law(2) by (metis Ints_cases)
  have "of_int z \<le> real n + 3 / 4" using round_law(1) [of "dec_value x"] assms(2) z by linarith
  then have "z \<le> int n" by linarith
  moreover have "0 \<le> z" "z < 2 ^ 64" "w = of_nat (nat z)" using w(1) to_u64_law [of ?r] z by (auto split: if_splits)
  ultimately show ?thesis using w(2) by (simp add: unat_of_nat nat_less_iff del: of_nat_nat)
qed

lemma faucet_amount_exact:
  assumes "\<bar>val x - real (am_nat a)\<bar> \<le> 1 / 4" and "1 \<le> am_nat a"
  shows "decimal_amount N x = Ok a"
proof -
  let ?r = "nd_round N (dec_value x)"
  obtain z where z: "dv ?r = of_int z" using round_law(2) by (metis Ints_cases)
  have "\<bar>of_int z - real (am_nat a)\<bar> \<le> 3 / 4" using round_law(1) [of "dec_value x"] assms(1) z by linarith
  then have "z = int (am_nat a)" by linarith
  moreover have "am_nat a < 2 ^ 64" using unsigned_less [of "am_value a"] by (simp add: unsigned_less)
  then have "real (am_nat a) < 2 ^ 64" by (metis of_nat_less_iff of_nat_numeral of_nat_power)
  ultimately have "nd_to_u64 N ?r = Some (am_value a)" using to_u64_law [of ?r] z by (simp del: of_nat_unat) simp
  moreover have "0 < val x" using assms by linarith
  ultimately show ?thesis using neg_law(2) [of "dec_value x"] by (simp add: decimal_amount_def)
qed

lemma total_law:
  assumes f: "faucet_ok dv rnd f n" and T: "1 \<le> am_nat (fc_total_to_mint f)"
  shows "\<bar>f_sum f (Suc n) - real (am_nat (fc_total_to_mint f))\<bar> \<le> 1 / 4"
  using f unfolding faucet_ok_def by (intro due_sum_total [OF faucet_okD(1,2) [OF f] T faucet_okD(3) [OF f]]) blast+

lemma target_bound:
  assumes f: "faucet_ok dv rnd f n" and T: "1 \<le> am_nat (fc_total_to_mint f)" and "0 < secs" and run: "target_amount_minted N f secs = Ok a"
  shows "am_nat a \<le> am_nat (fc_total_to_mint f)"
proof -
  note ok = f [unfolded faucet_ok_def]
  obtain x where x: "target_loop N f secs (Suc n) (int 0) (decimal_from_u64 N 0) (decimal_from_u64 N 1) = Ok x" and a: "decimal_amount N x = Ok a"
    using run ok by (auto simp: target_amount_minted_def and_then_eq_Ok)
  have "val x \<le> f_sum f (0 + Suc n)"
    using assms(3) ok by (intro loop_bound [OF f x]) (simp_all add: decimal_from_u64_def from_u64_law)
  also have "\<dots> \<le> real (am_nat (fc_total_to_mint f)) + 1 / 4"
    using total_law [OF f T] unfolding abs_le_iff add_0 by linarith
  finally show ?thesis by (rule faucet_amount [OF a])
qed

lemma target_done:
  assumes f: "faucet_ok dv rnd f n" and T: "1 \<le> am_nat (fc_total_to_mint f)" and p: "0 \<le> sint (fc_seconds_per_period f)"
    and secs: "int (Suc n) * sint (fc_seconds_per_period f) < secs" "secs \<le> i64_max"
  shows "target_amount_minted N f secs = Ok (fc_total_to_mint f)"
proof -
  note ok = f [unfolded faucet_ok_def]
  obtain x where x: "target_loop N f secs (Suc n) (int 0) (decimal_from_u64 N 0) (decimal_from_u64 N 1) = Ok x" "val x = f_sum f (0 + Suc n)"
    using loop_done [OF f p secs(2), of "decimal_from_u64 N 0" 0 "decimal_from_u64 N 1" "Suc n"] secs(1) ok by (auto simp: decimal_from_u64_def from_u64_law)
  have "decimal_amount N x = Ok (fc_total_to_mint f)"
    using total_law [OF f T] x(2) T unfolding add_0 by (intro faucet_amount_exact) simp_all
  then show ?thesis using x(1) ok by (simp add: target_amount_minted_def)
qed

lemma configure_law:
  assumes o: "fo_num_periods opts \<noteq> 0" "unat (fo_num_periods opts) \<le> 1000" "0 \<le> val (fo_period_decay opts)" "val (fo_period_decay opts) \<le> 1"
  shows "\<exists>f'. faucet_configure N opts f = (Ok (), f') \<and> faucet_ok dv rnd f' (unat (fo_num_periods opts) - 1)
    \<and> fc_total_to_mint f' = fo_total_coins opts \<and> fc_start_seconds f' = fo_start_seconds opts
    \<and> fc_seconds_per_period f' = as_secs (fo_period_length opts) \<and> fc_amount_minted f' = fc_amount_minted f"
proof -
  let ?n = "fo_num_periods opts" and ?one = "decimal_from_u64 N 1"
  have n: "1 \<le> ?n" using o(1) by (simp add: word_le_nat_alt unat_gt_0 Suc_leI)
  then have s: "unat (?n - 1) = unat ?n - 1" by (simp add: unat_sub)
  have one: "val ?one = mult rnd (val (fo_period_decay opts)) 0" and one': "val ?one = mult_sum rnd (val (fo_period_decay opts)) 0"
    by (simp_all add: decimal_from_u64_def from_u64_law)
  have le: "0 + unat (?n - 1) \<le> 1000" using s o(2) by simp
  obtain m where m: "multiplier_loop N (fo_period_decay opts) (unat (?n - 1)) ?one ?one = Ok m"
      "val m = mult_sum rnd (val (fo_period_decay opts)) (unat ?n - 1)"
    using multiplier_law [OF o(3,4) one one' le] s by auto
  have "0 < unat ?n" using o(1) by (simp add: unat_gt_0)
  then have u: "unat ?n = Suc (unat ?n - 1)" "unat ?n - 1 < 1000" using o(2) by simp_all
  have "word_sub ?n 1 = Ok (?n - 1)" using n by (simp add: word_sub_eq_Ok)
  then show ?thesis using m u o(3,4) by (simp add: faucet_configure_def op_bind_def faucet_ok_def)
qed

end

section \<open>Sequences of calls\<close>

lemma mint_to_law:
  "\<exists>c f'. mint_to target f = (Ok c, f') \<and> f' = f\<lparr>fc_amount_minted := max target (fc_amount_minted f)\<rparr>
    \<and> am_nat (fc_amount_minted f') = am_nat (fc_amount_minted f) + coin_nat c"
proof (cases "fc_amount_minted f < target")
  case True
  then obtain c where "amount_sub target (fc_amount_minted f) = MOk c" "am_nat c = am_nat target - am_nat (fc_amount_minted f)"
    using amount_sub_cases [of "fc_amount_minted f" target] by (auto simp: amount_less)
  moreover have "max target (fc_amount_minted f) = target" using True by (simp add: max.absorb1)
  ultimately show ?thesis using True by (simp add: mint_to_def amount_less)
qed (auto simp: mint_to_def max_def)

text \<open>The coins that are minted by a list of calls at the times of their contexts.\<close>

fun minted_by :: "'d num_decimal \<Rightarrow> 'd faucet \<Rightarrow> 'z contexts_scheme list \<Rightarrow> nat \<times> 'd faucet" where
  "minted_by N f [] = (0, f)"
| "minted_by N f (cx # cxs) = (case faucet_mint N (f, cx) of (r, (f', _)) \<Rightarrow>
     (case minted_by N f' cxs of (m, f'') \<Rightarrow> ((case r of Ok c \<Rightarrow> coin_nat c | _ \<Rightarrow> 0) + m, f'')))"

text \<open>The faucets that differ only in the amount minted.\<close>

definition same_schedule :: "'d faucet \<Rightarrow> 'd faucet \<Rightarrow> bool" where
  "same_schedule f g \<longleftrightarrow> (\<exists>m. f = g\<lparr>fc_amount_minted := m\<rparr>)"

lemma same_schedule_simps:
  assumes "same_schedule f g"
  shows "faucet_ok dv rnd f n = faucet_ok dv rnd g n" "fc_total_to_mint f = fc_total_to_mint g" "fc_start_seconds f = fc_start_seconds g"
    "fc_seconds_per_period f = fc_seconds_per_period g"
  using assms by (auto simp: same_schedule_def faucet_ok_def)

lemma same_schedule_trans: "same_schedule f g \<Longrightarrow> same_schedule g h \<Longrightarrow> same_schedule f h"
  by (auto simp: same_schedule_def)

lemma same_schedule_refl [simp]: "same_schedule f f"
  unfolding same_schedule_def by (rule exI [of _ "fc_amount_minted f"]) simp

lemma same_schedule_upd [simp]: "same_schedule (f\<lparr>fc_amount_minted := m\<rparr>) f"
  by (auto simp: same_schedule_def)

lemma minted_by_snoc: "minted_by N f (cxs @ [cx]) = (case minted_by N f cxs of (m, g) \<Rightarrow>
    case faucet_mint N (g, cx) of (r, (h, _)) \<Rightarrow> (m + (case r of Ok c \<Rightarrow> coin_nat c | _ \<Rightarrow> 0), h))"
  by (induction cxs arbitrary: f) (auto split: prod.splits)

context rounded_decimal
begin

lemma mint_law:
  assumes f: "faucet_ok dv rnd f n" and T: "1 \<le> am_nat (fc_total_to_mint f)" and m: "am_nat (fc_amount_minted f) \<le> am_nat (fc_total_to_mint f)"
    and run: "faucet_mint N (f, cx) = (r, (f', cx'))"
  shows "same_schedule f' f \<and> am_nat (fc_amount_minted f') \<le> am_nat (fc_total_to_mint f)
    \<and> am_nat (fc_amount_minted f') = am_nat (fc_amount_minted f) + (case r of Ok c \<Rightarrow> coin_nat c | _ \<Rightarrow> 0)"
proof -
  have conf: "fc_configured f" using f by (simp add: faucet_ok_def)
  consider "f' = f" "\<forall>c. r = Ok c \<longrightarrow> c = Coin (Amount 0)"
    | s target where "\<not> s \<le> 0" "target_amount_minted N f s = Ok target" "mint_to target f = (r, f')"
    using run conf
    by (auto simp: faucet_mint_def faucet_current_seconds_def op_bind_def and_then_eq_Ok context_resolve_def split: result.splits prod.splits if_splits option.splits)
  then show ?thesis
  proof cases
    case 1
    then show ?thesis using m by (cases r) simp_all
  next
    case 2
    then show ?thesis using mint_to_law [of target f] target_bound [OF f T _ 2(2)] m by (auto simp: max_def split: if_splits)
  qed
qed

lemma minted_law:
  assumes "faucet_ok dv rnd f n" "1 \<le> am_nat (fc_total_to_mint f)" "am_nat (fc_amount_minted f) \<le> am_nat (fc_total_to_mint f)"
    and "minted_by N f cxs = (m, g)"
  shows "same_schedule g f \<and> am_nat (fc_amount_minted g) \<le> am_nat (fc_total_to_mint f) \<and> am_nat (fc_amount_minted g) = am_nat (fc_amount_minted f) + m"
  using assms
proof (induction cxs arbitrary: f m)
  case (Cons cx cxs)
  obtain r f' cx' where 1: "faucet_mint N (f, cx) = (r, (f', cx'))" by (rule prod_cases3)
  obtain m' where 2: "minted_by N f' cxs = (m', g)" "m = (case r of Ok c \<Rightarrow> coin_nat c | _ \<Rightarrow> 0) + m'" using Cons.prems(4) 1 by (auto split: prod.splits)
  note l = mint_law [OF Cons.prems(1-3) 1]
  have "faucet_ok dv rnd f' n" "fc_total_to_mint f' = fc_total_to_mint f" using l Cons.prems(1) same_schedule_simps by blast+
  with Cons.IH [OF this(1) _ _ 2(1)] l Cons.prems(2) show ?case using 2(2) by (auto intro: same_schedule_trans)
qed simp

lemma mint_done:
  assumes f: "faucet_ok dv rnd f n" and T: "1 \<le> am_nat (fc_total_to_mint f)" and m: "am_nat (fc_amount_minted f) \<le> am_nat (fc_total_to_mint f)"
    and p: "0 \<le> sint (fc_seconds_per_period f)" and t: "cx_time cx = Some t" "in_i64 (tm_seconds t - fc_start_seconds f)"
    and over: "int (Suc n) * sint (fc_seconds_per_period f) < tm_seconds t - fc_start_seconds f"
  shows "\<exists>c f'. faucet_mint N (f, cx) = (Ok c, (f', cx)) \<and> fc_amount_minted f' = fc_total_to_mint f"
proof -
  let ?s = "tm_seconds t - fc_start_seconds f"
  have "0 \<le> int (Suc n) * sint (fc_seconds_per_period f)" using p by (intro mult_nonneg_nonneg) simp_all
  then have pos: "\<not> ?s \<le> 0" using over by linarith
  have "target_amount_minted N f ?s = Ok (fc_total_to_mint f)" using t(2) by (intro target_done [OF f T p over]) (simp add: in_i64_def)
  moreover obtain c f' where "mint_to (fc_total_to_mint f) f = (Ok c, f')" "fc_amount_minted f' = max (fc_total_to_mint f) (fc_amount_minted f)"
    using mint_to_law [of "fc_total_to_mint f" f] by auto
  moreover have "fc_amount_minted f \<le> fc_total_to_mint f" using m by (simp add: less_eq_amount_def word_le_nat_alt)
  then have "max (fc_total_to_mint f) (fc_amount_minted f) = fc_total_to_mint f" by (simp add: max.absorb1)
  ultimately show ?thesis using f t pos by (simp add: faucet_mint_def faucet_ok_def faucet_current_seconds_def op_bind_def context_resolve_def i64_sub_def)
qed

end

text \<open>The rational numbers need no rounding.\<close>

interpretation rat_decimal: rounded_decimal rat_decimal of_rat "\<lambda>x. x"
proof
  show "\<bar>x - x\<bar> \<le> max 1 \<bar>x\<bar> / 10 ^ 27" for x :: real by simp
qed (auto simp: rat_decimal_def of_rat_add of_rat_mult of_rat_divide)

abbreviation halving :: "rat faucet_options" where
  "halving \<equiv> \<lparr>fo_num_periods = 9, fo_period_length = \<lparr>as_secs = 10, subsec_nanos = 0\<rparr>, fo_total_coins = Amount 210000000,
     fo_period_decay = Decimal (1 / 2), fo_start_seconds = 10\<rparr>"

abbreviation new_faucet :: "rat faucet" where
  "new_faucet \<equiv> \<lparr>fc_configured = False, fc_amount_minted = Amount 0, fc_start_seconds = 0, fc_multiplier_total = Decimal 0,
     fc_total_to_mint = Amount 0, fc_period_decay = Decimal 0, fc_seconds_per_period = 0, fc_num_periods = 0\<rparr>"

abbreviation context_at :: "int \<Rightarrow> contexts" where
  "context_at t \<equiv> \<lparr>cx_paid = None, cx_signer = None, cx_chain_id = None, cx_events = None, cx_time = Some (time_from_seconds t)\<rparr>"

lemma halving_facts:
  "fo_num_periods halving \<noteq> 0" "unat (fo_num_periods halving) \<le> 1000" "am_nat (fo_total_coins halving) = 210000000"
  "1 \<le> am_nat (fo_total_coins halving)" "0 \<le> sint (as_secs (fo_period_length halving))"
  "int (unat (fo_num_periods halving)) * sint (as_secs (fo_period_length halving)) < tm_seconds (time_from_seconds 101) - fo_start_seconds halving"
  "in_i64 (tm_seconds (time_from_seconds 101) - fo_start_seconds halving)"
  by (simp_all add: time_from_seconds_def in_i64_def i64_min_def i64_max_def)

lemma half_range: "0 \<le> real_of_rat (dec_value (fo_period_decay halving))" "real_of_rat (dec_value (fo_period_decay halving)) \<le> 1"
  by simp_all

section \<open>Properties\<close>

text \<open>
  (C15) A faucet that was configured for at most 1000 periods and a decay between 0 and 1 never
  mints more than the configured total, however often and whenever \<open>faucet_mint\<close> is called, and
  despite the rounding of every multiplication, division and addition.
\<close>

theorem faucet_bounded:
  assumes lib: "rounded_decimal N dv rnd" and n: "fo_num_periods opts \<noteq> 0" "unat (fo_num_periods opts) \<le> 1000"
    and decay: "0 \<le> dv (dec_value (fo_period_decay opts))" "dv (dec_value (fo_period_decay opts)) \<le> 1"
    and T: "1 \<le> am_nat (fo_total_coins opts)" and m: "fc_amount_minted f = Amount 0"
  shows "\<exists>f'. faucet_configure N opts f = (Ok (), f') \<and> fst (minted_by N f' cxs) \<le> am_nat (fo_total_coins opts)"
proof -
  obtain f' where f': "faucet_configure N opts f = (Ok (), f')" "faucet_ok dv rnd f' (unat (fo_num_periods opts) - 1)"
      "fc_total_to_mint f' = fo_total_coins opts" "fc_amount_minted f' = fc_amount_minted f"
    using rounded_decimal.configure_law [OF lib n decay, of f] by blast
  then show ?thesis using rounded_decimal.minted_law [OF lib f'(2) _ _ prod.collapse [symmetric], of cxs] T m by auto
qed

theorem faucet_bounded_witness:
  "\<exists>f'. faucet_configure rat_decimal halving new_faucet = (Ok (), f')
    \<and> fst (minted_by rat_decimal f' [context_at 15, context_at 20, context_at 42]) \<le> 210000000"
  using faucet_bounded [OF rat_decimal.rounded_decimal_axioms halving_facts(1,2) half_range halving_facts(4), of new_faucet "[context_at 15, context_at 20, context_at 42]"]
  unfolding halving_facts(3) faucet.select_convs by blast

text \<open>
  (C16) And it mints all of the total: once the last period is over, a call of \<open>faucet_mint\<close> brings
  the coins that all calls together have minted to exactly the configured total.
\<close>

theorem faucet_issues_total:
  assumes lib: "rounded_decimal N dv rnd" and n: "fo_num_periods opts \<noteq> 0" "unat (fo_num_periods opts) \<le> 1000"
    and decay: "0 \<le> dv (dec_value (fo_period_decay opts))" "dv (dec_value (fo_period_decay opts)) \<le> 1"
    and T: "1 \<le> am_nat (fo_total_coins opts)" and m: "fc_amount_minted f = Amount 0"
    and p: "0 \<le> sint (as_secs (fo_period_length opts))" and t: "cx_time cx = Some t" "in_i64 (tm_seconds t - fo_start_seconds opts)"
    and over: "int (unat (fo_num_periods opts)) * sint (as_secs (fo_period_length opts)) < tm_seconds t - fo_start_seconds opts"
  shows "\<exists>f'. faucet_configure N opts f = (Ok (), f') \<and> fst (minted_by N f' (cxs @ [cx])) = am_nat (fo_total_coins opts)"
proof -
  let ?n = "unat (fo_num_periods opts)"
  obtain f' where f': "faucet_configure N opts f = (Ok (), f')" "faucet_ok dv rnd f' (?n - 1)"
      "fc_total_to_mint f' = fo_total_coins opts" "fc_amount_minted f' = fc_amount_minted f" "fc_start_seconds f' = fo_start_seconds opts"
      "fc_seconds_per_period f' = as_secs (fo_period_length opts)"
    using rounded_decimal.configure_law [OF lib n decay, of f] by blast
  obtain k g where g: "minted_by N f' cxs = (k, g)" by fastforce
  note l = rounded_decimal.minted_law [OF lib f'(2) _ _ g]
  then have gl: "same_schedule g f'" "am_nat (fc_amount_minted g) \<le> am_nat (fo_total_coins opts)" "am_nat (fc_amount_minted g) = k" using f' T m by simp_all
  note ss = same_schedule_simps [OF gl(1)]
  have "Suc (?n - 1) = ?n" using n(1) by (simp add: unat_gt_0)
  then obtain c g' where mint: "faucet_mint N (g, cx) = (Ok c, (g', cx))" "fc_amount_minted g' = fo_total_coins opts"
    using rounded_decimal.mint_done [OF lib, of g "?n - 1" cx t] ss f' gl(2) T p t over by auto
  have "am_nat (fo_total_coins opts) = k + coin_nat c"
    using rounded_decimal.mint_law [OF lib _ _ _ mint(1), of "?n - 1"] ss f' gl T mint(2) by simp
  then show ?thesis using f'(1) g mint(1) by (simp add: minted_by_snoc)
qed

theorem faucet_issues_total_witness:
  "\<exists>f'. faucet_configure rat_decimal halving new_faucet = (Ok (), f')
    \<and> fst (minted_by rat_decimal f' ([context_at 15, context_at 42] @ [context_at 101])) = 210000000"
  using faucet_issues_total [OF rat_decimal.rounded_decimal_axioms halving_facts(1,2) half_range halving_facts(4) _ halving_facts(5) _ halving_facts(7,6),
      of new_faucet "context_at 101" "[context_at 15, context_at 42]"]
  unfolding halving_facts(3) faucet.select_convs contexts.select_convs by blast

end
