(* ===== verification/Multi_Share.thy ===== *)
theory Multi_Share
  imports Map_Entries Map_Iterable Amounts
begin

text \<open>
  Decimal amounts of several denominations: \<^verbatim>\<open>src/coins/multishare.rs\<close>, a map from denominations
  to decimals.  The same kind of map keeps the rewards of a pool.
\<close>

section \<open>Changing an entry in place\<close>

text \<open>\<^verbatim>\<open>let mut x = map.entry(k)?.or_default()?; ...; *x = v;\<close> where \<open>f\<close> computes \<open>v\<close>, and what else
  the code goes on with, from \<^verbatim>\<open>*x\<close>.\<close>

definition entry_with :: "('s, 'k, 'v) map_types \<Rightarrow> 'v \<Rightarrow> 's \<Rightarrow> 'k \<Rightarrow> ('v \<Rightarrow> ('a \<times> 'v) result) \<Rightarrow> (('k, 'v) omap, 'a) op" where
  "entry_with D dflt s k f =
     op_bind (op_read (\<lambda>m. entry D m s k)) (\<lambda>e.
     op_bind (or_default D dflt e) (\<lambda>child.
     op_bind (op_read (\<lambda>m. and_then (child_deref m child) f)) (\<lambda>(a, v).
     op_bind (child_modify D (\<lambda>_. v) child) (\<lambda>_. op_ok a))))"

definition update_entry :: "('s, 'k, 'v) map_types \<Rightarrow> 'v \<Rightarrow> 's \<Rightarrow> 'k \<Rightarrow> ('v \<Rightarrow> 'v result) \<Rightarrow> (('k, 'v) omap, 'v) op" where
  "update_entry D dflt s k f = entry_with D dflt s k (\<lambda>x. and_then (f x) (\<lambda>v. Ok (v, v)))"

context map_entries
begin

lemma entry_with_law:
  assumes "wf m s" "okk k"
  shows "case f (or_else dflt (look m s k)) of
      Ok (a, v) \<Rightarrow> okv v \<longrightarrow> (\<exists>m'. entry_with D dflt s k f m = (Ok a, m') \<and> wf m' s \<and> mp_store m' = mp_store m
        \<and> (\<forall>k'. okk k' \<longrightarrow> look m' s k' = (if k' = k then Some v else look m s k')))
    | Err e \<Rightarrow> entry_with D dflt s k f m = (Err e, m)
    | Panic \<Rightarrow> entry_with D dflt s k f m = (Panic, m)"
proof -
  obtain e c where e: "entry D m s k = Ok e" "or_default D dflt e m = (Ok c, m)" "refers D look wf okk okv m s k (or_else dflt (look m s k)) c"
    using or_default_entry [OF assms] by blast
  have d: "child_deref m c = Ok (or_else dflt (look m s k))" using e(3) by (simp add: refers_def)
  show ?thesis
  proof (cases "f (or_else dflt (look m s k))")
    case (Ok av)
    obtain a v where av: "av = (a, v)" by force
    show ?thesis
    proof (simp only: Ok av result.case prod.case, rule impI)
      assume "okv v"
      then obtain c' m' where "child_modify D (\<lambda>_. v) c m = (Ok c', m')" "wf m' s" "mp_store m' = mp_store m"
          "\<forall>k'. okk k' \<longrightarrow> look m' s k' = (if k' = k then Some v else look m s k')"
        using e(3) unfolding refers_def by blast
      then show "\<exists>m'. entry_with D dflt s k f m = (Ok a, m') \<and> wf m' s \<and> mp_store m' = mp_store m
          \<and> (\<forall>k'. okk k' \<longrightarrow> look m' s k' = (if k' = k then Some v else look m s k'))"
        using e(1,2) d Ok av by (simp add: entry_with_def op_bind_def)
    qed
  qed (use e(1,2) d in \<open>simp_all add: entry_with_def op_bind_def\<close>)
qed

lemma update_entry_law:
  assumes "wf m s" "okk k"
  shows "case f (or_else dflt (look m s k)) of
      Ok v \<Rightarrow> okv v \<longrightarrow> (\<exists>m'. update_entry D dflt s k f m = (Ok v, m') \<and> wf m' s \<and> mp_store m' = mp_store m
        \<and> (\<forall>k'. okk k' \<longrightarrow> look m' s k' = (if k' = k then Some v else look m s k')))
    | Err e \<Rightarrow> update_entry D dflt s k f m = (Err e, m)
    | Panic \<Rightarrow> update_entry D dflt s k f m = (Panic, m)"
  using entry_with_law [OF assms, of "\<lambda>x. and_then (f x) (\<lambda>v. Ok (v, v))"]
  by (cases "f (or_else dflt (look m s k))") (simp_all add: update_entry_def)

end

section \<open>Shares\<close>

text \<open>The maps from denominations to decimals, \<^verbatim>\<open>Map<u8, Decimal>\<close>, and the decimals.\<close>

record ('s, 'd) denom_types =
  dn_num :: "'d num_decimal"
  dn_map :: "('s, byte, 'd decimal) map_types"
  dn_bytes :: "bytes codec"

type_synonym 'd denoms = "(byte, 'd decimal) omap"

abbreviation denom_update :: "('s, 'd) denom_types \<Rightarrow> 's \<Rightarrow> byte \<Rightarrow> ('d decimal \<Rightarrow> 'd decimal result) \<Rightarrow> ('d denoms, 'd decimal) op" where
  "denom_update T \<equiv> update_entry (dn_map T) (decimal_zero (dn_num T))"

text \<open>The denominations of such a map: \<^verbatim>\<open>iter()?.map(|item| Ok(*item?.0)).collect()\<close>.\<close>

definition denom_keys :: "('s, 'd) denom_types \<Rightarrow> 's \<Rightarrow> 'd denoms \<Rightarrow> byte list result" where
  "denom_keys T s m = and_then (map_iter_all (dn_map T) (dn_bytes T) m) (\<lambda>it.
     for_each (map_iter_step (dn_map T) m s True) (\<lambda>x ks. Ok (ks @ [fst (ref_pair x)])) (mt_fuel (dn_map T)) it [])"

record 'd multi_share =
  ms_shares :: "'d denoms"

definition multi_share_default :: "'d multi_share" where
  "multi_share_default = \<lparr>ms_shares = map_new\<rparr>"

definition on_shares :: "('d denoms, 'a) op \<Rightarrow> ('d multi_share, 'a) op" where
  "on_shares f = (\<lambda>self. case f (ms_shares self) of (r, m) \<Rightarrow> (r, self\<lparr>ms_shares := m\<rparr>))"

definition multi_share_amounts :: "('s, 'd) denom_types \<Rightarrow> 's \<Rightarrow> 'd multi_share \<Rightarrow> (byte \<times> amount) list result" where
  "multi_share_amounts T s self = and_then (map_iter_all (dn_map T) (dn_bytes T) (ms_shares self)) (\<lambda>it.
     for_each (map_iter_step (dn_map T) (ms_shares self) s True)
       (\<lambda>x res. case ref_pair x of (denom, share) \<Rightarrow> and_then (decimal_amount (dn_num T) share) (\<lambda>a. Ok (res @ [(denom, a)])))
       (mt_fuel (dn_map T)) it [])"

definition multi_share_deduct :: "('s, 'd) denom_types \<Rightarrow> 's \<Rightarrow> amount \<Rightarrow> byte \<Rightarrow> ('d multi_share, unit) op" where
  "multi_share_deduct T s a denom = op_bind (on_shares (denom_update T s denom (\<lambda>e.
     if decimal_less_amount (dn_num T) e a then Err (Error_Coins ''Insufficient balance'')
     else math_q (decimal_sub_amount (dn_num T) e a)))) (\<lambda>_. op_ok ())"

definition multi_share_balance :: "('s, 'd) denom_types \<Rightarrow> 's \<Rightarrow> byte \<Rightarrow> 'd multi_share \<Rightarrow> 'd decimal result" where
  "multi_share_balance T s index self =
     and_then (map_get_or_default (dn_map T) (decimal_zero (dn_num T)) (ms_shares self) s index) (\<lambda>r. Ok (ref_deref r))"

definition multi_share_balance_amount :: "('s, 'd) denom_types \<Rightarrow> 's \<Rightarrow> byte \<Rightarrow> 'd multi_share \<Rightarrow> amount result" where
  "multi_share_balance_amount T s index self =
     and_then (map_get_or_default (dn_map T) (decimal_zero (dn_num T)) (ms_shares self) s index) (\<lambda>r. decimal_amount (dn_num T) (ref_deref r))"

definition multi_share_take :: "('s, 'd) denom_types \<Rightarrow> 's \<Rightarrow> byte \<Rightarrow> amount \<Rightarrow> ('d multi_share, coin) op" where
  "multi_share_take T s index a = op_bind (multi_share_deduct T s a index) (\<lambda>_. op_ok (coin_mint a))"

text \<open>\<^verbatim>\<open>give\<close> for a pair of a denomination and an amount, and for a coin, whose symbol has the index.\<close>

definition multi_share_give :: "('s, 'd) denom_types \<Rightarrow> 's \<Rightarrow> byte \<times> amount \<Rightarrow> ('d multi_share, unit) op" where
  "multi_share_give T s c = op_bind (on_shares (denom_update T s (fst c) (\<lambda>e. math_q (decimal_add_amount (dn_num T) e (snd c))))) (\<lambda>_. op_ok ())"

definition multi_share_give_coin :: "('s, 'd) denom_types \<Rightarrow> 's \<Rightarrow> byte \<Rightarrow> coin \<Rightarrow> ('d multi_share, unit) op" where
  "multi_share_give_coin T s index c = op_bind (on_shares (denom_update T s index (\<lambda>e. math_q (decimal_add_amount (dn_num T) e (coin_amount c))))) (\<lambda>_. op_ok ())"

section \<open>Laws\<close>

text \<open>What the maps promise.  The iteration of a map does not end when the denomination 255 is
  stored, so that this one is left out.\<close>

abbreviation denom_ok :: "byte \<Rightarrow> bool" where
  "denom_ok d \<equiv> d \<noteq> 255"

lemma fold_result_append: "fold_result (\<lambda>x ys. Ok (ys @ [g x])) xs acc = Ok (acc @ map g xs)"
  by (induction xs arbitrary: acc) simp_all

locale denom_maps =
  entries: map_entries "dn_map T" look wf denom_ok "\<lambda>_. True" "decimal_zero (dn_num T)" +
  num: decimal_lib "dn_num T" dv
  for T :: "('s, 'd) denom_types" and look wf dv +
  assumes keys_law: "wf m s \<Longrightarrow> \<exists>xs. (\<exists>it. map_iter_all (dn_map T) (dn_bytes T) m = Ok it
      \<and> collect (map_iter_step (dn_map T) m s True) (mt_fuel (dn_map T)) it = Some (Ok xs))
      \<and> distinct (map fst (map ref_pair xs)) \<and> (\<forall>d v. (d, v) \<in> set (map ref_pair xs) \<longleftrightarrow> denom_ok d \<and> look m s d = Some v)"
begin

lemma denom_keys_law:
  assumes "wf m s"
  shows "\<exists>ds. denom_keys T s m = Ok ds \<and> distinct ds \<and> (\<forall>d. d \<in> set ds \<longleftrightarrow> denom_ok d \<and> look m s d \<noteq> None)"
proof -
  obtain xs it where it: "map_iter_all (dn_map T) (dn_bytes T) m = Ok it" "collect (map_iter_step (dn_map T) m s True) (mt_fuel (dn_map T)) it = Some (Ok xs)"
      and xs: "distinct (map fst (map ref_pair xs))" "\<forall>d v. (d, v) \<in> set (map ref_pair xs) \<longleftrightarrow> denom_ok d \<and> look m s d = Some v"
    using keys_law [OF assms] by blast
  have "denom_keys T s m = Ok (map fst (map ref_pair xs))"
    using it(1) for_each_collect [OF it(2), of "\<lambda>x ks. Ok (ks @ [fst (ref_pair x)])" "[]"] by (simp add: denom_keys_def fold_result_append comp_def)
  moreover have "d \<in> fst ` S \<longleftrightarrow> (\<exists>v. (d, v) \<in> S)" for d :: byte and S :: "(byte \<times> 'd decimal) set" by force
  then have "d \<in> set (map fst (map ref_pair xs)) \<longleftrightarrow> denom_ok d \<and> look m s d \<noteq> None" for d
    using xs(2) unfolding set_map [of fst] by auto
  ultimately show ?thesis using xs(1) by blast
qed

abbreviation share_of :: "'d denoms \<Rightarrow> 's \<Rightarrow> byte \<Rightarrow> real" where
  "share_of m s k \<equiv> num.val (or_else (decimal_zero (dn_num T)) (look m s k))"

lemma zero_val [simp]: "num.val (decimal_zero (dn_num T)) = 0"
  by (simp add: decimal_zero_def num.zero_law)

lemma give_law:
  assumes "wf (ms_shares x) s" "denom_ok d" "share_of (ms_shares x) s d \<in> \<int>" "\<bar>share_of (ms_shares x) s d\<bar> < 2 ^ 95"
  shows "\<exists>x'. multi_share_give T s (d, a) x = (Ok (), x') \<and> wf (ms_shares x') s
    \<and> (\<forall>d'. denom_ok d' \<longrightarrow> share_of (ms_shares x') s d' = share_of (ms_shares x) s d' + (if d' = d then real (am_nat a) else 0))"
proof -
  obtain c where c: "decimal_add_amount (dn_num T) (or_else (decimal_zero (dn_num T)) (look (ms_shares x) s d)) a = MOk c"
      "num.val c = share_of (ms_shares x) s d + real (am_nat a)"
    using num.add_amount_law [OF assms(3,4)] by blast
  from entries.update_entry_law [OF assms(1,2), of "\<lambda>e. math_q (decimal_add_amount (dn_num T) e a)"] c(1)
  obtain m' where "denom_update T s d (\<lambda>e. math_q (decimal_add_amount (dn_num T) e a)) (ms_shares x) = (Ok c, m')" "wf m' s"
      "\<forall>k'. denom_ok k' \<longrightarrow> look m' s k' = (if k' = d then Some c else look (ms_shares x) s k')" by auto
  then show ?thesis using c(2)
    by (intro exI [of _ "x\<lparr>ms_shares := m'\<rparr>"]) (simp add: multi_share_give_def on_shares_def op_bind_def del: of_nat_unat)
qed

lemma deduct_law:
  assumes "wf (ms_shares x) s" "denom_ok d" "share_of (ms_shares x) s d \<in> \<int>" "\<bar>share_of (ms_shares x) s d\<bar> < 2 ^ 95"
  shows "if real (am_nat a) \<le> share_of (ms_shares x) s d
    then \<exists>x'. multi_share_deduct T s a d x = (Ok (), x') \<and> wf (ms_shares x') s
      \<and> (\<forall>d'. denom_ok d' \<longrightarrow> share_of (ms_shares x') s d' = share_of (ms_shares x) s d' - (if d' = d then real (am_nat a) else 0))
    else multi_share_deduct T s a d x = (Err (Error_Coins ''Insufficient balance''), x)"
proof (cases "real (am_nat a) \<le> share_of (ms_shares x) s d")
  case True
  let ?f = "\<lambda>e. if decimal_less_amount (dn_num T) e a then Err (Error_Coins ''Insufficient balance'') else math_q (decimal_sub_amount (dn_num T) e a)"
  obtain c where c: "decimal_sub_amount (dn_num T) (or_else (decimal_zero (dn_num T)) (look (ms_shares x) s d)) a = MOk c"
      "num.val c = share_of (ms_shares x) s d - real (am_nat a)"
    using num.sub_amount_law [OF assms(3,4)] by blast
  have "\<not> decimal_less_amount (dn_num T) (or_else (decimal_zero (dn_num T)) (look (ms_shares x) s d)) a"
    using True unfolding num.less_amount_law by linarith
  with entries.update_entry_law [OF assms(1,2), of ?f] c(1)
  obtain m' where "denom_update T s d ?f (ms_shares x) = (Ok c, m')" "wf m' s"
      "\<forall>k'. denom_ok k' \<longrightarrow> look m' s k' = (if k' = d then Some c else look (ms_shares x) s k')" by auto
  then have "\<exists>x'. multi_share_deduct T s a d x = (Ok (), x') \<and> wf (ms_shares x') s
      \<and> (\<forall>d'. denom_ok d' \<longrightarrow> share_of (ms_shares x') s d' = share_of (ms_shares x) s d' - (if d' = d then real (am_nat a) else 0))" using c(2)
    by (intro exI [of _ "x\<lparr>ms_shares := m'\<rparr>"]) (simp add: multi_share_deduct_def on_shares_def op_bind_def del: of_nat_unat)
  then show ?thesis using True by (simp only: if_True)
next
  case False
  let ?f = "\<lambda>e. if decimal_less_amount (dn_num T) e a then Err (Error_Coins ''Insufficient balance'') else math_q (decimal_sub_amount (dn_num T) e a)"
  have "decimal_less_amount (dn_num T) (or_else (decimal_zero (dn_num T)) (look (ms_shares x) s d)) a"
    using False unfolding num.less_amount_law by linarith
  with entries.update_entry_law [OF assms(1,2), of ?f]
  have "denom_update T s d ?f (ms_shares x) = (Err (Error_Coins ''Insufficient balance''), ms_shares x)" by simp
  then have "multi_share_deduct T s a d x = (Err (Error_Coins ''Insufficient balance''), x)"
    by (simp add: multi_share_deduct_def on_shares_def op_bind_def)
  then show ?thesis using False by (simp only: if_False)
qed

end

end
