(* ===== verification/Denom_Maps.thy ===== *)
theory Denom_Maps
  imports Multi_Share
begin

text \<open>
  The maps from denominations to decimals in an in-memory store.  The decimals are fixed-point
  numbers of 16 bytes with 16 binary digits after the point.
\<close>

section \<open>Fixed-point decimals\<close>

definition fx :: "128 word \<Rightarrow> int" where
  "fx a = (if \<bar>sint a\<bar> \<le> 2 ^ 120 then sint a else 0)"

definition fx_of :: "int \<Rightarrow> 128 word option" where
  "fx_of z = (if \<bar>z\<bar> \<le> 2 ^ 120 then Some (word_of_int z) else None)"

definition fx_val :: "128 word \<Rightarrow> real" where
  "fx_val a = of_int (fx a) / 2 ^ 16"

definition fixed_decimal :: "128 word num_decimal" where
  "fixed_decimal = \<lparr>nd_zero = 0, nd_one = 65536, nd_from_u64 = (\<lambda>w. word_of_int (int (unat w) * 65536)),
     nd_to_u64 = (\<lambda>a. if 0 \<le> fx a \<and> fx a < 2 ^ 80 then Some (of_int (fx a div 65536)) else None),
     nd_round = (\<lambda>a. word_of_int ((fx a + 32768) div 65536 * 65536)), nd_abs = (\<lambda>a. word_of_int \<bar>fx a\<bar>),
     nd_is_sign_negative = (\<lambda>a. fx a < 0), nd_is_zero = (\<lambda>a. fx a = 0),
     nd_checked_add = (\<lambda>a b. fx_of (fx a + fx b)), nd_checked_sub = (\<lambda>a b. fx_of (fx a - fx b)),
     nd_checked_mul = (\<lambda>a b. fx_of (fx a * fx b div 65536)),
     nd_checked_div = (\<lambda>a b. if fx b = 0 then None else fx_of (fx a * 65536 div fx b)),
     nd_less = (\<lambda>a b. fx a < fx b), nd_eq = (\<lambda>a b. fx a = fx b),
     nd_serialize = (\<lambda>a. be_bytes 16 (unat a)), nd_deserialize = (\<lambda>bs. of_nat (of_be_bytes bs))\<rparr>"

lemma fx_bound: "\<bar>fx a\<bar> \<le> 2 ^ 120"
  by (simp add: fx_def)

lemma fx_word: "\<bar>z\<bar> \<le> 2 ^ 120 \<Longrightarrow> fx (word_of_int z) = z"
proof -
  assume z: "\<bar>z\<bar> \<le> 2 ^ 120"
  then have "- (2 ^ 127) \<le> z" "z < 2 ^ 127" by simp_all
  then have "sint (word_of_int z :: 128 word) = z" by (simp add: sint_sbintrunc' signed_take_bit_int_eq_self)
  then show ?thesis using z by (simp add: fx_def)
qed

lemma fx_of_val: "fx_of z = Some c \<Longrightarrow> fx_val c = of_int z / 2 ^ 16"
  by (auto simp: fx_of_def fx_val_def fx_word split: if_splits)

lemma fx_of_small: "\<bar>z\<bar> \<le> 2 ^ 120 \<Longrightarrow> \<exists>c. fx_of z = Some c \<and> fx_val c = of_int z / 2 ^ 16"
  using fx_of_val [of z] by (auto simp: fx_of_def)

lemma fx_small: "\<bar>fx_val a\<bar> < 2 ^ 95 \<Longrightarrow> \<bar>fx a\<bar> < 2 ^ 111"
proof -
  assume "\<bar>fx_val a\<bar> < 2 ^ 95"
  then have "\<bar>real_of_int (fx a)\<bar> < 2 ^ 111" by (simp add: fx_val_def abs_divide divide_less_eq)
  then show ?thesis by (simp flip: of_int_abs)
qed

lemma fx_int: "fx_val a \<in> \<int> \<Longrightarrow> \<exists>z. fx a = z * 65536 \<and> fx_val a = of_int z"
proof -
  assume "fx_val a \<in> \<int>"
  then obtain z where z: "fx_val a = of_int z" by (auto elim: Ints_cases)
  then have "real_of_int (fx a) = of_int (z * 65536)" by (simp add: fx_val_def)
  then show ?thesis using z of_int_eq_iff by blast
qed

interpretation fixed_decimal: decimal_lib fixed_decimal fx_val
proof
  fix a b :: "128 word"
  show "nd_less fixed_decimal a b = (fx_val a < fx_val b)" by (simp add: fixed_decimal_def fx_val_def divide_less_cancel)
  show "nd_eq fixed_decimal a b = (fx_val a = fx_val b)" by (simp add: fixed_decimal_def fx_val_def)
  show "nd_is_zero fixed_decimal a = (fx_val a = 0)" by (simp add: fixed_decimal_def fx_val_def)
  show "fx_val a < 0 \<Longrightarrow> nd_is_sign_negative fixed_decimal a" by (simp add: fixed_decimal_def fx_val_def)
  show "0 < fx_val a \<Longrightarrow> \<not> nd_is_sign_negative fixed_decimal a" by (simp add: fixed_decimal_def fx_val_def)
  show "fx_val (nd_zero fixed_decimal) = 0" "\<not> nd_is_sign_negative fixed_decimal (nd_zero fixed_decimal)" "fx_val (nd_one fixed_decimal) = 1"
    by (simp_all add: fixed_decimal_def fx_val_def fx_def)
next
  fix w :: u64
  have "int (unat w) < 2 ^ 64" using uint_lt2p [of w] by simp
  then have "fx (word_of_int (int (unat w) * 65536)) = int (unat w) * 65536" by (intro fx_word) simp
  then have "fx (nd_from_u64 fixed_decimal w) = int (unat w) * 65536" unfolding fixed_decimal_def by (simp only: num_decimal.select_convs)
  then show "fx_val (nd_from_u64 fixed_decimal w) = real (unat w)" "\<not> nd_is_sign_negative fixed_decimal (nd_from_u64 fixed_decimal w)"
    by (simp_all add: fx_val_def fixed_decimal_def)
next
  fix a :: "128 word"
  let ?q = "(fx a + 32768) div 65536"
  have q: "fx a + 32768 - 65536 < ?q * 65536" "?q * 65536 \<le> fx a + 32768" by linarith+
  have "\<bar>?q\<bar> \<le> 2 ^ 104" using fx_bound [of a] q by (simp add: abs_le_iff)
  then have "fx (word_of_int (?q * 65536)) = ?q * 65536" by (intro fx_word) (simp add: abs_mult)
  then have "fx (nd_round fixed_decimal a) = ?q * 65536" unfolding fixed_decimal_def by (simp only: num_decimal.select_convs)
  then have r: "fx_val (nd_round fixed_decimal a) = of_int ?q" by (simp add: fx_val_def)
  show "fx_val (nd_round fixed_decimal a) \<in> \<int>" unfolding r by simp
  have "\<bar>real_of_int (?q * 65536) - of_int (fx a)\<bar> \<le> 32768" using q by linarith
  then show "\<bar>fx_val (nd_round fixed_decimal a) - fx_val a\<bar> \<le> 1 / 2" unfolding r by (simp add: fx_val_def field_simps abs_le_iff)
next
  fix a :: "128 word"
  assume "fx_val a \<in> \<int>"
  then obtain z where z: "fx a = z * 65536" "fx_val a = of_int z" using fx_int by blast
  then show "nd_to_u64 fixed_decimal a = (if 0 \<le> fx_val a \<and> fx_val a < 2 ^ 64 then Some (of_nat (nat \<lfloor>fx_val a\<rfloor>)) else None)"
    by (simp add: fixed_decimal_def zero_le_mult_iff)
next
  fix a b :: "128 word"
  assume "\<bar>fx_val a\<bar> < 2 ^ 95" "\<bar>fx_val b\<bar> < 2 ^ 95"
  then have "\<bar>fx a + fx b\<bar> \<le> 2 ^ 120" "\<bar>fx a - fx b\<bar> \<le> 2 ^ 120" using fx_small [of a] fx_small [of b] by simp_all
  then show "\<exists>c. nd_checked_add fixed_decimal a b = Some c \<and> fx_val c = fx_val a + fx_val b"
      "\<exists>c. nd_checked_sub fixed_decimal a b = Some c \<and> fx_val c = fx_val a - fx_val b"
    using fx_of_small [of "fx a + fx b"] fx_of_small [of "fx a - fx b"]
    by (simp_all add: fixed_decimal_def fx_val_def add_divide_distrib diff_divide_distrib)
qed


section \<open>Maps\<close>

text \<open>A decimal is stored as its 16 bytes.\<close>

definition decimal_codec :: "'d num_decimal \<Rightarrow> 'd decimal codec" where
  "decimal_codec N = \<lparr>enc = decimal_encode N, dec = decimal_decode N\<rparr>"

lemma decimal_codec_terminated:
  assumes "\<And>x. length (nd_serialize N x) = 16" and "\<And>x. nd_deserialize N (nd_serialize N x) = x"
  shows "terminated_codec (decimal_codec N) (\<lambda>_. True)"
  by unfold_locales (auto simp: decimal_codec_def decimal_encode_def decimal_decode_def assms)

definition fixed_denoms :: "(mapstore, 128 word) denom_types" where
  "fixed_denoms = \<lparr>dn_num = fixed_decimal,
     dn_map = \<lparr>mt_backing = mapstore_backing, mt_key = word_codec, mt_value = leaf_state (decimal_codec fixed_decimal), mt_fuel = 1000\<rparr>,
     dn_bytes = \<lparr>enc = Ok, dec = (\<lambda>b. Ok (b, []))\<rparr>\<rparr>"

lemma fixed_map_simple: "simple_map (dn_map fixed_denoms) mapstore_ents mapstore_invar denom_ok (\<lambda>_. True)"
proof (intro simple_map.intro)
  show "lawful_backing (mt_backing (dn_map fixed_denoms)) mapstore_ents mapstore_invar (\<lambda>_. True)"
    by (simp add: fixed_denoms_def mapstore.lawful_backing_axioms)
  show "terminated_codec (mt_key (dn_map fixed_denoms)) denom_ok"
    by unfold_locales (auto simp: fixed_denoms_def u8_codec.enc_total intro: u8_codec.dec_enc)
  have "unat x < 256 ^ 16" for x :: "128 word" using unsigned_less [of x] by simp
  then have "terminated_codec (decimal_codec fixed_decimal) (\<lambda>_. True)"
    by (intro decimal_codec_terminated) (simp_all add: fixed_decimal_def of_be_bytes_be_bytes)
  then show "stored_state (mt_value (dn_map fixed_denoms)) (\<lambda>_. True)"
    by (simp add: fixed_denoms_def simple_state.stored_contract [OF leaf_state_simple])
qed

abbreviation fixed_look :: "128 word denoms \<Rightarrow> mapstore \<Rightarrow> byte \<Rightarrow> 128 word decimal option" where
  "fixed_look \<equiv> map_look (dn_map fixed_denoms) mapstore_ents"

abbreviation fixed_live :: "128 word denoms \<Rightarrow> mapstore \<Rightarrow> bool" where
  "fixed_live m s \<equiv> map_wf (dn_map fixed_denoms) mapstore_ents mapstore_invar denom_ok (\<lambda>_. True) m s \<and> no_removed m"

lemma fixed_map_iterable:
  "iterable_map (dn_map fixed_denoms) fixed_look (map_wf (dn_map fixed_denoms) mapstore_ents mapstore_invar denom_ok (\<lambda>_. True)) denom_ok (\<lambda>_. True) vc"
proof (rule simple_map.simple_iterable [OF fixed_map_simple])
  show "finite {k :: byte. denom_ok k}" by simp
  have "card {k :: byte. denom_ok k} \<le> card (UNIV :: byte set)" by (rule card_mono) simp_all
  then show "2 * card {k :: byte. denom_ok k} + 1 < mt_fuel (dn_map fixed_denoms)" by (simp add: fixed_denoms_def card_word)
  show "length (key_bytes (mt_key (dn_map fixed_denoms)) k) = 1 \<and> key_bytes (mt_key (dn_map fixed_denoms)) k \<noteq> replicate 1 255"
    if "denom_ok k" for k
  proof -
    have "unat k < 2 ^ LENGTH(8)" by (rule unsigned_less)
    then have "unat k mod 256 = unat k" by simp
    then show ?thesis using that by (simp add: fixed_denoms_def key_bytes_def word_codec_def)
  qed
qed simp

interpretation fixed_denoms: denom_maps fixed_denoms fixed_look fixed_live fx_val
proof (intro denom_maps.intro denom_maps_axioms.intro)
  show "map_entries (dn_map fixed_denoms) fixed_look fixed_live denom_ok (\<lambda>_. True) (decimal_zero (dn_num fixed_denoms))"
    by (rule simple_map.simple_map_entries [OF fixed_map_simple]) simp
  show "decimal_lib (dn_num fixed_denoms) fx_val" by (simp add: fixed_denoms_def fixed_decimal.decimal_lib_axioms)
  show "\<exists>xs. (\<exists>it. map_iter_all (dn_map fixed_denoms) (dn_bytes fixed_denoms) m = Ok it
      \<and> collect (map_iter_step (dn_map fixed_denoms) m s True) (mt_fuel (dn_map fixed_denoms)) it = Some (Ok xs))
      \<and> distinct (map fst (map ref_pair xs)) \<and> (\<forall>d v. (d, v) \<in> set (map ref_pair xs) \<longleftrightarrow> denom_ok d \<and> fixed_look m s d = Some v)"
    if "fixed_live m s" for m s
    using iterable_map.collect_law [OF fixed_map_iterable, of m s] that by blast
qed

end
