(* ===== verification/Pool.thy ===== *)
theory Pool
  imports Multi_Share Denom_Maps
begin

text \<open>
  Distribution of rewards to the entries of a map in proportion to their balances:
  \<^verbatim>\<open>src/coins/pool.rs\<close>.

  The values of a pool are reached by \<open>pool_get_mut\<close> and \<open>pool_get\<close>, which first credit the
  rewards that the value has not got yet.  A value behind \<^verbatim>\<open>get_mut\<close> is given back by \<open>pool_drop\<close>,
  the destructor of \<^verbatim>\<open>ChildMut\<close>, which accounts for the change of its balance; \<open>pool_with\<close> is a use
  of a value between the two.  A value behind \<^verbatim>\<open>get\<close> is in a \<^verbatim>\<open>RefCell\<close>: when the entry is in
  memory, what is credited to it stays there, and so does what the value does to itself.
\<close>

section \<open>Loops\<close>

text \<open>\<^verbatim>\<open>for x in list { ... }\<close> and \<^verbatim>\<open>for entry in iterator { let x = entry?; ... }\<close>, with a body that
  changes a state the iterator does not depend on; running out of fuel is \<open>Panic\<close>.\<close>

fun op_each :: "('a \<Rightarrow> ('st, unit) op) \<Rightarrow> 'a list \<Rightarrow> ('st, unit) op" where
  "op_each body [] = op_ok ()"
| "op_each body (x # xs) = op_bind (body x) (\<lambda>_. op_each body xs)"

fun op_for_each :: "('i \<Rightarrow> 'a result option \<times> 'i) \<Rightarrow> ('a \<Rightarrow> ('st, unit) op) \<Rightarrow> nat \<Rightarrow> 'i \<Rightarrow> ('st, unit) op" where
  "op_for_each next body 0 it = op_lift Panic"
| "op_for_each next body (Suc fuel) it = (case next it of
      (None, _) \<Rightarrow> op_ok ()
    | (Some r, it') \<Rightarrow> op_bind (op_lift r) (\<lambda>x. op_bind (body x) (\<lambda>_. op_for_each next body fuel it')))"

lemma op_keeps_each: "(\<And>x. x \<in> set xs \<Longrightarrow> op_keeps P (body x)) \<Longrightarrow> op_keeps P (op_each body xs)"
  by (induction xs) (auto intro!: op_keeps_bind)

section \<open>Pools\<close>

record ('v, 'd) pool_entry =
  pe_shares :: "'d decimal"
  pe_last_update_period_entry :: "'d denoms"
  pe_inner :: 'v

record ('k, 'v, 'd) pool =
  pl_contributions :: "'d decimal"
  pl_rewards :: "'d denoms"
  pl_shares_issued :: "'d decimal"
  pl_map :: "('k, ('v, 'd) pool_entry) omap"
  pl_rewards_this_period :: "'d denoms"
  pl_last_period_entry :: "'d denoms"
  pl_drop_errored :: bool

text \<open>The maps of a pool and what it calls on its values: \<^verbatim>\<open>Balance\<close>, which may change what the
  value keeps in cells, \<^verbatim>\<open>Give<(u8, Amount)>\<close> and \<^verbatim>\<open>Default\<close>.\<close>

record ('s, 'k, 'v, 'd) pool_types =
  pt_denoms :: "('s, 'd) denom_types"
  pt_map :: "('s, 'k, ('v, 'd) pool_entry) map_types"
  pt_bytes :: "bytes codec"
  pt_balance :: "'s \<Rightarrow> ('v, 'd decimal) op"
  pt_give :: "'s \<Rightarrow> byte \<times> amount \<Rightarrow> ('v, unit) op"
  pt_default :: 'v

abbreviation pt_num :: "('s, 'k, 'v, 'd) pool_types \<Rightarrow> 'd num_decimal" where
  "pt_num T \<equiv> dn_num (pt_denoms T)"

definition pool_entry_default :: "('s, 'k, 'v, 'd) pool_types \<Rightarrow> ('v, 'd) pool_entry" where
  "pool_entry_default T = \<lparr>pe_shares = decimal_zero (pt_num T), pe_last_update_period_entry = map_new, pe_inner = pt_default T\<rparr>"

definition pool_default :: "('s, 'k, 'v, 'd) pool_types \<Rightarrow> ('k, 'v, 'd) pool" where
  "pool_default T = \<lparr>pl_contributions = decimal_zero (pt_num T), pl_rewards = map_new, pl_shares_issued = decimal_zero (pt_num T),
     pl_map = map_new, pl_rewards_this_period = map_new, pl_last_period_entry = map_new, pl_drop_errored = False\<rparr>"

text \<open>Methods of the parts of a pool and of an entry.\<close>

definition on_rewards :: "('d denoms, 'a) op \<Rightarrow> (('k, 'v, 'd) pool, 'a) op" where
  "on_rewards f = (\<lambda>self. case f (pl_rewards self) of (r, m) \<Rightarrow> (r, self\<lparr>pl_rewards := m\<rparr>))"

definition on_this_period :: "('d denoms, 'a) op \<Rightarrow> (('k, 'v, 'd) pool, 'a) op" where
  "on_this_period f = (\<lambda>self. case f (pl_rewards_this_period self) of (r, m) \<Rightarrow> (r, self\<lparr>pl_rewards_this_period := m\<rparr>))"

definition on_last_period :: "('d denoms, 'a) op \<Rightarrow> (('k, 'v, 'd) pool, 'a) op" where
  "on_last_period f = (\<lambda>self. case f (pl_last_period_entry self) of (r, m) \<Rightarrow> (r, self\<lparr>pl_last_period_entry := m\<rparr>))"

definition on_pool_map :: "(('k, ('v, 'd) pool_entry) omap, 'a) op \<Rightarrow> (('k, 'v, 'd) pool, 'a) op" where
  "on_pool_map f = (\<lambda>self. case f (pl_map self) of (r, m) \<Rightarrow> (r, self\<lparr>pl_map := m\<rparr>))"

definition on_last_update :: "('d denoms, 'a) op \<Rightarrow> (('v, 'd) pool_entry, 'a) op" where
  "on_last_update f = (\<lambda>e. case f (pe_last_update_period_entry e) of (r, m) \<Rightarrow> (r, e\<lparr>pe_last_update_period_entry := m\<rparr>))"

definition on_inner :: "('v, 'a) op \<Rightarrow> (('v, 'd) pool_entry, 'a) op" where
  "on_inner f = (\<lambda>e. case f (pe_inner e) of (r, v) \<Rightarrow> (r, e\<lparr>pe_inner := v\<rparr>))"

definition pool_balance :: "('k, 'v, 'd) pool \<Rightarrow> 'd decimal result" where
  "pool_balance self = Ok (pl_contributions self)"

definition assert_no_unhandled_drop_err :: "('k, 'v, 'd) pool \<Rightarrow> unit result" where
  "assert_no_unhandled_drop_err self =
     (if pl_drop_errored self then Err (Error_Coins ''Unhandled pool child drop error'') else Ok ())"

section \<open>Crediting an entry\<close>

text \<open>A decimal compared with a number literal.\<close>

definition decimal_gt_u64 :: "'d num_decimal \<Rightarrow> 'd decimal \<Rightarrow> u64 \<Rightarrow> bool" where
  "decimal_gt_u64 N self other = (let other_dec = decimal_from_u64 N other in nd_less N (dec_value other_dec) (dec_value self))"

definition decimal_eq_u64 :: "'d num_decimal \<Rightarrow> 'd decimal \<Rightarrow> u64 \<Rightarrow> bool" where
  "decimal_eq_u64 N self other = (let other_dec = decimal_from_u64 N other in nd_eq N (dec_value self) (dec_value other_dec))"

definition entry_delta :: "'d num_decimal \<Rightarrow> 'd decimal \<Rightarrow> 'd decimal \<Rightarrow> 'd decimal \<Rightarrow> 'd decimal \<Rightarrow> 'd decimal \<Rightarrow> 'd decimal result" where
  "entry_delta N contributions shares_issued shares new_entry last_entry =
     math_q (op_lhs (decimal_div N) (op_lhs (decimal_mul N) (op_lhs (decimal_mul N) (decimal_sub N new_entry last_entry) contributions) shares) shares_issued)"

definition adjust_denom :: "('s, 'k, 'v, 'd) pool_types \<Rightarrow> 's \<Rightarrow> 'd decimal \<Rightarrow> 'd decimal \<Rightarrow> byte \<times> 'd decimal
    \<Rightarrow> (('v, 'd) pool_entry, unit) op" where
  "adjust_denom T s contributions shares_issued item = (case item of (denom_index, new_denom_period_entry) \<Rightarrow>
     op_bind (op_read (\<lambda>e. Ok (pe_shares e))) (\<lambda>shares.
     op_bind (on_last_update (entry_with (dn_map (pt_denoms T)) (decimal_zero (pt_num T)) s denom_index (\<lambda>last_entry.
       and_then (entry_delta (pt_num T) contributions shares_issued shares new_denom_period_entry last_entry) (\<lambda>delta.
       Ok (delta, new_denom_period_entry))))) (\<lambda>delta.
     if decimal_gt_u64 (pt_num T) delta 0
     then op_bind (op_lift (decimal_amount (pt_num T) delta)) (\<lambda>amount_to_give.
          if 1 \<le> am_value amount_to_give then on_inner (pt_give T s (denom_index, amount_to_give)) else op_ok ())
     else op_ok ())))"

definition adjust_entry :: "('s, 'k, 'v, 'd) pool_types \<Rightarrow> 's \<Rightarrow> 'd decimal \<Rightarrow> 'd decimal \<Rightarrow> (byte, 'd decimal) btree
    \<Rightarrow> (('v, 'd) pool_entry, unit) op" where
  "adjust_entry T s contributions shares_issued new_period_entry =
     (if decimal_gt_u64 (pt_num T) shares_issued 0 then op_each (adjust_denom T s contributions shares_issued) new_period_entry
      else op_ok ())"

section \<open>Reaching an entry\<close>

abbreviation pool_denom :: "('s, 'k, 'v, 'd) pool_types \<Rightarrow> 's \<Rightarrow> byte \<Rightarrow> ('d decimal \<Rightarrow> 'd decimal result) \<Rightarrow> ('d denoms, 'd decimal) op" where
  "pool_denom T \<equiv> denom_update (pt_denoms T)"

abbreviation pool_child_run :: "('s, 'k, 'v, 'd) pool_types \<Rightarrow> ('k, ('v, 'd) pool_entry) child_mut \<Rightarrow> (('v, 'd) pool_entry, 'a) op
    \<Rightarrow> (('k, 'v, 'd) pool, 'a) op" where
  "pool_child_run T child f \<equiv> on_pool_map (child_run (pt_map T) f child)"

text \<open>The steps of \<^verbatim>\<open>get_mut\<close>: the rewards of this period are added to the totals, then to the
  entries of the last period, and then cleared.\<close>

definition collect_rewards :: "('s, 'k, 'v, 'd) pool_types \<Rightarrow> 's \<Rightarrow> (('k, 'v, 'd) pool, unit) op" where
  "collect_rewards T s = (\<lambda>self.
     op_bind (op_lift (map_iter_all (dn_map (pt_denoms T)) (dn_bytes (pt_denoms T)) (pl_rewards_this_period self)))
       (op_for_each (map_iter_step (dn_map (pt_denoms T)) (pl_rewards_this_period self) s True)
         (\<lambda>x. case ref_pair x of (denom_index, reward_this_period) \<Rightarrow>
            op_bind (on_rewards (pool_denom T s denom_index (\<lambda>reward. math_q (decimal_add (pt_num T) reward reward_this_period)))) (\<lambda>_. op_ok ()))
         (mt_fuel (dn_map (pt_denoms T)))) self)"

fun close_period :: "('s, 'k, 'v, 'd) pool_types \<Rightarrow> 's \<Rightarrow> byte list \<Rightarrow> (byte, 'd decimal) btree \<Rightarrow> (('k, 'v, 'd) pool, (byte, 'd decimal) btree) op" where
  "close_period T s [] new_entries = op_ok new_entries"
| "close_period T s (denom_index # denoms) new_entries =
     op_bind (op_read (\<lambda>self. entry (dn_map (pt_denoms T)) (pl_last_period_entry self) s denom_index)) (\<lambda>e.
     op_bind (on_last_period (or_default (dn_map (pt_denoms T)) (decimal_zero (pt_num T)) e)) (\<lambda>last_entry.
     op_bind (op_read (\<lambda>self. entry (dn_map (pt_denoms T)) (pl_rewards_this_period self) s denom_index)) (\<lambda>e.
     op_bind (on_this_period (or_default (dn_map (pt_denoms T)) (decimal_zero (pt_num T)) e)) (\<lambda>reward_this_period.
     op_bind (op_read (\<lambda>self. and_then (child_deref (pl_rewards_this_period self) reward_this_period) (\<lambda>reward.
       and_then (child_deref (pl_last_period_entry self) last_entry) (\<lambda>last.
       math_q (op_lhs (decimal_add (pt_num T)) (decimal_div (pt_num T) reward (pl_shares_issued self)) last))))) (\<lambda>new_entry.
     op_bind (on_last_period (child_modify (dn_map (pt_denoms T)) (\<lambda>_. new_entry) last_entry)) (\<lambda>_.
     close_period T s denoms (bt_insert denom_index new_entry new_entries)))))))"

definition pool_get_mut :: "('s, 'k, 'v, 'd) pool_types \<Rightarrow> 's \<Rightarrow> 'k
    \<Rightarrow> (('k, 'v, 'd) pool, ('k, ('v, 'd) pool_entry) child_mut \<times> 'd decimal) op" where
  "pool_get_mut T s key =
     op_bind (op_read assert_no_unhandled_drop_err) (\<lambda>_.
     op_bind (op_read (\<lambda>self. entry (pt_map T) (pl_map self) s key)) (\<lambda>e.
     op_bind (on_pool_map (or_default (pt_map T) (pool_entry_default T) e)) (\<lambda>child.
     op_bind (on_pool_map (child_deref_mut (pt_map T) child)) (\<lambda>child.
     op_bind (op_read (\<lambda>self. denom_keys (pt_denoms T) s (pl_rewards_this_period self))) (\<lambda>denoms.
     op_bind (collect_rewards T s) (\<lambda>_.
     op_bind (pool_child_run T child (on_inner (pt_balance T s))) (\<lambda>initial_balance.
     op_bind (\<lambda>self. if decimal_gt_u64 (pt_num T) (pl_shares_issued self) 0 then close_period T s denoms [] self else (Ok [], self)) (\<lambda>new_entries.
     op_bind (op_each (\<lambda>denom_index. op_bind (on_this_period (pool_denom T s denom_index (\<lambda>_. Ok (decimal_from_u64 (pt_num T) 0)))) (\<lambda>_. op_ok ())) denoms) (\<lambda>_.
     op_bind (\<lambda>self. pool_child_run T child (adjust_entry T s (pl_contributions self) (pl_shares_issued self) new_entries) self) (\<lambda>_.
     op_ok (child, initial_balance)))))))))))"

text \<open>The destructor of \<^verbatim>\<open>ChildMut\<close>; what fails sets a flag and leaves the rest out.\<close>

definition drop_error :: "('k, 'v, 'd) pool \<Rightarrow> unit result \<times> ('k, 'v, 'd) pool" where
  "drop_error self = (Ok (), self\<lparr>pl_drop_errored := True\<rparr>)"

definition add_to_parent :: "('s, 'k, 'v, 'd) pool_types \<Rightarrow> 'd decimal \<Rightarrow> 'd decimal \<Rightarrow> (('k, 'v, 'd) pool, unit) op" where
  "add_to_parent T balance_change new_shares self = (case decimal_add (pt_num T) (pl_contributions self) balance_change of
      MErr _ \<Rightarrow> drop_error self
    | MOk num_tokens \<Rightarrow> (let self = self\<lparr>pl_contributions := num_tokens\<rparr>
        in case decimal_add (pt_num T) (pl_shares_issued self) new_shares of
             MErr _ \<Rightarrow> drop_error self
           | MOk shares_issued \<Rightarrow> (Ok (), self\<lparr>pl_shares_issued := shares_issued\<rparr>)))"

definition shares_for :: "'d num_decimal \<Rightarrow> 'd decimal \<Rightarrow> 'd decimal \<Rightarrow> 'd decimal \<Rightarrow> 'd decimal math_result" where
  "shares_for N shares_issued num_tokens balance_change =
     (if nd_is_zero N (dec_value num_tokens) then MOk balance_change
      else op_lhs (decimal_div N) (decimal_mul N shares_issued balance_change) num_tokens)"

definition account_change :: "('s, 'k, 'v, 'd) pool_types \<Rightarrow> ('k, ('v, 'd) pool_entry) child_mut \<Rightarrow> 'd decimal \<Rightarrow> (('k, 'v, 'd) pool, unit) op" where
  "account_change T child balance_change self =
     (case shares_for (pt_num T) (pl_shares_issued self) (pl_contributions self) balance_change of
        MErr _ \<Rightarrow> drop_error self
      | MOk new_shares \<Rightarrow>
          (case child_deref (pl_map self) child of
             Ok e \<Rightarrow> (case decimal_add (pt_num T) (pe_shares e) new_shares of
                 MErr _ \<Rightarrow> drop_error self
               | MOk shares \<Rightarrow> op_bind (on_pool_map (child_modify (pt_map T) (\<lambda>e. e\<lparr>pe_shares := shares\<rparr>) child))
                   (\<lambda>_. add_to_parent T balance_change new_shares) self)
           | _ \<Rightarrow> (Panic, self)))"

definition pool_drop :: "('s, 'k, 'v, 'd) pool_types \<Rightarrow> 's \<Rightarrow> ('k, ('v, 'd) pool_entry) child_mut \<times> 'd decimal
    \<Rightarrow> (('k, 'v, 'd) pool, unit) op" where
  "pool_drop T s ci = (case ci of (child, start_balance) \<Rightarrow> (\<lambda>self.
     case pool_child_run T child (on_inner (pt_balance T s)) self of
       (Err _, self') \<Rightarrow> drop_error self'
     | (Panic, self') \<Rightarrow> (Panic, self')
     | (Ok end_balance, self') \<Rightarrow>
         (case decimal_sub (pt_num T) end_balance start_balance of
            MErr _ \<Rightarrow> drop_error self'
          | MOk balance_change \<Rightarrow>
              if nd_is_zero (pt_num T) (dec_value balance_change) then (Ok (), self')
              else account_change T child balance_change self')))"

text \<open>\<^verbatim>\<open>let mut child = pool.get_mut(key)?; ...\<close> until the end of the block, also when it is left by
  an error.\<close>

definition pool_with :: "('s, 'k, 'v, 'd) pool_types \<Rightarrow> 's \<Rightarrow> 'k \<Rightarrow> ('v, 'a) op \<Rightarrow> (('k, 'v, 'd) pool, 'a) op" where
  "pool_with T s key f = op_bind (pool_get_mut T s key) (\<lambda>ci self.
     case pool_child_run T (fst ci) (on_inner f) self of
       (Panic, self') \<Rightarrow> (Panic, self')
     | (r, self') \<Rightarrow> (case pool_drop T s ci self' of
           (Ok _, self'') \<Rightarrow> (r, self'')
         | (Err e, self'') \<Rightarrow> (Err e, self'')
         | (Panic, self'') \<Rightarrow> (Panic, self'')))"

text \<open>\<^verbatim>\<open>get\<close>: the entries of the last period are computed and not stored.\<close>

fun period_view :: "('s, 'k, 'v, 'd) pool_types \<Rightarrow> 's \<Rightarrow> ('k, 'v, 'd) pool \<Rightarrow> byte list \<Rightarrow> (byte, 'd decimal) btree \<Rightarrow> (byte, 'd decimal) btree result" where
  "period_view T s self [] new_entries = Ok new_entries"
| "period_view T s self (denom_index # denoms) new_entries =
     and_then (map_get_or_default (dn_map (pt_denoms T)) (decimal_zero (pt_num T)) (pl_last_period_entry self) s denom_index) (\<lambda>last_entry.
     and_then (map_get_or_default (dn_map (pt_denoms T)) (decimal_zero (pt_num T)) (pl_rewards_this_period self) s denom_index) (\<lambda>reward_this_period.
     and_then (math_q (op_lhs (decimal_add (pt_num T)) (decimal_div (pt_num T) (ref_deref reward_this_period) (pl_shares_issued self)) (ref_deref last_entry)))
       (\<lambda>new_entry. period_view T s self denoms (bt_insert denom_index new_entry new_entries))))"

text \<open>Running a method of a value in a \<^verbatim>\<open>RefCell\<close> behind a \<^verbatim>\<open>Ref\<close>: a value in memory is changed in
  the map.\<close>

definition set_in_memory :: "('s, 'k, 'v) map_types \<Rightarrow> 'k \<Rightarrow> 'v \<Rightarrow> ('k, 'v) omap \<Rightarrow> ('k, 'v) omap" where
  "set_in_memory D key v m = (case enc (mt_key D) key of
      Ok kb \<Rightarrow> (case map_of (mp_children m) kb of
          Some (k, Some _) \<Rightarrow> m\<lparr>mp_children := bt_insert kb (k, Some v) (mp_children m)\<rparr>
        | _ \<Rightarrow> m)
    | _ \<Rightarrow> m)"

definition ref_run :: "('s, 'k, 'v) map_types \<Rightarrow> 'k \<Rightarrow> ('v, 'a) op \<Rightarrow> 'v ref_to \<Rightarrow> (('k, 'v) omap, 'a \<times> 'v ref_to) op" where
  "ref_run D key f ref = (\<lambda>m. case ref of
      Owned v \<Rightarrow> (case f v of (r, v') \<Rightarrow> (and_then r (\<lambda>a. Ok (a, Owned v')), m))
    | Borrowed v \<Rightarrow> (case f v of (r, v') \<Rightarrow> (and_then r (\<lambda>a. Ok (a, Borrowed v')), set_in_memory D key v' m)))"

definition pool_get :: "('s, 'k, 'v, 'd) pool_types \<Rightarrow> 's \<Rightarrow> 'k \<Rightarrow> (('k, 'v, 'd) pool, ('v, 'd) pool_entry ref_to) op" where
  "pool_get T s key =
     op_bind (op_read assert_no_unhandled_drop_err) (\<lambda>_.
     op_bind (op_read (\<lambda>self. denom_keys (pt_denoms T) s (pl_rewards_this_period self))) (\<lambda>denoms.
     op_bind (op_read (\<lambda>self. if decimal_gt_u64 (pt_num T) (pl_shares_issued self) 0 then period_view T s self denoms [] else Ok [])) (\<lambda>new_entries.
     op_bind (op_read (\<lambda>self. map_get_or_default (pt_map T) (pool_entry_default T) (pl_map self) s key)) (\<lambda>ref.
     op_bind (\<lambda>self. on_pool_map (ref_run (pt_map T) key (adjust_entry T s (pl_contributions self) (pl_shares_issued self) new_entries) ref) self) (\<lambda>(_, ref).
     op_ok ref)))))"

text \<open>A use of the value behind \<^verbatim>\<open>get\<close>.\<close>

definition pool_view :: "('s, 'k, 'v, 'd) pool_types \<Rightarrow> 's \<Rightarrow> 'k \<Rightarrow> ('v, 'a) op \<Rightarrow> (('k, 'v, 'd) pool, 'a) op" where
  "pool_view T s key f = op_bind (pool_get T s key) (\<lambda>ref.
     op_bind (on_pool_map (ref_run (pt_map T) key (on_inner f) ref)) (\<lambda>(a, _). op_ok a))"

text \<open>Iterating over a range: the keys come from the map, the values from \<^verbatim>\<open>get\<close>.  \<open>body\<close> uses the
  value of a key.\<close>

fun pool_for_each :: "('s, 'k, 'v, 'd) pool_types \<Rightarrow> 's \<Rightarrow> ('k \<Rightarrow> ('v, 'a) op) \<Rightarrow> nat \<Rightarrow> ('k, ('v, 'd) pool_entry) map_iter
    \<Rightarrow> (('k, 'v, 'd) pool, 'a list) op" where
  "pool_for_each T s body 0 it = op_lift Panic"
| "pool_for_each T s body (Suc fuel) it = (\<lambda>self. case map_iter_step (pt_map T) (pl_map self) s True it of
      (None, _) \<Rightarrow> (Ok [], self)
    | (Some r, it') \<Rightarrow> op_bind (op_lift r) (\<lambda>x.
        op_bind (pool_view T s (fst (ref_pair x)) (body (fst (ref_pair x)))) (\<lambda>a.
        op_bind (pool_for_each T s body fuel it') (\<lambda>rest. op_ok (a # rest)))) self)"

definition pool_range :: "('s, 'k, 'v, 'd) pool_types \<Rightarrow> 's \<Rightarrow> 'k bound \<times> 'k bound \<Rightarrow> ('k \<Rightarrow> ('v, 'a) op) \<Rightarrow> (('k, 'v, 'd) pool, 'a list) op" where
  "pool_range T s bounds body =
     op_bind (op_read (\<lambda>self. map_range (pt_map T) (pt_bytes T) (pl_map self) bounds)) (pool_for_each T s body (mt_fuel (pt_map T)))"

definition pool_iter :: "('s, 'k, 'v, 'd) pool_types \<Rightarrow> 's \<Rightarrow> ('k \<Rightarrow> ('v, 'a) op) \<Rightarrow> (('k, 'v, 'd) pool, 'a list) op" where
  "pool_iter T s = pool_range T s (Unbounded, Unbounded)"

section \<open>Rewards\<close>

definition pool_give :: "('s, 'k, 'v, 'd) pool_types \<Rightarrow> 's \<Rightarrow> byte \<times> amount \<Rightarrow> (('k, 'v, 'd) pool, unit) op" where
  "pool_give T s c = (\<lambda>self.
     if decimal_eq_u64 (pt_num T) (pl_contributions self) 0 then (Err (Error_Coins ''Cannot add directly to an empty pool''), self)
     else op_bind (on_this_period (pool_denom T s (fst c) (\<lambda>reward. math_q (decimal_add_amount (pt_num T) reward (snd c))))) (\<lambda>_. op_ok ()) self)"

definition pool_give_coin :: "('s, 'k, 'v, 'd) pool_types \<Rightarrow> 's \<Rightarrow> byte \<Rightarrow> coin \<Rightarrow> (('k, 'v, 'd) pool, unit) op" where
  "pool_give_coin T s index c = (\<lambda>self.
     if decimal_eq_u64 (pt_num T) (pl_contributions self) 0 then (Err (Error_Coins ''Cannot add directly to an empty pool''), self)
     else op_bind (on_this_period (pool_denom T s index (\<lambda>reward. math_q (decimal_add_amount (pt_num T) reward (coin_amount c))))) (\<lambda>_. op_ok ()) self)"

end
