(* ===== verification/Delegator.thy ===== *)
theory Delegator
  imports Pool Deque_Coll Payable
begin

text \<open>
  A delegation to a validator: \<^verbatim>\<open>src/coins/staking/delegator.rs\<close>.  It holds the stake, the rewards,
  and queues of unbonding stake and of redelegations, whose entries leave the queue in the
  order they came in once they are old enough.

  \<open>cx\<close> are the contexts, of which the methods read the time; \<^verbatim>\<open>VersionedAddress\<close> is an \<open>address\<close>
  with another encoding.
\<close>

section \<open>State\<close>

definition unbonding_seconds_const :: u64 where
  "unbonding_seconds_const = 60 * 60 * 24 * 14"

record 'd unbond =
  ub_coins :: "'d share"
  ub_start_seconds :: int

record redelegation =
  rd_amount :: amount
  rd_address :: address
  rd_start_seconds :: int

record 'd delegator =
  dg_liquid :: "'d multi_share"
  dg_staked :: "'d share"
  dg_unbonding :: "'d unbond deque"
  dg_redelegations_out :: "redelegation deque"
  dg_redelegations_in :: "redelegation deque"

text \<open>The maps behind the fields, and the index of the symbol.\<close>

record ('s, 'd) delegator_types =
  dt_denoms :: "('s, 'd) denom_types"
  dt_unbonds :: "('s, u64, 'd unbond) map_types"
  dt_redelegations :: "('s, u64, redelegation) map_types"
  dt_index :: byte

abbreviation dt_num :: "('s, 'd) delegator_types \<Rightarrow> 'd num_decimal" where
  "dt_num T \<equiv> dn_num (dt_denoms T)"

definition delegator_default :: "('s, 'd) delegator_types \<Rightarrow> 'd delegator" where
  "delegator_default T = \<lparr>dg_liquid = multi_share_default, dg_staked = Share (decimal_zero (dt_num T)), dg_unbonding = deque_new,
     dg_redelegations_out = deque_new, dg_redelegations_in = deque_new\<rparr>"

definition on_liquid :: "('d multi_share, 'a) op \<Rightarrow> ('d delegator, 'a) op" where
  "on_liquid f = (\<lambda>self. case f (dg_liquid self) of (r, x) \<Rightarrow> (r, self\<lparr>dg_liquid := x\<rparr>))"

definition on_staked :: "('d share, 'a) op \<Rightarrow> ('d delegator, 'a) op" where
  "on_staked f = (\<lambda>self. case f (dg_staked self) of (r, x) \<Rightarrow> (r, self\<lparr>dg_staked := x\<rparr>))"

definition on_unbonding :: "('d unbond deque, 'a) op \<Rightarrow> ('d delegator, 'a) op" where
  "on_unbonding f = (\<lambda>self. case f (dg_unbonding self) of (r, x) \<Rightarrow> (r, self\<lparr>dg_unbonding := x\<rparr>))"

definition on_redelegations_out :: "(redelegation deque, 'a) op \<Rightarrow> ('d delegator, 'a) op" where
  "on_redelegations_out f = (\<lambda>self. case f (dg_redelegations_out self) of (r, x) \<Rightarrow> (r, self\<lparr>dg_redelegations_out := x\<rparr>))"

definition on_redelegations_in :: "(redelegation deque, 'a) op \<Rightarrow> ('d delegator, 'a) op" where
  "on_redelegations_in f = (\<lambda>self. case f (dg_redelegations_in self) of (r, x) \<Rightarrow> (r, self\<lparr>dg_redelegations_in := x\<rparr>))"

text \<open>\<^verbatim>\<open>0..len\<close>\<close>

definition indices :: "u64 \<Rightarrow> u64 list" where
  "indices len = map of_nat [0..<unat len]"

section \<open>Methods\<close>

definition delegator_unbond :: "('s, 'd) delegator_types \<Rightarrow> 's \<Rightarrow> amount \<Rightarrow> int option \<Rightarrow> ('d delegator, unit) op" where
  "delegator_unbond T s a start_seconds =
     op_bind (on_staked (share_take (dt_num T) a)) (\<lambda>coin.
     let coins = share_from_coin (dt_num T) coin
     in case start_seconds of
          Some start \<Rightarrow> on_unbonding (deque_push_back (dt_unbonds T) \<lparr>ub_coins = coins, ub_start_seconds = start\<rparr>)
        | None \<Rightarrow> on_liquid (multi_share_give_coin (dt_denoms T) s (dt_index T) (coin_mint a)))"

record unbond_info =
  ui_start_seconds :: int
  ui_amount :: amount

record delegation_info =
  di_unbonding :: "unbond_info list"
  di_staked :: amount
  di_liquid :: "(byte \<times> amount) list"

fun unbond_infos :: "('s, 'd) delegator_types \<Rightarrow> 's \<Rightarrow> 'd unbond deque \<Rightarrow> u64 list \<Rightarrow> unbond_info list result" where
  "unbond_infos T s d [] = Ok []"
| "unbond_infos T s d (i # is) =
     and_then (deque_get (dt_unbonds T) d s i) (\<lambda>x. case x of
         None \<Rightarrow> unbond_infos T s d is
       | Some unbond \<Rightarrow>
           and_then (share_amount (dt_num T) (ub_coins (ref_deref unbond))) (\<lambda>a.
           and_then (unbond_infos T s d is) (\<lambda>rest.
           Ok (\<lparr>ui_start_seconds = ub_start_seconds (ref_deref unbond), ui_amount = a\<rparr> # rest))))"

definition delegator_info :: "('s, 'd) delegator_types \<Rightarrow> 's \<Rightarrow> 'd delegator \<Rightarrow> delegation_info result" where
  "delegator_info T s self =
     and_then (deque_len (dg_unbonding self)) (\<lambda>len.
     and_then (unbond_infos T s (dg_unbonding self) (indices len)) (\<lambda>unbonds.
     and_then (multi_share_amounts (dt_denoms T) s (dg_liquid self)) (\<lambda>liquid.
     and_then (decimal_amount (dt_num T) (share_shares (dg_staked self))) (\<lambda>staked.
     Ok \<lparr>di_unbonding = unbonds, di_staked = staked, di_liquid = liquid\<rparr>))))"

text \<open>Assigning to the shares of an unbond through \<^verbatim>\<open>get_mut\<close>.\<close>

definition slash_unbond :: "('s, 'd) delegator_types \<Rightarrow> 's \<Rightarrow> 'd decimal \<Rightarrow> u64 \<Rightarrow> ('d unbond deque, unit) op" where
  "slash_unbond T s multiplier i =
     op_bind (deque_get_mut (dt_unbonds T) s i) (\<lambda>x.
     op_bind (op_lift (ok_or (Error_Coins ''Failed to iterate over unbonds'') x)) (\<lambda>child.
     op_bind (op_read (\<lambda>d. and_then (child_deref (dq_map d) child) (\<lambda>u.
       math_q (decimal_mul (dt_num T) (share_shares (ub_coins u)) multiplier)))) (\<lambda>shares.
     op_bind (on_map (child_modify (dt_unbonds T) (\<lambda>u. u\<lparr>ub_coins := Share shares\<rparr>) child)) (\<lambda>_. op_ok ()))))"

fun clone_redelegations :: "('s, 'd) delegator_types \<Rightarrow> 's \<Rightarrow> redelegation deque \<Rightarrow> u64 list \<Rightarrow> redelegation list result" where
  "clone_redelegations T s d [] = Ok []"
| "clone_redelegations T s d (i # is) =
     and_then (deque_get (dt_redelegations T) d s i) (\<lambda>x.
     and_then (ok_or (Error_Coins ''Failed to iterate over redelegations'') x) (\<lambda>r.
     and_then (clone_redelegations T s d is) (\<lambda>rest. Ok (ref_deref r # rest))))"

definition delegator_slash :: "('s, 'd) delegator_types \<Rightarrow> 's \<Rightarrow> 'd decimal \<Rightarrow> bool \<Rightarrow> ('d delegator, redelegation list) op" where
  "delegator_slash T s multiplier liveness_fault =
     op_bind (op_read (\<lambda>self. math_q (decimal_mul (dt_num T) (share_shares (dg_staked self)) multiplier))) (\<lambda>shares.
     op_bind (op_upd (\<lambda>self. self\<lparr>dg_staked := Share shares\<rparr>)) (\<lambda>_.
     if liveness_fault then op_ok []
     else op_bind (op_read (\<lambda>self. deque_len (dg_unbonding self))) (\<lambda>len.
          op_bind (on_unbonding (op_each (slash_unbond T s multiplier) (indices len))) (\<lambda>_.
          op_read (\<lambda>self. and_then (deque_len (dg_redelegations_out self)) (\<lambda>len.
            clone_redelegations T s (dg_redelegations_out self) (indices len)))))))"

text \<open>Taking a redelegation slash from the unbonds, first to last; the loop ends when nothing is
  left to slash.\<close>

fun slash_from_unbonds :: "('s, 'd) delegator_types \<Rightarrow> 's \<Rightarrow> u64 list \<Rightarrow> amount \<Rightarrow> ('d unbond deque, unit) op" where
  "slash_from_unbonds T s [] remaining_slash = op_ok ()"
| "slash_from_unbonds T s (i # is) remaining_slash =
     op_bind (deque_get_mut (dt_unbonds T) s i) (\<lambda>x. case x of
         None \<Rightarrow> slash_from_unbonds T s is remaining_slash
       | Some child \<Rightarrow>
           op_bind (op_read (\<lambda>d. and_then (child_deref (dq_map d) child) (\<lambda>u. decimal_amount (dt_num T) (share_shares (ub_coins u))))) (\<lambda>a.
           let unbond_slash = (if remaining_slash > a then a else remaining_slash)
           in op_bind (if 0 < am_value unbond_slash
                then on_map (child_run (dt_unbonds T) (\<lambda>u. case share_take (dt_num T) unbond_slash (ub_coins u) of
                       (r, sh) \<Rightarrow> (and_then r (\<lambda>_. Ok ()), u\<lparr>ub_coins := sh\<rparr>)) child)
                else op_ok ()) (\<lambda>_.
              op_bind (op_lift (math_q (amount_sub remaining_slash unbond_slash))) (\<lambda>remaining_slash.
              if am_value remaining_slash = 0 then op_ok () else slash_from_unbonds T s is remaining_slash))))"

definition slash_redelegation :: "('s, 'd) delegator_types \<Rightarrow> 's \<Rightarrow> amount \<Rightarrow> ('d delegator, unit) op" where
  "slash_redelegation T s a =
     op_bind (op_read (\<lambda>self. decimal_amount (dt_num T) (share_shares (dg_staked self)))) (\<lambda>staked.
     let stake_slash = (if a > staked then staked else a)
     in op_bind (if 0 < am_value stake_slash then op_bind (on_staked (share_take (dt_num T) stake_slash)) (\<lambda>_. op_ok ()) else op_ok ()) (\<lambda>_.
        if stake_slash = a then op_ok ()
        else op_bind (op_lift (math_q (amount_sub a stake_slash))) (\<lambda>remaining_slash.
             op_bind (op_read (\<lambda>self. deque_len (dg_unbonding self))) (\<lambda>len.
             on_unbonding (slash_from_unbonds T s (indices len) remaining_slash)))))"

definition staking_current_seconds :: "'z contexts_scheme \<Rightarrow> int result" where
  "staking_current_seconds cx =
     and_then (ok_or (Error_Coins ''No Time context available'') (context_resolve cx_time cx)) (\<lambda>time. Ok (tm_seconds time))"

definition matured :: "int \<Rightarrow> u64 \<Rightarrow> int \<Rightarrow> bool result" where
  "matured now seconds start_seconds = and_then (i64_sub now start_seconds) (\<lambda>age. Ok (sint seconds \<le> age))"

text \<open>The loops over the front of a queue; an entry is taken off in every round, so that the
  length bounds the rounds.\<close>

definition queue_fuel :: "'v deque \<Rightarrow> nat" where
  "queue_fuel d = Suc (unat (dq_tail d) - unat (dq_head d))"

fun unbonds_loop :: "('s, 'd) delegator_types \<Rightarrow> 's \<Rightarrow> int \<Rightarrow> nat \<Rightarrow> ('d delegator, unit) op" where
  "unbonds_loop T s now 0 = op_lift Panic"
| "unbonds_loop T s now (Suc fuel) =
     op_bind (op_read (\<lambda>self. deque_front (dt_unbonds T) (dg_unbonding self) s)) (\<lambda>x. case x of
         None \<Rightarrow> op_ok ()
       | Some front \<Rightarrow> op_bind (op_lift (matured now unbonding_seconds_const (ub_start_seconds (ref_deref front)))) (\<lambda>unbond_matured.
           if \<not> unbond_matured then op_ok ()
           else op_bind (on_unbonding (deque_pop_front (dt_unbonds T) s)) (\<lambda>x.
                op_bind (op_lift (ok_or (Error_Coins ''Failed to pop unbond'') x)) (\<lambda>unbond.
                op_bind (op_lift (decimal_amount (dt_num T) (share_shares (ub_coins (into_inner unbond))))) (\<lambda>a.
                op_bind (on_liquid (multi_share_give_coin (dt_denoms T) s (dt_index T) (coin_mint a))) (\<lambda>_.
                unbonds_loop T s now fuel))))))"

definition process_unbonds :: "('s, 'd) delegator_types \<Rightarrow> 's \<Rightarrow> 'z contexts_scheme \<Rightarrow> ('d delegator, unit) op" where
  "process_unbonds T s cx = op_bind (op_lift (staking_current_seconds cx)) (\<lambda>now self.
     unbonds_loop T s now (queue_fuel (dg_unbonding self)) self)"

fun redelegations_loop :: "('s, 'd) delegator_types \<Rightarrow> 's \<Rightarrow> string \<Rightarrow> int \<Rightarrow> nat \<Rightarrow> (redelegation deque, unit) op" where
  "redelegations_loop T s msg now 0 = op_lift Panic"
| "redelegations_loop T s msg now (Suc fuel) =
     op_bind (op_read (\<lambda>d. deque_front (dt_redelegations T) d s)) (\<lambda>x. case x of
         None \<Rightarrow> op_ok ()
       | Some front \<Rightarrow> op_bind (op_lift (matured now unbonding_seconds_const (rd_start_seconds (ref_deref front)))) (\<lambda>is_matured.
           if \<not> is_matured then op_ok ()
           else op_bind (deque_pop_front (dt_redelegations T) s) (\<lambda>x.
                op_bind (op_lift (ok_or (Error_Coins msg) x)) (\<lambda>_. redelegations_loop T s msg now fuel))))"

definition process_redelegations_in :: "('s, 'd) delegator_types \<Rightarrow> 's \<Rightarrow> 'z contexts_scheme \<Rightarrow> ('d delegator, unit) op" where
  "process_redelegations_in T s cx = op_bind (op_lift (staking_current_seconds cx)) (\<lambda>now self.
     on_redelegations_in (redelegations_loop T s ''Failed to pop inbound redelegation'' now (queue_fuel (dg_redelegations_in self))) self)"

definition process_redelegations_out :: "('s, 'd) delegator_types \<Rightarrow> 's \<Rightarrow> 'z contexts_scheme \<Rightarrow> ('d delegator, unit) op" where
  "process_redelegations_out T s cx = op_bind (op_lift (staking_current_seconds cx)) (\<lambda>now self.
     on_redelegations_out (redelegations_loop T s ''Failed to pop outbound redelegation'' now (queue_fuel (dg_redelegations_out self))) self)"

definition redelegate_out :: "('s, 'd) delegator_types \<Rightarrow> address \<Rightarrow> amount \<Rightarrow> int option \<Rightarrow> ('d delegator, coin) op" where
  "redelegate_out T dst_val_address a start_seconds =
     op_bind (op_read (\<lambda>self. deque_is_empty (dg_redelegations_in self))) (\<lambda>empty.
     if \<not> empty then op_err (Error_Coins ''Cannot redelegate from validator with inbound redelegations'')
     else op_bind (on_staked (share_take (dt_num T) a)) (\<lambda>redelegated_coins.
          op_bind (case start_seconds of
              Some start \<Rightarrow> on_redelegations_out (deque_push_back (dt_redelegations T) \<lparr>rd_amount = a, rd_address = dst_val_address, rd_start_seconds = start\<rparr>)
            | None \<Rightarrow> op_ok ()) (\<lambda>_. op_ok redelegated_coins)))"

definition add_stake :: "('s, 'd) delegator_types \<Rightarrow> coin \<Rightarrow> ('d delegator, unit) op" where
  "add_stake T coins = on_staked (share_give (dt_num T) coins)"

definition redelegate_in :: "('s, 'd) delegator_types \<Rightarrow> address \<Rightarrow> coin \<Rightarrow> int option \<Rightarrow> ('d delegator, unit) op" where
  "redelegate_in T src_val_address coins start_seconds =
     op_bind (case start_seconds of
         Some start \<Rightarrow> on_redelegations_in (deque_push_back (dt_redelegations T)
           \<lparr>rd_amount = coin_amount coins, rd_address = src_val_address, rd_start_seconds = start\<rparr>)
       | None \<Rightarrow> op_ok ()) (\<lambda>_. add_stake T coins)"

definition delegator_deduct :: "('s, 'd) delegator_types \<Rightarrow> 's \<Rightarrow> amount \<Rightarrow> byte \<Rightarrow> ('d delegator, unit) op" where
  "delegator_deduct T s a denom = on_liquid (multi_share_deduct (dt_denoms T) s a denom)"

definition delegator_balance :: "'d delegator \<Rightarrow> 'd decimal result" where
  "delegator_balance self = Ok (share_shares (dg_staked self))"

definition delegator_give :: "('s, 'd) delegator_types \<Rightarrow> 's \<Rightarrow> byte \<times> amount \<Rightarrow> ('d delegator, unit) op" where
  "delegator_give T s coins = on_liquid (multi_share_give (dt_denoms T) s coins)"

text \<open>The pool of the delegators of a validator.\<close>

definition delegators_pool :: "('s, 'd) delegator_types \<Rightarrow> ('s, address, ('d delegator, 'd) pool_entry) map_types \<Rightarrow> bytes codec
    \<Rightarrow> ('s, address, 'd delegator, 'd) pool_types" where
  "delegators_pool T M vc = \<lparr>pt_denoms = dt_denoms T, pt_map = M, pt_bytes = vc, pt_balance = (\<lambda>s. op_read delegator_balance),
     pt_give = delegator_give T, pt_default = delegator_default T\<rparr>"

end
