(* ===== verification/Staking_Validator.thy ===== *)
theory Staking_Validator
  imports Delegator
begin

text \<open>
  A validator with the pool of its delegators: \<^verbatim>\<open>src/coins/staking/validator.rs\<close>.  The balance of
  a validator, which counts for the pool of all validators, is the stake of its delegators
  while it is in the active set, and else zero.
\<close>

section \<open>State\<close>

record 'd commission =
  cm_rate :: "'d decimal"
  cm_max :: "'d decimal"
  cm_max_change :: "'d decimal"

type_synonym 'd delegators = "(address, 'd delegator, 'd) pool"

record 'd staking_validator =
  sv_jailed_until :: "int option"
  sv_tombstoned :: bool
  sv_address :: address
  sv_commission :: "'d commission"
  sv_delegators :: "'d delegators"
  sv_info :: bytes
  sv_in_active_set :: bool
  sv_unbonding :: bool
  sv_unbonding_start_seconds :: int
  sv_last_edited_seconds :: int
  sv_min_self_delegation :: amount

record 'd validator_query_info =
  vq_jailed_until :: "int option"
  vq_tombstoned :: bool
  vq_address :: address
  vq_commission :: "'d commission"
  vq_info :: bytes
  vq_in_active_set :: bool
  vq_unbonding :: bool
  vq_unbonding_start_seconds :: int
  vq_min_self_delegation :: amount
  vq_jailed :: bool
  vq_amount_staked :: amount

datatype status = Unbonded | Bonded | Unbonding int

record slashable_redelegation =
  sr_delegator_address :: address
  sr_outbound_redelegations :: "redelegation list"

record ('s, 'd) validator_types =
  vt_delegator :: "('s, 'd) delegator_types"
  vt_delegators_map :: "('s, address, ('d delegator, 'd) pool_entry) map_types"
  vt_bytes :: "bytes codec"

abbreviation vt_num :: "('s, 'd) validator_types \<Rightarrow> 'd num_decimal" where
  "vt_num T \<equiv> dt_num (vt_delegator T)"

abbreviation vt_pool :: "('s, 'd) validator_types \<Rightarrow> ('s, address, 'd delegator, 'd) pool_types" where
  "vt_pool T \<equiv> delegators_pool (vt_delegator T) (vt_delegators_map T) (vt_bytes T)"

definition staking_validator_default :: "('s, 'd) validator_types \<Rightarrow> 'd staking_validator" where
  "staking_validator_default T = (let zero = decimal_zero (vt_num T) in
     \<lparr>sv_jailed_until = None, sv_tombstoned = False, sv_address = address_null,
      sv_commission = \<lparr>cm_rate = zero, cm_max = zero, cm_max_change = zero\<rparr>, sv_delegators = pool_default (vt_pool T), sv_info = [],
      sv_in_active_set = False, sv_unbonding = False, sv_unbonding_start_seconds = 0, sv_last_edited_seconds = 0,
      sv_min_self_delegation = Amount 0\<rparr>)"

definition on_delegators :: "('d delegators, 'a) op \<Rightarrow> ('d staking_validator, 'a) op" where
  "on_delegators f = (\<lambda>self. case f (sv_delegators self) of (r, p) \<Rightarrow> (r, self\<lparr>sv_delegators := p\<rparr>))"

section \<open>Methods\<close>

text \<open>Uses of the delegator behind \<^verbatim>\<open>get_mut\<close> and \<^verbatim>\<open>get\<close>.\<close>

definition validator_with :: "('s, 'd) validator_types \<Rightarrow> 's \<Rightarrow> address \<Rightarrow> ('d delegator, 'a) op \<Rightarrow> ('d staking_validator, 'a) op" where
  "validator_with T s addr f = on_delegators (pool_with (vt_pool T) s addr f)"

definition validator_view :: "('s, 'd) validator_types \<Rightarrow> 's \<Rightarrow> address \<Rightarrow> ('d delegator, 'a) op \<Rightarrow> ('d staking_validator, 'a) op" where
  "validator_view T s addr f = on_delegators (pool_view (vt_pool T) s addr f)"

definition jailed :: "'d staking_validator \<Rightarrow> bool" where
  "jailed self \<longleftrightarrow> sv_jailed_until self \<noteq> None"

definition self_delegation :: "('s, 'd) validator_types \<Rightarrow> 's \<Rightarrow> ('d staking_validator, amount) op" where
  "self_delegation T s = (\<lambda>self. validator_view T s (sv_address self) (op_read (\<lambda>d. share_amount (vt_num T) (dg_staked d))) self)"

definition below_required_self_delegation :: "('s, 'd) validator_types \<Rightarrow> 's \<Rightarrow> ('d staking_validator, bool) op" where
  "below_required_self_delegation T s = op_bind (self_delegation T s) (\<lambda>a. op_read (\<lambda>self. Ok (a < sv_min_self_delegation self)))"

definition validator_balance :: "('s, 'd) validator_types \<Rightarrow> 's \<Rightarrow> ('d staking_validator, 'd decimal) op" where
  "validator_balance T s = (\<lambda>self.
     if jailed self \<or> \<not> sv_in_active_set self then (Ok (decimal_from_u64 (vt_num T) 0), self)
     else op_bind (below_required_self_delegation T s) (\<lambda>below.
       if below then op_ok (decimal_from_u64 (vt_num T) 0)
       else op_read (\<lambda>self. pool_balance (sv_delegators self))) self)"

text \<open>\<^verbatim>\<open>let res = self.balance()?.amount();\<close> returns before \<^verbatim>\<open>in_active_set\<close> is restored if the balance
  fails.\<close>

definition potential_vp :: "('s, 'd) validator_types \<Rightarrow> 's \<Rightarrow> ('d staking_validator, amount) op" where
  "potential_vp T s =
     op_bind (op_read (\<lambda>self. Ok (sv_in_active_set self))) (\<lambda>in_active_set_before.
     op_bind (op_upd (\<lambda>self. self\<lparr>sv_in_active_set := True\<rparr>)) (\<lambda>_.
     op_bind (validator_balance T s) (\<lambda>bal.
     let res = decimal_amount (vt_num T) bal
     in op_bind (op_upd (\<lambda>self. self\<lparr>sv_in_active_set := in_active_set_before\<rparr>)) (\<lambda>_. op_lift res))))"

definition validator_staked :: "('s, 'd) validator_types \<Rightarrow> 's \<Rightarrow> ('d staking_validator, amount) op" where
  "validator_staked T s = op_bind (validator_balance T s) (\<lambda>bal. op_lift (decimal_amount (vt_num T) bal))"

definition validator_status :: "'d staking_validator \<Rightarrow> status" where
  "validator_status self =
     (if sv_unbonding self then Unbonding (sv_unbonding_start_seconds self)
      else if sv_in_active_set self then Bonded else Unbonded)"

definition jail_for_seconds :: "'z contexts_scheme \<Rightarrow> u64 \<Rightarrow> ('d staking_validator, unit) op" where
  "jail_for_seconds cx seconds =
     op_bind (op_lift (staking_current_seconds cx)) (\<lambda>now.
     op_bind (op_lift (i64_add now (sint seconds))) (\<lambda>until.
     op_upd (\<lambda>self. self\<lparr>sv_jailed_until := Some (case sv_jailed_until self of Some jailed_until \<Rightarrow> max until jailed_until | None \<Rightarrow> until)\<rparr>)))"

definition jail_forever :: "'d staking_validator \<Rightarrow> 'd staking_validator" where
  "jail_forever self = self\<lparr>sv_jailed_until := Some i64_max\<rparr>"

definition try_unjail :: "'z contexts_scheme \<Rightarrow> ('d staking_validator, unit) op" where
  "try_unjail cx = (\<lambda>self. case sv_jailed_until self of
      Some jailed_until \<Rightarrow> op_bind (op_lift (staking_current_seconds cx)) (\<lambda>now.
        if jailed_until < now then op_upd (\<lambda>self. self\<lparr>sv_jailed_until := None\<rparr>)
        else op_err (Error_Coins ''Validator cannot yet unjail'')) self
    | None \<Rightarrow> (Err (Error_Coins ''Validator is not jailed''), self))"

definition delegator_keys :: "('s, 'd) validator_types \<Rightarrow> 's \<Rightarrow> ('d staking_validator, address list) op" where
  "delegator_keys T s = on_delegators (pool_iter (vt_pool T) s (\<lambda>k. op_ok k))"

fun slash_delegators :: "('s, 'd) validator_types \<Rightarrow> 's \<Rightarrow> 'd decimal \<Rightarrow> bool \<Rightarrow> address list \<Rightarrow> ('d staking_validator, slashable_redelegation list) op" where
  "slash_delegators T s multiplier liveness_fault [] = op_ok []"
| "slash_delegators T s multiplier liveness_fault (k # ks) =
     op_bind (validator_with T s k (delegator_slash (vt_delegator T) s multiplier liveness_fault)) (\<lambda>slashable.
     op_bind (slash_delegators T s multiplier liveness_fault ks) (\<lambda>rest.
     op_ok (\<lparr>sr_delegator_address = k, sr_outbound_redelegations = slashable\<rparr> # rest)))"

definition validator_slash :: "('s, 'd) validator_types \<Rightarrow> 's \<Rightarrow> 'd decimal \<Rightarrow> bool \<Rightarrow> ('d staking_validator, slashable_redelegation list) op" where
  "validator_slash T s penalty liveness_fault = (\<lambda>self.
     if sv_tombstoned self then (Ok [], self)
     else op_bind (op_upd (\<lambda>self. if \<not> liveness_fault then self\<lparr>sv_tombstoned := True\<rparr> else self)) (\<lambda>_.
          op_bind (op_lift (math_q (decimal_sub (vt_num T) (decimal_one (vt_num T)) penalty))) (\<lambda>slash_multiplier.
          op_bind (delegator_keys T s) (\<lambda>keys.
          slash_delegators T s slash_multiplier liveness_fault keys))) self)"

definition query_info :: "('s, 'd) validator_types \<Rightarrow> 'd staking_validator \<Rightarrow> 'd validator_query_info result" where
  "query_info T self =
     and_then (pool_balance (sv_delegators self)) (\<lambda>bal.
     and_then (decimal_amount (vt_num T) bal) (\<lambda>amount_staked.
     Ok \<lparr>vq_jailed_until = sv_jailed_until self, vq_tombstoned = sv_tombstoned self, vq_address = sv_address self,
         vq_commission = sv_commission self, vq_info = sv_info self, vq_in_active_set = sv_in_active_set self,
         vq_unbonding = sv_unbonding self, vq_unbonding_start_seconds = sv_unbonding_start_seconds self,
         vq_min_self_delegation = sv_min_self_delegation self, vq_jailed = jailed self, vq_amount_staked = amount_staked\<rparr>))"

text \<open>The parts of a reward for the delegators and for the validator.\<close>

definition reward_split :: "('s, 'd) validator_types \<Rightarrow> amount \<Rightarrow> 'd staking_validator \<Rightarrow> (amount \<times> amount) result" where
  "reward_split T a self = (let N = vt_num T; one = decimal_from_u64 N 1 in
     and_then (math_q (op_rhs (amount_mul_decimal N) a (decimal_sub N one (cm_rate (sv_commission self))))) (\<lambda>d.
     and_then (decimal_amount N d) (\<lambda>delegator_amount.
     and_then (math_q (amount_mul_decimal N a (cm_rate (sv_commission self)))) (\<lambda>v.
     and_then (decimal_amount N v) (\<lambda>validator_amount.
     Ok (delegator_amount, validator_amount))))))"

definition validator_give :: "('s, 'd) validator_types \<Rightarrow> 's \<Rightarrow> byte \<times> amount \<Rightarrow> ('d staking_validator, unit) op" where
  "validator_give T s coins =
     op_bind (op_read (reward_split T (snd coins))) (\<lambda>(delegator_amount, validator_amount).
     op_bind (on_delegators (pool_give (vt_pool T) s (fst coins, delegator_amount))) (\<lambda>_.
     (\<lambda>self. validator_with T s (sv_address self) (delegator_give (vt_delegator T) s (fst coins, validator_amount)) self)))"

definition validator_give_coin :: "('s, 'd) validator_types \<Rightarrow> 's \<Rightarrow> byte \<Rightarrow> coin \<Rightarrow> ('d staking_validator, unit) op" where
  "validator_give_coin T s index coins =
     op_bind (op_read (reward_split T (coin_amount coins))) (\<lambda>(delegator_amount, validator_amount).
     op_bind (on_delegators (pool_give_coin (vt_pool T) s index (coin_mint delegator_amount))) (\<lambda>_.
     (\<lambda>self. validator_with T s (sv_address self) (delegator_give (vt_delegator T) s (index, validator_amount)) self)))"

text \<open>The pool of all validators.\<close>

definition validators_pool :: "('s, 'd) validator_types \<Rightarrow> ('s, address, ('d staking_validator, 'd) pool_entry) map_types \<Rightarrow> bytes codec
    \<Rightarrow> ('s, address, 'd staking_validator, 'd) pool_types" where
  "validators_pool T M vc = \<lparr>pt_denoms = dt_denoms (vt_delegator T), pt_map = M, pt_bytes = vc, pt_balance = validator_balance T,
     pt_give = validator_give T, pt_default = staking_validator_default T\<rparr>"

end
