(* ===== verification/Staking.thy ===== *)
theory Staking
  imports Staking_Validator Validator_Set Abci_Plugin
begin

text \<open>
  The staking module: \<^verbatim>\<open>src/coins/staking/mod.rs\<close>.

  Validators are in a pool, each with the pool of its delegators.  An index orders them by the
  voting power they could have; at the end of a block the first of them are the active set,
  and the difference to the set of the block before goes to the context \<^verbatim>\<open>Validators\<close>.  Queues hold
  what has to wait for the end of the unbonding period.
\<close>

section \<open>State\<close>

record validator_queue_entry =
  vqe_start_seconds :: int
  vqe_address_bytes :: bytes

record unbonding_delegation_entry =
  ude_validator_address :: address
  ude_delegator_address :: address
  ude_start_seconds :: int

record redelegation_entry =
  rde_src_validator_address :: address
  rde_dst_validator_address :: address
  rde_delegator_address :: address
  rde_start_seconds :: int

record validator_power_entry =
  vpe_inverted_power :: u64
  vpe_address_bytes :: bytes

text \<open>The implementations of \<^verbatim>\<open>Entry\<close> that are derived for the two with keys: a tuple of the key
  fields, and nothing as the value.\<close>

definition queue_entry_ops :: "(validator_queue_entry, int \<times> bytes, unit) entry_ops" where
  "queue_entry_ops = \<lparr>into_entry = (\<lambda>e. ((vqe_start_seconds e, vqe_address_bytes e), ())),
     from_entry = (\<lambda>((start, addr), _). \<lparr>vqe_start_seconds = start, vqe_address_bytes = addr\<rparr>)\<rparr>"

definition power_entry_ops :: "(validator_power_entry, u64 \<times> bytes, unit) entry_ops" where
  "power_entry_ops = \<lparr>into_entry = (\<lambda>e. ((vpe_inverted_power e, vpe_address_bytes e), ())),
     from_entry = (\<lambda>((inverted, addr), _). \<lparr>vpe_inverted_power = inverted, vpe_address_bytes = addr\<rparr>)\<rparr>"

definition vpe_power :: "validator_power_entry \<Rightarrow> u64" where
  "vpe_power self = - 1 - vpe_inverted_power self"

record 'd staking =
  sk_validators :: "(address, 'd staking_validator, 'd) pool"
  sk_min_self_delegation_min :: u64
  sk_consensus_keys :: "(address, bytes) omap"
  sk_last_signed_block :: "(bytes, u64) omap"
  sk_validators_by_power :: "(u64 \<times> bytes, unit) entry_map"
  sk_last_validator_powers :: "(address, u64) omap"
  sk_max_validators :: u64
  sk_last_indexed_power :: "(address, u64) omap"
  sk_address_for_tm_hash :: "(bytes, address) omap"
  sk_unbonding_seconds :: u64
  sk_max_offline_blocks :: u64
  sk_slash_fraction_double_sign :: "'d decimal"
  sk_slash_fraction_downtime :: "'d decimal"
  sk_downtime_jail_seconds :: u64
  sk_validator_queue :: "(int \<times> bytes, unit) entry_map"
  sk_unbonding_delegation_queue :: "unbonding_delegation_entry deque"
  sk_redelegation_queue :: "redelegation_entry deque"
  sk_delegation_index :: "(address, (address, unit) omap) omap"

text \<open>The maps behind the fields; the index and the name of the symbol; the text of an address; and
  the hash function of \<^verbatim>\<open>sha2\<close>.\<close>

record ('s, 'd) staking_types =
  kt_validator :: "('s, 'd) validator_types"
  kt_validators_map :: "('s, address, ('d staking_validator, 'd) pool_entry) map_types"
  kt_consensus_keys :: "('s, address, bytes) map_types"
  kt_last_signed :: "('s, bytes, u64) map_types"
  kt_by_power :: "('s, u64 \<times> bytes, unit) map_types"
  kt_powers :: "('s, address, u64) map_types"
  kt_tm_hash :: "('s, bytes, address) map_types"
  kt_queue :: "('s, int \<times> bytes, unit) map_types"
  kt_unbonding_queue :: "('s, u64, unbonding_delegation_entry) map_types"
  kt_redelegation_queue :: "('s, u64, redelegation_entry) map_types"
  kt_index :: "('s, address, (address, unit) omap) map_types"
  kt_index_inner :: "('s, address, unit) map_types"
  kt_abci :: "'s abci_types"
  kt_bytes :: "bytes codec"
  kt_symbol_index :: byte
  kt_symbol_name :: string
  kt_address_text :: "address \<Rightarrow> string"
  kt_sha256 :: "bytes \<Rightarrow> bytes"

abbreviation kt_num :: "('s, 'd) staking_types \<Rightarrow> 'd num_decimal" where
  "kt_num T \<equiv> vt_num (kt_validator T)"

abbreviation kt_pool :: "('s, 'd) staking_types \<Rightarrow> ('s, address, 'd staking_validator, 'd) pool_types" where
  "kt_pool T \<equiv> validators_pool (kt_validator T) (kt_validators_map T) (kt_bytes T)"

type_synonym ('d, 'z) staking_world = "'d staking \<times> 'z abci_contexts_scheme"

section \<open>Methods of the fields\<close>

definition on_staking :: "('d staking, 'a) op \<Rightarrow> (('d, 'z) staking_world, 'a) op" where
  "on_staking f = (\<lambda>(self, cx). case f self of (r, self') \<Rightarrow> (r, (self', cx)))"

definition staking_read :: "('d staking \<Rightarrow> 'a result) \<Rightarrow> (('d, 'z) staking_world, 'a) op" where
  "staking_read f = op_read (\<lambda>(self, cx). f self)"

definition on_field :: "('d staking \<Rightarrow> 'f) \<Rightarrow> (('f \<Rightarrow> 'f) \<Rightarrow> 'd staking \<Rightarrow> 'd staking) \<Rightarrow> ('f, 'a) op \<Rightarrow> (('d, 'z) staking_world, 'a) op" where
  "on_field sel upd f = on_staking (\<lambda>self. case f (sel self) of (r, x) \<Rightarrow> (r, upd (\<lambda>_. x) self))"

text \<open>Uses of a validator behind \<^verbatim>\<open>get_mut\<close> and \<^verbatim>\<open>get\<close> of the pool, with the contexts at hand.\<close>

definition staking_with :: "('s, 'd) staking_types \<Rightarrow> 's \<Rightarrow> address \<Rightarrow> ('z abci_contexts_scheme \<Rightarrow> ('d staking_validator, 'a) op)
    \<Rightarrow> (('d, 'z) staking_world, 'a) op" where
  "staking_with T s val_address f = (\<lambda>(self, cx).
     on_field sk_validators sk_validators_update (pool_with (kt_pool T) s val_address (f cx)) (self, cx))"

definition staking_view :: "('s, 'd) staking_types \<Rightarrow> 's \<Rightarrow> address \<Rightarrow> ('d staking_validator, 'a) op \<Rightarrow> (('d, 'z) staking_world, 'a) op" where
  "staking_view T s val_address f = on_field sk_validators sk_validators_update (pool_view (kt_pool T) s val_address f)"

definition staking_delegator :: "('s, 'd) staking_types \<Rightarrow> 's \<Rightarrow> address \<Rightarrow> address \<Rightarrow> ('z abci_contexts_scheme \<Rightarrow> ('d delegator, 'a) op)
    \<Rightarrow> (('d, 'z) staking_world, 'a) op" where
  "staking_delegator T s val_address delegator_address f =
     staking_with T s val_address (\<lambda>cx. validator_with (kt_validator T) s delegator_address (f cx))"

section \<open>Contexts\<close>

definition staking_seconds :: "(('d, 'z) staking_world, int) op" where
  "staking_seconds = op_read (\<lambda>(self, cx). staking_current_seconds cx)"

definition staking_signer :: "(('d, 'z) staking_world, address) op" where
  "staking_signer = op_read (\<lambda>(self, cx).
     and_then (ok_or (Error_Coins ''No Signer context available'') (context_resolve cx_signer cx)) (\<lambda>ctx.
     ok_or (Error_Coins ''Call must be signed'') (signer_signer ctx)))"

definition staking_paid :: "(paid, 'a) op \<Rightarrow> (('d, 'z) staking_world, 'a) op" where
  "staking_paid f = on_paid (Error_Coins ''No Payment context available'') f"

definition staking_events :: "(('d, 'z) staking_world, event list) op" where
  "staking_events = op_read (\<lambda>(self, cx). ok_or (Error_Coins ''No Events context available'') (context_resolve cx_events cx))"

definition staking_add_event :: "event list \<Rightarrow> event \<Rightarrow> (('d, 'z) staking_world, unit) op" where
  "staking_add_event events ev = on_cx (\<lambda>cx. cx\<lparr>cx_events := Some (events @ [ev])\<rparr>)"

definition staking_validators_ctx :: "(validators, 'a) op \<Rightarrow> (('d, 'z) staking_world, 'a) op" where
  "staking_validators_ctx f = on_validators (Error_Coins ''No Validators context available'') f"

section \<open>Voting power\<close>

definition set_potential_voting_power :: "('s, 'd) staking_types \<Rightarrow> 's \<Rightarrow> address \<Rightarrow> u64 \<Rightarrow> (('d, 'z) staking_world, unit) op" where
  "set_potential_voting_power T s addr pw =
     op_bind (staking_read (\<lambda>self. map_get (kt_powers T) (sk_last_indexed_power self) s addr)) (\<lambda>last_indexed.
     op_bind (case last_indexed of
         Some last_indexed \<Rightarrow> on_field sk_validators_by_power sk_validators_by_power_update
           (entry_map_delete (kt_by_power T) power_entry_ops s \<lparr>vpe_inverted_power = - 1 - ref_deref last_indexed, vpe_address_bytes = address_bytes addr\<rparr>)
       | None \<Rightarrow> op_ok ()) (\<lambda>_.
     op_bind (on_field sk_validators_by_power sk_validators_by_power_update
       (entry_map_insert (kt_by_power T) power_entry_ops \<lparr>vpe_inverted_power = - 1 - pw, vpe_address_bytes = address_bytes addr\<rparr>)) (\<lambda>_.
     on_field sk_last_indexed_power sk_last_indexed_power_update (map_insert (kt_powers T) addr pw))))"

definition update_vp :: "('s, 'd) staking_types \<Rightarrow> 's \<Rightarrow> address \<Rightarrow> (('d, 'z) staking_world, unit) op" where
  "update_vp T s val_address =
     op_bind (staking_with T s val_address (\<lambda>_. potential_vp (kt_validator T) s)) (\<lambda>vp.
     set_potential_voting_power T s val_address (am_value vp))"

section \<open>Delegating\<close>

definition staking_consensus_key :: "('s, 'd) staking_types \<Rightarrow> 's \<Rightarrow> address \<Rightarrow> 'd staking \<Rightarrow> bytes result" where
  "staking_consensus_key T s val_address self =
     and_then (map_get (kt_consensus_keys T) (sk_consensus_keys self) s val_address) (\<lambda>r. case r of
         Some key \<Rightarrow> Ok (ref_deref key)
       | None \<Rightarrow> Err (Error_Coins ''Validator is not declared''))"

definition index_delegation :: "('s, 'd) staking_types \<Rightarrow> 's \<Rightarrow> address \<Rightarrow> address \<Rightarrow> (('d, 'z) staking_world, unit) op" where
  "index_delegation T s val_address delegator_address =
     on_field sk_delegation_index sk_delegation_index_update (
       op_bind (op_read (\<lambda>m. entry (kt_index T) m s delegator_address)) (\<lambda>e.
       op_bind (or_insert_default (kt_index T) map_new e) (\<lambda>child.
       child_run (kt_index T) (map_insert (kt_index_inner T) val_address ()) child)))"

definition staking_delegate :: "('s, 'd) staking_types \<Rightarrow> 's \<Rightarrow> address \<Rightarrow> address \<Rightarrow> coin \<Rightarrow> (('d, 'z) staking_world, unit) op" where
  "staking_delegate T s val_address delegator_address coins =
     op_bind (staking_read (staking_consensus_key T s val_address)) (\<lambda>_.
     op_bind (staking_with T s val_address (\<lambda>_ validator.
       if sv_tombstoned validator then (Err (Error_Coins ''Cannot delegate to a tombstoned validator''), validator)
       else validator_with (kt_validator T) s delegator_address (add_stake (vt_delegator (kt_validator T)) coins) validator)) (\<lambda>_.
     op_bind (index_delegation T s val_address delegator_address) (\<lambda>_.
     update_vp T s val_address)))"

text \<open>\<^verbatim>\<open>finalize().to_vec()[..20]\<close>\<close>

definition tm_pubkey_hash :: "('s, 'd) staking_types \<Rightarrow> bytes \<Rightarrow> bytes result" where
  "tm_pubkey_hash T key = (let h = kt_sha256 T key in if length h < 20 then Panic else Ok (take 20 h))"

definition validate_info :: "bytes \<Rightarrow> unit result" where
  "validate_info info = (if 5000 < length info then Err (Error_Coins ''Validator info too long'') else Ok ())"

definition assert_positive :: "amount \<Rightarrow> unit result" where
  "assert_positive a = (if 0 < am_value a then Ok () else Err (Error_Coins ''Amount must be positive''))"

record 'd validator_declaration =
  dc_consensus_key :: bytes
  dc_commission :: "'d commission"
  dc_min_self_delegation :: amount
  dc_amount :: amount
  dc_validator_info :: bytes

definition check_commission :: "'d num_decimal \<Rightarrow> 'd commission \<Rightarrow> unit result" where
  "check_commission N c =
     (if decimal_less N (cm_rate c) (decimal_zero N) \<or> decimal_less N (cm_max c) (cm_rate c)
      then Err (Error_Coins ''Initial commission must be between 0 and max commission'')
      else if decimal_less N (cm_max c) (decimal_zero N) \<or> decimal_less N (decimal_one N) (cm_max c)
      then Err (Error_Coins ''Max commission must be between 0 and 1'')
      else if decimal_less N (cm_max_change c) (decimal_zero N) \<or> decimal_less N (cm_max c) (cm_max_change c)
      then Err (Error_Coins ''Max commission change must be between 0 and max commission'')
      else Ok ())"

definition staking_declare :: "('s, 'd) staking_types \<Rightarrow> 's \<Rightarrow> address \<Rightarrow> 'd validator_declaration \<Rightarrow> coin \<Rightarrow> (('d, 'z) staking_world, unit) op" where
  "staking_declare T s val_address decl coins =
     op_bind (staking_read (\<lambda>self. map_contains_key (kt_consensus_keys T) (sk_consensus_keys self) s val_address)) (\<lambda>declared.
     if declared then op_err (Error_Coins ''Validator is already declared'')
     else if coin_amount coins < dc_min_self_delegation decl then op_err (Error_Coins ''Insufficient self-delegation'')
     else
       op_bind (op_lift (validate_info (dc_validator_info decl))) (\<lambda>_.
       op_bind (op_lift (tm_pubkey_hash T (dc_consensus_key decl))) (\<lambda>tm_hash.
       op_bind (staking_read (\<lambda>self. map_contains_key (kt_tm_hash T) (sk_address_for_tm_hash self) s tm_hash)) (\<lambda>tm_hash_exists.
       if tm_hash_exists then op_err (Error_Coins ''Tendermint public key is already in use'')
       else
         op_bind (op_lift (check_commission (kt_num T) (dc_commission decl))) (\<lambda>_.
         op_bind (staking_read (\<lambda>self. if am_value (dc_min_self_delegation decl) < sk_min_self_delegation_min self
             then Err (Error_Coins ''Min self-delegation setting is too small'') else Ok ())) (\<lambda>_.
         op_bind (on_field sk_consensus_keys sk_consensus_keys_update (map_insert (kt_consensus_keys T) val_address (dc_consensus_key decl))) (\<lambda>_.
         op_bind (on_field sk_address_for_tm_hash sk_address_for_tm_hash_update (map_insert (kt_tm_hash T) tm_hash val_address)) (\<lambda>_.
         op_bind (staking_validators_ctx (set_operator (kt_abci T) (dc_consensus_key decl) (address_bytes val_address))) (\<lambda>_.
         op_bind (staking_with T s val_address (\<lambda>_. op_upd (\<lambda>validator. validator\<lparr>sv_commission := dc_commission decl,
             sv_min_self_delegation := dc_min_self_delegation decl, sv_address := val_address,
             sv_info := dc_validator_info decl, sv_last_edited_seconds := - (2 ^ 31)\<rparr>))) (\<lambda>_.
         staking_delegate T s val_address val_address coins))))))))))"

definition edit_interval_seconds :: u64 where
  "edit_interval_seconds = 60 * 60 * 24"

definition edit_body :: "('s, 'd) staking_types \<Rightarrow> 's \<Rightarrow> int \<Rightarrow> 'd decimal \<Rightarrow> amount \<Rightarrow> bytes \<Rightarrow> ('d staking_validator, unit) op" where
  "edit_body T s now commission min_self_delegation validator_info =
     op_bind (self_delegation (kt_validator T) s) (\<lambda>self_del.
     if self_del < min_self_delegation then op_err (Error_Coins ''Min self-delegation cannot exceed current staked amount'')
     else op_bind (op_read (\<lambda>validator.
         if min_self_delegation < sv_min_self_delegation validator then Err (Error_Coins ''Min self-delegation setting may not decrease'')
         else if decimal_less (kt_num T) commission (decimal_zero (kt_num T)) \<or> decimal_less (kt_num T) (cm_max (sv_commission validator)) commission
         then Err (Error_Coins ''Commission must be between 0 and max commission'')
         else and_then (validate_info validator_info) (\<lambda>_.
              and_then (math_q (decimal_sub (kt_num T) commission (cm_rate (sv_commission validator)))) (\<lambda>difference.
              if decimal_less (kt_num T) (cm_max_change (sv_commission validator)) (decimal_abs (kt_num T) difference)
              then Err (Error_Coins ''Commission change is greater than the validator's commission max change setting'')
              else and_then (i64_sub now (sint edit_interval_seconds)) (\<lambda>latest.
                   if latest < sv_last_edited_seconds validator then Err (Error_Coins ''Validators may only be edited once per 24 hours'')
                   else Ok ()))))) (\<lambda>_.
       op_upd (\<lambda>validator. validator\<lparr>sv_commission := (sv_commission validator)\<lparr>cm_rate := commission\<rparr>, sv_info := validator_info,
         sv_min_self_delegation := min_self_delegation, sv_last_edited_seconds := now\<rparr>)))"

definition edit_validator :: "('s, 'd) staking_types \<Rightarrow> 's \<Rightarrow> address \<Rightarrow> 'd decimal \<Rightarrow> amount \<Rightarrow> bytes \<Rightarrow> (('d, 'z) staking_world, unit) op" where
  "edit_validator T s val_address commission min_self_delegation validator_info =
     op_bind staking_seconds (\<lambda>now.
     staking_with T s val_address (\<lambda>_. edit_body T s now commission min_self_delegation validator_info))"

definition staking_staked :: "('s, 'd) staking_types \<Rightarrow> 'd staking \<Rightarrow> amount result" where
  "staking_staked T self = and_then (pool_balance (sk_validators self)) (decimal_amount (kt_num T))"

section \<open>Punishing\<close>

definition punish_downtime :: "('s, 'd) staking_types \<Rightarrow> 's \<Rightarrow> address \<Rightarrow> (('d, 'z) staking_world, unit) op" where
  "punish_downtime T s val_address =
     op_bind (staking_read Ok) (\<lambda>self.
     op_bind (staking_with T s val_address (\<lambda>cx.
       op_bind (jail_for_seconds cx (sk_downtime_jail_seconds self)) (\<lambda>_.
       op_bind (validator_slash (kt_validator T) s (sk_slash_fraction_downtime self) True) (\<lambda>_. op_ok ())))) (\<lambda>_.
     update_vp T s val_address))"

definition slash_redelegated :: "('s, 'd) staking_types \<Rightarrow> 's \<Rightarrow> 'd decimal \<Rightarrow> address \<Rightarrow> redelegation \<Rightarrow> (('d, 'z) staking_world, unit) op" where
  "slash_redelegated T s multiplier del_address r =
     staking_delegator T s (rd_address r) del_address (\<lambda>_.
       op_bind (op_lift (and_then (math_q (decimal_mul_amount (kt_num T) multiplier (rd_amount r))) (decimal_amount (kt_num T)))) (\<lambda>a.
       slash_redelegation (vt_delegator (kt_validator T)) s a))"

definition punish_double_sign :: "('s, 'd) staking_types \<Rightarrow> 's \<Rightarrow> address \<Rightarrow> (('d, 'z) staking_world, unit) op" where
  "punish_double_sign T s val_address =
     op_bind (staking_read (\<lambda>self. Ok (sk_slash_fraction_double_sign self))) (\<lambda>fraction.
     op_bind (staking_with T s val_address (\<lambda>_.
       op_bind (op_upd jail_forever) (\<lambda>_. validator_slash (kt_validator T) s fraction False))) (\<lambda>redelegations.
     op_bind (op_lift (math_q (decimal_sub (kt_num T) (decimal_one (kt_num T)) fraction))) (\<lambda>multiplier.
     op_bind (op_each (\<lambda>e. op_each (slash_redelegated T s multiplier (sr_delegator_address e)) (sr_outbound_redelegations e)) redelegations) (\<lambda>_.
     update_vp T s val_address))))"

definition punish_light_client_attack :: "('s, 'd) staking_types \<Rightarrow> 's \<Rightarrow> address \<Rightarrow> (('d, 'z) staking_world, unit) op" where
  "punish_light_client_attack T s val_address = punish_double_sign T s val_address"

section \<open>Unbonding and redelegating\<close>

definition staking_deduct :: "('s, 'd) staking_types \<Rightarrow> 's \<Rightarrow> address \<Rightarrow> address \<Rightarrow> amount \<Rightarrow> byte \<Rightarrow> (('d, 'z) staking_world, unit) op" where
  "staking_deduct T s val_address delegator_address a denom =
     staking_delegator T s val_address delegator_address (\<lambda>cx.
       op_bind (process_unbonds (vt_delegator (kt_validator T)) s cx) (\<lambda>_.
       delegator_deduct (vt_delegator (kt_validator T)) s a denom))"

definition start_of :: "int \<Rightarrow> status \<Rightarrow> int option" where
  "start_of now st = (case st of Bonded \<Rightarrow> Some now | Unbonding start_seconds \<Rightarrow> Some start_seconds | Unbonded \<Rightarrow> None)"

definition staking_unbond :: "('s, 'd) staking_types \<Rightarrow> 's \<Rightarrow> address \<Rightarrow> address \<Rightarrow> amount \<Rightarrow> (('d, 'z) staking_world, unit) op" where
  "staking_unbond T s validator_address delegator_address a =
     op_bind staking_seconds (\<lambda>now.
     op_bind (staking_with T s validator_address (\<lambda>_ validator.
       let start_seconds = start_of now (validator_status validator)
       in op_bind (validator_with (kt_validator T) s delegator_address (delegator_unbond (vt_delegator (kt_validator T)) s a start_seconds))
            (\<lambda>_. op_ok start_seconds) validator)) (\<lambda>start_seconds.
     op_bind (case start_seconds of
         Some start \<Rightarrow> on_field sk_unbonding_delegation_queue sk_unbonding_delegation_queue_update (deque_push_back (kt_unbonding_queue T)
           \<lparr>ude_validator_address = validator_address, ude_delegator_address = delegator_address, ude_start_seconds = start\<rparr>)
       | None \<Rightarrow> op_ok ()) (\<lambda>_.
     update_vp T s validator_address)))"

definition staking_redelegate :: "('s, 'd) staking_types \<Rightarrow> 's \<Rightarrow> address \<Rightarrow> address \<Rightarrow> address \<Rightarrow> amount \<Rightarrow> (('d, 'z) staking_world, unit) op" where
  "staking_redelegate T s src_validator_address dst_validator_address delegator_address a =
     (if src_validator_address = dst_validator_address then op_err (Error_Coins ''Cannot redelegate to the same validator'')
      else
        op_bind staking_seconds (\<lambda>now.
        op_bind (staking_with T s src_validator_address (\<lambda>_ validator.
          let start_seconds = start_of now (validator_status validator)
          in op_bind (validator_with (kt_validator T) s delegator_address
                 (redelegate_out (vt_delegator (kt_validator T)) dst_validator_address a start_seconds))
               (\<lambda>coins. op_ok (coins, start_seconds)) validator)) (\<lambda>(coins, start_seconds).
        op_bind (staking_read (staking_consensus_key T s dst_validator_address)) (\<lambda>_.
        op_bind (staking_with T s dst_validator_address (\<lambda>_ validator.
          if sv_tombstoned validator then (Err (Error_Coins ''Cannot redelegate to a tombstoned validator''), validator)
          else if validator_status validator \<noteq> Bonded
          then (Err (Error_Coins ''Cannot redelegate to an unbonding or unbonded validator''), validator)
          else validator_with (kt_validator T) s delegator_address
                 (redelegate_in (vt_delegator (kt_validator T)) src_validator_address coins start_seconds) validator)) (\<lambda>_.
        op_bind (case start_seconds of
            Some start \<Rightarrow> on_field sk_redelegation_queue sk_redelegation_queue_update (deque_push_back (kt_redelegation_queue T)
              \<lparr>rde_src_validator_address = src_validator_address, rde_dst_validator_address = dst_validator_address,
               rde_delegator_address = delegator_address, rde_start_seconds = start\<rparr>)
          | None \<Rightarrow> op_ok ()) (\<lambda>_.
        op_bind (index_delegation T s dst_validator_address delegator_address) (\<lambda>_.
        op_bind (update_vp T s src_validator_address) (\<lambda>_.
        update_vp T s dst_validator_address))))))))"

end
