(* ===== verification/Staking_Block.thy ===== *)
theory Staking_Block
  imports Staking
begin

text \<open>
  The calls and queries of the staking module, and its work at the beginning and at the end of
  a block: \<^verbatim>\<open>src/coins/staking/mod.rs\<close>, continued.
\<close>

section \<open>Queries\<close>

definition staking_consensus_keys :: "('s, 'd) staking_types \<Rightarrow> 's \<Rightarrow> (('d, 'z) staking_world, (address \<times> bytes) list) op" where
  "staking_consensus_keys T s = on_staking (\<lambda>self.
     case pool_iter (kt_pool T) s (\<lambda>_ validator. (and_then (staking_consensus_key T s (sv_address validator) self)
            (\<lambda>key. Ok (sv_address validator, key)), validator)) (sk_validators self) of
       (r, p) \<Rightarrow> (r, self\<lparr>sk_validators := p\<rparr>))"

definition last_signed_blocks :: "('s, 'd) staking_types \<Rightarrow> 's \<Rightarrow> 'd staking \<Rightarrow> (address \<times> u64 option) list result" where
  "last_signed_blocks T s self =
     and_then (map_iter_all (kt_consensus_keys T) (kt_bytes T) (sk_consensus_keys self)) (\<lambda>it.
     for_each (map_iter_step (kt_consensus_keys T) (sk_consensus_keys self) s True)
       (\<lambda>x res. case ref_pair x of (addr, cons_key) \<Rightarrow>
          and_then (tm_pubkey_hash T cons_key) (\<lambda>hash.
          and_then (map_get (kt_last_signed T) (sk_last_signed_block self) s hash) (\<lambda>r.
          Ok (res @ [(addr, map_option ref_deref r)]))))
       (mt_fuel (kt_consensus_keys T)) it [])"

definition address_by_consensus_key :: "('s, 'd) staking_types \<Rightarrow> 's \<Rightarrow> bytes \<Rightarrow> 'd staking \<Rightarrow> address option result" where
  "address_by_consensus_key T s cons_key self =
     and_then (tm_pubkey_hash T cons_key) (\<lambda>hash.
     and_then (map_get (kt_tm_hash T) (sk_address_for_tm_hash self) s hash) (\<lambda>r. Ok (map_option ref_deref r)))"

text \<open>The delegations of a delegator: the keys of its map in the index, each with the information
  of the delegation.\<close>

fun delegations_loop :: "('s, 'd) staking_types \<Rightarrow> 's \<Rightarrow> address \<Rightarrow> (address, unit) omap \<Rightarrow> nat \<Rightarrow> (address, unit) map_iter
    \<Rightarrow> (('d, 'z) staking_world, (address \<times> delegation_info) list) op" where
  "delegations_loop T s delegator_address m 0 it = op_lift Panic"
| "delegations_loop T s delegator_address m (Suc fuel) it = (case map_iter_step (kt_index_inner T) m s True it of
      (None, _) \<Rightarrow> op_ok []
    | (Some r, it') \<Rightarrow> op_bind (op_lift r) (\<lambda>x.
        op_bind (staking_view T s (fst (ref_pair x)) (validator_view (kt_validator T) s delegator_address
          (op_read (delegator_info (vt_delegator (kt_validator T)) s)))) (\<lambda>info.
        op_bind (delegations_loop T s delegator_address m fuel it') (\<lambda>rest. op_ok ((fst (ref_pair x), info) # rest)))))"

definition staking_delegations :: "('s, 'd) staking_types \<Rightarrow> 's \<Rightarrow> address \<Rightarrow> (('d, 'z) staking_world, (address \<times> delegation_info) list) op" where
  "staking_delegations T s delegator_address =
     op_bind (staking_read (\<lambda>self. map_get_or_default (kt_index T) map_new (sk_delegation_index self) s delegator_address)) (\<lambda>ref.
     op_bind (op_lift (map_iter_all (kt_index_inner T) (kt_bytes T) (ref_deref ref)))
       (delegations_loop T s delegator_address (ref_deref ref) (mt_fuel (kt_index_inner T))))"

definition validator_delegations :: "('s, 'd) staking_types \<Rightarrow> 's \<Rightarrow> address \<Rightarrow> (('d, 'z) staking_world, (address \<times> delegation_info) list) op" where
  "validator_delegations T s validator_address =
     staking_view T s validator_address (on_delegators (pool_iter (vt_pool (kt_validator T)) s (\<lambda>k.
       op_bind (op_read (delegator_info (vt_delegator (kt_validator T)) s)) (\<lambda>info. op_ok (k, info)))))"

definition all_validators :: "('s, 'd) staking_types \<Rightarrow> 's \<Rightarrow> (('d, 'z) staking_world, 'd validator_query_info list) op" where
  "all_validators T s = on_field sk_validators sk_validators_update (pool_iter (kt_pool T) s (\<lambda>_. op_read (query_info (kt_validator T))))"

section \<open>Calls\<close>

text \<open>The text of an event: \<^verbatim>\<open>to_string\<close> of an address, and \<^verbatim>\<open>format!("{}{}", amount, denom)\<close>.\<close>

fun decimal_text :: "nat \<Rightarrow> string" where
  "decimal_text n = (if n < 10 then [char_of (48 + n)] else decimal_text (n div 10) @ [char_of (48 + n mod 10)])"

definition text_bytes :: "string \<Rightarrow> bytes" where
  "text_bytes cs = map (\<lambda>c. of_nat (of_char c)) cs"

definition amount_text :: "('s, 'd) staking_types \<Rightarrow> amount \<Rightarrow> bytes" where
  "amount_text T a = text_bytes (decimal_text (am_nat a) @ kt_symbol_name T)"

definition address_text :: "('s, 'd) staking_types \<Rightarrow> address \<Rightarrow> bytes" where
  "address_text T a = text_bytes (kt_address_text T a)"

definition unbond_self :: "('s, 'd) staking_types \<Rightarrow> 's \<Rightarrow> address \<Rightarrow> amount \<Rightarrow> (('d, 'z) staking_world, unit) op" where
  "unbond_self T s val_address a =
     op_bind (op_lift (assert_positive a)) (\<lambda>_.
     op_bind staking_signer (\<lambda>signer.
     op_bind staking_events (\<lambda>events.
     op_bind (staking_add_event events \<lparr>ev_type = ''unbond'', ev_attributes = [(''validator'', address_text T val_address),
       (''delegator'', address_text T signer), (''amount'', amount_text T a)]\<rparr>) (\<lambda>_.
     staking_unbond T s val_address signer a))))"

definition redelegate_self :: "('s, 'd) staking_types \<Rightarrow> 's \<Rightarrow> address \<Rightarrow> address \<Rightarrow> amount \<Rightarrow> (('d, 'z) staking_world, unit) op" where
  "redelegate_self T s src_val_address dst_val_address a =
     op_bind (op_lift (assert_positive a)) (\<lambda>_.
     op_bind staking_signer (\<lambda>signer.
     op_bind staking_events (\<lambda>events.
     op_bind (staking_add_event events \<lparr>ev_type = ''redelegate'', ev_attributes = [(''source_validator'', address_text T src_val_address),
       (''destination_validator'', address_text T dst_val_address), (''delegator'', address_text T signer), (''amount'', amount_text T a)]\<rparr>) (\<lambda>_.
     staking_redelegate T s src_val_address dst_val_address signer a))))"

definition declare_self :: "('s, 'd) staking_types \<Rightarrow> 's \<Rightarrow> 'd validator_declaration \<Rightarrow> (('d, 'z) staking_world, unit) op" where
  "declare_self T s decl =
     op_bind (op_lift (assert_positive (dc_amount decl))) (\<lambda>_.
     op_bind staking_signer (\<lambda>signer.
     op_bind (staking_paid (paid_take (kt_symbol_index T) (dc_amount decl))) (\<lambda>payment.
     staking_declare T s signer decl payment)))"

definition delegate_from_self :: "('s, 'd) staking_types \<Rightarrow> 's \<Rightarrow> address \<Rightarrow> amount \<Rightarrow> (('d, 'z) staking_world, unit) op" where
  "delegate_from_self T s validator_address a =
     op_bind (op_lift (assert_positive a)) (\<lambda>_.
     op_bind staking_signer (\<lambda>signer.
     op_bind (staking_paid (paid_take (kt_symbol_index T) a)) (\<lambda>payment.
     op_bind staking_events (\<lambda>events.
     op_bind (staking_add_event events \<lparr>ev_type = ''delegate'', ev_attributes = [(''validator'', address_text T validator_address),
       (''delegator'', address_text T signer), (''amount'', amount_text T a)]\<rparr>) (\<lambda>_.
     staking_delegate T s validator_address signer payment)))))"

definition staking_take_as_funding :: "('s, 'd) staking_types \<Rightarrow> 's \<Rightarrow> address \<Rightarrow> amount \<Rightarrow> byte \<Rightarrow> (('d, 'z) staking_world, unit) op" where
  "staking_take_as_funding T s validator_address a denom =
     op_bind (op_lift (assert_positive a)) (\<lambda>_.
     op_bind staking_signer (\<lambda>signer.
     op_bind staking_events (\<lambda>events.
     op_bind (staking_add_event events \<lparr>ev_type = ''coin_spend'', ev_attributes = [(''spender'', address_text T signer), (''amount'', amount_text T a)]\<rparr>) (\<lambda>_.
     op_bind (staking_deduct T s validator_address signer a denom) (\<lambda>_.
     staking_paid (paid_give_denom a denom))))))"

definition claim_reward :: "('s, 'd) staking_types \<Rightarrow> 's \<Rightarrow> address \<Rightarrow> address \<Rightarrow> byte \<times> amount \<Rightarrow> (('d, 'z) staking_world, unit) op" where
  "claim_reward T s signer val_address item = (case item of (denom, a) \<Rightarrow>
     if 0 < am_value a
     then op_bind staking_events (\<lambda>events.
          op_bind (staking_add_event events \<lparr>ev_type = ''withdraw_rewards'', ev_attributes = [(''validator'', address_text T val_address),
            (''delegator'', address_text T signer)]\<rparr>) (\<lambda>_.
          staking_take_as_funding T s val_address a denom))
     else op_ok ())"

definition claim_all :: "('s, 'd) staking_types \<Rightarrow> 's \<Rightarrow> (('d, 'z) staking_world, unit) op" where
  "claim_all T s =
     op_bind staking_signer (\<lambda>signer.
     op_bind (staking_delegations T s signer) (\<lambda>delegations.
     op_each (\<lambda>(val_address, delegation). op_each (claim_reward T s signer val_address) (di_liquid delegation)) delegations))"

definition staking_unjail :: "('s, 'd) staking_types \<Rightarrow> 's \<Rightarrow> (('d, 'z) staking_world, unit) op" where
  "staking_unjail T s =
     op_bind staking_signer (\<lambda>signer.
     op_bind (staking_with T s signer try_unjail) (\<lambda>_.
     update_vp T s signer))"

definition edit_validator_self :: "('s, 'd) staking_types \<Rightarrow> 's \<Rightarrow> 'd decimal \<Rightarrow> amount \<Rightarrow> bytes \<Rightarrow> (('d, 'z) staking_world, unit) op" where
  "edit_validator_self T s commission min_self_delegation validator_info =
     op_bind staking_signer (\<lambda>val_address.
     op_bind (staking_read (staking_consensus_key T s val_address)) (\<lambda>_.
     edit_validator T s val_address commission min_self_delegation validator_info))"

definition staking_give :: "('s, 'd) staking_types \<Rightarrow> 's \<Rightarrow> byte \<Rightarrow> coin \<Rightarrow> (('d, 'z) staking_world, unit) op" where
  "staking_give T s index coins = on_field sk_validators sk_validators_update (pool_give_coin (kt_pool T) s index coins)"

section \<open>Queues\<close>

definition transition_to_unbonded :: "('s, 'd) staking_types \<Rightarrow> 's \<Rightarrow> address \<Rightarrow> (('d, 'z) staking_world, unit) op" where
  "transition_to_unbonded T s val_address = staking_with T s val_address (\<lambda>_. op_upd (\<lambda>validator. validator\<lparr>sv_unbonding := False\<rparr>))"

text \<open>Collecting items, or the first ones that satisfy a condition, into a vector of results.\<close>

fun collect_while :: "('i \<Rightarrow> 'a result option \<times> 'i) \<Rightarrow> ('a \<Rightarrow> bool result) \<Rightarrow> nat \<Rightarrow> 'i \<Rightarrow> 'a result list result" where
  "collect_while next P 0 it = Panic"
| "collect_while next P (Suc fuel) it = (case next it of
      (None, _) \<Rightarrow> Ok []
    | (Some Panic, _) \<Rightarrow> Panic
    | (Some (Err e), it') \<Rightarrow> and_then (collect_while next P fuel it') (\<lambda>rest. Ok (Err e # rest))
    | (Some (Ok x), it') \<Rightarrow> and_then (P x) (\<lambda>keep.
        if keep then and_then (collect_while next P fuel it') (\<lambda>rest. Ok (Ok x # rest)) else Ok []))"

definition process_validator_queue :: "('s, 'd) staking_types \<Rightarrow> 's \<Rightarrow> (('d, 'z) staking_world, unit) op" where
  "process_validator_queue T s =
     op_bind staking_seconds (\<lambda>now.
     op_bind (staking_read (\<lambda>self.
       and_then (entry_map_iter (kt_queue T) (kt_bytes T) (sk_validator_queue self)) (\<lambda>it.
       collect_while (entry_map_next (kt_queue T) queue_entry_ops (sk_validator_queue self) s)
         (\<lambda>e. matured now (sk_unbonding_seconds self) (vqe_start_seconds (into_inner e))) (mt_fuel (kt_queue T)) it))) (\<lambda>entries.
     op_each (\<lambda>e. op_bind (op_lift e) (\<lambda>e.
       op_bind (transition_to_unbonded T s (Address (vqe_address_bytes (into_inner e)))) (\<lambda>_.
       on_field sk_validator_queue sk_validator_queue_update (entry_map_delete (kt_queue T) queue_entry_ops s (into_inner e))))) entries))"

fun unbonding_queue_loop :: "('s, 'd) staking_types \<Rightarrow> 's \<Rightarrow> int \<Rightarrow> nat \<Rightarrow> (('d, 'z) staking_world, unit) op" where
  "unbonding_queue_loop T s now 0 = op_lift Panic"
| "unbonding_queue_loop T s now (Suc fuel) =
     op_bind (staking_read (\<lambda>self. deque_front (kt_unbonding_queue T) (sk_unbonding_delegation_queue self) s)) (\<lambda>x. case x of
         None \<Rightarrow> op_ok ()
       | Some front \<Rightarrow> op_bind (staking_read (\<lambda>self. matured now (sk_unbonding_seconds self) (ude_start_seconds (ref_deref front)))) (\<lambda>is_matured.
           if \<not> is_matured then op_ok ()
           else op_bind (on_field sk_unbonding_delegation_queue sk_unbonding_delegation_queue_update (deque_pop_front (kt_unbonding_queue T) s)) (\<lambda>x.
                op_bind (op_lift (ok_or (Error_Coins ''Unbonding delegation queue is empty'') x)) (\<lambda>u.
                op_bind (staking_delegator T s (ude_validator_address (into_inner u)) (ude_delegator_address (into_inner u))
                  (process_unbonds (vt_delegator (kt_validator T)) s)) (\<lambda>_.
                unbonding_queue_loop T s now fuel)))))"

definition process_unbonding_delegation_queue :: "('s, 'd) staking_types \<Rightarrow> 's \<Rightarrow> (('d, 'z) staking_world, unit) op" where
  "process_unbonding_delegation_queue T s = op_bind staking_seconds (\<lambda>now (self, cx).
     unbonding_queue_loop T s now (queue_fuel (sk_unbonding_delegation_queue self)) (self, cx))"

fun redelegation_queue_loop :: "('s, 'd) staking_types \<Rightarrow> 's \<Rightarrow> int \<Rightarrow> nat \<Rightarrow> (('d, 'z) staking_world, unit) op" where
  "redelegation_queue_loop T s now 0 = op_lift Panic"
| "redelegation_queue_loop T s now (Suc fuel) =
     op_bind (staking_read (\<lambda>self. deque_front (kt_redelegation_queue T) (sk_redelegation_queue self) s)) (\<lambda>x. case x of
         None \<Rightarrow> op_ok ()
       | Some front \<Rightarrow> op_bind (staking_read (\<lambda>self. matured now (sk_unbonding_seconds self) (rde_start_seconds (ref_deref front)))) (\<lambda>is_matured.
           if \<not> is_matured then op_ok ()
           else op_bind (on_field sk_redelegation_queue sk_redelegation_queue_update (deque_pop_front (kt_redelegation_queue T) s)) (\<lambda>x.
                op_bind (op_lift (ok_or (Error_Coins ''Redelegation queue is empty'') x)) (\<lambda>r.
                op_bind (staking_delegator T s (rde_src_validator_address (into_inner r)) (rde_delegator_address (into_inner r))
                  (process_redelegations_out (vt_delegator (kt_validator T)) s)) (\<lambda>_.
                op_bind (staking_delegator T s (rde_dst_validator_address (into_inner r)) (rde_delegator_address (into_inner r))
                  (process_redelegations_in (vt_delegator (kt_validator T)) s)) (\<lambda>_.
                redelegation_queue_loop T s now fuel))))))"

definition process_redelegation_queue :: "('s, 'd) staking_types \<Rightarrow> 's \<Rightarrow> (('d, 'z) staking_world, unit) op" where
  "process_redelegation_queue T s = op_bind staking_seconds (\<lambda>now (self, cx).
     redelegation_queue_loop T s now (queue_fuel (sk_redelegation_queue self)) (self, cx))"

definition process_all_queues :: "('s, 'd) staking_types \<Rightarrow> 's \<Rightarrow> (('d, 'z) staking_world, unit) op" where
  "process_all_queues T s =
     op_bind (process_validator_queue T s) (\<lambda>_.
     op_bind (process_unbonding_delegation_queue T s) (\<lambda>_.
     process_redelegation_queue T s))"

section \<open>The end of a block\<close>

text \<open>The first entries of the index, until one has no power or the maximum is reached.\<close>

fun top_validators :: "('i \<Rightarrow> validator_power_entry read_only result option \<times> 'i) \<Rightarrow> u64 \<Rightarrow> nat \<Rightarrow> 'i \<Rightarrow> u64
    \<Rightarrow> (address \<times> u64) list \<Rightarrow> (address \<times> u64) list result" where
  "top_validators next max_vals 0 it i entries = Panic"
| "top_validators next max_vals (Suc fuel) it i entries = (case next it of
      (None, _) \<Rightarrow> Ok entries
    | (Some r, it') \<Rightarrow> and_then r (\<lambda>e.
        let addr = Address (vpe_address_bytes (into_inner e)); new_power = vpe_power (into_inner e)
        in if new_power = 0 then Ok entries
           else and_then (word_add i 1) (\<lambda>i.
                if i = max_vals then Ok (entries @ [(addr, new_power)])
                else top_validators next max_vals fuel it' i (entries @ [(addr, new_power)]))))"

definition new_validators :: "('s, 'd) staking_types \<Rightarrow> 's \<Rightarrow> 'd staking \<Rightarrow> (address \<times> u64) list result" where
  "new_validators T s self =
     and_then (entry_map_iter (kt_by_power T) (kt_bytes T) (sk_validators_by_power self)) (\<lambda>it.
     top_validators (entry_map_next (kt_by_power T) power_entry_ops (sk_validators_by_power self) s)
       (sk_max_validators self) (mt_fuel (kt_by_power T)) it 0 [])"

text \<open>The updates: validators with another power than before, then those that dropped out.\<close>

fun changed_powers :: "('s, 'd) staking_types \<Rightarrow> 's \<Rightarrow> 'd staking \<Rightarrow> (address \<times> u64) list \<Rightarrow> (address \<times> u64) list result" where
  "changed_powers T s self [] = Ok []"
| "changed_powers T s self ((addr, pw) # entries) =
     and_then (map_get (kt_powers T) (sk_last_validator_powers self) s addr) (\<lambda>prev.
     and_then (changed_powers T s self entries) (\<lambda>rest.
     Ok (if map_option ref_deref prev = Some pw then rest else (addr, pw) # rest)))"

definition dropped_validators :: "('s, 'd) staking_types \<Rightarrow> 's \<Rightarrow> 'd staking \<Rightarrow> (address \<times> u64) list \<Rightarrow> (address \<times> u64) list result" where
  "dropped_validators T s self entries =
     and_then (map_iter_all (kt_powers T) (kt_bytes T) (sk_last_validator_powers self)) (\<lambda>it.
     for_each (map_iter_step (kt_powers T) (sk_last_validator_powers self) s True)
       (\<lambda>x ups. Ok (if fst (ref_pair x) \<in> set (map fst entries) then ups else ups @ [(fst (ref_pair x), 0)]))
       (mt_fuel (kt_powers T)) it [])"

definition transition_to_unbonding :: "('s, 'd) staking_types \<Rightarrow> 's \<Rightarrow> address \<Rightarrow> (('d, 'z) staking_world, unit) op" where
  "transition_to_unbonding T s val_address =
     op_bind staking_seconds (\<lambda>now.
     op_bind (staking_with T s val_address (\<lambda>_. op_upd (\<lambda>validator. validator\<lparr>sv_unbonding := True, sv_unbonding_start_seconds := now\<rparr>))) (\<lambda>_.
     on_field sk_validator_queue sk_validator_queue_update
       (entry_map_insert (kt_queue T) queue_entry_ops \<lparr>vqe_start_seconds = now, vqe_address_bytes = address_bytes val_address\<rparr>)))"

text \<open>\<^verbatim>\<open>remove_by_address\<close> of the queue.\<close>

definition remove_by_address :: "('s, 'd) staking_types \<Rightarrow> 's \<Rightarrow> address \<Rightarrow> ((int \<times> bytes, unit) entry_map, unit) op" where
  "remove_by_address T s addr =
     op_bind (op_read (\<lambda>m. and_then (entry_map_iter (kt_queue T) (kt_bytes T) m) (\<lambda>it.
       collect_while (entry_map_next (kt_queue T) queue_entry_ops m s) (\<lambda>_. Ok True) (mt_fuel (kt_queue T)) it))) (\<lambda>entries.
     op_each (\<lambda>res. op_bind (op_lift res) (\<lambda>e.
       if vqe_address_bytes (into_inner e) = address_bytes addr then entry_map_delete (kt_queue T) queue_entry_ops s (into_inner e)
       else op_ok ())) entries)"

text \<open>The reference to the validator is still there when the queue is changed, and is dropped
  after it.\<close>

definition transition_to_bonded :: "('s, 'd) staking_types \<Rightarrow> 's \<Rightarrow> address \<Rightarrow> (('d, 'z) staking_world, unit) op" where
  "transition_to_bonded T s val_address = (\<lambda>(self, cx).
     case op_bind (pool_get_mut (kt_pool T) s val_address) (\<lambda>ci.
          op_bind (pool_child_run (kt_pool T) (fst ci) (on_inner (op_upd (\<lambda>validator. validator\<lparr>sv_unbonding := False\<rparr>)))) (\<lambda>_. op_ok ci))
        (sk_validators self) of
       (Err e, p) \<Rightarrow> (Err e, (self\<lparr>sk_validators := p\<rparr>, cx))
     | (Panic, p) \<Rightarrow> (Panic, (self\<lparr>sk_validators := p\<rparr>, cx))
     | (Ok ci, p) \<Rightarrow>
         (case remove_by_address T s val_address (sk_validator_queue self) of
            (Panic, q) \<Rightarrow> (Panic, (self\<lparr>sk_validators := p, sk_validator_queue := q\<rparr>, cx))
          | (r, q) \<Rightarrow> (case pool_drop (kt_pool T) s ci p of
                (Ok _, p') \<Rightarrow> (r, (self\<lparr>sk_validators := p', sk_validator_queue := q\<rparr>, cx))
              | (Err e, p') \<Rightarrow> (Err e, (self\<lparr>sk_validators := p', sk_validator_queue := q\<rparr>, cx))
              | (Panic, p') \<Rightarrow> (Panic, (self\<lparr>sk_validators := p', sk_validator_queue := q\<rparr>, cx)))))"

definition apply_activity :: "('s, 'd) staking_types \<Rightarrow> 's \<Rightarrow> u64 \<Rightarrow> address \<times> u64 \<Rightarrow> (('d, 'z) staking_world, unit) op" where
  "apply_activity T s height item = (case item of (addr, pw) \<Rightarrow>
     op_bind (staking_with T s addr (\<lambda>_ validator. (Ok (sv_in_active_set validator, 0 < pw), validator\<lparr>sv_in_active_set := 0 < pw\<rparr>))) (\<lambda>(before, after).
     if before \<and> \<not> after
     then op_bind (staking_read (\<lambda>self. and_then (staking_consensus_key T s addr self) (tm_pubkey_hash T))) (\<lambda>tm_hash.
          op_bind (transition_to_unbonding T s addr) (\<lambda>_.
          op_bind (on_field sk_last_signed_block sk_last_signed_block_update (map_remove (kt_last_signed T) s tm_hash)) (\<lambda>_. op_ok ())))
     else if \<not> before \<and> after
     then op_bind (staking_read (\<lambda>self. and_then (staking_consensus_key T s addr self) (tm_pubkey_hash T))) (\<lambda>tm_hash.
          op_bind (transition_to_bonded T s addr) (\<lambda>_.
          on_field sk_last_signed_block sk_last_signed_block_update (map_insert (kt_last_signed T) tm_hash height)))
     else op_ok ()))"

fun consensus_updates :: "('s, 'd) staking_types \<Rightarrow> 's \<Rightarrow> 'd staking \<Rightarrow> (address \<times> u64) list \<Rightarrow> (bytes \<times> u64) list result" where
  "consensus_updates T s self [] = Ok []"
| "consensus_updates T s self ((addr, pw) # ups) =
     and_then (map_get (kt_consensus_keys T) (sk_consensus_keys self) s addr) (\<lambda>r.
     and_then (ok_or (Error_Coins ''No consensus key for validator'') r) (\<lambda>key.
     and_then (consensus_updates T s self ups) (\<lambda>rest. Ok ((ref_deref key, pw) # rest))))"

definition record_power :: "('s, 'd) staking_types \<Rightarrow> 's \<Rightarrow> address \<times> u64 \<Rightarrow> ((address, u64) omap, unit) op" where
  "record_power T s item = (case item of (addr, pw) \<Rightarrow>
     if 0 < pw then map_insert (kt_powers T) addr pw
     else op_bind (map_remove (kt_powers T) s addr) (\<lambda>_. op_ok ()))"

definition end_block_step :: "('s, 'd) staking_types \<Rightarrow> 's \<Rightarrow> end_block_ctx \<Rightarrow> (('d, 'z) staking_world, unit) op" where
  "end_block_step T s ctx =
     op_bind (process_all_queues T s) (\<lambda>_.
     op_bind (staking_read (new_validators T s)) (\<lambda>new_val_entries.
     op_bind (staking_read (\<lambda>self. and_then (changed_powers T s self new_val_entries) (\<lambda>changed.
       and_then (dropped_validators T s self new_val_entries) (\<lambda>dropped. Ok (changed @ dropped))))) (\<lambda>new_power_updates.
     op_bind (op_each (apply_activity T s (eb_height ctx)) new_power_updates) (\<lambda>_.
     op_bind (staking_read (\<lambda>self. consensus_updates T s self new_power_updates)) (\<lambda>new_power_updates_con.
     op_bind (staking_validators_ctx (op_each (\<lambda>(key, pw). set_voting_power (kt_abci T) key pw) new_power_updates_con)) (\<lambda>_.
     on_field sk_last_validator_powers sk_last_validator_powers_update (op_each (record_power T s) new_power_updates)))))))"

section \<open>The beginning of a block\<close>

text \<open>The parts of a request that the module reads.\<close>

record abci_validator =
  av_address :: bytes

record vote_info =
  vi_validator :: "abci_validator option"
  vi_signed_last_block :: bool

record last_commit_info =
  lc_votes :: "vote_info list"

datatype evidence_type = UnknownEvidence | DuplicateVote | LightClientAttack

record evidence =
  evi_type :: evidence_type
  evi_validator :: "abci_validator option"

definition tm_hash_of :: "bytes \<Rightarrow> bytes result" where
  "tm_hash_of addr = (if length addr = 20 then Ok addr else Err (Error_Coins ''Invalid pubkey length from Tendermint''))"

definition record_signed :: "('s, 'd) staking_types \<Rightarrow> u64 \<Rightarrow> vote_info \<Rightarrow> (('d, 'z) staking_world, unit) op" where
  "record_signed T height vote =
     (if \<not> vi_signed_last_block vote then op_ok ()
      else case vi_validator vote of
             None \<Rightarrow> op_ok ()
           | Some validator \<Rightarrow> op_bind (op_lift (tm_hash_of (av_address validator))) (\<lambda>hash.
               on_field sk_last_signed_block sk_last_signed_block_update (map_insert (kt_last_signed T) hash height)))"

definition offline_validators :: "('s, 'd) staking_types \<Rightarrow> 's \<Rightarrow> u64 \<Rightarrow> 'd staking \<Rightarrow> bytes list result" where
  "offline_validators T s height self =
     and_then (map_iter_all (kt_last_signed T) (kt_bytes T) (sk_last_signed_block self)) (\<lambda>it.
     for_each (map_iter_step (kt_last_signed T) (sk_last_signed_block self) s True)
       (\<lambda>x hashes. case ref_pair x of (hash, last_height) \<Rightarrow>
          and_then (word_add last_height (sk_max_offline_blocks self)) (\<lambda>limit.
          if limit < height
          then and_then (if length hash = 20 then Ok hash else Err (Error_Coins ''Invalid pub key hash length from Tendermint'')) (\<lambda>hash. Ok (hashes @ [hash]))
          else Ok hashes))
       (mt_fuel (kt_last_signed T)) it [])"

definition punish_offline :: "('s, 'd) staking_types \<Rightarrow> 's \<Rightarrow> bytes \<Rightarrow> (('d, 'z) staking_world, unit) op" where
  "punish_offline T s hash =
     op_bind (staking_read (\<lambda>self. map_get (kt_tm_hash T) (sk_address_for_tm_hash self) s hash)) (\<lambda>r. case r of
         None \<Rightarrow> op_ok ()
       | Some addr \<Rightarrow>
           op_bind (staking_view T s (ref_deref addr) (op_read (\<lambda>validator. Ok (sv_in_active_set validator)))) (\<lambda>in_active_set.
           op_bind (if in_active_set then punish_downtime T s (ref_deref addr) else op_ok ()) (\<lambda>_.
           op_bind (on_field sk_last_signed_block sk_last_signed_block_update (map_remove (kt_last_signed T) s hash)) (\<lambda>_. op_ok ()))))"

definition punish_evidence :: "('s, 'd) staking_types \<Rightarrow> 's \<Rightarrow> evidence \<Rightarrow> (('d, 'z) staking_world, unit) op" where
  "punish_evidence T s ev = (case evi_validator ev of
      None \<Rightarrow> op_ok ()
    | Some validator \<Rightarrow> op_bind (op_lift (tm_hash_of (av_address validator))) (\<lambda>hash.
        op_bind (staking_read (\<lambda>self. map_get (kt_tm_hash T) (sk_address_for_tm_hash self) s hash)) (\<lambda>r. case r of
            Some addr \<Rightarrow> (case evi_type ev of
                DuplicateVote \<Rightarrow> punish_double_sign T s (ref_deref addr)
              | LightClientAttack \<Rightarrow> punish_light_client_attack T s (ref_deref addr)
              | UnknownEvidence \<Rightarrow> op_ok ())
          | None \<Rightarrow> op_err (Error_Coins ''Invalid pubkey length from Tendermint''))))"

definition staking_begin_block :: "('s, 'd) staking_types \<Rightarrow> 's \<Rightarrow> ('h, last_commit_info, evidence) begin_block_ctx \<Rightarrow> (('d, 'z) staking_world, unit) op" where
  "staking_begin_block T s ctx =
     op_bind (case bb_last_commit_info ctx of
         None \<Rightarrow> op_ok ()
       | Some info \<Rightarrow>
           op_bind (op_each (record_signed T (bb_height ctx)) (lc_votes info)) (\<lambda>_.
           op_bind (staking_read (offline_validators T s (bb_height ctx))) (\<lambda>hashes.
           op_each (punish_offline T s) hashes))) (\<lambda>_.
     op_each (punish_evidence T s) (bb_byzantine_validators ctx))"

section \<open>Repairing\<close>

definition staking_repair :: "('s, 'd) staking_types \<Rightarrow> 's \<Rightarrow> (('d, 'z) staking_world, unit) op" where
  "staking_repair T s =
     op_bind (on_field sk_validators sk_validators_update (pool_iter (kt_pool T) s (\<lambda>k. op_read (\<lambda>validator. Ok (k, sv_info validator = []))))) (\<lambda>found.
     op_bind (on_field sk_validators sk_validators_update (on_pool_map (remove_keys (kt_validators_map T) s (map fst (filter snd found))))) (\<lambda>_.
     op_bind (on_field sk_unbonding_delegation_queue sk_unbonding_delegation_queue_update
       (deque_retain_unordered (kt_unbonding_queue T) s (\<lambda>c _. op_ok (False, c)) ())) (\<lambda>_.
     on_field sk_redelegation_queue sk_redelegation_queue_update
       (deque_retain_unordered (kt_redelegation_queue T) s (\<lambda>c _. op_ok (False, c)) ()))))"

end
