(* ===== verification/Staking_Index.thy ===== *)
theory Staking_Index
  imports Staking_Block
begin

text \<open>
  The index of the validators by voting power, through all calls and blocks, and the active set
  that the end of a block takes from it.
\<close>

section \<open>Calls and blocks\<close>

text \<open>The calls of the module, as \<^verbatim>\<open>#[call]\<close> exports them.\<close>

datatype 'd staking_call =
    UnbondSelf address amount
  | RedelegateSelf address address amount
  | DeclareSelf "'d validator_declaration"
  | DelegateFromSelf address amount
  | StakingTakeAsFunding address amount byte
  | ClaimAll
  | Unjail
  | EditValidatorSelf "'d decimal" amount bytes

fun staking_run :: "('s, 'd) staking_types \<Rightarrow> 's \<Rightarrow> 'd staking_call \<Rightarrow> (('d, 'z) staking_world, unit) op" where
  "staking_run T s (UnbondSelf val_address a) = unbond_self T s val_address a"
| "staking_run T s (RedelegateSelf src dst a) = redelegate_self T s src dst a"
| "staking_run T s (DeclareSelf decl) = declare_self T s decl"
| "staking_run T s (DelegateFromSelf val_address a) = delegate_from_self T s val_address a"
| "staking_run T s (StakingTakeAsFunding val_address a denom) = staking_take_as_funding T s val_address a denom"
| "staking_run T s ClaimAll = claim_all T s"
| "staking_run T s Unjail = staking_unjail T s"
| "staking_run T s (EditValidatorSelf commission min_self info) = edit_validator_self T s commission min_self info"

text \<open>What happens to the module: a call by a signer, the beginning and the end of a block, each
  with contexts of its own, and rewards.\<close>

datatype ('d, 'z, 'h) staking_step =
    StakingCall "'z abci_contexts_scheme" "'d staking_call"
  | StakingBegin "'z abci_contexts_scheme" "('h, last_commit_info, evidence) begin_block_ctx"
  | StakingEnd "'z abci_contexts_scheme" end_block_ctx
  | StakingGive "'z abci_contexts_scheme" byte coin

fun staking_step_run :: "('s, 'd) staking_types \<Rightarrow> 's \<Rightarrow> ('d, 'z, 'h) staking_step \<Rightarrow> 'd staking \<Rightarrow> 'd staking" where
  "staking_step_run T s (StakingCall cx c) self = fst (snd (staking_run T s c (self, cx)))"
| "staking_step_run T s (StakingBegin cx ctx) self = fst (snd (staking_begin_block T s ctx (self, cx)))"
| "staking_step_run T s (StakingEnd cx ctx) self = fst (snd (end_block_step T s ctx (self, cx)))"
| "staking_step_run T s (StakingGive cx index coins) self = fst (snd (staking_give T s index coins (self, cx)))"

text \<open>The addresses that a step brings in are well-formed.\<close>

definition signer_ok :: "(address \<Rightarrow> bool) \<Rightarrow> 'z abci_contexts_scheme \<Rightarrow> bool" where
  "signer_ok aok cx \<longleftrightarrow> (\<forall>a. cx_signer cx = Some (Signer (Some a)) \<longrightarrow> aok a)"

fun step_ok :: "(address \<Rightarrow> bool) \<Rightarrow> ('d, 'z, 'h) staking_step \<Rightarrow> bool" where
  "step_ok aok (StakingCall cx (UnbondSelf v a)) \<longleftrightarrow> signer_ok aok cx \<and> aok v"
| "step_ok aok (StakingCall cx (RedelegateSelf v w a)) \<longleftrightarrow> signer_ok aok cx \<and> aok v \<and> aok w"
| "step_ok aok (StakingCall cx (DelegateFromSelf v a)) \<longleftrightarrow> signer_ok aok cx \<and> aok v"
| "step_ok aok (StakingCall cx c) \<longleftrightarrow> signer_ok aok cx"
| "step_ok aok (StakingBegin cx ctx) \<longleftrightarrow> signer_ok aok cx"
| "step_ok aok (StakingEnd cx ctx) \<longleftrightarrow> signer_ok aok cx"
| "step_ok aok (StakingGive cx i c) \<longleftrightarrow> signer_ok aok cx"

text \<open>A value that is read from a state with a property, or that is given.\<close>

lemma op_keeps_read_bind:
  assumes "\<And>w x. P w \<Longrightarrow> g w = Ok x \<Longrightarrow> op_keeps P (f x)"
  shows "op_keeps P (op_bind (op_read g) f)"
proof (rule op_keepsI)
  fix w r w' assume p: "P w" and run: "op_bind (op_read g) f w = (r, w')"
  show "P w'"
  proof (cases "g w")
    case (Ok x)
    then show ?thesis using op_keepsD [OF assms [OF p Ok] p] run by (simp add: op_bind_def)
  qed (use p run in \<open>auto simp: op_bind_def\<close>)
qed

lemma op_keeps_lift_bind: "(\<And>x. r = Ok x \<Longrightarrow> op_keeps P (f x)) \<Longrightarrow> op_keeps P (op_bind (op_lift r) f)"
  by (cases r) (auto simp: op_keeps_def op_bind_def)

lemma op_keeps_if: "op_keeps P f \<Longrightarrow> op_keeps P g \<Longrightarrow> op_keeps P (if b then f else g)"
  by simp

lemma op_keeps_split: "(\<And>x y. op_keeps P (g x y)) \<Longrightarrow> op_keeps P (case z of (x, y) \<Rightarrow> g x y)"
  by (cases z) simp

section \<open>What most operations leave alone\<close>

text \<open>The fields of the module that only a few operations change, and the signer.\<close>

definition core :: "('d, 'z) staking_world \<Rightarrow> (u64 \<times> bytes, unit) entry_map \<times> (address, u64) omap \<times> (address, u64) omap \<times> (bytes, address) omap \<times> u64 \<times> signer option" where
  "core w = (sk_validators_by_power (fst w), sk_last_indexed_power (fst w), sk_last_validator_powers (fst w), sk_address_for_tm_hash (fst w),
     sk_max_validators (fst w), cx_signer (snd w))"

definition frames :: "(('d, 'z) staking_world, 'a) op \<Rightarrow> bool" where
  "frames f \<longleftrightarrow> (\<forall>c. op_keeps (\<lambda>w. core w = c) f)"

named_theorems frame_rules \<open>operations that leave the core alone\<close>

lemma frames_keeps: "frames f \<Longrightarrow> (\<And>w w'. core w' = core w \<Longrightarrow> P w \<Longrightarrow> P w') \<Longrightarrow> op_keeps P f"
  unfolding frames_def op_keeps_def by metis

lemma framesI: "(\<And>w r w'. f w = (r, w') \<Longrightarrow> core w' = core w) \<Longrightarrow> frames f"
  unfolding frames_def op_keeps_def by blast

lemma framesD: "frames f \<Longrightarrow> f w = (r, w') \<Longrightarrow> core w' = core w"
  unfolding frames_def op_keeps_def by blast

lemma frames_bind [frame_rules]: "frames f \<Longrightarrow> (\<And>x. frames (g x)) \<Longrightarrow> frames (op_bind f g)"
  unfolding frames_def by (intro allI op_keeps_bind) blast+

lemma frames_plain [frame_rules]: "frames (op_ok x)" "frames (op_err e)" "frames (op_lift r)" "frames (op_read g)" "frames (staking_read h)" "frames (Pair r)"
  by (simp_all add: frames_def staking_read_def op_keeps_def)

lemma frames_each [frame_rules]: "(\<And>x. frames (body x)) \<Longrightarrow> frames (op_each body xs)"
  by (induction xs) (simp_all add: frames_plain frames_bind)

lemma frames_field:
  assumes "\<And>self (cx :: 'z abci_contexts_scheme) x. core (upd (\<lambda>_. x) self, cx) = core (self, cx)"
  shows "frames (on_field sel upd f :: (('d, 'z) staking_world, 'a) op)"
  by (rule framesI) (auto simp: on_field_def on_staking_def assms split: prod.splits)

lemma frames_fields [frame_rules]:
  "frames (on_field sk_validators sk_validators_update f1)" "frames (on_field sk_last_signed_block sk_last_signed_block_update f2)"
  "frames (on_field sk_validator_queue sk_validator_queue_update f3)" "frames (on_field sk_delegation_index sk_delegation_index_update f4)"
  "frames (on_field sk_unbonding_delegation_queue sk_unbonding_delegation_queue_update f5)"
  "frames (on_field sk_redelegation_queue sk_redelegation_queue_update f6)" "frames (on_field sk_consensus_keys sk_consensus_keys_update f7)"
  by (rule frames_field; simp add: core_def)+

lemma frames_with [frame_rules]: "frames (staking_with T s v f)"
proof (rule framesI)
  fix w r w' assume "staking_with T s v f w = (r, w')"
  then show "core w' = core w"
    using framesD [OF frames_fields(1) [of "pool_with (kt_pool T) s v (f (snd w))"], of w r w'] by (cases w) (simp add: staking_with_def)
qed

lemma frames_uses [frame_rules]: "frames (staking_view T s v g)" "frames (staking_delegator T s v d h)"
  by (simp_all add: staking_view_def staking_delegator_def frame_rules)

lemma frames_contexts [frame_rules]: "frames staking_seconds" "frames staking_signer" "frames staking_events" "frames (staking_add_event events ev)"
  "frames (staking_paid f)" "frames (staking_validators_ctx g)"
proof -
  show "frames (staking_paid f)"
    by (rule framesI) (auto simp: staking_paid_def on_paid_def core_def split: option.splits prod.splits)
  show "frames (staking_validators_ctx g)"
    by (rule framesI) (auto simp: staking_validators_ctx_def on_validators_def core_def split: option.splits prod.splits)
  show "frames (staking_add_event events ev)" by (rule framesI) (auto simp: staking_add_event_def on_cx_def core_def)
qed (simp_all add: staking_seconds_def staking_signer_def staking_events_def frames_plain)

text \<open>Operations built from these only.\<close>

lemma frames_if [frame_rules]: "frames f \<Longrightarrow> frames g \<Longrightarrow> frames (if b then f else g)"
  by simp

lemma frames_option [frame_rules]: "frames f \<Longrightarrow> (\<And>x. frames (g x)) \<Longrightarrow> frames (case y of None \<Rightarrow> f | Some x \<Rightarrow> g x)"
  by (cases y) simp_all

lemma frames_split [frame_rules]: "(\<And>x y. frames (g x y)) \<Longrightarrow> frames (case z of (x, y) \<Rightarrow> g x y)"
  by (cases z) simp

lemma frames_queues [frame_rules]: "frames (process_all_queues T s)"
proof -
  have u: "frames (unbonding_queue_loop T s now fuel)" for now fuel by (induction fuel) (auto intro!: frame_rules)
  have r: "frames (redelegation_queue_loop T s now fuel)" for now fuel by (induction fuel) (auto intro!: frame_rules)
  have u': "frames (\<lambda>(self, cx). unbonding_queue_loop T s now (queue_fuel (sk_unbonding_delegation_queue self)) (self, cx))" for now
    using framesD [OF u] by (intro framesI) (auto split: prod.splits)
  have r': "frames (\<lambda>(self, cx). redelegation_queue_loop T s now (queue_fuel (sk_redelegation_queue self)) (self, cx))" for now
    using framesD [OF r] by (intro framesI) (auto split: prod.splits)
  show ?thesis
    unfolding process_all_queues_def process_validator_queue_def process_unbonding_delegation_queue_def process_redelegation_queue_def transition_to_unbonded_def
    by (intro frame_rules u' r')
qed

lemma frames_bonded [frame_rules]: "frames (transition_to_bonded T s a)"
  by (rule framesI) (auto simp: transition_to_bonded_def core_def split: prod.splits result.splits)

lemma frames_activity [frame_rules]: "frames (apply_activity T s h item)"
  unfolding apply_activity_def transition_to_unbonding_def by (cases item) (auto intro!: frame_rules)

lemma frames_index [frame_rules]: "frames (index_delegation T s v d)"
  unfolding index_delegation_def by (rule frame_rules)

lemma frames_deduct [frame_rules]: "frames (staking_deduct T s v d a i)" "frames (staking_take_as_funding T s v a i)" "frames (edit_validator T s v c m info)"
  by (simp_all add: staking_deduct_def staking_take_as_funding_def edit_validator_def) (intro frame_rules)+

lemma frames_delegations [frame_rules]: "frames (staking_delegations T s a)"
proof -
  have "frames (delegations_loop T s a m fuel it)" for m fuel it
  proof (induction fuel arbitrary: it)
    case (Suc fuel)
    then show ?case by (auto split: prod.splits option.splits intro!: frame_rules)
  qed (simp add: frame_rules)
  then show ?thesis unfolding staking_delegations_def by (intro frame_rules)
qed

lemma frames_claim [frame_rules]: "frames (claim_all T s)"
  unfolding claim_all_def claim_reward_def by (intro frame_rules)

section \<open>The first entries of the index\<close>

fun top_of :: "u64 \<Rightarrow> u64 \<Rightarrow> (address \<times> u64) list \<Rightarrow> validator_power_entry read_only list \<Rightarrow> (address \<times> u64) list result" where
  "top_of max_vals i entries [] = Ok entries"
| "top_of max_vals i entries (e # es) = (let addr = Address (vpe_address_bytes (into_inner e)); new_power = vpe_power (into_inner e)
     in if new_power = 0 then Ok entries
        else and_then (word_add i 1) (\<lambda>i. if i = max_vals then Ok (entries @ [(addr, new_power)])
             else top_of max_vals i (entries @ [(addr, new_power)]) es))"

lemma top_validators_collect:
  "collect next fuel it = Some (Ok xs) \<Longrightarrow> top_validators next max_vals fuel it i entries = top_of max_vals i entries xs"
proof (induction fuel arbitrary: it xs i entries)
  case (Suc fuel)
  obtain x0 it' where n: "next it = (x0, it')" by force
  show ?case
  proof (cases x0)
    case None
    then show ?thesis using Suc.prems n by auto
  next
    case (Some r)
    then obtain x ys where x: "r = Ok x" "collect next fuel it' = Some (Ok ys)" "xs = x # ys"
      using Suc.prems n by (auto split: result.splits simp: result_simps)
    show ?thesis using Suc.IH [OF x(2)] n Some x(1,3) by (cases "word_add i 1") (auto simp: Let_def)
  qed
qed simp

abbreviation entry_power :: "validator_power_entry read_only \<Rightarrow> address \<times> u64" where
  "entry_power e \<equiv> (Address (vpe_address_bytes (into_inner e)), vpe_power (into_inner e))"

lemma top_of_take:
  assumes "length entries + length es < 2 ^ 64" and "max_vals \<noteq> 0 \<Longrightarrow> length entries < unat max_vals"
  shows "top_of max_vals (of_nat (length entries)) entries es
    = Ok (entries @ (if max_vals = 0 then id else take (unat max_vals - length entries))
        (map entry_power (takeWhile (\<lambda>e. vpe_power (into_inner e) \<noteq> 0) es)))"
  using assms
proof (induction es arbitrary: entries)
  case (Cons e es)
  have u: "unat (of_nat (length entries) :: u64) = length entries" using Cons.prems(1) by (simp add: unat_of_nat)
  have l: "length entries + 1 < 2 ^ 64" using Cons.prems(1) by simp
  have "word_add (of_nat (length entries) :: u64) 1 = Ok (of_nat (length entries) + 1)" by (rule word_succ(1)) (simp only: u l)
  then have w: "word_add (of_nat (length entries) :: u64) 1 = Ok (of_nat (Suc (length entries)))" by (simp only: of_nat_Suc add.commute)
  have u1: "unat (of_nat (Suc (length entries)) :: u64) = Suc (length entries)"
    using l by (simp add: unat_of_nat del: of_nat_Suc)
  have eq: "(of_nat (Suc (length entries)) :: u64) = max_vals \<longleftrightarrow> Suc (length entries) = unat max_vals"
    by (simp only: unat_u64_eq [symmetric] u1)
  show ?case
  proof (cases "vpe_power (into_inner e) = 0")
    case False
    let ?a = "entries @ [entry_power e]"
    show ?thesis
    proof (cases "Suc (length entries) = unat max_vals")
      case True
      have m: "unat max_vals - length entries = Suc 0" "(of_nat (Suc (length entries)) :: u64) = max_vals"
        by (use True in linarith) (rule eq [THEN iffD2, OF True])
      have "max_vals \<noteq> 0"
      proof
        assume "max_vals = 0"
        then have "unat max_vals = 0" by simp
        then show False using True by simp
      qed
      then show ?thesis using False w m by (simp add: Let_def del: of_nat_Suc)
    next
      case False2: False
      have "top_of max_vals (of_nat (length ?a)) ?a es = Ok (?a @ (if max_vals = 0 then id else take (unat max_vals - length ?a))
          (map entry_power (takeWhile (\<lambda>e. vpe_power (into_inner e) \<noteq> 0) es)))"
      proof (rule Cons.IH)
        show "length ?a + length es < 2 ^ 64" using Cons.prems(1) by simp
        show "length ?a < unat max_vals" if "max_vals \<noteq> 0" using Cons.prems(2) [OF that] False2 by simp
      qed
      moreover have "(of_nat (Suc (length entries)) :: u64) \<noteq> max_vals" using eq False2 by simp
      moreover have "unat max_vals - length entries = Suc (unat max_vals - length ?a)" if "max_vals \<noteq> 0"
        using Cons.prems(2) [OF that] by simp
      ultimately show ?thesis using False w by (simp add: Let_def del: of_nat_Suc)
    qed
  qed (auto simp: Let_def)
qed simp

lemma top_of_subset: "top_of max_vals i entries es = Ok r \<Longrightarrow> set r \<subseteq> set entries \<union> entry_power ` set es"
proof (induction es arbitrary: i entries)
  case (Cons e es)
  show ?case
  proof (cases "vpe_power (into_inner e) = 0")
    case False
    then obtain i' where i': "word_add i 1 = Ok i'" "(if i' = max_vals then Ok (entries @ [entry_power e]) else top_of max_vals i' (entries @ [entry_power e]) es) = Ok r"
      using Cons.prems by (auto simp: Let_def result_simps)
    show ?thesis
    proof (cases "i' = max_vals")
      case True
      then show ?thesis using i'(2) by auto
    next
      case False
      then have "set r \<subseteq> set (entries @ [entry_power e]) \<union> entry_power ` set es" using Cons.IH [of i' "entries @ [entry_power e]"] i'(2) by simp
      then show ?thesis by auto
    qed
  qed (use Cons.prems in auto)
qed simp

text \<open>What the end of a block selects, from the powers \<open>L\<close> that are recorded: the validators of
  the greatest positive powers, in descending order, as many as are allowed.\<close>

definition top_set :: "(address \<Rightarrow> bool) \<Rightarrow> (address \<Rightarrow> u64 option) \<Rightarrow> u64 \<Rightarrow> (address \<times> u64) list \<Rightarrow> bool" where
  "top_set aok L max_vals es \<longleftrightarrow> distinct (map fst es) \<and> (\<forall>(a, p) \<in> set es. aok a \<and> L a = Some p \<and> p \<noteq> 0)
     \<and> sorted_wrt (\<lambda>x y. snd y \<le> snd x) es \<and> (max_vals = 0 \<or> length es \<le> unat max_vals)
     \<and> (\<forall>a p. aok a \<and> L a = Some p \<and> p \<noteq> 0 \<longrightarrow> (a, p) \<in> set es \<or> length es = unat max_vals \<and> (\<forall>y \<in> set es. p \<le> snd y))"

lemma unat_minus_one_minus: "unat (- 1 - i :: u64) = 2 ^ 64 - 1 - unat i"
proof -
  have "i \<le> (- 1 :: u64)" by simp
  then show ?thesis by (simp add: unat_sub unsigned_minus_1_eq_mask mask_eq_exp_minus_1)
qed

text \<open>In a descending list, the entries with power are at the front.\<close>

lemma top_set_take:
  assumes "distinct (map fst ps)" and "sorted_wrt (\<lambda>x y. snd y \<le> snd x) ps" and mem: "\<And>a p. (a, p) \<in> set ps \<longleftrightarrow> aok a \<and> L a = Some p"
  shows "top_set aok L max_vals ((if max_vals = 0 then id else take (unat max_vals)) (takeWhile (\<lambda>x. snd x \<noteq> 0) ps))"
proof -
  let ?t = "takeWhile (\<lambda>x. snd x \<noteq> (0 :: u64)) ps"
  have t: "sorted_wrt (\<lambda>x y. snd y \<le> snd x) ?t" by (subst takeWhile_eq_take) (rule sorted_wrt_take [OF assms(2)])
  have td: "distinct (map fst ?t)" by (subst takeWhile_eq_take) (use assms(1) in \<open>simp add: take_map [symmetric]\<close>)
  have in_t: "(a, p) \<in> set ?t" if "(a, p) \<in> set ps" "p \<noteq> 0" for a p
    using assms(2) that
  proof (induction ps)
    case (Cons x ps)
    then show ?case by (cases "snd x = 0") (auto simp: word_le_0_iff)
  qed simp
  have pos: "\<forall>(a, p) \<in> set ?t. aok a \<and> L a = Some p \<and> p \<noteq> 0"
    using mem by (auto dest: set_takeWhileD)
  define n where "n = (if max_vals = 0 then length ?t else unat max_vals)"
  have es: "(if max_vals = 0 then id else take (unat max_vals)) ?t = take n ?t" by (simp add: n_def)
  have rest: "(a, p) \<in> set (take n ?t) \<or> length (take n ?t) = unat max_vals \<and> (\<forall>y \<in> set (take n ?t). p \<le> snd y)"
    if "aok a" "L a = Some p" "p \<noteq> 0" for a p
  proof (cases "(a, p) \<in> set (take n ?t)")
    case False
    have "(a, p) \<in> set ?t" using in_t mem that by blast
    then have d: "(a, p) \<in> set (drop n ?t)" using False by (metis Un_iff append_take_drop_id set_append)
    then have "n < length ?t" by (metis drop_eq_Nil empty_iff list.set(1) not_le_imp_less)
    then have "length (take n ?t) = unat max_vals" unfolding n_def by (auto split: if_splits)
    moreover have "\<forall>y \<in> set (take n ?t). p \<le> snd y"
      using t d unfolding sorted_wrt_append [of _ "take n ?t" "drop n ?t", unfolded append_take_drop_id] by fastforce
    ultimately show ?thesis by blast
  qed simp
  have "sorted_wrt (\<lambda>x y. snd y \<le> snd x) (take n ?t)" "distinct (map fst (take n ?t))"
    using t td by (simp_all add: sorted_wrt_take take_map [symmetric])
  moreover have "max_vals = 0 \<or> length (take n ?t) \<le> unat max_vals" by (simp add: n_def)
  moreover have "\<forall>(a, p) \<in> set (take n ?t). aok a \<and> L a = Some p \<and> p \<noteq> 0" using pos by (blast dest: in_set_takeD)
  ultimately show ?thesis unfolding top_set_def es using rest by blast
qed

lemma append_less_same_length: "length x = length y \<Longrightarrow> x @ b < y @ c \<Longrightarrow> x \<le> (y :: 'a::linorder list)"
  by (induction x y rule: list_induct2) auto

section \<open>The index\<close>

text \<open>The index has an entry for a power and a validator if and only if this is the power that was
  last recorded for the validator.\<close>

definition index_ok :: "((u64 \<times> bytes, unit) entry_map \<Rightarrow> 's \<Rightarrow> u64 \<times> bytes \<Rightarrow> unit option) \<Rightarrow> ((u64 \<times> bytes, unit) entry_map \<Rightarrow> 's \<Rightarrow> bool)
    \<Rightarrow> ((address, u64) omap \<Rightarrow> 's \<Rightarrow> address \<Rightarrow> u64 option) \<Rightarrow> ((address, u64) omap \<Rightarrow> 's \<Rightarrow> bool) \<Rightarrow> (address \<Rightarrow> bool) \<Rightarrow> 's \<Rightarrow> 'd staking \<Rightarrow> bool" where
  "index_ok plook pwf wlook wwf aok s self \<longleftrightarrow> pwf (sk_validators_by_power self) s \<and> wwf (sk_last_indexed_power self) s
     \<and> (\<forall>a i. aok a \<longrightarrow> (plook (sk_validators_by_power self) s (i, address_bytes a) = Some ()) = (wlook (sk_last_indexed_power self) s a = Some (- 1 - i)))"

locale power_index =
  by_power: sorted_map "kt_by_power T" plook pwf "\<lambda>k. aok (Address (snd k))" "\<lambda>_. True" "kt_bytes T" +
  powers: iterable_map "kt_powers T" wlook wwf aok "\<lambda>_. True" "kt_bytes T" +
  tm: map_access "kt_tm_hash T" tlook twf "\<lambda>h. length h = 20" aok
  for T :: "('s, 'd) staking_types" and plook pwf wlook wwf aok tlook twf +
  assumes power_key: "aok (Address b) \<Longrightarrow> key_bytes (mt_key (kt_by_power T)) (i, b) = be_bytes 8 (unat i) @ b"
begin

abbreviation "index \<equiv> index_ok plook pwf wlook wwf aok"

text \<open>What the steps keep: the index, and that the maps of the recorded powers and of the hashes
  are well-formed.\<close>

abbreviation kept :: "'s \<Rightarrow> 'd staking \<times> 'z abci_contexts_scheme \<Rightarrow> bool" where
  "kept s w \<equiv> index s (fst w) \<and> wwf (sk_last_validator_powers (fst w)) s \<and> twf (sk_address_for_tm_hash (fst w)) s \<and> signer_ok aok (snd w)"

lemma set_power_keeps:
  assumes "aok a"
  shows "op_keeps (kept s) (set_potential_voting_power T s a pw :: (('d, 'z) staking_world, unit) op)"
proof (rule op_keepsI)
  fix w w' :: "('d, 'z) staking_world" and r
  assume k: "kept s w" and run: "set_potential_voting_power T s a pw w = (r, w')"
  obtain self cx where w: "w = (self, cx)" by force
  let ?P = "sk_validators_by_power self" and ?L = "sk_last_indexed_power self"
  have i: "pwf ?P s" "wwf ?L s" "\<forall>a i. aok a \<longrightarrow> (plook ?P s (i, address_bytes a) = Some ()) = (wlook ?L s a = Some (- 1 - i))"
    using k w by (simp_all add: index_ok_def)
  have ka: "aok (Address (snd (i, address_bytes a)))" for i :: u64 using assms by simp
  obtain r0 where r0: "map_get (kt_powers T) ?L s a = Ok r0" "map_option ref_deref r0 = wlook ?L s a"
    using powers.get_law [OF i(2) assms] by blast
  obtain m1 where m1: "(case r0 of None \<Rightarrow> op_ok () | Some x \<Rightarrow> entry_map_delete (kt_by_power T) power_entry_ops s
        \<lparr>vpe_inverted_power = - 1 - ref_deref x, vpe_address_bytes = address_bytes a\<rparr>) ?P = (Ok (), m1)" "pwf m1 s"
      "\<forall>k. aok (Address (snd k)) \<longrightarrow> plook m1 s k = (if (\<exists>v. wlook ?L s a = Some v \<and> k = (- 1 - v, address_bytes a)) then None else plook ?P s k)"
  proof (cases r0)
    case None
    then show ?thesis using that [of ?P] r0(2) i(1) by simp
  next
    case (Some x)
    obtain m' where "map_remove (kt_by_power T) s (- 1 - ref_deref x, address_bytes a) ?P
          = (Ok (map_option ReadOnly (plook ?P s (- 1 - ref_deref x, address_bytes a))), m')" "pwf m' s"
        "\<forall>k. aok (Address (snd k)) \<longrightarrow> plook m' s k = (if k = (- 1 - ref_deref x, address_bytes a) then None else plook ?P s k)"
      using by_power.remove_law [OF i(1) ka] by blast
    moreover have "wlook ?L s a = Some (ref_deref x)" using r0(2) Some by simp
    ultimately show ?thesis using Some by (intro that [of m']) (simp_all add: entry_map_delete_def power_entry_ops_def op_bind_def)
  qed
  obtain m2 where m2: "map_insert (kt_by_power T) (- 1 - pw, address_bytes a) () m1 = (Ok (), m2)" "pwf m2 s"
      "\<forall>k. aok (Address (snd k)) \<longrightarrow> plook m2 s k = (if k = (- 1 - pw, address_bytes a) then Some () else plook m1 s k)"
    using by_power.insert_law [OF m1(2) ka TrueI] by blast
  obtain l where l: "map_insert (kt_powers T) a pw ?L = (Ok (), l)" "wwf l s"
      "\<forall>a'. aok a' \<longrightarrow> wlook l s a' = (if a' = a then Some pw else wlook ?L s a')"
    using powers.insert_law [OF i(2) assms TrueI] by blast
  have w': "w' = (self\<lparr>sk_validators_by_power := m2, sk_last_indexed_power := l\<rparr>, cx)"
    using run r0(1) m1(1) m2(1) l(1) unfolding w
    by (cases r0) (auto simp: set_potential_voting_power_def op_bind_def staking_read_def on_field_def on_staking_def entry_map_insert_def power_entry_ops_def)
  have neg: "(- 1 - i = (v :: u64)) \<longleftrightarrow> (i = - 1 - v)" for i v by (auto simp: diff_eq_eq eq_diff_eq add.commute)
  have "(plook m2 s (i, address_bytes a') = Some ()) = (wlook l s a' = Some (- 1 - i))" if a': "aok a'" for a' i
  proof (cases "a' = a")
    case True
    have p: "aok (Address (snd (i, address_bytes a')))" using a' by simp
    have ix: "(plook ?P s (i, address_bytes a') = Some ()) = (wlook ?L s a' = Some (- 1 - i))" using i(3) a' by blast
    show ?thesis
      using m2(3) [rule_format, OF p] m1(3) [rule_format, OF p] l(3) [rule_format, OF a'] ix True
      by (auto simp: neg)
  next
    case False
    then have d: "address_bytes a' \<noteq> address_bytes a" by (metis address.expand)
    have p: "aok (Address (snd (i, address_bytes a')))" using a' by simp
    show ?thesis
      using m2(3) [rule_format, OF p] m1(3) [rule_format, OF p] l(3) [rule_format, OF a'] i(3) [rule_format, OF a', of i] False d by auto
  qed
  then show "kept s w'" using k m2(2) l(2) unfolding w w' by (simp add: index_ok_def)
qed

text \<open>A value read from the state is known to come from a state with the property.\<close>

lemma kept_frames: "frames f \<Longrightarrow> op_keeps (kept s) f"
  by (erule frames_keeps) (simp add: core_def index_ok_def signer_ok_def)

lemma signer_bind:
  assumes "\<And>a. aok a \<Longrightarrow> op_keeps (kept s) (f a)"
  shows "op_keeps (kept s) (op_bind staking_signer f :: (('d, 'z) staking_world, 'a) op)"
  unfolding staking_signer_def
proof (rule op_keeps_read_bind)
  fix w :: "('d, 'z) staking_world" and a
  assume "kept s w" "(case w of (self, cx) \<Rightarrow> and_then (ok_or (Error_Coins ''No Signer context available'') (context_resolve cx_signer cx))
      (\<lambda>ctx. ok_or (Error_Coins ''Call must be signed'') (signer_signer ctx))) = Ok a"
  then have "cx_signer (snd w) = Some (Signer (Some a)) \<and> signer_ok aok (snd w)" by (cases w) (auto simp: result_simps signer.expand)
  then have "aok a" by (simp add: signer_ok_def)
  then show "op_keeps (kept s) (f a)" by (rule assms)
qed

lemma update_vp_keeps: "aok v \<Longrightarrow> op_keeps (kept s) (update_vp T s v)"
  unfolding update_vp_def by (intro op_keeps_bind kept_frames frame_rules set_power_keeps)

lemma delegate_keeps: "aok v \<Longrightarrow> op_keeps (kept s) (staking_delegate T s v d c)"
  unfolding staking_delegate_def by (intro op_keeps_bind update_vp_keeps kept_frames frame_rules)

lemma unbond_keeps: "aok v \<Longrightarrow> op_keeps (kept s) (staking_unbond T s v d a)"
  unfolding staking_unbond_def by (intro op_keeps_bind update_vp_keeps kept_frames frame_rules)

lemma redelegate_keeps: "aok v \<Longrightarrow> aok v' \<Longrightarrow> op_keeps (kept s) (staking_redelegate T s v v' d a)"
  unfolding staking_redelegate_def
  by (intro op_keeps_if op_keeps_bind op_keeps_split op_keeps_simps update_vp_keeps; (assumption | rule kept_frames, intro frame_rules))

lemma punish_keeps: "aok v \<Longrightarrow> op_keeps (kept s) (punish_downtime T s v)" "aok v \<Longrightarrow> op_keeps (kept s) (punish_double_sign T s v)"
  unfolding punish_downtime_def punish_double_sign_def slash_redelegated_def
  by (intro op_keeps_bind update_vp_keeps kept_frames frame_rules; assumption)+

lemma tm_insert_keeps:
  assumes "length h = 20" "aok v"
  shows "op_keeps (kept s) (on_field sk_address_for_tm_hash sk_address_for_tm_hash_update (map_insert (kt_tm_hash T) h v) :: (('d, 'z) staking_world, unit) op)"
proof (rule op_keepsI)
  fix w w' :: "('d, 'z) staking_world" and r
  assume k: "kept s w" and run: "on_field sk_address_for_tm_hash sk_address_for_tm_hash_update (map_insert (kt_tm_hash T) h v) w = (r, w')"
  then obtain m where "map_insert (kt_tm_hash T) h v (sk_address_for_tm_hash (fst w)) = (Ok (), m)" "twf m s"
    using tm.access_insert [OF _ assms, of "sk_address_for_tm_hash (fst w)" s] by blast
  with run k show "kept s w'" by (cases w) (auto simp: on_field_def on_staking_def index_ok_def)
qed

lemma declare_keeps:
  assumes "aok v"
  shows "op_keeps (kept s) (staking_declare T s v decl coins)"
proof -
  have l: "length h = 20" if "tm_pubkey_hash T k = Ok h" for k h using that by (auto simp: tm_pubkey_hash_def Let_def split: if_splits)
  show ?thesis
    unfolding staking_declare_def
    apply (rule op_keeps_bind, rule kept_frames, rule frame_rules)
    apply (clarsimp split: if_splits)
    apply (rule op_keeps_bind, rule kept_frames, rule frame_rules)
    apply (rule op_keeps_lift_bind)
    apply (rule op_keeps_bind, rule kept_frames, rule frame_rules)
    apply (clarsimp split: if_splits)
    apply (intro op_keeps_bind delegate_keeps assms tm_insert_keeps l; (assumption | rule kept_frames, intro frame_rules))
    done
qed

text \<open>Every call, and every block.\<close>

lemma call_keeps:
  assumes "step_ok aok (StakingCall cx c)"
  shows "op_keeps (kept s) (staking_run T s c)"
proof (cases c)
  case (UnbondSelf v a)
  then have v: "aok v" using assms by simp_all
  show ?thesis unfolding UnbondSelf unbond_self_def staking_run.simps
    by (intro op_keeps_bind signer_bind unbond_keeps; (rule v | rule kept_frames, intro frame_rules))
next
  case (RedelegateSelf v w a)
  then have v: "aok v" "aok w" using assms by simp_all
  show ?thesis unfolding RedelegateSelf redelegate_self_def staking_run.simps
    by (intro op_keeps_bind signer_bind redelegate_keeps; (rule v | rule kept_frames, intro frame_rules))
next
  case (DeclareSelf decl)
  show ?thesis unfolding DeclareSelf declare_self_def staking_run.simps
    by (intro op_keeps_bind signer_bind declare_keeps; (assumption | rule kept_frames, intro frame_rules))
next
  case (DelegateFromSelf v a)
  then have v: "aok v" using assms by simp_all
  show ?thesis unfolding DelegateFromSelf delegate_from_self_def staking_run.simps
    by (intro op_keeps_bind signer_bind delegate_keeps; (rule v | rule kept_frames, intro frame_rules))
next
  case Unjail
  show ?thesis unfolding Unjail staking_unjail_def staking_run.simps
    by (intro op_keeps_bind signer_bind update_vp_keeps; (assumption | rule kept_frames, intro frame_rules))
qed (simp_all add: edit_validator_self_def kept_frames frame_rules)

lemma tm_get_bind:
  assumes "length h = 20" "op_keeps (kept s) (f None)" "\<And>a. aok (ref_deref a) \<Longrightarrow> op_keeps (kept s) (f (Some a))"
  shows "op_keeps (kept s) (op_bind (staking_read (\<lambda>self. map_get (kt_tm_hash T) (sk_address_for_tm_hash self) s h)) f :: (('d, 'z) staking_world, 'a) op)"
  unfolding staking_read_def
proof (rule op_keeps_read_bind)
  fix w :: "('d, 'z) staking_world" and x
  assume w: "kept s w" "(case w of (self, cx) \<Rightarrow> map_get (kt_tm_hash T) (sk_address_for_tm_hash self) s h) = Ok x"
  obtain r where r: "map_get (kt_tm_hash T) (sk_address_for_tm_hash (fst w)) s h = Ok r" "map_option ref_deref r = tlook (sk_address_for_tm_hash (fst w)) s h"
    using tm.access_get w(1) assms(1) by blast
  then have "x = r" using w(2) by (cases w) simp
  then show "op_keeps (kept s) (f x)"
    using assms(2,3) r(2) tm.access_ok [OF _ assms(1)] w(1) by (cases r) auto
qed

lemma evidence_keeps: "op_keeps (kept s) (punish_evidence T s ev)"
proof -
  have l: "length h = 20" if "tm_hash_of b = Ok h" for b h using that by (auto simp: tm_hash_of_def split: if_splits)
  show ?thesis
    unfolding punish_evidence_def punish_light_client_attack_def
    by (cases "evi_type ev") (auto split: option.splits intro!: op_keeps_lift_bind tm_get_bind punish_keeps dest: l)
qed

lemma offline_keeps: "length h = 20 \<Longrightarrow> op_keeps (kept s) (punish_offline T s h)"
  unfolding punish_offline_def
  by (rule tm_get_bind; simp; intro op_keeps_bind op_keeps_if op_keeps_simps punish_keeps; (assumption | rule kept_frames, intro frame_rules))

section \<open>The end of a block\<close>

lemma new_validators_law:
  assumes "index s self" and "card {a. aok a \<and> wlook (sk_last_indexed_power self) s a \<noteq> None} < 2 ^ 64"
    and "finite {a. aok a}"
  shows "\<exists>es. new_validators T s self = Ok es \<and> top_set aok (wlook (sk_last_indexed_power self) s) (sk_max_validators self) es"
proof -
  let ?P = "sk_validators_by_power self" and ?L = "wlook (sk_last_indexed_power self) s" and ?max = "sk_max_validators self"
  have i: "pwf ?P s" "\<forall>a i. aok a \<longrightarrow> (plook ?P s (i, address_bytes a) = Some ()) = (?L a = Some (- 1 - i))"
    using assms(1) by (simp_all add: index_ok_def)
  obtain it xs where it: "map_iter_all (kt_by_power T) (kt_bytes T) ?P = Ok it"
      "collect (map_iter_step (kt_by_power T) ?P s True) (mt_fuel (kt_by_power T)) it = Some (Ok xs)"
      and xs: "distinct (map fst (map ref_pair xs))" "\<forall>k v. (k, v) \<in> set (map ref_pair xs) \<longleftrightarrow> aok (Address (snd k)) \<and> plook ?P s k = Some v"
    using by_power.collect_law [OF i(1)] by blast
  define ys where "ys = map ref_pair xs"
  let ?f = "\<lambda>((i, b), _ :: unit). (Address b, - 1 - i :: u64)"
  let ?es = "map (\<lambda>x. ReadOnly (from_entry power_entry_ops (ref_pair x))) xs"
  have ep: "entry_power (ReadOnly (from_entry power_entry_ops kv)) = ?f kv" for kv
    by (auto simp: power_entry_ops_def vpe_power_def split: prod.splits)
  have "sorted_wrt (<) (map (key_bytes (mt_key (kt_by_power T))) (map fst ys))"
    by (rule by_power.sorted_law [OF i(1)]) (simp only: map_to_list_def it ys_def and_then.simps option.case)
  then have srt: "sorted_wrt (\<lambda>x y. key_bytes (mt_key (kt_by_power T)) (fst x) < key_bytes (mt_key (kt_by_power T)) (fst y)) ys"
    by (simp add: sorted_wrt_map)
  have desc: "sorted_wrt (\<lambda>x y. snd y \<le> snd x) (map ?f ys)"
    unfolding sorted_wrt_map
  proof (rule sorted_wrt_mono_rel [OF _ srt])
    fix x y assume x: "x \<in> set ys" and y: "y \<in> set ys"
      and lt: "key_bytes (mt_key (kt_by_power T)) (fst x) < key_bytes (mt_key (kt_by_power T)) (fst y)"
    obtain i b where [simp]: "x = ((i, b), ())" by (cases x) auto
    obtain j c where [simp]: "y = ((j, c), ())" by (cases y) auto
    have "aok (Address b)" "aok (Address c)" using x y xs(2) [folded ys_def] by auto
    then have "be_bytes 8 (unat i) @ b < be_bytes 8 (unat j) @ c" using lt power_key by simp
    then have "be_bytes 8 (unat i) \<le> be_bytes 8 (unat j)" by (rule append_less_same_length [rotated]) simp
    moreover have "unat i < 256 ^ 8" "unat j < 256 ^ 8" using unsigned_less [of i] unsigned_less [of j] by simp_all
    ultimately have "unat i \<le> unat j" using be_bytes_less_iff [of "unat j" 8 "unat i"] by (metis linorder_not_less)
    then show "snd (?f y) \<le> snd (?f x)" by (simp add: word_le_nat_alt unat_minus_one_minus)
  qed
  have mem: "(a, p) \<in> set (map ?f ys) \<longleftrightarrow> aok a \<and> ?L a = Some p" for a p
  proof -
    have "(a, p) \<in> set (map ?f ys) \<longleftrightarrow> ((- 1 - p, address_bytes a), ()) \<in> set ys"
      by (force simp: image_iff)
    then show ?thesis using xs(2) [folded ys_def] i(2) by (auto simp del: set_map)
  qed
  have inj: "inj_on ?f (set ys)" by (auto intro!: inj_onI)
  have keys: "p = q" if "(a, p) \<in> set (map ?f ys)" "(a, q) \<in> set (map ?f ys)" for a p q using mem that by auto
  have "distinct ys" using xs(1) unfolding ys_def [symmetric] distinct_map [of fst] by (rule conjunct1)
  then have "distinct (map ?f ys)" using inj by (simp add: distinct_map)
  moreover have "inj_on fst (set (map ?f ys))" using keys by (auto intro!: inj_onI simp del: set_map)
  ultimately have dist: "distinct (map fst (map ?f ys))" unfolding distinct_map [of fst] by blast
  have "set (map fst (map ?f ys)) \<subseteq> {a. aok a \<and> ?L a \<noteq> None}" using mem by (auto simp del: map_map set_map simp: set_map [of fst])
  then have "card (set (map fst (map ?f ys))) \<le> card {a. aok a \<and> ?L a \<noteq> None}"
    by (rule card_mono [rotated]) (use assms(3) in \<open>auto intro: finite_subset\<close>)
  then have len: "length ?es < 2 ^ 64" using assms(2) distinct_card [OF dist] by (simp add: ys_def)
  have "new_validators T s self = top_of ?max 0 [] ?es"
    using it top_validators_collect [OF collect_entry_map [OF it(2), of power_entry_ops]] by (simp add: new_validators_def entry_map_iter_def)
  also have "\<dots> = Ok ((if ?max = 0 then id else take (unat ?max)) (map entry_power (takeWhile (\<lambda>e. vpe_power (into_inner e) \<noteq> 0) ?es)))"
    using top_of_take [of "[]" ?es ?max] len by (simp add: unat_gt_0)
  also have "map entry_power (takeWhile (\<lambda>e. vpe_power (into_inner e) \<noteq> 0) ?es) = takeWhile (\<lambda>x. snd x \<noteq> 0) (map entry_power ?es)"
    by (simp add: takeWhile_map comp_def)
  also have "map entry_power ?es = map ?f ys" unfolding ys_def map_map by (rule map_cong) (simp_all only: ep comp_def)
  finally show ?thesis using top_set_take [OF dist desc mem] by blast
qed

lemma new_validators_ok:
  assumes "index s self" and "new_validators T s self = Ok es" and "(a, p) \<in> set es"
  shows "aok a"
proof -
  let ?P = "sk_validators_by_power self"
  have "pwf ?P s" using assms(1) by (simp add: index_ok_def)
  then obtain it xs where it: "map_iter_all (kt_by_power T) (kt_bytes T) ?P = Ok it"
      "collect (map_iter_step (kt_by_power T) ?P s True) (mt_fuel (kt_by_power T)) it = Some (Ok xs)"
      and xs: "\<forall>k v. (k, v) \<in> set (map ref_pair xs) \<longleftrightarrow> aok (Address (snd k)) \<and> plook ?P s k = Some v"
    using by_power.collect_law by blast
  let ?es = "map (\<lambda>x. ReadOnly (from_entry power_entry_ops (ref_pair x))) xs"
  have "top_of (sk_max_validators self) 0 [] ?es = Ok es"
    using assms(2) it top_validators_collect [OF collect_entry_map [OF it(2), of power_entry_ops]] by (simp add: new_validators_def entry_map_iter_def)
  from top_of_subset [OF this] assms(3) obtain x where x: "x \<in> set xs" "(a, p) = entry_power (ReadOnly (from_entry power_entry_ops (ref_pair x)))"
    by auto
  obtain k v where k: "ref_pair x = (k, v)" by (rule prod.exhaust)
  have "(k, v) \<in> set (map ref_pair xs)" unfolding k [symmetric] set_map by (rule imageI [OF x(1)])
  then have "aok (Address (snd k))" using xs by blast
  then show ?thesis using x(2) k by (cases k) (simp add: power_entry_ops_def)
qed

lemma changed_law:
  assumes "wwf (sk_last_validator_powers self) s" and "\<And>a p. (a, p) \<in> set es \<Longrightarrow> aok a"
  shows "changed_powers T s self es = Ok (filter (\<lambda>(a, p). wlook (sk_last_validator_powers self) s a \<noteq> Some p) es)"
  using assms(2)
proof (induction es)
  case (Cons x es)
  obtain a p where x: "x = (a, p)" by force
  obtain r where "map_get (kt_powers T) (sk_last_validator_powers self) s a = Ok r" "map_option ref_deref r = wlook (sk_last_validator_powers self) s a"
    using powers.get_law [OF assms(1)] Cons.prems x by (metis list.set_intros(1))
  moreover have "changed_powers T s self es = Ok (filter (\<lambda>(a, p). wlook (sk_last_validator_powers self) s a \<noteq> Some p) es)"
    by (rule Cons.IH) (use Cons.prems in auto)
  ultimately show ?case using x by (cases r) (auto dest: sym)
qed simp

lemma fold_result_dropped:
  "fold_result (\<lambda>x ups. Ok (if f x \<in> A then ups else ups @ [(f x, 0)])) xs acc = Ok (acc @ map (\<lambda>a. (a, 0 :: u64)) (filter (\<lambda>a. a \<notin> A) (map f xs)))"
  by (induction xs arbitrary: acc) simp_all

lemma dropped_law:
  assumes "wwf (sk_last_validator_powers self) s"
  shows "\<exists>as. dropped_validators T s self es = Ok (map (\<lambda>a. (a, 0)) as) \<and> distinct as
    \<and> set as = {a. aok a \<and> wlook (sk_last_validator_powers self) s a \<noteq> None \<and> a \<notin> fst ` set es}"
proof -
  let ?m = "sk_last_validator_powers self"
  obtain it xs where it: "map_iter_all (kt_powers T) (kt_bytes T) ?m = Ok it"
      "collect (map_iter_step (kt_powers T) ?m s True) (mt_fuel (kt_powers T)) it = Some (Ok xs)"
      and xs: "distinct (map fst (map ref_pair xs))" "\<forall>k v. (k, v) \<in> set (map ref_pair xs) \<longleftrightarrow> aok k \<and> wlook ?m s k = Some v"
    using powers.collect_law [OF assms] by blast
  define ys where "ys = map ref_pair xs"
  let ?as = "filter (\<lambda>a. a \<notin> set (map fst es)) (map fst ys)"
  have "dropped_validators T s self es = Ok (map (\<lambda>a. (a, 0)) ?as)"
    unfolding dropped_validators_def it(1) and_then.simps for_each_collect [OF it(2)]
      fold_result_dropped [of "\<lambda>x. fst (ref_pair x)" "set (map fst es)" xs "[]"]
    by (simp add: ys_def comp_def)
  moreover have "distinct ?as" using xs(1) [folded ys_def] by (rule distinct_filter)
  moreover have "a \<in> set (map fst ys) \<longleftrightarrow> aok a \<and> wlook ?m s a \<noteq> None" for a
    using xs(2) [folded ys_def] by force
  then have "set ?as = {a. aok a \<and> wlook ?m s a \<noteq> None \<and> a \<notin> fst ` set es}" by auto
  ultimately show ?thesis by blast
qed

lemma record_law:
  assumes "wwf m s" and "distinct (map fst ups)" and "\<And>a p. (a, p) \<in> set ups \<Longrightarrow> aok a"
  shows "\<exists>m'. op_each (record_power T s) ups m = (Ok (), m') \<and> wwf m' s
    \<and> (\<forall>a. aok a \<longrightarrow> wlook m' s a = (case map_of ups a of None \<Rightarrow> wlook m s a | Some p \<Rightarrow> if p = 0 then None else Some p))"
  using assms
proof (induction ups arbitrary: m)
  case (Cons x ups)
  obtain a p where x: "x = (a, p)" by force
  have a: "aok a" using Cons.prems(3) x by (metis list.set_intros(1))
  obtain m1 where m1: "record_power T s x m = (Ok (), m1)" "wwf m1 s"
      "\<forall>b. aok b \<longrightarrow> wlook m1 s b = (if b = a then (if p = 0 then None else Some p) else wlook m s b)"
  proof (cases "p = 0")
    case True
    then show ?thesis using powers.remove_law [OF Cons.prems(1) a] x that by (auto simp: record_power_def op_bind_def)
  next
    case False
    then have "0 < p" by (simp add: word_gt_0)
    then show ?thesis using powers.insert_law [OF Cons.prems(1) a TrueI, of p] x that False by (auto simp: record_power_def)
  qed
  obtain m2 where m2: "op_each (record_power T s) ups m1 = (Ok (), m2)" "wwf m2 s"
      "\<forall>a. aok a \<longrightarrow> wlook m2 s a = (case map_of ups a of None \<Rightarrow> wlook m1 s a | Some p \<Rightarrow> if p = 0 then None else Some p)"
    using Cons.IH [OF m1(2)] Cons.prems(2,3) by auto
  have na: "map_of ups a = None" using Cons.prems(2) x by (simp add: map_of_eq_None_iff)
  have "wlook m2 s b = (case map_of (x # ups) b of None \<Rightarrow> wlook m s b | Some p \<Rightarrow> if p = 0 then None else Some p)" if b: "aok b" for b
  proof (cases "b = a")
    case True
    then show ?thesis using m2(3) [rule_format, OF b] m1(3) [rule_format, OF b] x na by simp
  next
    case False
    then show ?thesis using m2(3) [rule_format, OF b] m1(3) [rule_format, OF b] x by (simp split: option.splits)
  qed
  then show ?case using m1(1) m2(1,2) by (intro exI [of _ m2]) (simp add: op_bind_def)
qed simp

text \<open>The updates: together with them, the powers of the block before become those of the new set.\<close>

lemma updates_law:
  assumes "wwf (sk_last_validator_powers self) s" and es: "\<And>a p. (a, p) \<in> set es \<Longrightarrow> aok a \<and> p \<noteq> 0" and "distinct (map fst es)"
  shows "\<exists>ups. and_then (changed_powers T s self es) (\<lambda>changed. and_then (dropped_validators T s self es) (\<lambda>dropped. Ok (changed @ dropped))) = Ok ups
    \<and> distinct (map fst ups) \<and> (\<forall>(a, p) \<in> set ups. aok a)
    \<and> (\<forall>a. aok a \<longrightarrow> (case map_of ups a of None \<Rightarrow> wlook (sk_last_validator_powers self) s a | Some p \<Rightarrow> if p = 0 then None else Some p) = map_of es a)"
proof -
  let ?W = "wlook (sk_last_validator_powers self) s" and ?c = "filter (\<lambda>(a, p). wlook (sk_last_validator_powers self) s a \<noteq> Some p) es"
  obtain as where as: "dropped_validators T s self es = Ok (map (\<lambda>a. (a, 0)) as)" "distinct as"
      "set as = {a. aok a \<and> ?W a \<noteq> None \<and> a \<notin> fst ` set es}"
    using dropped_law [OF assms(1)] by blast
  let ?d = "map (\<lambda>a. (a, 0 :: u64)) as"
  have fd: "map fst ?d = as" by (simp add: comp_def)
  have dc: "distinct (map fst ?c)" using assms(3) by (rule distinct_map_filter)
  have disj: "set (map fst ?c) \<inter> set as = {}" using as(3) by auto
  have d: "distinct (map fst (?c @ ?d))" unfolding map_append fd using dc as(2) disj by simp
  have "(case map_of (?c @ ?d) a of None \<Rightarrow> ?W a | Some p \<Rightarrow> if p = 0 then None else Some p) = map_of es a" if a: "aok a" for a
  proof (cases "map_of es a")
    case None
    then have ne: "a \<notin> fst ` set es" by (simp add: map_of_eq_None_iff)
    then have "map_of ?c a = None" by (auto simp: map_of_eq_None_iff)
    moreover have "map_of ?d a = (if ?W a = None then None else Some 0)"
    proof (cases "a \<in> set as")
      case True
      then have "(a, 0) \<in> set ?d" by simp
      then have "map_of ?d a = Some 0" using as(2) fd by (metis map_of_eq_Some_iff)
      then show ?thesis using True as(3) by simp
    next
      case False
      then have "map_of ?d a = None" unfolding map_of_eq_None_iff by force
      then show ?thesis using False as(3) ne a by simp
    qed
    ultimately show ?thesis using None by (simp add: map_add_def)
  next
    case (Some p)
    then have m: "(a, p) \<in> set es" by (rule map_of_SomeD)
    then have "a \<notin> set as" using as(3) by force
    then have nd: "map_of ?d a = None" unfolding map_of_eq_None_iff by force
    show ?thesis
    proof (cases "?W a = Some p")
      case True
      then have "map_of ?c a = None"
        unfolding map_of_eq_None_iff using assms(3) m by (force dest: eq_key_imp_eq_value)
      then show ?thesis using nd Some True by (simp add: map_add_def)
    next
      case False
      then have "(a, p) \<in> set ?c" using m by simp
      then have "map_of ?c a = Some p" using dc by (metis map_of_eq_Some_iff)
      then show ?thesis using nd Some es [OF m] by (simp add: map_add_def)
    qed
  qed
  moreover have "\<forall>(a, p) \<in> set (?c @ ?d). aok a" using es as(3) by auto
  ultimately show ?thesis using changed_law [OF assms(1), of es] es as(1) d by auto
qed

text \<open>A block that ends without an error.\<close>

lemma end_block_law:
  assumes k: "kept s w" and run: "end_block_step T s ctx w = (Ok (), w')"
    and "card {a. aok a \<and> wlook (sk_last_indexed_power (fst w)) s a \<noteq> None} < 2 ^ 64" and "finite {a. aok a}"
  shows "\<exists>es. top_set aok (wlook (sk_last_indexed_power (fst w)) s) (sk_max_validators (fst w)) es
    \<and> (\<forall>a. aok a \<longrightarrow> wlook (sk_last_validator_powers (fst w')) s a = map_of es a)"
proof -
  let ?L = "wlook (sk_last_indexed_power (fst w)) s" and ?upd = "\<lambda>es self. and_then (changed_powers T s self es)
      (\<lambda>changed. and_then (dropped_validators T s self es) (\<lambda>dropped. Ok (changed @ dropped)))"
  obtain w1 es ups u w2 cs w3 u' where
      w1: "process_all_queues T s w = (Ok (), w1)" and es: "new_validators T s (fst w1) = Ok es" and ups: "?upd es (fst w1) = Ok ups"
      and w2: "op_each (apply_activity T s (eb_height ctx)) ups w1 = (Ok u, w2)" and cs: "consensus_updates T s (fst w2) ups = Ok cs"
      and w3: "staking_validators_ctx (op_each (\<lambda>(key, pw). set_voting_power (kt_abci T) key pw) cs) w2 = (Ok u', w3)"
      and w': "on_field sk_last_validator_powers sk_last_validator_powers_update (op_each (record_power T s) ups) w3 = (Ok (), w')"
    using run unfolding end_block_step_def staking_read_def by (auto simp: result_simps split: prod.splits)
  have c1: "core w1 = core w" by (rule framesD [OF frames_queues w1])
  have f: "frames (op_each (apply_activity T s (eb_height ctx)) ups)" by (intro frame_rules)
  have c2: "core w2 = core w1" by (rule framesD [OF f w2])
  have c3: "core w3 = core w2" by (rule framesD [OF frames_contexts(6) w3])
  have k1: "kept s w1" using op_keepsD [OF kept_frames [OF frames_queues] k w1] .
  have same: "sk_last_indexed_power (fst w1) = sk_last_indexed_power (fst w)" "sk_max_validators (fst w1) = sk_max_validators (fst w)"
      "sk_last_validator_powers (fst w3) = sk_last_validator_powers (fst w1)"
    using c1 c2 c3 by (simp_all add: core_def)
  obtain es' where "new_validators T s (fst w1) = Ok es'" "top_set aok ?L (sk_max_validators (fst w)) es'"
    using new_validators_law [of s "fst w1"] k1 assms(3,4) unfolding same(1,2) by blast
  then have top: "top_set aok ?L (sk_max_validators (fst w)) es" using es by simp
  then have es_ok: "\<And>a p. (a, p) \<in> set es \<Longrightarrow> aok a \<and> p \<noteq> 0" and es_d: "distinct (map fst es)" by (auto simp: top_set_def)
  have wf1: "wwf (sk_last_validator_powers (fst w1)) s" using k1 by blast
  obtain ups' where "?upd es (fst w1) = Ok ups'" "distinct (map fst ups')" "\<forall>(a, p) \<in> set ups'. aok a"
      "\<forall>a. aok a \<longrightarrow> (case map_of ups' a of None \<Rightarrow> wlook (sk_last_validator_powers (fst w1)) s a | Some p \<Rightarrow> if p = 0 then None else Some p) = map_of es a"
    using updates_law [OF wf1 es_ok es_d] by blast
  then have u: "distinct (map fst ups)" "\<And>a p. (a, p) \<in> set ups \<Longrightarrow> aok a"
      "\<forall>a. aok a \<longrightarrow> (case map_of ups a of None \<Rightarrow> wlook (sk_last_validator_powers (fst w1)) s a | Some p \<Rightarrow> if p = 0 then None else Some p) = map_of es a"
    using ups by auto
  obtain m' where "op_each (record_power T s) ups (sk_last_validator_powers (fst w3)) = (Ok (), m')"
      "\<forall>a. aok a \<longrightarrow> wlook m' s a = (case map_of ups a of None \<Rightarrow> wlook (sk_last_validator_powers (fst w3)) s a | Some p \<Rightarrow> if p = 0 then None else Some p)"
    using record_law [of "sk_last_validator_powers (fst w3)" s ups] wf1 u(1,2) unfolding same(3) by blast
  moreover from this(1) have "sk_last_validator_powers (fst w') = m'"
    using w' by (cases w3) (auto simp: on_field_def on_staking_def)
  ultimately show ?thesis using top u(3) unfolding same(3) by (intro exI [of _ es]) simp
qed

lemma record_keeps:
  assumes "\<And>a p. (a, p) \<in> set ups \<Longrightarrow> aok a"
  shows "op_keeps (kept s) (on_field sk_last_validator_powers sk_last_validator_powers_update (op_each (record_power T s) ups) :: (('d, 'z) staking_world, unit) op)"
proof (rule op_keepsI)
  fix w w' :: "('d, 'z) staking_world" and r
  assume k: "kept s w" and run: "on_field sk_last_validator_powers sk_last_validator_powers_update (op_each (record_power T s) ups) w = (r, w')"
  have one: "op_keeps (\<lambda>m. wwf m s) (record_power T s (a, p))" if "aok a" for a p
  proof (rule op_keepsI)
    fix m r' m' assume "wwf m s" "record_power T s (a, p) m = (r', m')"
    then show "wwf m' s"
      using powers.insert_law [of m s a p] powers.remove_law [of m s a] that by (cases "0 < p") (auto simp: record_power_def op_bind_def)
  qed
  have "op_keeps (\<lambda>m. wwf m s) (op_each (record_power T s) ups)"
    by (rule op_keeps_each) (use assms one in auto)
  then have "wwf (snd (op_each (record_power T s) ups (sk_last_validator_powers (fst w)))) s"
    using k op_keepsD by (metis (no_types, lifting) prod.collapse)
  then show "kept s w'" using k run by (cases w) (auto simp: on_field_def on_staking_def index_ok_def split: prod.splits)
qed

lemma end_block_keeps: "op_keeps (kept s) (end_block_step T s ctx :: (('d, 'z) staking_world, unit) op)"
  unfolding end_block_step_def
proof (rule op_keeps_bind, rule kept_frames, rule frame_rules)
  have r: "op_keeps (kept s) (op_bind (staking_read (\<lambda>self. and_then (changed_powers T s self es)
        (\<lambda>changed. and_then (dropped_validators T s self es) (\<lambda>dropped. Ok (changed @ dropped))))) f)"
    if es: "\<And>a p. (a, p) \<in> set es \<Longrightarrow> aok a" and f: "\<And>ups. (\<And>a p. (a, p) \<in> set ups \<Longrightarrow> aok a) \<Longrightarrow> op_keeps (kept s) (f ups)"
    for es and f :: "_ \<Rightarrow> (('d, 'z) staking_world, unit) op"
    unfolding staking_read_def
  proof (rule op_keeps_read_bind)
    fix w :: "('d, 'z) staking_world" and ups
    assume w: "kept s w" and u: "(case w of (self, cx) \<Rightarrow> and_then (changed_powers T s self es)
        (\<lambda>changed. and_then (dropped_validators T s self es) (\<lambda>dropped. Ok (changed @ dropped)))) = Ok ups"
    have wf: "wwf (sk_last_validator_powers (fst w)) s" using w by blast
    obtain as where as: "dropped_validators T s (fst w) es = Ok (map (\<lambda>a. (a, 0)) as)" "\<forall>a \<in> set as. aok a" using dropped_law [OF wf] by blast
    have "ups = filter (\<lambda>(a, p). wlook (sk_last_validator_powers (fst w)) s a \<noteq> Some p) es @ map (\<lambda>a. (a, 0)) as"
      using u as(1) changed_law [OF wf es] by (cases w) simp
    then show "op_keeps (kept s) (f ups)" using es as(2) by (intro f) auto
  qed
  fix u :: unit
  show "op_keeps (kept s) (op_bind (staking_read (new_validators T s)) (\<lambda>new_val_entries.
     op_bind (staking_read (\<lambda>self. and_then (changed_powers T s self new_val_entries) (\<lambda>changed.
       and_then (dropped_validators T s self new_val_entries) (\<lambda>dropped. Ok (changed @ dropped))))) (\<lambda>new_power_updates.
     op_bind (op_each (apply_activity T s (eb_height ctx)) new_power_updates) (\<lambda>_.
     op_bind (staking_read (\<lambda>self. consensus_updates T s self new_power_updates)) (\<lambda>new_power_updates_con.
     op_bind (staking_validators_ctx (op_each (\<lambda>(key, pw). set_voting_power (kt_abci T) key pw) new_power_updates_con)) (\<lambda>_.
     on_field sk_last_validator_powers sk_last_validator_powers_update (op_each (record_power T s) new_power_updates)))))) :: (('d, 'z) staking_world, unit) op)"
    unfolding staking_read_def [of "new_validators T s"]
  proof (rule op_keeps_read_bind, rule r)
    fix w :: "('d, 'z) staking_world" and es a p
    assume "kept s w" "(case w of (self, cx) \<Rightarrow> new_validators T s self) = Ok es" "(a, p) \<in> set es"
    then show "aok a" using new_validators_ok [of s "fst w" es a p] by (cases w) simp
  qed (intro op_keeps_bind record_keeps; (blast | rule kept_frames, intro frame_rules))
qed

lemma begin_block_keeps: "op_keeps (kept s) (staking_begin_block T s ctx :: (('d, 'z) staking_world, unit) op)"
proof -
  have f: "for_each nx body fuel it acc = Ok r \<Longrightarrow> Q acc \<Longrightarrow> (\<And>x acc acc'. Q acc \<Longrightarrow> body x acc = Ok acc' \<Longrightarrow> Q acc') \<Longrightarrow> Q r"
    for nx :: "(bytes, u64) map_iter \<Rightarrow> _" and body fuel it acc r and Q :: "bytes list \<Rightarrow> bool"
  proof (induction fuel arbitrary: it acc)
    case (Suc fuel)
    then show ?case by (auto split: prod.splits option.splits simp: result_simps)
  qed simp
  have off: "length h = 20" if o: "offline_validators T s height self = Ok hs" and h: "h \<in> set hs" for height self hs h
  proof -
    obtain it where "for_each (map_iter_step (kt_last_signed T) (sk_last_signed_block self) s True)
       (\<lambda>x hashes. case ref_pair x of (hash, last_height) \<Rightarrow>
          and_then (word_add last_height (sk_max_offline_blocks self)) (\<lambda>limit.
          if limit < height
          then and_then (if length hash = 20 then Ok hash else Err (Error_Coins ''Invalid pub key hash length from Tendermint'')) (\<lambda>hash. Ok (hashes @ [hash]))
          else Ok hashes))
       (mt_fuel (kt_last_signed T)) it [] = Ok hs"
      using o unfolding offline_validators_def and_then_eq_Ok by blast
    then have "\<forall>h \<in> set hs. length h = 20"
    proof (rule f)
      fix x :: "bytes ref_to \<times> u64 ref_to" and acc acc' :: "bytes list"
      obtain hash last_height where x: "ref_pair x = (hash, last_height)" by (rule prod.exhaust)
      assume acc: "\<forall>h \<in> set acc. length h = 20" and "(case ref_pair x of (hash, last_height) \<Rightarrow>
          and_then (word_add last_height (sk_max_offline_blocks self)) (\<lambda>limit.
          if limit < height
          then and_then (if length hash = 20 then Ok hash else Err (Error_Coins ''Invalid pub key hash length from Tendermint'')) (\<lambda>hash. Ok (acc @ [hash]))
          else Ok acc)) = Ok acc'"
      then obtain limit where "(if limit < height
          then and_then (if length hash = 20 then Ok hash else Err (Error_Coins ''Invalid pub key hash length from Tendermint'')) (\<lambda>hash. Ok (acc @ [hash]))
          else Ok acc) = Ok acc'"
        unfolding x prod.case and_then_eq_Ok by blast
      then show "\<forall>h \<in> set acc'. length h = 20" using acc by (cases "limit < height"; cases "length hash = 20") auto
    qed simp
    then show ?thesis using h by blast
  qed
  have o: "op_keeps (kept s) (op_bind (staking_read (offline_validators T s height)) (\<lambda>hashes. op_each (punish_offline T s) hashes) :: (('d, 'z) staking_world, unit) op)" for height
    unfolding staking_read_def by (rule op_keeps_read_bind) (auto intro!: op_keeps_each offline_keeps dest: off)
  have v: "frames (record_signed T height vote)" for height vote unfolding record_signed_def by (intro frame_rules)
  show ?thesis
    unfolding staking_begin_block_def
    by (cases "bb_last_commit_info ctx")
      (simp_all, (intro op_keeps_bind op_keeps_each evidence_keeps o; (rule kept_frames, rule v | simp))+)
qed

text \<open>Every step keeps the index, whether it fails or not.\<close>

lemma step_keeps:
  assumes "step_ok aok x" and "kept s (self, cx)"
  shows "kept s (staking_step_run T s x self, cx)"
proof -
  have run: "kept s (fst (snd (f (self, cx'))), cx)" if "op_keeps (kept s) f" "signer_ok aok cx'" for f :: "(('d, 'z) staking_world, unit) op" and cx'
  proof -
    obtain r w' where w': "f (self, cx') = (r, w')" by (rule prod.exhaust)
    have "kept s w'" by (rule op_keepsD [OF that(1) _ w']) (use assms(2) that(2) in simp)
    then show ?thesis using w' assms(2) by simp
  qed
  show ?thesis
  proof (cases x)
    case (StakingCall cx' c)
    then show ?thesis using run [OF call_keeps [of cx' c]] assms(1) by (cases c) auto
  next
    case (StakingBegin cx' ctx)
    then show ?thesis using run [OF begin_block_keeps] assms(1) by simp
  next
    case (StakingEnd cx' ctx)
    then show ?thesis using run [OF end_block_keeps] assms(1) by simp
  next
    case (StakingGive cx' i c)
    then show ?thesis using run [OF kept_frames, of "staking_give T s i c" cx'] assms(1) by (simp add: staking_give_def frame_rules)
  qed
qed

end

end
