(* ===== verification/Staking_Memory.thy ===== *)
theory Staking_Memory
  imports Staking_Index
begin

text \<open>
  The index of the staking module on maps over the store in memory, and with it the properties of
  the module: every call and every block keeps the index by power, and a block that ends records
  exactly the validators with the greatest power.
\<close>

section \<open>The maps\<close>

text \<open>The library's encoding of a pair.\<close>

definition pair_codec :: "'a codec \<Rightarrow> 'b codec \<Rightarrow> ('a \<times> 'b) codec" where
  "pair_codec A B = \<lparr>
     enc = (\<lambda>(a, b). and_then (enc A a) (\<lambda>x. and_then (enc B b) (\<lambda>y. Ok (x @ y)))),
     dec = (\<lambda>bytes. and_then (dec A bytes) (\<lambda>(a, rest). and_then (dec B rest) (\<lambda>(b, rest'). Ok ((a, b), rest'))))\<rparr>"

lemma pair_codec_terminated:
  assumes "terminated_codec A oka" and "terminated_codec B okb"
  shows "terminated_codec (pair_codec A B) (\<lambda>x. oka (fst x) \<and> okb (snd x))"
proof
  fix x :: "'a \<times> 'b" and bs rest assume x: "oka (fst x) \<and> okb (snd x)"
  obtain p q where pq: "enc A (fst x) = Ok p" "enc B (snd x) = Ok q"
    using terminated_codec.enc_total assms x by metis
  then show "\<exists>bs. enc (pair_codec A B) x = Ok bs" by (cases x) (simp add: pair_codec_def)
  assume "enc (pair_codec A B) x = Ok bs"
  then have "bs = p @ q" using pq by (cases x) (simp add: pair_codec_def)
  moreover have "dec A (p @ q @ rest) = Ok (fst x, q @ rest)" "dec B (q @ rest) = Ok (snd x, rest)"
    using terminated_codec.dec_enc assms x pq by metis+
  ultimately show "dec (pair_codec A B) (bs @ rest) = Ok (x, rest)" by (simp add: pair_codec_def)
qed

definition mem_map :: "'k codec \<Rightarrow> (mapstore, 'v) state_ops \<Rightarrow> nat \<Rightarrow> (mapstore, 'k, 'v) map_types" where
  "mem_map K V fuel = \<lparr>mt_backing = mapstore_backing, mt_key = K, mt_value = V, mt_fuel = fuel\<rparr>"

lemma mem_map_simple:
  assumes "terminated_codec K okk" and "stored_state V okv"
  shows "simple_map (mem_map K V fuel) mapstore_ents mapstore_invar okk okv"
  using assms mapstore.lawful_backing_axioms by (intro simple_map.intro) (simp_all add: mem_map_def)

text \<open>An address that can be a key of the index; the one with all bytes 255 has no next key.\<close>

definition staking_address :: "address \<Rightarrow> bool" where
  "staking_address a \<longleftrightarrow> address_ok a \<and> address_bytes a \<noteq> replicate 20 255"

definition address_state :: "(byte \<Rightarrow> byte \<Rightarrow> string) \<Rightarrow> ('s, address) state_ops" where
  "address_state msg = derived_ops msg address_null (plain_input
     [struct_field ''bytes'' address_bytes (\<lambda>x _. Address x) address_null (array_state address_length (leaf_state word_codec))])"

interpretation address_state: simple_state "address_state msg :: ('s, address) state_ops" address_ok for msg
  unfolding address_state_def
proof (rule one_field_simple)
  show "simple_field address_ok (struct_field ''bytes'' address_bytes (\<lambda>x _. Address x) address_null
      (array_state address_length (leaf_state word_codec)) :: ('s, address) state_field)"
    by (rule struct_field_simple [OF simple_state.array_state_simple [OF leaf_state_simple [OF u8_codec.terminated_codec_axioms]]])
      (simp_all add: address_ok_def list_all_iff)
qed (simp_all add: struct_field_def)

text \<open>The types with the maps of the index in memory, and anything for the others.\<close>

definition index_fuel :: nat where
  "index_fuel = 2 * 256 ^ 28 + 2"

definition in_memory_index :: "(byte \<Rightarrow> byte \<Rightarrow> string) \<Rightarrow> (mapstore, 'd) staking_types \<Rightarrow> (mapstore, 'd) staking_types" where
  "in_memory_index msg K = K\<lparr>
     kt_by_power := mem_map (pair_codec word_codec (array_codec 20 word_codec)) (leaf_state unit_codec) index_fuel,
     kt_powers := mem_map address_codec (leaf_state word_codec) index_fuel,
     kt_tm_hash := mem_map (array_codec 20 word_codec) (address_state msg) index_fuel\<rparr>"

abbreviation mem_map_wf :: "(mapstore, 'k, 'v) map_types \<Rightarrow> ('k \<Rightarrow> bool) \<Rightarrow> ('v \<Rightarrow> bool) \<Rightarrow> ('k, 'v) omap \<Rightarrow> mapstore \<Rightarrow> bool" where
  "mem_map_wf D \<equiv> map_wf D mapstore_ents mapstore_invar"

abbreviation mem_map_look :: "(mapstore, 'k, 'v) map_types \<Rightarrow> ('k, 'v) omap \<Rightarrow> mapstore \<Rightarrow> 'k \<Rightarrow> 'v option" where
  "mem_map_look D \<equiv> map_look D mapstore_ents"

lemma terminated_weaken: "terminated_codec c ok \<Longrightarrow> (\<And>x. ok' x \<Longrightarrow> ok x) \<Longrightarrow> terminated_codec c ok'"
  by (simp add: terminated_codec_def)

lemma stored_weaken: "stored_state V ok \<Longrightarrow> (\<And>x. ok' x \<Longrightarrow> ok x) \<Longrightarrow> stored_state V ok'"
  by (simp add: stored_state_def)

lemma power_key_enc: "enc (pair_codec word_codec (array_codec n word_codec)) (i :: u64, b) = Ok (be_bytes 8 (unat i) @ b)"
proof -
  have "enc word_codec i = Ok (be_bytes 8 (unat i))" by (simp add: word_codec_def)
  then show ?thesis by (simp add: pair_codec_def array_codec_def enc_all_u8)
qed

lemma power_key_bytes: "key_bytes (pair_codec word_codec (array_codec n word_codec)) (i :: u64, b) = be_bytes 8 (unat i) @ b"
  by (simp add: key_bytes_def power_key_enc)

lemma card_addresses: "finite {a. staking_address a}" "card {a. staking_address a} \<le> 256 ^ 20"
proof -
  let ?K = "{b :: bytes. set b \<subseteq> UNIV \<and> length b = 20}"
  have f: "finite ?K" by (rule finite_lists_length_eq) simp
  have "a \<in> Address ` ?K" if "staking_address a" for a
    using that by (cases a) (auto simp: staking_address_def address_ok_def address_length_def)
  then have sub: "{a. staking_address a} \<subseteq> Address ` ?K" by blast
  show "finite {a. staking_address a}" by (rule finite_subset [OF sub finite_imageI [OF f]])
  have "card ?K = card (UNIV :: byte set) ^ 20" by (rule card_lists_length_eq) simp
  then show "card {a. staking_address a} \<le> 256 ^ 20"
    using card_mono [OF finite_imageI [OF f] sub] card_image_le [OF f, of Address] by (simp add: card_word)
qed

lemma card_power_keys:
  shows "finite {k :: u64 \<times> bytes. staking_address (Address (snd k))}" and "card {k :: u64 \<times> bytes. staking_address (Address (snd k))} \<le> 256 ^ 28"
proof -
  let ?f = "\<lambda>(i :: u64, a). (i, address_bytes a)"
  have "k \<in> ?f ` (UNIV \<times> {a. staking_address a})" if "staking_address (Address (snd k))" for k :: "u64 \<times> bytes"
    using that by (intro image_eqI [of _ _ "(fst k, Address (snd k))"]) auto
  then have sub: "{k. staking_address (Address (snd k))} \<subseteq> ?f ` (UNIV \<times> {a. staking_address a})" by blast
  have f: "finite ((UNIV :: u64 set) \<times> {a. staking_address a})" using card_addresses(1) by simp
  show "finite {k :: u64 \<times> bytes. staking_address (Address (snd k))}" by (rule finite_subset [OF sub finite_imageI [OF f]])
  have "card {k :: u64 \<times> bytes. staking_address (Address (snd k))} \<le> card ((UNIV :: u64 set) \<times> {a. staking_address a})"
    using card_mono [OF finite_imageI [OF f] sub] card_image_le [OF f, of ?f] by simp
  also have "\<dots> \<le> 256 ^ 8 * 256 ^ 20"
    unfolding card_cartesian_product using card_addresses(2) by (intro mult_le_mono) (simp_all add: card_word)
  finally show "card {k :: u64 \<times> bytes. staking_address (Address (snd k))} \<le> 256 ^ 28" by simp
qed

section \<open>The index in memory\<close>

abbreviation power_map :: "(mapstore, u64 \<times> bytes, unit) map_types" where
  "power_map \<equiv> mem_map (pair_codec word_codec (array_codec 20 word_codec)) (leaf_state unit_codec) index_fuel"

abbreviation recorded_map :: "(mapstore, address, u64) map_types" where
  "recorded_map \<equiv> mem_map address_codec (leaf_state word_codec) index_fuel"

abbreviation hash_map :: "(byte \<Rightarrow> byte \<Rightarrow> string) \<Rightarrow> (mapstore, bytes, address) map_types" where
  "hash_map msg \<equiv> mem_map (array_codec 20 word_codec) (address_state msg) index_fuel"

abbreviation "power_key_ok \<equiv> \<lambda>k :: u64 \<times> bytes. staking_address (Address (snd k))"

abbreviation "power_wf \<equiv> mem_map_wf power_map power_key_ok (\<lambda>_. True)"

abbreviation "recorded_wf \<equiv> mem_map_wf recorded_map staking_address (\<lambda>_. True)"

abbreviation "hash_wf msg \<equiv> mem_map_wf (hash_map msg) (\<lambda>h. length h = 20) staking_address"

lemma power_map_sorted: "sorted_map power_map (mem_map_look power_map) power_wf power_key_ok (\<lambda>_. True) vc"
proof (rule simple_map.simple_sorted)
  have len: "staking_address (Address b) \<Longrightarrow> length b = 20 \<and> b \<noteq> replicate 20 255" for b
    by (simp add: staking_address_def address_ok_def address_length_def)
  have "terminated_codec (pair_codec word_codec (array_codec 20 word_codec)) power_key_ok"
    by (rule terminated_weaken [OF pair_codec_terminated [OF u64_codec.terminated_codec_axioms bytes_codec.terminated_codec_axioms]]) (simp add: len)
  then show "simple_map power_map mapstore_ents mapstore_invar power_key_ok (\<lambda>_. True)"
    by (rule mem_map_simple [OF _ simple_state.stored_contract [OF leaf_state_simple [OF unit_codec.terminated_codec_axioms]]])
  show "finite {k. power_key_ok k}" by (rule card_power_keys)
  show "2 * card {k. power_key_ok k} + 1 < mt_fuel power_map" using card_power_keys(2) by (simp add: mem_map_def index_fuel_def)
  fix k :: "u64 \<times> bytes" assume k: "power_key_ok k"
  have "drop 8 (be_bytes 8 (unat (fst k)) @ snd k) \<noteq> drop 8 (replicate 28 255)" using len [OF k] by simp
  then have "be_bytes 8 (unat (fst k)) @ snd k \<noteq> replicate 28 255" by metis
  then show "length (key_bytes (mt_key power_map) k) = 28 \<and> key_bytes (mt_key power_map) k \<noteq> replicate 28 255"
    using len [OF k] by (cases k) (simp add: mem_map_def power_key_bytes)
qed simp

lemma recorded_map_iterable: "iterable_map recorded_map (mem_map_look recorded_map) recorded_wf staking_address (\<lambda>_. True) vc"
proof (rule simple_map.simple_iterable)
  have "terminated_codec address_codec staking_address"
    by (rule terminated_weaken [OF address_codec.terminated_codec_axioms]) (simp add: staking_address_def)
  then show "simple_map recorded_map mapstore_ents mapstore_invar staking_address (\<lambda>_. True)"
    by (rule mem_map_simple [OF _ simple_state.stored_contract [OF leaf_state_simple [OF u64_codec.terminated_codec_axioms]]])
  show "finite {a. staking_address a}" by (rule card_addresses)
  show "2 * card {a. staking_address a} + 1 < mt_fuel recorded_map" using card_addresses(2) by (simp add: mem_map_def index_fuel_def)
  fix a assume a: "staking_address a"
  have "(0 # address_bytes a) ! 0 \<noteq> replicate 21 (255 :: byte) ! 0" by simp
  then have "0 # address_bytes a \<noteq> replicate 21 (255 :: byte)" by metis
  then show "length (key_bytes (mt_key recorded_map) a) = 21 \<and> key_bytes (mt_key recorded_map) a \<noteq> replicate 21 255"
    using a by (simp add: mem_map_def key_bytes_def address_codec_enc staking_address_def address_ok_def address_length_def)
qed simp

lemma hash_map_access: "map_access (hash_map msg) (mem_map_look (hash_map msg)) (hash_wf msg) (\<lambda>h. length h = 20) staking_address"
proof (rule map_contract.access_contract, rule simple_map.simple_map_contract, rule mem_map_simple)
  show "terminated_codec (array_codec 20 (word_codec :: byte codec)) (\<lambda>h. length h = 20)" by (rule bytes_codec.terminated_codec_axioms)
  show "stored_state (address_state msg :: (mapstore, address) state_ops) staking_address"
    by (rule stored_weaken [OF address_state.stored_contract]) (simp add: staking_address_def)
qed

interpretation mem_index: power_index "in_memory_index msg K" "mem_map_look power_map" power_wf "mem_map_look recorded_map" recorded_wf
    staking_address "mem_map_look (hash_map msg)" "hash_wf msg" for msg K
proof (intro power_index.intro power_index_axioms.intro)
  show "sorted_map (kt_by_power (in_memory_index msg K)) (mem_map_look power_map) power_wf power_key_ok (\<lambda>_. True) (kt_bytes (in_memory_index msg K))"
    using power_map_sorted by (simp add: in_memory_index_def)
  show "iterable_map (kt_powers (in_memory_index msg K)) (mem_map_look recorded_map) recorded_wf staking_address (\<lambda>_. True) (kt_bytes (in_memory_index msg K))"
    using recorded_map_iterable by (simp add: in_memory_index_def)
  show "map_access (kt_tm_hash (in_memory_index msg K)) (mem_map_look (hash_map msg)) (hash_wf msg) (\<lambda>h. length h = 20) staking_address"
    using hash_map_access by (simp add: in_memory_index_def)
  show "key_bytes (mt_key (kt_by_power (in_memory_index msg K))) (i, b) = be_bytes 8 (unat i) @ b" for i b
    by (simp add: in_memory_index_def mem_map_def power_key_bytes)
qed

section \<open>Properties\<close>

text \<open>The invariant of the module: the index has an entry for a power and a validator if and only
  if it is the power recorded for the validator, and the maps are well-formed.\<close>

definition staking_inv :: "(byte \<Rightarrow> byte \<Rightarrow> string) \<Rightarrow> mapstore \<Rightarrow> 'd staking \<Rightarrow> bool" where
  "staking_inv msg s self \<longleftrightarrow> power_wf (sk_validators_by_power self) s \<and> recorded_wf (sk_last_indexed_power self) s
     \<and> recorded_wf (sk_last_validator_powers self) s \<and> hash_wf msg (sk_address_for_tm_hash self) s
     \<and> (\<forall>a p. staking_address a \<longrightarrow> (mem_map_look power_map (sk_validators_by_power self) s (- 1 - p, address_bytes a) = Some ())
          = (mem_map_look recorded_map (sk_last_indexed_power self) s a = Some p))"

lemma staking_inv_index:
  "staking_inv msg s self \<longleftrightarrow> index_ok (mem_map_look power_map) power_wf (mem_map_look recorded_map) recorded_wf staking_address s self
     \<and> recorded_wf (sk_last_validator_powers self) s \<and> hash_wf msg (sk_address_for_tm_hash self) s"
proof -
  have inverse: "- 1 - (- 1 - p) = p" for p :: u64 by (simp add: algebra_simps)
  have "(\<forall>a p. staking_address a \<longrightarrow> P (- 1 - p, address_bytes a) = R a p) \<longleftrightarrow> (\<forall>a i. staking_address a \<longrightarrow> P (i, address_bytes a) = R a (- 1 - i))"
    for P and R :: "address \<Rightarrow> u64 \<Rightarrow> bool"
    by (metis inverse)
  note swap = this [of "\<lambda>x. mem_map_look power_map (sk_validators_by_power self) s x = Some ()"
      "\<lambda>a p. mem_map_look recorded_map (sk_last_indexed_power self) s a = Some p"]
  show ?thesis unfolding staking_inv_def index_ok_def swap by blast
qed

text \<open>A module with one indexed validator.\<close>

abbreviation sample_validator :: address where
  "sample_validator \<equiv> Address (replicate 20 1)"

definition sample_index :: "(u64 \<times> bytes, unit) entry_map" where
  "sample_index = \<lparr>mp_store = [], mp_children = [(be_bytes 8 (unat (- 1 - 5 :: u64)) @ replicate 20 1, (- 1 - 5, replicate 20 1), Some ())]\<rparr>"

definition sample_powers :: "(address, u64) omap" where
  "sample_powers = \<lparr>mp_store = [], mp_children = [(0 # replicate 20 1, sample_validator, Some 5)]\<rparr>"

definition sample_staking :: "'d staking \<Rightarrow> 'd staking" where
  "sample_staking self = self\<lparr>sk_validators_by_power := sample_index, sk_last_indexed_power := sample_powers, sk_last_validator_powers := sample_powers,
     sk_address_for_tm_hash := map_new, sk_max_validators := 1, sk_validator_queue := map_new,
     sk_unbonding_delegation_queue := deque_new, sk_redelegation_queue := deque_new\<rparr>"

lemma sample_validator_ok: "staking_address sample_validator"
proof -
  have "(replicate 20 (1 :: byte)) ! 0 \<noteq> replicate 20 255 ! 0" by simp
  then have "replicate 20 (1 :: byte) \<noteq> replicate 20 255" by metis
  then show ?thesis by (simp add: staking_address_def address_ok_def address_length_def)
qed

lemma sample_powers_look: "mem_map_look recorded_map sample_powers mapstore_new a = (if a = sample_validator then Some 5 else None)"
  by (cases a) (auto simp: sample_powers_def map_look_def byte_look_def store_look_def sub_ents_def buf_ents_def mapstore_new_def mem_map_def
      key_bytes_def address_codec_enc)

lemma one_power_look:
  "mem_map_look power_map \<lparr>mp_store = [], mp_children = [(be_bytes 8 (unat j) @ c, (j, c), Some ())]\<rparr> mapstore_new (i, b)
    = (if (i, b) = (j, c) then Some () else None)"
proof -
  have "unat k < 256 ^ 8" for k :: u64 using unsigned_less [of k] by simp
  then have "of_be_bytes (be_bytes 8 (unat k)) = unat k" for k :: u64 by (rule of_be_bytes_be_bytes)
  then have "be_bytes 8 (unat i) = be_bytes 8 (unat j) \<longleftrightarrow> i = j" by (metis unsigned_word_eqI)
  then show ?thesis
    by (simp add: map_look_def byte_look_def store_look_def sub_ents_def buf_ents_def mapstore_new_def mem_map_def power_key_bytes)
qed

lemmas sample_index_look = one_power_look [of "- 1 - 5" "replicate 20 1", folded sample_index_def]

lemma sample_staking_inv: "staking_inv msg mapstore_new (sample_staking self)"
proof -
  have "power_wf sample_index mapstore_new" "recorded_wf sample_powers mapstore_new"
    using sample_validator_ok
    by (simp_all add: map_wf_def sample_index_def sample_powers_def mapstore_new_def buf_invar_def children_wf_def store_wf_def buf_ents_def sub_ents_def
        mem_map_def address_codec_enc power_key_enc)
  moreover have "(mem_map_look power_map sample_index mapstore_new (- 1 - p, address_bytes a) = Some ())
      = (mem_map_look recorded_map sample_powers mapstore_new a = Some p)" if "staking_address a" for a p
    unfolding sample_index_look sample_powers_look
    by (cases a) (auto simp: algebra_simps)
  ultimately show ?thesis by (simp add: staking_inv_def sample_staking_def mem_new_wf)
qed

text \<open>
  (C11) Any sequence of calls to the staking module, beginnings and ends of blocks and rewards,
  with well-formed addresses and whether the steps succeed or fail, keeps the index of the
  validators: it has an entry for a power and a validator exactly if this is the power last
  recorded for the validator.
\<close>

theorem staking_steps_keep_index:
  assumes "staking_inv msg s self" and "list_all (step_ok staking_address) steps"
  shows "staking_inv msg s (fold (staking_step_run (in_memory_index msg K) s) steps self)"
  using assms
proof (induction steps arbitrary: self)
  case (Cons x steps)
  have "staking_inv msg s (staking_step_run (in_memory_index msg K) s x self)"
    using mem_index.step_keeps [where cx = "undefined\<lparr>cx_signer := None\<rparr>" and msg = msg and K = K and s = s and self = self and x = x] Cons.prems by (simp add: staking_inv_index signer_ok_def)
  then show ?case using Cons.IH Cons.prems(2) by simp
qed simp

theorem staking_steps_keep_index_witness:
  "\<forall>msg K self (cx :: abci_contexts) ctx. staking_inv msg mapstore_new (fold (staking_step_run (in_memory_index msg K) mapstore_new)
     [StakingEnd (cx\<lparr>cx_signer := None\<rparr>) ctx,
      StakingCall (cx\<lparr>cx_signer := Some (Signer (Some sample_validator))\<rparr>) (DelegateFromSelf sample_validator (Amount 5))] (sample_staking self))"
proof (intro allI)
  fix msg K self ctx and cx :: abci_contexts
  show "staking_inv msg mapstore_new (fold (staking_step_run (in_memory_index msg K) mapstore_new)
     [StakingEnd (cx\<lparr>cx_signer := None\<rparr>) ctx,
      StakingCall (cx\<lparr>cx_signer := Some (Signer (Some sample_validator))\<rparr>) (DelegateFromSelf sample_validator (Amount 5))] (sample_staking self))"
    by (rule staking_steps_keep_index [OF sample_staking_inv]) (simp add: signer_ok_def sample_validator_ok)
qed

text \<open>
  (C12) A block that ends without an error records, as the powers of the validators, exactly those
  with the greatest positive powers among the indexed ones: as many as \<^verbatim>\<open>max_validators\<close> allows
  (any number, if it is zero), none of them twice, and no validator that is left out has more
  power than one that is in.
\<close>

theorem end_block_records_top_validators:
  assumes "staking_inv msg s self" and "signer_ok staking_address cx"
    and "end_block_step (in_memory_index msg K) s ctx (self, cx) = (Ok (), (self', cx'))"
    and "card {a. staking_address a \<and> mem_map_look recorded_map (sk_last_indexed_power self) s a \<noteq> None} < 2 ^ 64"
  shows "\<exists>es. top_set staking_address (mem_map_look recorded_map (sk_last_indexed_power self) s) (sk_max_validators self) es
    \<and> (\<forall>a. staking_address a \<longrightarrow> mem_map_look recorded_map (sk_last_validator_powers self') s a = map_of es a)"
  using mem_index.end_block_law [OF _ assms(3)] assms(1,2,4) card_addresses(1) by (simp add: staking_inv_index)

text \<open>The queues of the sample are empty, and its powers are those of the block before.\<close>

definition sample_types :: "(mapstore, 'd) staking_types \<Rightarrow> (mapstore, 'd) staking_types" where
  "sample_types K = K\<lparr>kt_queue := mem_map \<lparr>enc = (\<lambda>_. Ok []), dec = (\<lambda>_. Panic)\<rparr> (leaf_state unit_codec) 1,
     kt_unbonding_queue := mem_map word_codec (leaf_state \<lparr>enc = (\<lambda>_. Ok []), dec = (\<lambda>_. Panic)\<rparr>) 1,
     kt_redelegation_queue := mem_map word_codec (leaf_state \<lparr>enc = (\<lambda>_. Ok []), dec = (\<lambda>_. Panic)\<rparr>) 1\<rparr>"

lemma no_entries:
  "\<exists>it it'. entry_map_iter (mem_map C V fuel) vc map_new = Ok it \<and> entry_map_next (mem_map C V fuel) E map_new mapstore_new it = (None, it')"
proof -
  have "sni_peek (store_reader (bk_read mapstore_backing mapstore_new) []) \<lparr>sn_next_key = Unbounded, sn_end_key = Unbounded\<rparr> = None"
    by code_simp
  then show ?thesis
    by (auto simp: entry_map_iter_def entry_map_next_def map_iter_all_def map_range_def map_bound_def store_next_iter_new_def bt_range_def map_new_def
      map_iter_step_def mem_map_def)
qed

lemma no_front: "deque_front (mem_map word_codec V fuel) deque_new mapstore_new = Ok None"
proof -
  have s: "simple_map (mem_map (word_codec :: u64 codec) V fuel) mapstore_ents mapstore_invar (\<lambda>_. True) (\<lambda>_. False)"
    by (rule mem_map_simple [OF u64_codec.terminated_codec_axioms]) (simp add: stored_state_def)
  show ?thesis
    using map_contract.get_law [OF simple_map.simple_map_contract [OF s] mem_new_wf, of deque_midpoint]
    by (simp add: deque_front_def deque_new_def mem_new_look)
qed

lemma sample_queues:
  assumes "cx_time cx = Some now"
  shows "process_all_queues (in_memory_index msg (sample_types K)) mapstore_new (sample_staking self, cx) = (Ok (), (sample_staking self, cx))"
proof -
  let ?T = "in_memory_index msg (sample_types K)"
  have q: "kt_queue ?T = mem_map \<lparr>enc = (\<lambda>_. Ok []), dec = (\<lambda>_. Panic)\<rparr> (leaf_state unit_codec) 1" by (simp add: in_memory_index_def sample_types_def)
  obtain it it' where "entry_map_iter (kt_queue ?T) (kt_bytes ?T) map_new = Ok it" "entry_map_next (kt_queue ?T) queue_entry_ops map_new mapstore_new it = (None, it')"
    unfolding q using no_entries by blast
  moreover have "mt_fuel (kt_queue ?T) = Suc 0" by (simp add: q mem_map_def)
  ultimately have "process_validator_queue ?T mapstore_new (sample_staking self, cx) = (Ok (), (sample_staking self, cx))"
    using assms by (simp add: process_validator_queue_def staking_seconds_def staking_read_def staking_current_seconds_def context_resolve_def
        op_bind_def op_read_def sample_staking_def)
  then show ?thesis
    using assms by (simp add: process_all_queues_def process_unbonding_delegation_queue_def process_redelegation_queue_def staking_seconds_def staking_read_def
        staking_current_seconds_def context_resolve_def op_bind_def op_read_def sample_staking_def in_memory_index_def sample_types_def no_front queue_fuel_def)
qed

lemma sample_top_set:
  assumes "top_set staking_address (mem_map_look recorded_map sample_powers mapstore_new) 1 es"
  shows "es = [(sample_validator, 5)]"
proof -
  have d: "distinct (map fst es)" and sub: "\<And>x. x \<in> set es \<Longrightarrow> x = (sample_validator, 5)" and ne: "es \<noteq> []"
    using assms sample_validator_ok by (auto simp: top_set_def sample_powers_look split: if_splits)
  from ne obtain x xs where es: "es = x # xs" by (cases es) auto
  have "y = x" if "y \<in> set xs" for y using that sub [of y] sub [of x] es by simp
  then have "xs = []" using d es by (cases xs) auto
  then show ?thesis using es sub by simp
qed

lemma sample_end_block:
  assumes "cx_time cx = Some now" and "cx_validators cx = Some ups"
  shows "end_block_step (in_memory_index msg (sample_types K)) mapstore_new ctx (sample_staking self, cx) = (Ok (), (sample_staking self, cx))"
proof -
  let ?T = "in_memory_index msg (sample_types K)" and ?self = "sample_staking self"
  have f: "sk_last_indexed_power ?self = sample_powers" "sk_last_validator_powers ?self = sample_powers" "sk_max_validators ?self = 1"
    by (simp_all add: sample_staking_def)
  have "{a. staking_address a \<and> mem_map_look recorded_map sample_powers mapstore_new a \<noteq> None} = {sample_validator}"
    using sample_validator_ok by (auto simp: sample_powers_look)
  then obtain es where "new_validators ?T mapstore_new ?self = Ok es" "top_set staking_address (mem_map_look recorded_map sample_powers mapstore_new) 1 es"
    using mem_index.new_validators_law [of mapstore_new ?self msg "sample_types K"] sample_staking_inv [of msg self] card_addresses(1)
    unfolding staking_inv_index f by auto
  then have new: "new_validators ?T mapstore_new ?self = Ok [(sample_validator, 5)]" using sample_top_set by simp
  have wf: "recorded_wf (sk_last_validator_powers ?self) mapstore_new" using sample_staking_inv [of msg self] by (simp add: staking_inv_def)
  have changed: "changed_powers ?T mapstore_new ?self [(sample_validator, 5)] = Ok []"
    using mem_index.changed_law [OF wf, of "[(sample_validator, 5)]"] sample_validator_ok by (simp add: f sample_powers_look)
  obtain as where as: "dropped_validators ?T mapstore_new ?self [(sample_validator, 5)] = Ok (map (\<lambda>a. (a, 0)) as)"
      "set as = {a. staking_address a \<and> mem_map_look recorded_map (sk_last_validator_powers ?self) mapstore_new a \<noteq> None \<and> a \<notin> fst ` set [(sample_validator, 5 :: u64)]}"
    using mem_index.dropped_law [OF wf, of msg "sample_types K" "[(sample_validator, 5)]"] by blast
  have "as = []" using as(2) unfolding f sample_powers_look by (simp split: if_splits)
  then have dropped: "dropped_validators ?T mapstore_new ?self [(sample_validator, 5)] = Ok []" using as(1) by simp
  show ?thesis
    using new changed dropped sample_queues [OF assms(1), of msg K self] assms(2)
    by (simp add: end_block_step_def op_bind_def staking_read_def op_read_def staking_validators_ctx_def on_validators_def context_resolve_def on_field_def on_staking_def)
qed

theorem end_block_records_top_validators_witness:
  "\<forall>msg K self (cx :: abci_contexts) ctx. \<exists>es.
     end_block_step (in_memory_index msg (sample_types K)) mapstore_new ctx
       (sample_staking self, cx\<lparr>cx_signer := None, cx_time := Some (time_from_seconds 7), cx_validators := Some []\<rparr>)
     = (Ok (), (sample_staking self, cx\<lparr>cx_signer := None, cx_time := Some (time_from_seconds 7), cx_validators := Some []\<rparr>))
     \<and> top_set staking_address (mem_map_look recorded_map sample_powers mapstore_new) 1 es
     \<and> (\<forall>a. staking_address a \<longrightarrow> mem_map_look recorded_map sample_powers mapstore_new a = map_of es a)"
proof (intro allI)
  fix msg K self ctx and cx :: abci_contexts
  let ?cx = "cx\<lparr>cx_signer := None, cx_time := Some (time_from_seconds 7), cx_validators := Some []\<rparr>"
  have run: "end_block_step (in_memory_index msg (sample_types K)) mapstore_new ctx (sample_staking self, ?cx) = (Ok (), (sample_staking self, ?cx))"
    by (rule sample_end_block) simp_all
  have "{a. staking_address a \<and> mem_map_look recorded_map sample_powers mapstore_new a \<noteq> None} = {sample_validator}"
    using sample_validator_ok by (auto simp: sample_powers_look)
  then have c: "card {a. staking_address a \<and> mem_map_look recorded_map (sk_last_indexed_power (sample_staking self)) mapstore_new a \<noteq> None} < 2 ^ 64"
    by (simp add: sample_staking_def)
  have f: "sk_last_indexed_power (sample_staking self) = sample_powers" "sk_last_validator_powers (sample_staking self) = sample_powers"
      "sk_max_validators (sample_staking self) = 1"
    by (simp_all add: sample_staking_def)
  show "\<exists>es. end_block_step (in_memory_index msg (sample_types K)) mapstore_new ctx (sample_staking self, ?cx) = (Ok (), (sample_staking self, ?cx))
     \<and> top_set staking_address (mem_map_look recorded_map sample_powers mapstore_new) 1 es
     \<and> (\<forall>a. staking_address a \<longrightarrow> mem_map_look recorded_map sample_powers mapstore_new a = map_of es a)"
    using end_block_records_top_validators [OF sample_staking_inv _ run c] run unfolding f by (simp add: signer_ok_def)
qed

end
