(* ===== verification/Spec2Isabelle.thy ===== *)
theory Spec2Isabelle
  imports Partial_Store Deque_Coll Map_Iter Plugin_Stack Abci_Plugin Upgrade_Mod Faucet Staking_Memory
begin

text \<open>
  A verification development of the \<^verbatim>\<open>orga\<close> state machine framework.

  \<^bold>\<open>The program.\<close>  Orga is a stack for replicated state machines on Tendermint.  At the bottom are
  key/value stores (\<^verbatim>\<open>src/store\<close>, \<^verbatim>\<open>src/merk\<close>); the state of an app is a tree of values that are
  attached to prefixed parts of one store, loaded from bytes and flushed to bytes (\<^verbatim>\<open>src/state\<close>,
  \<^verbatim>\<open>src/encoding\<close>, the derive macros of \<^verbatim>\<open>macros/src\<close>, \<^verbatim>\<open>src/collections\<close>); coins and accounts
  (\<^verbatim>\<open>src/coins\<close>) are built from these; plugins (\<^verbatim>\<open>src/plugins\<close>) around an app check signatures,
  chain id, nonces, payments and fees; and the ABCI server and node (\<^verbatim>\<open>src/abci\<close>) run the app block
  by block on buffers over the store.

  \<^bold>\<open>The model.\<close>  Outcomes are \<open>Ok\<close>, \<open>Err\<close> or \<open>Panic\<close> (\<open>result\<close>); a method on \<^verbatim>\<open>&mut self\<close> is an operation
  \<open>('s, 'a) op\<close>, from a state to an outcome and a state, in which every early return and panic is
  a branch (\<open>Orga_Prelude\<close>).  Machine integers are words with the checks of the source;
  overflow of unchecked arithmetic is a panic.  A trait is a record of its methods, and the laws
  that its users rely on are a locale, interpreted on the definitions of the source.

  \<^descr> \<open>Orga_Prelude\<close>, \<open>BTree_Map\<close>: outcomes and operations, the error type (\<^verbatim>\<open>error.rs\<close>), checked
    arithmetic, lexicographic order, sorted association lists (the standard library's BTreeMap).
  \<^descr> \<open>Store_Read\<close>: the traits \<^verbatim>\<open>Read\<close> and \<^verbatim>\<open>Write\<close> with their provided methods, iterators and null
    stores (\<^verbatim>\<open>store/mod.rs\<close>, \<^verbatim>\<open>iter.rs\<close>, \<^verbatim>\<open>null.rs\<close>).  The locales \<open>lawful_reader\<close> and \<open>lawful_backing\<close>
    say that a store reads and writes like a sorted list of entries.
  \<^descr> \<open>Buf_Store\<close>, \<open>Prefix_Store\<close>, \<open>Partial_Store\<close>: \<^verbatim>\<open>BufStore\<close> and \<^verbatim>\<open>MapStore\<close>, \<^verbatim>\<open>Store\<close> (the prefixed
    handle) and \<^verbatim>\<open>ReadLog\<close>, \<^verbatim>\<open>PartialMapStore\<close>.  A buffer and a prefix of a lawful store are lawful
    stores; flushing writes through; stores of unrelated prefixes do not interfere; partial
    stores answer as the full one or not at all.
  \<^descr> \<open>Codec\<close>, \<open>State_Traits\<close>, \<open>Derive\<close>: encodings, the \<^verbatim>\<open>State\<close> trait with its implementations for
    standard types, and what the derive macros for \<^verbatim>\<open>State\<close> and encodings generate.  What a type
    flushes it loads again; derived types inherit this from their fields, converted ones included.
  \<^descr> \<open>Map_Coll\<close>, \<open>Map_Iter\<close>, \<open>Map_Entries\<close>, \<open>Map_Iterable\<close>, \<open>Deque_Coll\<close>, \<open>Entry_Map\<close>: the collections.  They refine
    finite maps, lists and sets; a flushed map loads to the same map.  Iterating over a map ends
    with all its entries, but never ends if a key of bytes 255 is stored.
  \<^descr> \<open>Amounts\<close>, \<open>Coin_State\<close>, \<open>Accounts\<close>, \<open>Faucet\<close>: checked arithmetic, coins and shares, addresses,
    accounts and scheduled issuance.  Calls conserve the supply up to the fee; a faucet issues
    exactly its total.
  \<^descr> \<open>Payable\<close>, \<open>Nonce_Plugin\<close>, \<open>Signer_Plugin\<close>, \<open>Sdk_Compat\<close>, \<open>Plugin_Stack\<close>: contexts and the plugins, one
    by one and composed.  Balances go down only by calls that carry a signature of their owner
    for this chain, and with a fresh nonce; Protobuf transactions of the SDK can be replayed.
  \<^descr> \<open>Merk_Store\<close>, \<open>Abci_Server\<close>, \<open>Abci_Node\<close>: the Merk store with its snapshots and proofs, the state
    machine of ABCI requests, and the node's handlers.  Block handlers accumulate in the
    consensus buffer until the commit, which empties it and that of the mempool; checks of
    transactions never reach the block; a handler that fails takes the store and the
    application with it.  A commit writes the tree and keeps the snapshots that are wanted.
  \<^descr> \<open>Validator_Set\<close>, \<open>Abci_Plugin\<close>, \<open>Upgrade_Mod\<close>: the validator set in its shared cells, the outermost
    plugin (\<^verbatim>\<open>plugins/abci.rs\<close>) that runs the requests of the node, and the coordination of upgrades
    (\<^verbatim>\<open>upgrade/mod.rs\<close>).  The validator set follows the updates that handlers make; updates made by
    transactions are not reported; the network version changes exactly by a quorum.
  \<^descr> \<open>Multi_Share\<close>, \<open>Denom_Maps\<close>, \<open>Pool\<close>: shares in many denominations (\<^verbatim>\<open>multishare.rs\<close>), a decimal
    library of fixed-point words on which their contract is interpreted, and pools (\<^verbatim>\<open>pool.rs\<close>), whose
    children account for changes of their balance when they are dropped.
  \<^descr> \<open>Delegator\<close>, \<open>Staking_Validator\<close>, \<open>Staking\<close>, \<open>Staking_Block\<close>, \<open>Staking_Index\<close>, \<open>Staking_Memory\<close>: the
    staking module (\<^verbatim>\<open>coins/staking\<close>), a pool of validators with a pool of delegators each, its calls,
    queries and queues, and the beginning and the end of a block.  All steps keep the index of
    the validators by power; the end of a block records the validators of greatest power.

  \<^bold>\<open>Loops.\<close>  Loops over data are structural recursions.  Loops that the source runs until a store
  has no next entry (iterators, \<^verbatim>\<open>remove_range\<close>, removal of the entries below a key) take fuel.
  Loops that are methods of their own return \<open>None\<close> when the fuel is used up; where such a loop is
  part of a method on a map (\<open>mt_fuel\<close>) the method then has the outcome \<open>Panic\<close>.  The properties state
  an amount of fuel, one more than the number of entries, that suffices.

  \<^bold>\<open>Parameters.\<close>  Code outside the repository is an argument: Merk and RocksDB (\<open>merk_lib\<close>), decimals
  (\<open>num_decimal\<close>), hashes and signatures (\<open>crypto\<close>,
  \<open>kt_sha256\<close>), JSON, Protobuf and base64 (\<open>sdk_lib\<close>), the texts
  of formatted messages.

  \<^bold>\<open>Not modelled.\<close>  Files, sockets, processes and threads (\<^verbatim>\<open>src/tendermint\<close>, most of
  \<^verbatim>\<open>abci/node.rs\<close>, the server's workers); clients and traces (\<^verbatim>\<open>src/client\<close>, \<^verbatim>\<open>macros/src/client.rs\<close>);
  descriptions for inspection (\<^verbatim>\<open>src/describe\<close>) and migrations (\<^verbatim>\<open>src/migrate\<close>); the dispatch of calls
  and queries that macros generate (\<^verbatim>\<open>src/call\<close>, \<^verbatim>\<open>src/query\<close>); IBC (\<^verbatim>\<open>src/ibc\<close>), which wraps the
  ibc-rs library.
\<close>

end
